(* ===== verification/Prelude.thy ===== *)
theory Prelude
  imports Main "HOL-Library.Word" "HOL-Library.AList" "HOL-Library.Monad_Syntax" "HOL-Library.Signed_Division"
begin

text \<open>
  Shared vocabulary of the development: the parts of the Rust language and of its standard
  library that the modelled crates use, and the lemmas on them that the component theories
  share.

  \<^item> \<open>duration\<close> is \<^verbatim>\<open>std::time::Duration\<close> as its number of nanoseconds; \<open>Instant\<close>s of the
    consensus clock are nanoseconds since an arbitrary origin.
  \<^item> \<open>btree\<close> is \<^verbatim>\<open>BTreeMap\<close>: an association list in strictly increasing key order, so that
    iteration is the list itself.
  \<^item> \<open>hashm\<close> is \<^verbatim>\<open>HashMap\<close>: an association list with distinct keys. Rust leaves the iteration
    order open; the order of the list stands for it, and no lemma assumes anything about it.
  \<^item> the locale \<open>finite_map\<close> is the contract both containers offer to their clients; the
    counting lemmas that the vote bookkeeping needs are proved once inside it.
  \<^item> a panic (\<^verbatim>\<open>expect\<close>, an out-of-range conversion) is the value \<^term>\<open>None\<close> of an option.
\<close>

section \<open>Collections of rewrite rules\<close>

named_theorems model_defs
  \<open>definitions of the model that proofs unfold\<close>

named_theorems map_rules
  \<open>what a container holds after an update\<close>

section \<open>Durations and casts\<close>

type_synonym duration = nat

definition from_secs :: "nat \<Rightarrow> duration" where
  "from_secs s = s * 1000000000"

definition from_millis :: "nat \<Rightarrow> duration" where
  "from_millis ms = ms * 1000000"

definition as_secs :: "duration \<Rightarrow> nat" where
  "as_secs d = d div 1000000000"

definition as_millis :: "duration \<Rightarrow> nat" where
  "as_millis d = d div 1000000"

text \<open>The largest duration: \<^verbatim>\<open>u64::MAX\<close> seconds and 999,999,999 nanoseconds.\<close>

definition duration_max :: duration where
  "duration_max = (2 ^ 64 - 1) * 1000000000 + 999999999"

definition saturating_mul :: "duration \<Rightarrow> nat \<Rightarrow> duration" where
  "saturating_mul d k = min (d * k) duration_max"

text \<open>\<^verbatim>\<open>x.clamp(lo, hi)\<close> for \<open>lo \<le> hi\<close>.\<close>

definition clamp :: "nat \<Rightarrow> nat \<Rightarrow> nat \<Rightarrow> nat" where
  "clamp lo hi x = (if x < lo then lo else if hi < x then hi else x)"

lemma as_secs_from_secs [simp]: "as_secs (from_secs s) = s"
  by (simp add: as_secs_def from_secs_def)

lemma as_millis_from_millis [simp]: "as_millis (from_millis s) = s"
  by (simp add: as_millis_def from_millis_def)

lemma from_secs_mono [simp]: "from_secs a \<le> from_secs b \<longleftrightarrow> a \<le> b"
  by (simp add: from_secs_def)

lemma clamp_bounds: "lo \<le> hi \<Longrightarrow> lo \<le> clamp lo hi x \<and> clamp lo hi x \<le> hi"
  by (simp add: clamp_def)

text \<open>
  \<^verbatim>\<open>x as i32\<close> on a wider signed integer keeps the low 32 bits; \<^verbatim>\<open>i32::try_from\<close> fails
  outside the range; integer division of signed values rounds towards zero.
\<close>

definition as_i32 :: "int \<Rightarrow> int" where
  "as_i32 x = signed_take_bit 31 x"

definition try_i32 :: "nat \<Rightarrow> int option" where
  "try_i32 n = (if n < 2 ^ 31 then Some (int n) else None)"

definition trunc_div :: "int \<Rightarrow> int \<Rightarrow> int" where
  "trunc_div a b = a sdiv b"

lemma as_i32_id: "- (2 ^ 31) \<le> x \<Longrightarrow> x < 2 ^ 31 \<Longrightarrow> as_i32 x = x"
  by (simp add: as_i32_def signed_take_bit_int_eq_self)

lemma trunc_div_nonneg [simp]: "0 \<le> a \<Longrightarrow> 0 < b \<Longrightarrow> trunc_div a b = a div b"
  by (cases "a = 0") (simp_all add: trunc_div_def signed_divide_int_def)

definition bool_int :: "bool \<Rightarrow> int" where
  "bool_int b = (if b then 1 else 0)"

lemma bool_int_range [simp]: "0 \<le> bool_int b" "bool_int b \<le> 1"
  by (simp_all add: bool_int_def)

lemma percent_gt:
  fixes y t p :: int
  assumes "0 < t" "p < y * 100 div t"
  shows "p * t < 100 * y"
proof -
  have "(p + 1) * t \<le> (y * 100 div t) * t" using assms by (intro mult_right_mono) simp_all
  also have "\<dots> \<le> y * 100" using assms(1) by (simp flip: minus_mod_eq_div_mult)
  finally show ?thesis using assms(1) by (simp add: algebra_simps)
qed

lemma percent_lt:
  fixes y t p :: int
  assumes "0 < t" "y * 100 div t < p"
  shows "100 * y < p * t"
proof (rule ccontr)
  assume "\<not> 100 * y < p * t"
  then have "p * t div t \<le> y * 100 div t" using assms(1) by (intro zdiv_mono1) simp_all
  then show False using assms by simp
qed

lemma Some_bool_iff [simp]:
  "(\<exists>v. x = Some v \<and> v) \<longleftrightarrow> x = Some True"
  "(\<exists>v. x = Some v \<and> \<not> v) \<longleftrightarrow> x = Some False"
  by auto

section \<open>The contract of a finite map\<close>

locale finite_map =
  fixes invar :: "'m \<Rightarrow> bool"
    and get :: "'m \<Rightarrow> 'k \<Rightarrow> 'v option"
    and put :: "'k \<Rightarrow> 'v \<Rightarrow> 'm \<Rightarrow> 'm"
    and del :: "'k \<Rightarrow> 'm \<Rightarrow> 'm"
    and entries :: "'m \<Rightarrow> ('k \<times> 'v) list"
  assumes invar_put: "invar m \<Longrightarrow> invar (put k v m)"
    and invar_del: "invar m \<Longrightarrow> invar (del k m)"
    and get_put: "invar m \<Longrightarrow> get (put k v m) = (get m)(k \<mapsto> v)"
    and get_del: "invar m \<Longrightarrow> get (del k m) = (get m)(k := None)"
    and get_entries: "invar m \<Longrightarrow> get m = map_of (entries m)"
    and distinct_entries: "invar m \<Longrightarrow> distinct (map fst (entries m))"
begin

text \<open>How many entries hold a value that satisfies a predicate.\<close>

definition tally :: "('v \<Rightarrow> bool) \<Rightarrow> 'm \<Rightarrow> nat" where
  "tally P m = length (filter (\<lambda>(k, v). P v) (entries m))"

lemma dom_finite: "invar m \<Longrightarrow> finite (dom (get m))"
  by (simp add: get_entries finite_dom_map_of)

lemma tally_card:
  assumes "invar m"
  shows "tally P m = card {k. \<exists>v. get m k = Some v \<and> P v}"
proof -
  let ?xs = "filter (\<lambda>(k, v). P v) (entries m)"
  have d: "distinct (map fst (entries m))"
    using assms by (rule distinct_entries)
  then have "distinct (map fst ?xs)"
    by (simp add: distinct_map_filter)
  then have "card (fst ` set ?xs) = length ?xs"
    using distinct_card [of "map fst ?xs"] by simp
  moreover have "fst ` set ?xs = {k. \<exists>v. get m k = Some v \<and> P v}"
    using d by (force simp: get_entries [OF assms])
  ultimately show ?thesis by (simp add: tally_def)
qed

lemma tally_put_new:
  assumes "invar m" "get m k = None"
  shows "tally P (put k v m) = tally P m + (if P v then 1 else 0)"
proof -
  let ?S = "{j. \<exists>w. get m j = Some w \<and> P w}"
  have fin: "finite ?S"
    using dom_finite [OF assms(1)] by (rule rev_finite_subset) auto
  have "{j. \<exists>w. get (put k v m) j = Some w \<and> P w} = (if P v then insert k ?S else ?S)"
    using assms by (auto simp: get_put)
  then show ?thesis
    using fin assms by (simp add: tally_card invar_put)
qed

lemma tally_del:
  assumes "invar m" "get m k = Some v"
  shows "tally P m = tally P (del k m) + (if P v then 1 else 0)"
proof -
  let ?S = "{j. \<exists>w. get (del k m) j = Some w \<and> P w}"
  have fin: "finite ?S"
    using dom_finite [OF invar_del [OF assms(1)]] by (rule rev_finite_subset) auto
  have notin: "k \<notin> ?S" using assms by (simp add: get_del)
  have "{j. \<exists>w. get m j = Some w \<and> P w} = (if P v then insert k ?S else ?S)"
    using assms by (auto simp: get_del split: if_splits)
  then show ?thesis
    using fin notin assms by (simp add: tally_card invar_del)
qed

lemma tally_put_old:
  assumes "invar m" "get m k = Some w"
  shows "tally P (put k v m) + (if P w then 1 else 0) = tally P m + (if P v then 1 else 0)"
proof -
  have "tally P (put k v m) = tally P (put k v (del k m))"
    using assms(1) by (simp add: tally_card invar_put invar_del get_put get_del)
  also have "\<dots> = tally P (del k m) + (if P v then 1 else 0)"
    using assms(1) by (intro tally_put_new) (simp_all add: invar_del get_del)
  finally show ?thesis using tally_del [OF assms, of P] by simp
qed

lemma tally_compl:
  assumes "invar m"
  shows "tally P m + tally (\<lambda>v. \<not> P v) m = card (dom (get m))"
proof -
  let ?A = "{k. \<exists>v. get m k = Some v \<and> P v}" and ?B = "{k. \<exists>v. get m k = Some v \<and> \<not> P v}"
  have "?A \<union> ?B = dom (get m)" "?A \<inter> ?B = {}" by auto
  moreover have "finite ?A" "finite ?B"
    using dom_finite [OF assms] by (auto intro: rev_finite_subset)
  ultimately show ?thesis
    using assms card_Un_disjoint [of ?A ?B] by (simp add: tally_card)
qed

end

section \<open>BTreeMap: association lists in key order\<close>

type_synonym ('k, 'v) btree = "('k \<times> 'v) list"

definition btree_wf :: "('k::linorder, 'v) btree \<Rightarrow> bool" where
  "btree_wf m \<longleftrightarrow> sorted_wrt (<) (map fst m)"

fun btree_insert :: "'k::linorder \<Rightarrow> 'v \<Rightarrow> ('k, 'v) btree \<Rightarrow> ('k, 'v) btree" where
  "btree_insert k v [] = [(k, v)]"
| "btree_insert k v ((k', v') # m) =
     (if k < k' then (k, v) # (k', v') # m
      else if k = k' then (k, v) # m
      else (k', v') # btree_insert k v m)"

definition btree_remove :: "'k \<Rightarrow> ('k, 'v) btree \<Rightarrow> ('k, 'v) btree" where
  "btree_remove k m = filter (\<lambda>e. fst e \<noteq> k) m"

lemma set_btree_insert:
  "btree_wf m \<Longrightarrow> set (btree_insert k v m) = insert (k, v) {e \<in> set m. fst e \<noteq> k}"
  by (induction k v m rule: btree_insert.induct) (auto simp: btree_wf_def)

lemma btree_wf_Nil [simp]: "btree_wf []"
  by (simp add: btree_wf_def)

lemma btree_wf_insert [simp, intro]: "btree_wf m \<Longrightarrow> btree_wf (btree_insert k v m)"
proof (induction k v m rule: btree_insert.induct)
  case (2 k v k' v' m)
  then have wf: "btree_wf m" and lt: "\<forall>e \<in> set m. k' < fst e"
    by (auto simp: btree_wf_def)
  consider "k < k'" | "k = k'" | "k' < k" by fastforce
  then show ?case
  proof cases
    case 3
    then have "btree_wf (btree_insert k v m)" using "2.IH" wf by simp
    moreover have "\<forall>e \<in> set (btree_insert k v m). k' < fst e"
      using 3 lt by (auto simp: set_btree_insert [OF wf])
    ultimately show ?thesis using 3 by (auto simp: btree_wf_def)
  qed (use "2.prems" lt in \<open>auto simp: btree_wf_def\<close>)
qed (simp add: btree_wf_def)

lemma btree_wf_filter [simp, intro]: "btree_wf m \<Longrightarrow> btree_wf (filter P m)"
  by (induction m) (auto simp: btree_wf_def)

lemma btree_wf_remove [simp, intro]: "btree_wf m \<Longrightarrow> btree_wf (btree_remove k m)"
  by (simp add: btree_remove_def)

lemma btree_wf_distinct: "btree_wf m \<Longrightarrow> distinct (map fst m)"
  by (simp add: btree_wf_def strict_sorted_iff)

lemma map_of_btree_insert [map_rules]: "map_of (btree_insert k v m) = (map_of m)(k \<mapsto> v)"
  if "btree_wf m"
  using that by (induction k v m rule: btree_insert.induct) (auto simp: btree_wf_def)

lemma map_of_btree_remove [map_rules]: "map_of (btree_remove k m) = (map_of m)(k := None)"
  by (induction m) (auto simp: btree_remove_def)

interpretation bt: finite_map btree_wf map_of btree_insert btree_remove id
  by unfold_locales (simp_all add: map_rules btree_wf_distinct)

section \<open>HashMap: association lists with distinct keys\<close>

type_synonym ('k, 'v) hashm = "('k \<times> 'v) list"

definition hm_wf :: "('k, 'v) hashm \<Rightarrow> bool" where
  "hm_wf m \<longleftrightarrow> distinct (map fst m)"

definition hm_insert :: "'k \<Rightarrow> 'v \<Rightarrow> ('k, 'v) hashm \<Rightarrow> ('k, 'v) hashm" where
  "hm_insert = AList.update"

definition hm_remove :: "'k \<Rightarrow> ('k, 'v) hashm \<Rightarrow> ('k, 'v) hashm" where
  "hm_remove = AList.delete"

lemma hm_wf_Nil [simp]: "hm_wf []"
  by (simp add: hm_wf_def)

lemma hm_wf_insert [simp, intro]: "hm_wf m \<Longrightarrow> hm_wf (hm_insert k v m)"
  by (simp add: hm_wf_def hm_insert_def distinct_update)

lemma hm_wf_remove [simp, intro]: "hm_wf m \<Longrightarrow> hm_wf (hm_remove k m)"
  by (simp add: hm_wf_def hm_remove_def distinct_delete)

lemma map_of_hm_insert [map_rules]: "map_of (hm_insert k v m) = (map_of m)(k \<mapsto> v)"
  by (simp add: hm_insert_def update_conv')

lemma map_of_hm_remove [map_rules]: "map_of (hm_remove k m) = (map_of m)(k := None)"
  by (simp add: hm_remove_def delete_conv')

interpretation hm: finite_map hm_wf map_of hm_insert hm_remove id
  by unfold_locales (simp_all add: map_rules, simp add: hm_wf_def)

text \<open>\<^verbatim>\<open>values_mut\<close>: rewrite every value in place; keys and their order stay.\<close>

definition map_values :: "('v \<Rightarrow> 'w) \<Rightarrow> ('k \<times> 'v) list \<Rightarrow> ('k \<times> 'w) list" where
  "map_values f m = map (\<lambda>(k, v). (k, f v)) m"

lemma map_fst_map_values [simp]: "map fst (map_values f m) = map fst m"
  by (induction m) (auto simp: map_values_def)

lemma hm_wf_map_values [simp]: "hm_wf (map_values f m) = hm_wf m"
  by (simp add: hm_wf_def)

lemma map_of_map_values [map_rules]: "map_of (map_values f m) k = map_option f (map_of m k)"
  by (induction m) (auto simp: map_values_def)

lemma snd_set_map_values [simp]: "snd ` set (map_values f m) = f ` snd ` set m"
  by (force simp: map_values_def)

lemma length_map_values [simp]: "length (map_values f m) = length m"
  by (simp add: map_values_def)

end
