(* ===== verification/SHAMap.thy ===== *)
theory SHAMap
  imports Prelude
begin

text \<open>
  The SHAMap, a 16-way radix tree keyed by 256-bit hashes: \<^verbatim>\<open>xrpl/shamap/src\<close>, files
  \<^verbatim>\<open>nodes/node_id.rs\<close>, \<^verbatim>\<open>nodes/tree_node.rs\<close>, \<^verbatim>\<open>operations/search.rs\<close>, \<^verbatim>\<open>operations/read.rs\<close> and
  \<^verbatim>\<open>operations/mutation.rs\<close>. \<open>SHAMap_Compare\<close> has \<^verbatim>\<open>operations/compare.rs\<close>.

  \<^item> Keys are naturals below \<open>2 ^ 256\<close>; a node identifier is represented by its depth, the only
    part of it that branch selection reads.
  \<^item> Trees are fully loaded, as transaction sets of the consensus round are: no branch needs a
    fetch. Copy-on-write (\<^verbatim>\<open>cowid\<close>, \<^verbatim>\<open>unshare_node\<close>) is the sharing of a persistent value.
  \<^item> The hash of a node is a function of its contents; the cached, lazily updated hash fields are
    not modelled. SHA-512Half is a parameter \<open>H\<close> applied to the structured preimage.
  \<^item> \<^term>\<open>None\<close> as the outer value of a result is a panic, \<^verbatim>\<open>Inl\<close> an error value.
\<close>

section \<open>Keys and branches\<close>

definition BRANCH_FACTOR :: nat where
  "BRANCH_FACTOR = 16"

definition SHAMAP_LEAF_DEPTH :: nat where
  "SHAMAP_LEAF_DEPTH = 64"

text \<open>Byte \<open>i\<close> of the big-endian representation of a key.\<close>

definition key_byte :: "nat \<Rightarrow> nat \<Rightarrow> nat" where
  "key_byte k i = k div 256 ^ (31 - i) mod 256"

definition select_branch :: "nat \<Rightarrow> nat \<Rightarrow> nat" where
  "select_branch depth k =
     (let branch = key_byte k (depth div 2)
      in if odd depth then branch mod 16 else branch div 16)"

section \<open>Nodes\<close>

datatype node_type = Inner_type | TransactionNm | TransactionMd | AccountState

record sha_item =
  item_key :: nat
  item_data :: "nat list"

datatype sha_node = Leaf_node node_type sha_item | Inner_node "sha_node option list"

definition new_inner :: sha_node where
  "new_inner = Inner_node (replicate BRANCH_FACTOR None)"

definition child_at :: "sha_node option list \<Rightarrow> nat \<Rightarrow> sha_node option" where
  "child_at cs b = (if b < length cs then cs ! b else None)"

fun set_child :: "nat \<Rightarrow> sha_node option \<Rightarrow> sha_node \<Rightarrow> sha_node" where
  "set_child b c (Inner_node cs) = Inner_node (cs[b := c])"
| "set_child b c (Leaf_node t it) = Leaf_node t it"

fun branch_count :: "sha_node \<Rightarrow> nat" where
  "branch_count (Inner_node cs) = length (filter (\<lambda>c. c \<noteq> None) cs)"
| "branch_count (Leaf_node t it) = 0"

text \<open>The data a node is hashed from, and the hash.\<close>

datatype preimage = Pre_leaf nat "nat list" "nat option" | Pre_inner "nat list"

definition HASH_PREFIX_TRANSACTION_ID :: nat where
  "HASH_PREFIX_TRANSACTION_ID = 0x54584E00"

definition HASH_PREFIX_TX_NODE :: nat where
  "HASH_PREFIX_TX_NODE = 0x534E4400"

definition HASH_PREFIX_LEAF_NODE :: nat where
  "HASH_PREFIX_LEAF_NODE = 0x4D4C4E00"

fun leaf_preimage :: "node_type \<Rightarrow> sha_item \<Rightarrow> preimage" where
  "leaf_preimage TransactionNm it = Pre_leaf HASH_PREFIX_TRANSACTION_ID (item_data it) None"
| "leaf_preimage TransactionMd it = Pre_leaf HASH_PREFIX_TX_NODE (item_data it) (Some (item_key it))"
| "leaf_preimage _ it = Pre_leaf HASH_PREFIX_LEAF_NODE (item_data it) (Some (item_key it))"

fun node_hash :: "(preimage \<Rightarrow> nat) \<Rightarrow> sha_node \<Rightarrow> nat" where
  "node_hash H (Leaf_node t it) = H (leaf_preimage t it)"
| "node_hash H (Inner_node cs) =
     (if (\<forall>c \<in> set cs. c = None) then 0
      else H (Pre_inner (map (\<lambda>c. case c of None \<Rightarrow> 0 | Some n \<Rightarrow> node_hash H n) cs)))"

definition child_hash :: "(preimage \<Rightarrow> nat) \<Rightarrow> sha_node option \<Rightarrow> nat" where
  "child_hash H c = (case c of None \<Rightarrow> 0 | Some n \<Rightarrow> node_hash H n)"

section \<open>Search\<close>

lemma size_child_at: "child_at cs b = Some n \<Longrightarrow> size n < size (Inner_node cs)"
proof -
  assume "child_at cs b = Some n"
  then have "Some n \<in> set cs" by (auto simp: child_at_def split: if_splits) (metis nth_mem)
  then have "size_option size (Some n) \<le> size_list (size_option size) cs"
    by (rule size_list_estimation') simp
  then show ?thesis by simp
qed

text \<open>
  \<^verbatim>\<open>walk_towards_key_with_path\<close>: the terminal node (a leaf, or none when the branch is empty)
  and the visited nodes with their depths, the root first.
\<close>

function walk_towards_key ::
  "nat \<Rightarrow> nat \<Rightarrow> sha_node \<Rightarrow> (sha_node option \<times> (sha_node \<times> nat) list) option" where
  "walk_towards_key d k (Leaf_node t it) = Some (Some (Leaf_node t it), [(Leaf_node t it, d)])"
| "walk_towards_key d k (Inner_node cs) =
     (if d \<ge> SHAMAP_LEAF_DEPTH then None
      else case child_at cs (select_branch d k) of
             None \<Rightarrow> Some (None, [(Inner_node cs, d)])
           | Some n \<Rightarrow>
               map_option (\<lambda>(t, p). (t, (Inner_node cs, d) # p)) (walk_towards_key (Suc d) k n))"
  by pat_completeness auto
termination
  by (relation "measure (\<lambda>(d, k, n). size n)") (auto dest: size_child_at)

definition find_key :: "nat \<Rightarrow> sha_node \<Rightarrow> sha_node option option" where
  "find_key k root =
     do {
       (leaf, path) \<leftarrow> walk_towards_key 0 k root;
       Some (case leaf of
               Some (Leaf_node t it) \<Rightarrow> if item_key it = k then leaf else None
             | _ \<Rightarrow> None)
     }"

definition has_item :: "nat \<Rightarrow> sha_node \<Rightarrow> bool option" where
  "has_item k root = map_option (\<lambda>l. l \<noteq> None) (find_key k root)"

definition peek_item :: "nat \<Rightarrow> sha_node \<Rightarrow> sha_item option option" where
  "peek_item k root =
     map_option (\<lambda>l. case l of Some (Leaf_node t it) \<Rightarrow> Some it | _ \<Rightarrow> None) (find_key k root)"

section \<open>Mutation\<close>

datatype mutation_error =
  RootMustBeInner | DuplicateExactLeaf nat | MissingExactLeaf nat | CrossTypeChange node_type node_type

definition dirty_up :: "(sha_node \<times> nat) list \<Rightarrow> nat \<Rightarrow> sha_node \<Rightarrow> sha_node" where
  "dirty_up path target child =
     foldr (\<lambda>(n, d) c. set_child (select_branch d target) (Some c) n) path child"

definition add_into_empty_branch ::
  "(sha_node \<times> nat) list \<Rightarrow> nat \<Rightarrow> node_type \<Rightarrow> sha_item \<Rightarrow> mutation_error + bool \<times> sha_node" where
  "add_into_empty_branch path target t it =
     (if path = [] then Inl RootMustBeInner
      else
        let (parent, d) = last path;
            parent' = set_child (select_branch d target) (Some (Leaf_node t it)) parent
        in Inr (True, dirty_up (butlast path) target parent'))"

text \<open>
  The loop of \<^verbatim>\<open>add_with_leaf_split\<close>: new inner nodes are grafted while both keys select the
  same branch.
\<close>

function split_loop ::
  "node_type \<Rightarrow> sha_item \<Rightarrow> sha_item \<Rightarrow> (sha_node \<times> nat) list \<Rightarrow> nat \<Rightarrow> sha_node option" where
  "split_loop t it old graft d =
     (if d \<ge> SHAMAP_LEAF_DEPTH then None
      else
        let nb = select_branch d (item_key it); ob = select_branch d (item_key old)
        in if nb \<noteq> ob then
             Some (dirty_up graft (item_key it)
               (set_child ob (Some (Leaf_node t old)) (set_child nb (Some (Leaf_node t it)) new_inner)))
           else split_loop t it old (graft @ [(new_inner, d)]) (Suc d))"
  by pat_completeness auto
termination
  by (relation "measure (\<lambda>(t, it, old, graft, d). SHAMAP_LEAF_DEPTH - d)") auto

definition add_with_leaf_split ::
  "(sha_node \<times> nat) list \<Rightarrow> node_type \<Rightarrow> sha_item \<Rightarrow> node_type \<Rightarrow> sha_item \<Rightarrow> sha_node
    \<Rightarrow> (mutation_error + bool \<times> sha_node) option" where
  "add_with_leaf_split path old_type old t it root =
     (if path = [] then Some (Inl RootMustBeInner)
      else if item_key old = item_key it then Some (Inr (False, root))
      else if old_type \<noteq> t then Some (Inl (CrossTypeChange t old_type))
      else map_option (\<lambda>n. Inr (True, n)) (split_loop t it old (butlast path) (snd (last path))))"

definition add_item ::
  "node_type \<Rightarrow> sha_item \<Rightarrow> sha_node \<Rightarrow> (mutation_error + bool \<times> sha_node) option" where
  "add_item t it root =
     (if t = Inner_type then None
      else do {
        (terminal, path) \<leftarrow> walk_towards_key 0 (item_key it) root;
        (case terminal of
           Some (Leaf_node t' old) \<Rightarrow> add_with_leaf_split path t' old t it root
         | _ \<Rightarrow> Some (add_into_empty_branch path (item_key it) t it))
      })"

definition update_item ::
  "node_type \<Rightarrow> sha_item \<Rightarrow> sha_node \<Rightarrow> (mutation_error + bool \<times> sha_node) option" where
  "update_item t it root =
     (if t = Inner_type then None
      else do {
        (terminal, path) \<leftarrow> walk_towards_key 0 (item_key it) root;
        Some (case terminal of
                Some (Leaf_node t' old) \<Rightarrow>
                  if item_key old \<noteq> item_key it then Inl (MissingExactLeaf (item_key it))
                  else if t' \<noteq> t then Inl (CrossTypeChange t t')
                  else Inr (True, dirty_up (butlast path) (item_key it) (Leaf_node t' it))
              | _ \<Rightarrow> Inl (MissingExactLeaf (item_key it)))
      })"

lemma size_filter_child: "filter (\<lambda>c. c \<noteq> None) cs = [Some n] \<Longrightarrow> size n < size (Inner_node cs)"
proof -
  assume "filter (\<lambda>c. c \<noteq> None) cs = [Some n]"
  then have "Some n \<in> set cs" by (metis list.set_intros(1) filter_is_subset subsetD)
  then have "size_option size (Some n) \<le> size_list (size_option size) cs"
    by (rule size_list_estimation') simp
  then show ?thesis by simp
qed

function only_below_leaf :: "sha_node \<Rightarrow> (node_type \<times> sha_item) option" where
  "only_below_leaf (Leaf_node t it) = Some (t, it)"
| "only_below_leaf (Inner_node cs) =
     (case filter (\<lambda>c. c \<noteq> None) cs of [Some n] \<Rightarrow> only_below_leaf n | _ \<Rightarrow> None)"
  by pat_completeness auto
termination
  by (relation "measure size") (auto dest!: size_filter_child simp del: not_None_eq)

text \<open>
  One iteration of the loop of \<^verbatim>\<open>delete_item\<close> over the path, from the deepest inner node up;
  the value carried is \<^verbatim>\<open>prev_node\<close>, and the node itself at the root.
\<close>

definition delete_step :: "nat \<Rightarrow> sha_node \<times> nat \<Rightarrow> sha_node option \<Rightarrow> sha_node option" where
  "delete_step target e prev =
     (let (n, d) = e; node = set_child (select_branch d target) prev n
      in if d = 0 then Some node
         else if branch_count node = 0 then None
         else if branch_count node = 1 then
           (case only_below_leaf node of
              None \<Rightarrow> Some node
            | Some (t, it) \<Rightarrow> Some (Leaf_node t it))
         else Some node)"

definition delete_item :: "nat \<Rightarrow> sha_node \<Rightarrow> (bool \<times> sha_node) option" where
  "delete_item target root =
     do {
       (leaf, path) \<leftarrow> walk_towards_key 0 target root;
       Some (case leaf of
               Some (Leaf_node t it) \<Rightarrow>
                 if item_key it \<noteq> target then (False, root)
                 else (True, case_option root id (foldr (delete_step target) (butlast path) None))
             | _ \<Rightarrow> (False, root))
     }"

end
