(* ===== verification/SHAMap_Map.thy ===== *)
theory SHAMap_Map
  imports SHAMap
begin

text \<open>
  The SHAMap as a finite map: the shape invariant (every item sits under the branches its key
  selects, and an inner node other than the root has at least two items below it), the items of
  a tree as its abstract value, and the effect of each operation on them. The invariant makes
  trees canonical: two trees with the same items are equal.
\<close>

section \<open>Branches determine keys\<close>

definition key_ok :: "nat \<Rightarrow> bool" where
  "key_ok k \<longleftrightarrow> k < 2 ^ 256"

lemma select_branch_nibble:
  assumes "d < 64"
  shows "select_branch d k = k div 16 ^ (63 - d) mod 16"
proof (cases "odd d")
  case True
  then obtain e where d: "d = 2 * e + 1" by (elim oddE) simp
  have "63 - d = 2 * (31 - e)" using assms d by simp
  then have "(256 :: nat) ^ (31 - e) = 16 ^ (63 - d)" by (simp add: power_mult)
  then show ?thesis using True d
    by (simp add: select_branch_def key_byte_def Let_def mod_mod_cancel)
next
  case False
  then obtain e where d: "d = 2 * e" by auto
  have e: "e \<le> 31" using assms d by simp
  have "(16 :: nat) ^ (63 - d) = 256 ^ (31 - e) * 16"
  proof -
    have "63 - d = 2 * (31 - e) + 1" using e d by simp
    then show ?thesis by (simp add: power_mult)
  qed
  moreover have "k div 256 ^ (31 - e) mod 256 div 16 = k div (256 ^ (31 - e) * 16) mod 16"
  proof -
    have "q mod 256 div 16 = q div 16 mod 16" for q :: nat
      using mod_mult2_eq [of q 16 16] by simp
    then show ?thesis by (simp add: div_mult2_eq)
  qed
  ultimately show ?thesis using False d
    by (simp add: select_branch_def key_byte_def Let_def)
qed

lemma select_branch_bound: "d < 64 \<Longrightarrow> select_branch d k < 16"
  by (simp add: select_branch_nibble)

definition same_prefix :: "nat \<Rightarrow> nat \<Rightarrow> nat \<Rightarrow> bool" where
  "same_prefix d k k' \<longleftrightarrow> (\<forall>i < d. select_branch i k = select_branch i k')"

lemma same_prefix_0 [simp]: "same_prefix 0 k k'"
  by (simp add: same_prefix_def)

lemma same_prefix_Suc:
  "same_prefix (Suc d) k k' \<longleftrightarrow> same_prefix d k k' \<and> select_branch d k = select_branch d k'"
  by (auto simp: same_prefix_def less_Suc_eq)

lemma same_prefix_div:
  assumes "d \<le> 64" "key_ok k" "key_ok k'" "same_prefix d k k'"
  shows "k div 16 ^ (64 - d) = k' div 16 ^ (64 - d)"
  using assms(1,4)
proof (induction d)
  case 0
  have "(2 :: nat) ^ 256 = 16 ^ 64" by simp
  then show ?case using assms(2,3) by (simp add: key_ok_def)
next
  case (Suc d)
  have q: "j div 16 ^ (63 - d) = 16 * (j div 16 ^ (64 - d)) + select_branch d j" for j :: nat
  proof -
    have "64 - d = Suc (63 - d)" using Suc.prems(1) by simp
    then have "(16 :: nat) ^ (64 - d) = 16 ^ (63 - d) * 16" by simp
    then have "j div 16 ^ (64 - d) = j div 16 ^ (63 - d) div 16" by (simp add: div_mult2_eq)
    then show ?thesis using Suc.prems(1) by (simp add: select_branch_nibble)
  qed
  show ?case using Suc.IH Suc.prems q [of k] q [of k'] by (simp add: same_prefix_Suc)
qed

lemma same_prefix_eq: "key_ok k \<Longrightarrow> key_ok k' \<Longrightarrow> same_prefix 64 k k' \<Longrightarrow> k = k'"
  using same_prefix_div [of 64 k k'] by simp

section \<open>Items and shape\<close>

fun items :: "sha_node \<Rightarrow> sha_item list" where
  "items (Leaf_node t it) = [it]"
| "items (Inner_node cs) = concat (map (\<lambda>c. case c of None \<Rightarrow> [] | Some n \<Rightarrow> items n) cs)"

abbreviation item_set :: "sha_node \<Rightarrow> sha_item set" where
  "item_set n \<equiv> set (items n)"

fun sha_wf :: "node_type \<Rightarrow> nat \<Rightarrow> sha_node \<Rightarrow> bool" where
  "sha_wf ty d (Leaf_node t it) \<longleftrightarrow> t = ty \<and> key_ok (item_key it)"
| "sha_wf ty d (Inner_node cs) \<longleftrightarrow>
     length cs = 16 \<and> d < 64
     \<and> (\<forall>c \<in> set cs. case c of None \<Rightarrow> True | Some n \<Rightarrow> sha_wf ty (Suc d) n)
     \<and> (\<forall>b n it. child_at cs b = Some n \<longrightarrow> it \<in> item_set n \<longrightarrow> select_branch d (item_key it) = b)
     \<and> (d \<noteq> 0 \<longrightarrow> 2 \<le> card (item_set (Inner_node cs)))"

definition sha_root :: "node_type \<Rightarrow> sha_node \<Rightarrow> bool" where
  "sha_root ty n \<longleftrightarrow> ty \<noteq> Inner_type \<and> sha_wf ty 0 n \<and> (\<exists>cs. n = Inner_node cs)"

text \<open>The item a key maps to.\<close>

definition contents :: "sha_node \<Rightarrow> nat \<Rightarrow> sha_item option" where
  "contents n k = map_of (map (\<lambda>it. (item_key it, it)) (items n)) k"

lemma child_at_set: "child_at cs b = Some n \<Longrightarrow> Some n \<in> set cs"
  by (auto simp: child_at_def split: if_splits) (metis nth_mem)

lemma set_child_at: "Some n \<in> set cs \<Longrightarrow> \<exists>b < length cs. child_at cs b = Some n"
  by (auto simp: child_at_def in_set_conv_nth)

lemma item_set_inner:
  "item_set (Inner_node cs) = (\<Union>n \<in> {n. Some n \<in> set cs}. item_set n)"
  by (force split: option.splits)

lemma item_set_inner_iff:
  "it \<in> item_set (Inner_node cs) \<longleftrightarrow> (\<exists>b n. child_at cs b = Some n \<and> it \<in> item_set n)"
  unfolding item_set_inner using child_at_set set_child_at by blast

lemma sha_wf_child:
  assumes "sha_wf ty d (Inner_node cs)" "child_at cs b = Some n"
  shows "sha_wf ty (Suc d) n"
  using assms child_at_set [OF assms(2)] by fastforce

lemma sha_wf_branch:
  "sha_wf ty d (Inner_node cs) \<Longrightarrow> child_at cs b = Some n \<Longrightarrow> it \<in> item_set n
     \<Longrightarrow> select_branch d (item_key it) = b"
  by simp

lemma child_at_update:
  "b < length cs \<Longrightarrow> child_at (cs[b := c]) a = (if a = b then c else child_at cs a)"
  by (simp add: child_at_def)

lemma sha_wf_items:
  "sha_wf ty d n \<Longrightarrow> it \<in> item_set n \<Longrightarrow> key_ok (item_key it)"
proof (induction n arbitrary: d)
  case (Inner_node cs)
  obtain b n where n: "child_at cs b = Some n" "it \<in> item_set n"
    using Inner_node.prems(2) unfolding item_set_inner_iff by blast
  show ?case
    by (rule Inner_node.IH [OF child_at_set [OF n(1)] _ sha_wf_child [OF Inner_node.prems(1) n(1)] n(2)]) simp
qed simp

lemma sha_wf_inj:
  "sha_wf ty d n \<Longrightarrow> it \<in> item_set n \<Longrightarrow> it' \<in> item_set n \<Longrightarrow> item_key it = item_key it' \<Longrightarrow> it = it'"
proof (induction n arbitrary: d)
  case (Inner_node cs)
  obtain b n where n: "child_at cs b = Some n" "it \<in> item_set n"
    using Inner_node.prems(2) unfolding item_set_inner_iff by blast
  obtain b' n' where n': "child_at cs b' = Some n'" "it' \<in> item_set n'"
    using Inner_node.prems(3) unfolding item_set_inner_iff by blast
  have "b = b'"
    using sha_wf_branch [OF Inner_node.prems(1) n] sha_wf_branch [OF Inner_node.prems(1) n'] Inner_node.prems(4)
    by simp
  then have "it' \<in> item_set n" using n n' by simp
  show ?case
    by (rule Inner_node.IH [OF child_at_set [OF n(1)] _ sha_wf_child [OF Inner_node.prems(1) n(1)] n(2)])
      (use \<open>it' \<in> item_set n\<close> Inner_node.prems(4) in simp_all)
qed simp

lemma contents_Some:
  assumes "sha_wf ty d n"
  shows "contents n k = Some it \<longleftrightarrow> it \<in> item_set n \<and> item_key it = k"
proof
  assume "contents n k = Some it"
  then show "it \<in> item_set n \<and> item_key it = k" by (auto simp: contents_def dest: map_of_SomeD)
next
  assume it: "it \<in> item_set n \<and> item_key it = k"
  then have "contents n k \<noteq> None"
    unfolding contents_def map_of_eq_None_iff by (force simp: image_image)
  then obtain it' where "contents n k = Some it'" by blast
  moreover from this have "it' \<in> item_set n \<and> item_key it' = k"
    by (auto simp: contents_def dest: map_of_SomeD)
  ultimately show "contents n k = Some it" using sha_wf_inj [OF assms, of it it'] it by simp
qed

lemma contents_None: "contents n k = None \<longleftrightarrow> (\<forall>it \<in> item_set n. item_key it \<noteq> k)"
  unfolding contents_def map_of_eq_None_iff by (auto simp: image_image)

section \<open>Search\<close>

lemma walk_spec:
  assumes "sha_wf ty d n"
  shows "\<exists>t p. walk_towards_key d k n = Some (t, p) \<and> p \<noteq> [] \<and> hd p = (n, d)
    \<and> (\<forall>m. t = Some m \<longrightarrow> (\<exists>it. m = Leaf_node ty it \<and> it \<in> item_set n))
    \<and> (\<forall>it \<in> item_set n. item_key it = k \<longrightarrow> t = Some (Leaf_node ty it))"
  using assms
proof (induction d k n rule: walk_towards_key.induct)
  case (2 d k cs)
  have d: "\<not> SHAMAP_LEAF_DEPTH \<le> d" using "2.prems" by (simp add: SHAMAP_LEAF_DEPTH_def)
  show ?case
  proof (cases "child_at cs (select_branch d k)")
    case None
    have "item_key it \<noteq> k" if i: "it \<in> item_set (Inner_node cs)" for it
    proof
      assume "item_key it = k"
      obtain b n where n: "child_at cs b = Some n" "it \<in> item_set n"
        using i unfolding item_set_inner_iff by blast
      show False using sha_wf_branch [OF "2.prems" n] n(1) None \<open>item_key it = k\<close> by simp
    qed
    then show ?thesis using d None by simp
  next
    case (Some n)
    have wf: "sha_wf ty (Suc d) n" by (rule sha_wf_child [OF "2.prems" Some])
    obtain t p where IH: "walk_towards_key (Suc d) k n = Some (t, p)"
        "\<forall>m. t = Some m \<longrightarrow> (\<exists>it. m = Leaf_node ty it \<and> it \<in> item_set n)"
        "\<forall>it \<in> item_set n. item_key it = k \<longrightarrow> t = Some (Leaf_node ty it)"
      using "2.IH" [OF d Some wf] by blast
    have sub: "it \<in> item_set (Inner_node cs)" if "it \<in> item_set n" for it
      using that Some unfolding item_set_inner_iff by blast
    have "t = Some (Leaf_node ty it)" if i: "it \<in> item_set (Inner_node cs)" "item_key it = k" for it
    proof -
      obtain b n' where n': "child_at cs b = Some n'" "it \<in> item_set n'"
        using i(1) unfolding item_set_inner_iff by blast
      then have "n' = n" using sha_wf_branch [OF "2.prems" n'] i(2) Some by simp
      then show ?thesis using IH(3) n'(2) i(2) by simp
    qed
    moreover have "walk_towards_key d k (Inner_node cs) = Some (t, (Inner_node cs, d) # p)"
      using d Some IH(1) by simp
    ultimately show ?thesis
      using IH(2) sub by (intro exI [of _ t] exI [of _ "(Inner_node cs, d) # p"]) auto
  qed
qed simp

lemma find_key_contents:
  assumes "sha_wf ty 0 n"
  shows "find_key k n = Some (map_option (Leaf_node ty) (contents n k))"
proof -
  obtain t p where t: "walk_towards_key 0 k n = Some (t, p)"
      "\<forall>m. t = Some m \<longrightarrow> (\<exists>it. m = Leaf_node ty it \<and> it \<in> item_set n)"
      "\<forall>it \<in> item_set n. item_key it = k \<longrightarrow> t = Some (Leaf_node ty it)"
    using walk_spec [OF assms, of k] by (elim exE conjE)
  show ?thesis
  proof (cases "contents n k")
    case (Some it)
    then have "it \<in> item_set n" "item_key it = k" using contents_Some [OF assms] by auto
    then show ?thesis using t(1,3) Some by (simp add: find_key_def)
  next
    case None
    then have no: "\<And>it. it \<in> item_set n \<Longrightarrow> item_key it \<noteq> k" unfolding contents_None by blast
    show ?thesis
    proof (cases t)
      case (Some m)
      then obtain it where "m = Leaf_node ty it" "item_key it \<noteq> k" using t(2) no by blast
      then show ?thesis using t(1) Some None by (simp add: find_key_def)
    qed (use t(1) None in \<open>simp add: find_key_def\<close>)
  qed
qed

lemma peek_item_contents: "sha_wf ty 0 n \<Longrightarrow> peek_item k n = Some (contents n k)"
  by (simp add: peek_item_def find_key_contents option.map_comp comp_def)
    (simp split: option.split)

lemma has_item_contents: "sha_wf ty 0 n \<Longrightarrow> has_item k n = Some (contents n k \<noteq> None)"
  by (simp add: has_item_def find_key_contents)

section \<open>Replacing a subtree\<close>

declare items.simps(2) [simp del]

lemma item_set_update:
  assumes "sha_wf ty d (Inner_node cs)" "b < 16"
  shows "item_set (Inner_node (cs[b := c])) =
    {it \<in> item_set (Inner_node cs). select_branch d (item_key it) \<noteq> b}
    \<union> (case c of None \<Rightarrow> {} | Some n \<Rightarrow> item_set n)"
proof -
  have len: "b < length cs" using assms by simp
  have "it \<in> item_set (Inner_node (cs[b := c])) \<longleftrightarrow>
      (\<exists>a n. a \<noteq> b \<and> child_at cs a = Some n \<and> it \<in> item_set n)
      \<or> (\<exists>n. c = Some n \<and> it \<in> item_set n)" for it
    unfolding item_set_inner_iff child_at_update [OF len] by (auto split: if_splits)
  moreover have "(\<exists>a n. a \<noteq> b \<and> child_at cs a = Some n \<and> it \<in> item_set n) \<longleftrightarrow>
      it \<in> item_set (Inner_node cs) \<and> select_branch d (item_key it) \<noteq> b" for it
    unfolding item_set_inner_iff using sha_wf_branch [OF assms(1)] by blast
  ultimately show ?thesis
    by (intro set_eqI) (cases c; simp)
qed

lemma sha_wf_innerI:
  assumes "length cs = 16" "d < 64" "\<And>b n. child_at cs b = Some n \<Longrightarrow> sha_wf ty (Suc d) n"
    and "\<And>b n it. child_at cs b = Some n \<Longrightarrow> it \<in> item_set n \<Longrightarrow> select_branch d (item_key it) = b"
    and "d \<noteq> 0 \<Longrightarrow> 2 \<le> card (item_set (Inner_node cs))"
  shows "sha_wf ty d (Inner_node cs)"
proof -
  have "case c of None \<Rightarrow> True | Some n \<Rightarrow> sha_wf ty (Suc d) n" if "c \<in> set cs" for c
    using that set_child_at [of _ cs] assms(3) by (auto split: option.split)
  then show ?thesis using assms by simp
qed

lemma sha_wf_update:
  assumes "sha_wf ty d (Inner_node cs)" "b < 16"
    and "\<And>n. c = Some n \<Longrightarrow> sha_wf ty (Suc d) n"
    and "\<And>n it. c = Some n \<Longrightarrow> it \<in> item_set n \<Longrightarrow> select_branch d (item_key it) = b"
    and "d \<noteq> 0 \<Longrightarrow> 2 \<le> card (item_set (Inner_node (cs[b := c])))"
  shows "sha_wf ty d (Inner_node (cs[b := c]))"
proof (rule sha_wf_innerI)
  have len: "b < length cs" using assms(1,2) by simp
  fix a n assume n: "child_at (cs[b := c]) a = Some n"
  show "sha_wf ty (Suc d) n"
    using n assms(3) sha_wf_child [OF assms(1)] by (simp add: child_at_update [OF len] split: if_splits)
  show "select_branch d (item_key it) = a" if "it \<in> item_set n" for it
    using n that assms(4) sha_wf_branch [OF assms(1)] by (simp add: child_at_update [OF len] split: if_splits)
qed (use assms(1,5) in simp_all)

lemma branch_items:
  assumes "sha_wf ty d (Inner_node cs)" "child_at cs b = Some c"
  shows "{it \<in> item_set (Inner_node cs). select_branch d (item_key it) \<noteq> b} =
    item_set (Inner_node cs) - item_set c"
proof (rule set_eqI)
  fix it
  show "it \<in> {it \<in> item_set (Inner_node cs). select_branch d (item_key it) \<noteq> b} \<longleftrightarrow>
      it \<in> item_set (Inner_node cs) - item_set c"
    unfolding mem_Collect_eq Diff_iff item_set_inner_iff
    using sha_wf_branch [OF assms(1)] assms(2) by (metis option.inject)
qed

lemma walk_replace:
  assumes "sha_wf ty d n" "walk_towards_key d k n = Some (t, p)" "last p = (m, e)"
    and "sha_wf ty e r" "item_set r = (item_set m - D) \<union> E" "D \<subseteq> item_set m"
    and "\<And>x. x \<in> item_set n \<Longrightarrow> item_key x = k \<Longrightarrow> x \<in> D"
    and "\<And>x. x \<in> D \<union> E \<Longrightarrow> item_key x = k" "finite E" "card D \<le> card E"
  shows "sha_wf ty d (dirty_up (butlast p) k r)
    \<and> item_set (dirty_up (butlast p) k r) = (item_set n - D) \<union> E \<and> item_set m \<subseteq> item_set n"
  using assms
proof (induction d k n arbitrary: t p rule: walk_towards_key.induct)
  case (1 d k ty' it)
  then show ?case by (auto simp: dirty_up_def)
next
  case (2 d k cs)
  let ?b = "select_branch d k"
  have d: "\<not> SHAMAP_LEAF_DEPTH \<le> d" "d < 64" using "2.prems"(1) by (simp_all add: SHAMAP_LEAF_DEPTH_def)
  show ?case
  proof (cases "child_at cs ?b")
    case None
    then have "p = [(Inner_node cs, d)]" using "2.prems"(2) d by simp
    then show ?thesis using "2.prems" by (auto simp: dirty_up_def)
  next
    case (Some c)
    have wfc: "sha_wf ty (Suc d) c" by (rule sha_wf_child [OF "2.prems"(1) Some])
    obtain p' where p': "walk_towards_key (Suc d) k c = Some (t, p')" "p = (Inner_node cs, d) # p'"
      using "2.prems"(2) d Some by (auto simp: map_option_case split: option.splits)
    have ne: "p' \<noteq> []" using walk_spec [OF wfc, of k] p'(1) by auto
    have c_in: "item_set c \<subseteq> item_set (Inner_node cs)"
      by (rule subsetI) (use Some in \<open>unfold item_set_inner_iff, blast\<close>)
    have IH: "sha_wf ty (Suc d) (dirty_up (butlast p') k r)
        \<and> item_set (dirty_up (butlast p') k r) = (item_set c - D) \<union> E \<and> item_set m \<subseteq> item_set c"
    proof (rule "2.IH" [OF d(1) Some wfc p'(1) _ "2.prems"(4,5,6) _ "2.prems"(8,9,10)])
      show "last p' = (m, e)" using "2.prems"(3) p'(2) ne by simp
      show "x \<in> D" if "x \<in> item_set c" "item_key x = k" for x using "2.prems"(7) c_in that by blast
    qed simp
    let ?c' = "dirty_up (butlast p') k r"
    have res: "dirty_up (butlast p) k r = Inner_node (cs[?b := Some ?c'])"
      using p'(2) ne by (simp add: dirty_up_def)
    have b: "?b < 16" using d(2) by (rule select_branch_bound)
    have other: "{it \<in> item_set (Inner_node cs). select_branch d (item_key it) \<noteq> ?b} =
        item_set (Inner_node cs) - item_set c"
      by (rule branch_items [OF "2.prems"(1) Some])
    have its: "item_set (Inner_node (cs[?b := Some ?c'])) = (item_set (Inner_node cs) - D) \<union> E"
      unfolding item_set_update [OF "2.prems"(1) b] other using IH c_in "2.prems"(6) by auto
    have "sha_wf ty d (Inner_node (cs[?b := Some ?c']))"
    proof (rule sha_wf_update [OF "2.prems"(1) b])
      show "select_branch d (item_key it) = ?b" if "Some ?c' = Some n" "it \<in> item_set n" for n it
        using that IH sha_wf_branch [OF "2.prems"(1) Some] "2.prems"(8) by auto
      have "card (item_set (Inner_node cs)) \<le> card ((item_set (Inner_node cs) - D) \<union> E)"
      proof -
        have "(item_set (Inner_node cs) - D) \<inter> E = {}" using "2.prems"(7,8) by blast
        then have "card ((item_set (Inner_node cs) - D) \<union> E) = card (item_set (Inner_node cs) - D) + card E"
          using "2.prems"(9) by (intro card_Un_disjoint) simp_all
        moreover have "card (item_set (Inner_node cs) - D) = card (item_set (Inner_node cs)) - card D"
          using IH c_in "2.prems"(6) by (intro card_Diff_subset) (auto intro: finite_subset)
        ultimately show ?thesis using "2.prems"(10) by linarith
      qed
      then show "2 \<le> card (item_set (Inner_node (cs[?b := Some ?c'])))" if "d \<noteq> 0"
        unfolding its using "2.prems"(1) that by simp
    qed (use IH in simp)
    then show ?thesis using its IH c_in by (simp only: res) blast
  qed
qed

section \<open>Insertion and update\<close>

text \<open>Where the search ends: the terminal node, its depth and the keys below it.\<close>

lemma walk_last:
  assumes "sha_wf ty d n" "\<And>x. x \<in> item_set n \<Longrightarrow> same_prefix d (item_key x) k"
    and "walk_towards_key d k n = Some (t, p)"
  shows "\<exists>m e. last p = (m, e) \<and> sha_wf ty e m \<and> e \<le> max d 64
    \<and> (\<forall>x \<in> item_set m. same_prefix e (item_key x) k)
    \<and> (case t of
         None \<Rightarrow> \<exists>cs. m = Inner_node cs \<and> child_at cs (select_branch e k) = None
       | Some l \<Rightarrow> l = m \<and> (\<exists>it. m = Leaf_node ty it))"
  using assms
proof (induction d k n arbitrary: t p rule: walk_towards_key.induct)
  case (2 d k cs)
  have d: "\<not> SHAMAP_LEAF_DEPTH \<le> d" "d < 64" using "2.prems"(1) by (simp_all add: SHAMAP_LEAF_DEPTH_def)
  show ?case
  proof (cases "child_at cs (select_branch d k)")
    case None
    then show ?thesis using "2.prems" d by auto
  next
    case (Some c)
    have wfc: "sha_wf ty (Suc d) c" by (rule sha_wf_child [OF "2.prems"(1) Some])
    obtain p' where p': "walk_towards_key (Suc d) k c = Some (t, p')" "p = (Inner_node cs, d) # p'"
      using "2.prems"(3) d Some by (auto simp: map_option_case split: option.splits)
    have ne: "p' \<noteq> []" using walk_spec [OF wfc, of k] p'(1) by auto
    have pre: "same_prefix (Suc d) (item_key x) k" if x: "x \<in> item_set c" for x
    proof -
      have "x \<in> item_set (Inner_node cs)" using x Some unfolding item_set_inner_iff by blast
      then show ?thesis using "2.prems"(2) sha_wf_branch [OF "2.prems"(1) Some x] by (simp add: same_prefix_Suc)
    qed
    have "max (Suc d) 64 = max d 64" using d(2) by simp
    then show ?thesis using "2.IH" [OF d(1) Some wfc pre p'(1)] p'(2) ne by simp
  qed
qed auto

text \<open>The tree the leaf split builds.\<close>

declare split_loop.simps [simp del]

lemma split_loop_graft:
  "split_loop t it old (g @ h) d = map_option (dirty_up g (item_key it)) (split_loop t it old h d)"
proof (induction t it old h d rule: split_loop.induct)
  case (1 t it old h d)
  have up: "dirty_up (g @ h) k x = dirty_up g k (dirty_up h k x)" for k x
    by (simp add: dirty_up_def)
  show ?case
    using "1.IH" unfolding split_loop.simps [of t it old "g @ h"] split_loop.simps [of t it old h]
    by (simp add: Let_def up)
qed

lemma item_set_new_inner [simp]: "item_set new_inner = {}" "item_set (Inner_node (replicate n None)) = {}"
  by (auto simp: new_inner_def items.simps(2))

lemma child_at_replicate [simp]: "child_at (replicate n None) b = None"
  by (simp add: child_at_def)

lemma item_set_update_empty:
  assumes "child_at cs b = None" "b < length cs"
  shows "item_set (Inner_node (cs[b := Some n])) = item_set (Inner_node cs) \<union> item_set n"
proof (rule set_eqI)
  fix x
  show "x \<in> item_set (Inner_node (cs[b := Some n])) \<longleftrightarrow> x \<in> item_set (Inner_node cs) \<union> item_set n"
    unfolding Un_iff item_set_inner_iff child_at_update [OF assms(2)] using assms(1)
    by (metis option.distinct(1) option.inject)
qed

lemma sha_wf_single:
  assumes "d < 64" "sha_wf ty (Suc d) n" "\<And>x. x \<in> item_set n \<Longrightarrow> select_branch d (item_key x) = b" "b < 16"
    "2 \<le> card (item_set n)"
  shows "sha_wf ty d (Inner_node ((replicate 16 None)[b := Some n]))"
  by (rule sha_wf_innerI)
    (use assms in \<open>simp_all add: child_at_update item_set_update_empty split: if_splits\<close>)

lemma split_loop_spec:
  assumes "same_prefix d (item_key old) (item_key it)" "item_key old \<noteq> item_key it" "d \<le> 64"
    and "key_ok (item_key it)" "key_ok (item_key old)"
  shows "\<exists>r. split_loop ty it old [] d = Some r \<and> sha_wf ty d r \<and> item_set r = {it, old}"
  using assms
proof (induction "64 - d" arbitrary: d)
  case 0
  then have "d = 64" by simp
  then show ?case using 0 same_prefix_eq [of "item_key old" "item_key it"] by simp
next
  case (Suc m)
  let ?nb = "select_branch d (item_key it)" and ?ob = "select_branch d (item_key old)"
  have d: "d < 64" "\<not> SHAMAP_LEAF_DEPTH \<le> d" using Suc(2) by (simp_all add: SHAMAP_LEAF_DEPTH_def)
  have b: "?nb < 16" "?ob < 16" using d(1) by (simp_all add: select_branch_bound)
  have ne: "old \<noteq> it" using Suc.prems(2) by blast
  show ?case
  proof (cases "?nb = ?ob")
    case True
    have m: "m = 64 - Suc d" using Suc.hyps(2) by simp
    obtain r where r: "split_loop ty it old [] (Suc d) = Some r" "sha_wf ty (Suc d) r" "item_set r = {it, old}"
      using Suc.hyps(1) [OF m] Suc.prems True d(1) unfolding same_prefix_Suc by force
    have "split_loop ty it old [] d = split_loop ty it old ([(new_inner, d)] @ []) (Suc d)"
      using d(2) True by (simp add: Let_def split_loop.simps [of _ _ _ _ d])
    also have "\<dots> = Some (Inner_node ((replicate 16 None)[?nb := Some r]))"
      unfolding split_loop_graft using r(1) by (simp add: dirty_up_def new_inner_def BRANCH_FACTOR_def)
    finally have "split_loop ty it old [] d = Some (Inner_node ((replicate 16 None)[?nb := Some r]))" .
    moreover have "sha_wf ty d (Inner_node ((replicate 16 None)[?nb := Some r]))"
      by (rule sha_wf_single [OF d(1) r(2) _ b(1)]) (use r(3) True ne in auto)
    moreover have "item_set (Inner_node ((replicate 16 None)[?nb := Some r])) = {it, old}"
      using b(1) r(3) by (simp add: item_set_update_empty)
    ultimately show ?thesis by blast
  next
    case False
    let ?cs = "(replicate 16 None)[?nb := Some (Leaf_node ty it), ?ob := Some (Leaf_node ty old)]"
    have "split_loop ty it old [] d = Some (Inner_node ?cs)"
      using d(2) False by (simp add: split_loop.simps [of _ _ _ _ d] Let_def dirty_up_def new_inner_def BRANCH_FACTOR_def)
    moreover have its: "item_set (Inner_node ?cs) = {it, old}"
      using b False by (auto simp: item_set_update_empty child_at_update)
    moreover have "sha_wf ty d (Inner_node ?cs)"
      by (rule sha_wf_innerI)
        (use its b False d ne Suc.prems(4,5) in \<open>auto simp: child_at_update split: if_splits\<close>)
    ultimately show ?thesis by blast
  qed
qed

lemma walk_root:
  assumes "sha_root ty n"
  obtains t p m e where "walk_towards_key 0 k n = Some (t, p)" "p \<noteq> []" "last p = (m, e)" "sha_wf ty e m"
    "e \<le> 64" "\<forall>x \<in> item_set m. same_prefix e (item_key x) k"
    "case t of None \<Rightarrow> \<exists>cs. m = Inner_node cs \<and> child_at cs (select_branch e k) = None
       | Some l \<Rightarrow> l = m \<and> (\<exists>it. m = Leaf_node ty it \<and> it \<in> item_set n)"
    "\<forall>it \<in> item_set n. item_key it = k \<longrightarrow> t = Some (Leaf_node ty it)"
    "\<forall>r. (\<exists>cs. r = Inner_node cs) \<or> t \<noteq> None \<longrightarrow> (\<exists>cs. dirty_up (butlast p) k r = Inner_node cs)"
proof -
  have wf: "sha_wf ty 0 n" using assms by (simp add: sha_root_def)
  obtain cs where n: "n = Inner_node cs" using assms by (auto simp: sha_root_def)
  obtain t p where w: "walk_towards_key 0 k n = Some (t, p)" "p \<noteq> []" "hd p = (n, 0)"
      "\<forall>m. t = Some m \<longrightarrow> (\<exists>it. m = Leaf_node ty it \<and> it \<in> item_set n)"
      "\<forall>it \<in> item_set n. item_key it = k \<longrightarrow> t = Some (Leaf_node ty it)"
    using walk_spec [OF wf, of k] by (elim exE conjE)
  obtain m e where l: "last p = (m, e)" "sha_wf ty e m" "e \<le> max 0 64"
      "\<forall>x \<in> item_set m. same_prefix e (item_key x) k"
      "case t of None \<Rightarrow> \<exists>cs. m = Inner_node cs \<and> child_at cs (select_branch e k) = None
        | Some l \<Rightarrow> l = m \<and> (\<exists>it. m = Leaf_node ty it)"
    using walk_last [OF wf same_prefix_0 w(1)] by (elim exE conjE)
  have inner: "\<exists>cs. dirty_up (butlast p) k r = Inner_node cs" if "(\<exists>cs. r = Inner_node cs) \<or> t \<noteq> None" for r
  proof (cases "butlast p")
    case Nil
    then have "p = [(n, 0)]" using w(2,3) by (metis append_butlast_last_id append_Nil list.sel(1))
    then have "t = None" using w(4) l(1,5) n by (cases t) auto
    then show ?thesis using that Nil by (simp add: dirty_up_def)
  next
    case (Cons x xs)
    then have "x = (n, 0)" using w(3) by (cases p) (auto split: if_splits)
    then show ?thesis using Cons n by (simp add: dirty_up_def)
  qed
  show ?thesis
    by (rule that [OF w(1,2) l(1,2) _ l(4) _ w(5)]) (use l(3,5) w(4) inner in \<open>auto split: option.splits\<close>)
qed

lemma add_item_new:
  assumes "sha_root ty n" "key_ok (item_key it)" "contents n (item_key it) = None"
  shows "\<exists>n'. add_item ty it n = Some (Inr (True, n')) \<and> sha_root ty n' \<and> item_set n' = insert it (item_set n)"
proof -
  let ?k = "item_key it"
  have wf: "sha_wf ty 0 n" and ty: "ty \<noteq> Inner_type" using assms(1) by (auto simp: sha_root_def)
  have fresh: "\<And>x. x \<in> item_set n \<Longrightarrow> item_key x = ?k \<Longrightarrow> x \<in> {}" using assms(3) by (auto simp: contents_None)
  obtain t p m e where w: "walk_towards_key 0 ?k n = Some (t, p)" "p \<noteq> []" "last p = (m, e)" "sha_wf ty e m"
      "e \<le> 64" "\<forall>x \<in> item_set m. same_prefix e (item_key x) ?k"
      "case t of None \<Rightarrow> \<exists>cs. m = Inner_node cs \<and> child_at cs (select_branch e ?k) = None
         | Some l \<Rightarrow> l = m \<and> (\<exists>it. m = Leaf_node ty it \<and> it \<in> item_set n)"
      "\<forall>x \<in> item_set n. item_key x = ?k \<longrightarrow> t = Some (Leaf_node ty x)"
      "\<forall>r. (\<exists>cs. r = Inner_node cs) \<or> t \<noteq> None \<longrightarrow> (\<exists>cs. dirty_up (butlast p) ?k r = Inner_node cs)"
    by (rule walk_root [OF assms(1), where k = ?k])
  have rep: "sha_root ty (dirty_up (butlast p) ?k r) \<and> item_set (dirty_up (butlast p) ?k r) = insert it (item_set n)"
    if "sha_wf ty e r" "item_set r = insert it (item_set m)" "(\<exists>cs. r = Inner_node cs) \<or> t \<noteq> None" for r
  proof -
    have "sha_wf ty 0 (dirty_up (butlast p) ?k r)
        \<and> item_set (dirty_up (butlast p) ?k r) = (item_set n - {}) \<union> {it} \<and> item_set m \<subseteq> item_set n"
      by (rule walk_replace [OF wf w(1,3) that(1) _ _ fresh]) (use that(2) in auto)
    moreover have "\<exists>cs. dirty_up (butlast p) ?k r = Inner_node cs" using w(9) that(3) by blast
    ultimately show ?thesis using ty by (simp add: sha_root_def)
  qed
  show ?thesis
  proof (cases t)
    case None
    then obtain cs where m: "m = Inner_node cs" "child_at cs (select_branch e ?k) = None" using w(7) by auto
    have e: "e < 64" "length cs = 16" using w(4) m(1) by simp_all
    let ?r = "Inner_node (cs[select_branch e ?k := Some (Leaf_node ty it)])"
    have b: "select_branch e ?k < 16" using e(1) by (rule select_branch_bound)
    have its: "item_set ?r = insert it (item_set m)"
      using m e b by (simp add: item_set_update_empty)
    have "sha_wf ty e ?r"
    proof (rule sha_wf_update [OF w(4) [unfolded m(1)] b])
      show "2 \<le> card (item_set ?r)" if "e \<noteq> 0"
        unfolding its using w(4) m(1) that card_insert_le [of "item_set m" it] by simp
    qed (use assms(2) in auto)
    moreover have "add_item ty it n = Some (Inr (True, dirty_up (butlast p) ?k ?r))"
      using w(1-3) None m(1) ty by (simp add: add_item_def add_into_empty_branch_def)
    ultimately show ?thesis using rep [OF _ its] by blast
  next
    case (Some l)
    then obtain old where l: "l = Leaf_node ty old" "m = Leaf_node ty old" "old \<in> item_set n" using w(7) by auto
    have ne: "item_key old \<noteq> ?k" using fresh l(3) by blast
    obtain r where r: "split_loop ty it old [] e = Some r" "sha_wf ty e r" "item_set r = {it, old}"
      using split_loop_spec [of e old it ty] ne w(4,5,6) l(2) assms(2) by auto
    have "add_item ty it n = Some (Inr (True, dirty_up (butlast p) ?k r))"
      using w(1-3) Some l(1) ne ty split_loop_graft [of ty it old "butlast p" "[]" e] r(1)
      by (simp add: add_item_def add_with_leaf_split_def)
    then show ?thesis using rep [of r] r(2,3) l(2) Some by simp
  qed
qed

lemma add_item_old:
  assumes "sha_root ty n" "contents n (item_key it) = Some old" "t \<noteq> Inner_type"
  shows "add_item t it n = Some (Inr (False, n))"
proof -
  have wf: "sha_wf ty 0 n" using assms(1) by (simp add: sha_root_def)
  have old: "old \<in> item_set n" "item_key old = item_key it" using assms(2) contents_Some [OF wf] by auto
  obtain t p where "walk_towards_key 0 (item_key it) n = Some (t, p)" "p \<noteq> []"
      "\<forall>x \<in> item_set n. item_key x = item_key it \<longrightarrow> t = Some (Leaf_node ty x)"
    using walk_spec [OF wf, of "item_key it"] by (elim exE conjE)
  then show ?thesis using assms(3) old by (simp add: add_item_def add_with_leaf_split_def)
qed

lemma update_item_old:
  assumes "sha_root ty n" "key_ok (item_key it)" "contents n (item_key it) = Some old"
  shows "\<exists>n'. update_item ty it n = Some (Inr (True, n')) \<and> sha_root ty n'
    \<and> item_set n' = insert it (item_set n - {old})"
proof -
  let ?k = "item_key it"
  have wf: "sha_wf ty 0 n" and ty: "ty \<noteq> Inner_type" using assms(1) by (auto simp: sha_root_def)
  have old: "old \<in> item_set n" "item_key old = ?k" using assms(3) contents_Some [OF wf] by auto
  have only: "\<And>x. x \<in> item_set n \<Longrightarrow> item_key x = ?k \<Longrightarrow> x \<in> {old}"
    using sha_wf_inj [OF wf] old by simp
  obtain t p m e where w: "walk_towards_key 0 ?k n = Some (t, p)" "p \<noteq> []" "last p = (m, e)" "sha_wf ty e m"
      "e \<le> 64" "\<forall>x \<in> item_set m. same_prefix e (item_key x) ?k"
      "case t of None \<Rightarrow> \<exists>cs. m = Inner_node cs \<and> child_at cs (select_branch e ?k) = None
         | Some l \<Rightarrow> l = m \<and> (\<exists>it. m = Leaf_node ty it \<and> it \<in> item_set n)"
      "\<forall>x \<in> item_set n. item_key x = ?k \<longrightarrow> t = Some (Leaf_node ty x)"
      "\<forall>r. (\<exists>cs. r = Inner_node cs) \<or> t \<noteq> None \<longrightarrow> (\<exists>cs. dirty_up (butlast p) ?k r = Inner_node cs)"
    by (rule walk_root [OF assms(1), where k = ?k])
  have t: "t = Some (Leaf_node ty old)" using w(8) old by blast
  then have m: "m = Leaf_node ty old" using w(7) by simp
  let ?n' = "dirty_up (butlast p) ?k (Leaf_node ty it)"
  have "sha_wf ty 0 ?n' \<and> item_set ?n' = (item_set n - {old}) \<union> {it} \<and> item_set m \<subseteq> item_set n"
    by (rule walk_replace [OF wf w(1,3) _ _ _ only]) (use assms(2) m old(2) in auto)
  moreover have "\<exists>cs. ?n' = Inner_node cs" using w(9) t by blast
  moreover have "update_item ty it n = Some (Inr (True, ?n'))"
    using w(1) t ty old(2) by (simp add: update_item_def)
  ultimately show ?thesis using ty by (simp add: sha_root_def)
qed

lemma update_item_new:
  assumes "sha_root ty n" "contents n (item_key it) = None" "t \<noteq> Inner_type"
  shows "update_item t it n = Some (Inl (MissingExactLeaf (item_key it)))"
proof -
  have wf: "sha_wf ty 0 n" using assms(1) by (simp add: sha_root_def)
  obtain l p where w: "walk_towards_key 0 (item_key it) n = Some (l, p)"
      "\<forall>m. l = Some m \<longrightarrow> (\<exists>it. m = Leaf_node ty it \<and> it \<in> item_set n)"
    using walk_spec [OF wf, of "item_key it"] by (elim exE conjE)
  show ?thesis
  proof (cases l)
    case (Some m)
    then obtain x where "m = Leaf_node ty x" "item_key x \<noteq> item_key it"
      using w(2) assms(2) unfolding contents_None by blast
    then show ?thesis using w(1) Some assms(3) by (simp add: update_item_def)
  qed (use w(1) assms(3) in \<open>simp add: update_item_def\<close>)
qed

section \<open>Deletion\<close>

lemma sha_wf_nonempty: "sha_wf ty d n \<Longrightarrow> d \<noteq> 0 \<Longrightarrow> item_set n \<noteq> {}"
  by (cases n) auto

lemma item_set_only_child:
  assumes "filter (\<lambda>c. c \<noteq> None) cs = [Some c]"
  shows "item_set (Inner_node cs) = item_set c" "\<exists>b. child_at cs b = Some c"
proof -
  have s: "{x. Some x \<in> set cs} = {c}" using arg_cong [OF assms, of set] by auto
  then show "item_set (Inner_node cs) = item_set c" unfolding item_set_inner by simp
  show "\<exists>b. child_at cs b = Some c" using s set_child_at [of c cs] by blast
qed

lemma only_below_None:
  "sha_wf ty d n \<Longrightarrow> d \<noteq> 0 \<Longrightarrow> n = Inner_node cs \<Longrightarrow> only_below_leaf n = None"
proof (induction n arbitrary: d cs rule: only_below_leaf.induct)
  case (2 cs')
  show ?case
  proof (cases "\<exists>c. filter (\<lambda>c. c \<noteq> None) cs' = [Some c]")
    case True
    then obtain c where c: "filter (\<lambda>c. c \<noteq> None) cs' = [Some c]" by blast
    have wfc: "sha_wf ty (Suc d) c"
      using item_set_only_child(2) [OF c] sha_wf_child [OF "2.prems"(1)] by blast
    have "2 \<le> card (item_set c)" using "2.prems"(1,2) item_set_only_child(1) [OF c] by simp
    then obtain cs2 where "c = Inner_node cs2" by (cases c) auto
    then show ?thesis using "2.IH" [OF c refl refl wfc] c by simp
  next
    case False
    then show ?thesis by (auto split: list.splits option.splits)
  qed
qed simp

text \<open>The collapse of an inner node whose branch was shortened or removed.\<close>

lemma two_branches:
  assumes "2 \<le> branch_count (Inner_node cs)" "\<And>b n. child_at cs b = Some n \<Longrightarrow> item_set n \<noteq> {}"
    and "\<And>b n it. child_at cs b = Some n \<Longrightarrow> it \<in> item_set n \<Longrightarrow> select_branch d (item_key it) = b"
  shows "2 \<le> card (item_set (Inner_node cs))"
proof (rule ccontr)
  assume "\<not> 2 \<le> card (item_set (Inner_node cs))"
  then have one: "\<And>x y. x \<in> item_set (Inner_node cs) \<Longrightarrow> y \<in> item_set (Inner_node cs) \<Longrightarrow> x = y"
    using card_le_Suc0_iff_eq [of "item_set (Inner_node cs)"] by auto
  have "\<not> card {i. i < length cs \<and> cs ! i \<noteq> None} \<le> Suc 0"
    using assms(1) by (simp add: length_filter_conv_card)
  then obtain a b where ab: "a < length cs" "b < length cs" "cs ! a \<noteq> None" "cs ! b \<noteq> None" "a \<noteq> b"
    by (subst (asm) card_le_Suc0_iff_eq) auto
  then obtain m n where mn: "child_at cs a = Some m" "child_at cs b = Some n" by (auto simp: child_at_def)
  obtain x y where xy: "x \<in> item_set m" "y \<in> item_set n"
    using assms(2) [OF mn(1)] assms(2) [OF mn(2)] unfolding ex_in_conv [symmetric] by blast
  have "x = y" by (rule one) (use mn xy in \<open>unfold item_set_inner_iff, blast+\<close>)
  then show False using assms(3) [OF mn(1) xy(1)] assms(3) [OF mn(2) xy(2)] ab(5) by simp
qed

lemma collapse_spec:
  assumes "length cs = 16" "0 < d" "d < 64" "\<And>b n. child_at cs b = Some n \<Longrightarrow> sha_wf ty (Suc d) n"
    and "\<And>b n it. child_at cs b = Some n \<Longrightarrow> it \<in> item_set n \<Longrightarrow> select_branch d (item_key it) = b"
    and "item_set (Inner_node cs) \<noteq> {}"
  shows "branch_count (Inner_node cs) \<noteq> 0
    \<and> (if branch_count (Inner_node cs) = 1 \<and> only_below_leaf (Inner_node cs) \<noteq> None
       then \<exists>it. only_below_leaf (Inner_node cs) = Some (ty, it) \<and> key_ok (item_key it)
         \<and> item_set (Inner_node cs) = {it}
       else sha_wf ty d (Inner_node cs))"
proof -
  have ne: "filter (\<lambda>c. c \<noteq> None) cs \<noteq> []"
    using assms(6) unfolding item_set_inner by (auto simp: filter_empty_conv)
  have wf: "sha_wf ty d (Inner_node cs)" if "2 \<le> card (item_set (Inner_node cs))"
    by (rule sha_wf_innerI) (use assms that in auto)
  show ?thesis
  proof (cases "branch_count (Inner_node cs) = 1")
    case True
    then obtain y where y: "filter (\<lambda>c. c \<noteq> None) cs = [y]"
      by (auto simp: length_Suc_conv simp del: not_None_eq)
    then have "y \<noteq> None" by (metis (mono_tags) filter_eq_ConsD)
    then obtain c where c: "filter (\<lambda>c. c \<noteq> None) cs = [Some c]" using y by blast
    have wfc: "sha_wf ty (Suc d) c" using item_set_only_child(2) [OF c] assms(4) by blast
    show ?thesis
    proof (cases c)
      case (Leaf_node t it)
      then show ?thesis using True c wfc item_set_only_child(1) [OF c] by simp
    next
      case (Inner_node cs')
      then have "only_below_leaf c = None" using only_below_None [OF wfc] by simp
      moreover have "2 \<le> card (item_set (Inner_node cs))"
        unfolding item_set_only_child(1) [OF c] using wfc Inner_node by simp
      ultimately show ?thesis using True c wf by simp
    qed
  next
    case False
    then have "2 \<le> branch_count (Inner_node cs)" using ne by (cases "filter (\<lambda>c. c \<noteq> None) cs") (auto simp: Suc_le_eq)
    then have "2 \<le> card (item_set (Inner_node cs))"
      by (rule two_branches) (use assms(4,5) sha_wf_nonempty in blast)+
    then show ?thesis using False ne wf by simp
  qed
qed

definition opt_wf :: "node_type \<Rightarrow> nat \<Rightarrow> sha_item set \<Rightarrow> sha_node option \<Rightarrow> bool" where
  "opt_wf ty d S c \<longleftrightarrow>
     (case c of None \<Rightarrow> S = {} | Some n \<Rightarrow> sha_wf ty d n \<and> item_set n = S)"

lemma delete_step_spec:
  assumes "sha_wf ty d (Inner_node cs)" "child_at cs (select_branch d k) = Some c" "item_key old = k"
    and "old \<in> item_set c" "opt_wf ty (Suc d) (item_set c - {old}) prev"
  shows "opt_wf ty d (item_set (Inner_node cs) - {old}) (delete_step k (Inner_node cs, d) prev)
    \<and> (d = 0 \<longrightarrow> (\<exists>cs'. delete_step k (Inner_node cs, d) prev = Some (Inner_node cs')))"
proof -
  let ?b = "select_branch d k" and ?cs = "cs[select_branch d k := prev]"
  have d: "d < 64" "length cs = 16" using assms(1) by simp_all
  have b: "?b < 16" using d(1) by (rule select_branch_bound)
  have c_in: "item_set c \<subseteq> item_set (Inner_node cs)"
    by (rule subsetI) (use assms(2) in \<open>unfold item_set_inner_iff, blast\<close>)
  have prev: "sha_wf ty (Suc d) m \<and> item_set m = item_set c - {old}" if "prev = Some m" for m
    using assms(5) that by (simp add: opt_wf_def)
  have its: "item_set (Inner_node ?cs) = item_set (Inner_node cs) - {old}"
  proof -
    have "(case prev of None \<Rightarrow> {} | Some m \<Rightarrow> item_set m) = item_set c - {old}"
      using assms(5) by (auto simp: opt_wf_def split: option.splits)
    then show ?thesis
      unfolding item_set_update [OF assms(1) b] branch_items [OF assms(1,2)] using c_in assms(4) by auto
  qed
  have kids: "sha_wf ty (Suc d) m" "\<And>it. it \<in> item_set m \<Longrightarrow> select_branch d (item_key it) = a"
    if m: "child_at ?cs a = Some m" for a m
  proof (atomize (full), cases "a = ?b")
    case True
    then have "prev = Some m" using m d(2) b by (simp add: child_at_update)
    then show "sha_wf ty (Suc d) m \<and> (\<forall>it. it \<in> item_set m \<longrightarrow> select_branch d (item_key it) = a)"
      using prev [of m] sha_wf_branch [OF assms(1,2)] True by simp
  next
    case False
    then have "child_at cs a = Some m" using m d(2) b by (simp add: child_at_update)
    from sha_wf_child [OF assms(1) this] sha_wf_branch [OF assms(1) this]
    show "sha_wf ty (Suc d) m \<and> (\<forall>it. it \<in> item_set m \<longrightarrow> select_branch d (item_key it) = a)" by simp
  qed
  show ?thesis
  proof (cases "d = 0")
    case True
    have "sha_wf ty d (Inner_node ?cs)"
      by (rule sha_wf_innerI [OF _ d(1) kids]) (use d True in simp_all)
    then show ?thesis using True its by (simp add: delete_step_def opt_wf_def)
  next
    case False
    have ne: "item_set (Inner_node ?cs) \<noteq> {}"
    proof
      assume "item_set (Inner_node ?cs) = {}"
      then have "item_set (Inner_node cs) \<subseteq> {old}" unfolding its by simp
      then have "card (item_set (Inner_node cs)) \<le> card {old}" by (intro card_mono) simp_all
      then show False using assms(1) False by simp
    qed
    define node where "node = Inner_node ?cs"
    have "branch_count node \<noteq> 0
      \<and> (if branch_count node = 1 \<and> only_below_leaf node \<noteq> None
         then \<exists>it. only_below_leaf node = Some (ty, it) \<and> key_ok (item_key it) \<and> item_set node = {it}
         else sha_wf ty d node)"
      unfolding node_def by (rule collapse_spec [OF _ _ d(1) kids ne]) (use d False in simp_all)
    moreover have "delete_step k (Inner_node cs, d) prev =
       (if branch_count node = 0 then None
        else if branch_count node = 1 then
          (case only_below_leaf node of None \<Rightarrow> Some node | Some (t, it) \<Rightarrow> Some (Leaf_node t it))
        else Some node)"
      using False by (simp add: delete_step_def flip: node_def)
    ultimately show ?thesis
      unfolding its [symmetric] node_def [symmetric] opt_wf_def using False
      by (auto split: if_splits option.splits)
  qed
qed

lemma delete_walk:
  assumes "sha_wf ty d n" "walk_towards_key d k n = Some (Some (Leaf_node ty old), p)"
    and "item_key old = k" "old \<in> item_set n"
  shows "opt_wf ty d (item_set n - {old}) (foldr (delete_step k) (butlast p) None)
    \<and> (d = 0 \<and> butlast p \<noteq> [] \<longrightarrow> (\<exists>cs'. foldr (delete_step k) (butlast p) None = Some (Inner_node cs')))"
  using assms
proof (induction d k n arbitrary: p rule: walk_towards_key.induct)
  case (2 d k cs)
  have d: "\<not> SHAMAP_LEAF_DEPTH \<le> d" "d < 64" using "2.prems"(1) by (simp_all add: SHAMAP_LEAF_DEPTH_def)
  obtain c where c: "child_at cs (select_branch d k) = Some c"
    using "2.prems"(2) d by (auto split: option.splits)
  have wfc: "sha_wf ty (Suc d) c" by (rule sha_wf_child [OF "2.prems"(1) c])
  obtain p' where p': "walk_towards_key (Suc d) k c = Some (Some (Leaf_node ty old), p')"
      "p = (Inner_node cs, d) # p'"
    using "2.prems"(2) d c by (auto simp: map_option_case split: option.splits)
  have ne: "p' \<noteq> []" using walk_spec [OF wfc, of k] p'(1) by auto
  have old: "old \<in> item_set c"
    using walk_spec [OF wfc, of k] p'(1) by auto
  have "opt_wf ty (Suc d) (item_set c - {old}) (foldr (delete_step k) (butlast p') None)"
    using "2.IH" [OF d(1) c wfc p'(1) "2.prems"(3) old] by simp
  from delete_step_spec [OF "2.prems"(1) c "2.prems"(3) old this] show ?case using p'(2) ne by simp
qed (simp add: opt_wf_def)

lemma delete_item_old:
  assumes "sha_root ty n" "contents n k = Some old"
  shows "\<exists>n'. delete_item k n = Some (True, n') \<and> sha_root ty n' \<and> item_set n' = item_set n - {old}"
proof -
  have wf: "sha_wf ty 0 n" and ty: "ty \<noteq> Inner_type" using assms(1) by (auto simp: sha_root_def)
  obtain cs where n: "n = Inner_node cs" using assms(1) by (auto simp: sha_root_def)
  have old: "old \<in> item_set n" "item_key old = k" using assms(2) contents_Some [OF wf] by auto
  obtain p where p: "walk_towards_key 0 k n = Some (Some (Leaf_node ty old), p)" "p \<noteq> []" "hd p = (n, 0)"
    using walk_spec [OF wf, of k] old by auto
  have "butlast p \<noteq> []"
  proof
    assume "butlast p = []"
    then have "p = [(n, 0)]" using p(2,3) by (metis append_butlast_last_id append_Nil list.sel(1))
    then show False using walk_last [OF wf same_prefix_0 p(1)] n by auto
  qed
  then obtain cs' where r: "foldr (delete_step k) (butlast p) None = Some (Inner_node cs')"
      "opt_wf ty 0 (item_set n - {old}) (Some (Inner_node cs'))"
    using delete_walk [OF wf p(1) old(2,1)] by auto
  then show ?thesis using p(1) old(2) ty by (simp add: delete_item_def opt_wf_def sha_root_def)
qed

lemma delete_item_new:
  assumes "sha_root ty n" "contents n k = None"
  shows "delete_item k n = Some (False, n)"
proof -
  have wf: "sha_wf ty 0 n" using assms(1) by (simp add: sha_root_def)
  obtain l p where w: "walk_towards_key 0 k n = Some (l, p)"
      "\<forall>m. l = Some m \<longrightarrow> (\<exists>it. m = Leaf_node ty it \<and> it \<in> item_set n)"
    using walk_spec [OF wf, of k] by (elim exE conjE)
  show ?thesis
  proof (cases l)
    case (Some m)
    then obtain x where "m = Leaf_node ty x" "item_key x \<noteq> k"
      using w(2) assms(2) unfolding contents_None by blast
    then show ?thesis using w(1) Some by (simp add: delete_item_def)
  qed (use w(1) in \<open>simp add: delete_item_def\<close>)
qed

end
