(* ===== verification/SHAMap_Hash.thy ===== *)
theory SHAMap_Hash
  imports SHAMap_Map
begin

text \<open>
  Identity of SHAMaps: trees with the same items are equal, and trees with the same root hash are
  equal unless two of the preimages hashed in them collide. The hash function is a parameter;
  \<open>collision_free\<close> states what is needed of it on a given set of preimages.
\<close>

section \<open>Children and items\<close>

lemma distinct_concat_tagged:
  assumes "distinct bs" "\<And>b. b \<in> set bs \<Longrightarrow> distinct (f b)" "\<And>b x. b \<in> set bs \<Longrightarrow> x \<in> set (f b) \<Longrightarrow> g x = b"
  shows "distinct (concat (map f bs))"
  using assms
proof (induction bs)
  case (Cons b bs)
  have "x \<notin> set (concat (map f bs))" if x: "x \<in> set (f b)" for x
  proof
    assume "x \<in> set (concat (map f bs))"
    then obtain c where c: "c \<in> set bs" "x \<in> set (f c)" by auto
    have "g x = b" "g x = c" using Cons.prems(3) x c by (meson list.set_intros)+
    then show False using Cons.prems(1) c(1) by simp
  qed
  then show ?case using Cons by auto
qed simp

lemma items_inner:
  "length cs = 16 \<Longrightarrow> items (Inner_node cs) =
     concat (map (\<lambda>b. case child_at cs b of None \<Rightarrow> [] | Some n \<Rightarrow> items n) [0..<16])"
proof -
  assume "length cs = 16"
  then have "cs = map (child_at cs) [0..<16]" by (intro nth_equalityI) (simp_all add: child_at_def)
  then show ?thesis by (metis (no_types, lifting) items.simps(2) map_map comp_apply map_eq_conv)
qed

lemma items_distinct: "sha_wf ty d n \<Longrightarrow> distinct (map item_key (items n))"
proof (induction n arbitrary: d)
  case (Inner_node cs)
  have len: "length cs = 16" using Inner_node.prems by simp
  have "map item_key (items (Inner_node cs)) =
      concat (map (\<lambda>b. map item_key (case child_at cs b of None \<Rightarrow> [] | Some n \<Rightarrow> items n)) [0..<16])"
    by (simp only: items_inner [OF len] map_concat map_map comp_def)
  moreover have "distinct (concat (map (\<lambda>b. map item_key (case child_at cs b of None \<Rightarrow> [] | Some n \<Rightarrow> items n)) [0..<16]))"
  proof (rule distinct_concat_tagged [where g = "select_branch d"])
    fix b
    show "distinct (map item_key (case child_at cs b of None \<Rightarrow> [] | Some n \<Rightarrow> items n))"
    proof (cases "child_at cs b")
      case (Some n)
      then show ?thesis
        using Inner_node.IH [OF child_at_set [OF Some], of n "Suc d"] sha_wf_child [OF Inner_node.prems Some] by simp
    qed simp
    show "select_branch d k = b" if "k \<in> set (map item_key (case child_at cs b of None \<Rightarrow> [] | Some n \<Rightarrow> items n))" for k
      using that by (cases "child_at cs b") (auto dest: sha_wf_branch [OF Inner_node.prems])
  qed simp
  ultimately show ?case by simp
qed simp

lemma contents_inner:
  assumes "sha_wf ty d (Inner_node cs)"
  shows "contents (Inner_node cs) k =
    (case child_at cs (select_branch d k) of None \<Rightarrow> None | Some n \<Rightarrow> contents n k)"
proof (cases "contents (Inner_node cs) k")
  case (Some it)
  then have "it \<in> item_set (Inner_node cs)" "item_key it = k" using contents_Some [OF assms] by auto
  then obtain b n where n: "child_at cs b = Some n" "it \<in> item_set n" unfolding item_set_inner_iff by blast
  then have b: "b = select_branch d k" using sha_wf_branch [OF assms n] \<open>item_key it = k\<close> by simp
  have "contents n k = Some it"
    using contents_Some [OF sha_wf_child [OF assms n(1)]] n(2) \<open>item_key it = k\<close> by simp
  then show ?thesis using Some n(1) b by simp
next
  case None
  then have no: "\<And>it. it \<in> item_set (Inner_node cs) \<Longrightarrow> item_key it \<noteq> k" unfolding contents_None by blast
  have "contents n k = None" if "child_at cs b = Some n" for b n
    unfolding contents_None using no that item_set_inner_iff by blast
  then show ?thesis using None by (simp split: option.split)
qed

lemma item_set_child:
  assumes "sha_wf ty d (Inner_node cs)"
  shows "(case child_at cs b of None \<Rightarrow> {} | Some n \<Rightarrow> item_set n) =
    {it \<in> item_set (Inner_node cs). select_branch d (item_key it) = b}"
proof (rule set_eqI)
  fix it
  show "it \<in> (case child_at cs b of None \<Rightarrow> {} | Some n \<Rightarrow> item_set n) \<longleftrightarrow>
      it \<in> {it \<in> item_set (Inner_node cs). select_branch d (item_key it) = b}"
    unfolding mem_Collect_eq item_set_inner_iff
    using sha_wf_branch [OF assms] by (auto split: option.splits)
qed

section \<open>Canonical form\<close>

lemma sha_wf_inner_or_leaf:
  assumes "sha_wf ty d n" "d \<noteq> 0"
  shows "(\<exists>it. n = Leaf_node ty it \<and> item_set n = {it}) \<or> (\<exists>cs. n = Inner_node cs \<and> 2 \<le> card (item_set n))"
  using assms by (cases n) auto

lemma children_eqI:
  assumes "length cs = 16" "length cs' = 16" "\<And>b. child_at cs b = child_at cs' b"
  shows "cs = cs'"
proof (rule nth_equalityI)
  show "cs ! i = cs' ! i" if "i < length cs" for i using assms(3) [of i] that assms(1,2) by (simp add: child_at_def)
qed (use assms in simp)

lemma sha_wf_canonical:
  assumes "sha_wf ty d n" "sha_wf ty d m" "item_set n = item_set m"
    and "d = 0 \<Longrightarrow> (\<exists>cs. n = Inner_node cs) \<and> (\<exists>cs. m = Inner_node cs)"
  shows "n = m"
  using assms
proof (induction n arbitrary: d m)
  case (Leaf_node t it)
  then have "d \<noteq> 0" by blast
  have "card (item_set m) = 1" using Leaf_node.prems(3) [symmetric] by simp
  then obtain it' where "m = Leaf_node ty it'" "item_set m = {it'}"
    using sha_wf_inner_or_leaf [OF Leaf_node.prems(2) \<open>d \<noteq> 0\<close>] by fastforce
  then show ?case using Leaf_node.prems(1,3) by simp
next
  case (Inner_node cs)
  obtain cs' where m: "m = Inner_node cs'"
  proof (cases "d = 0")
    case False
    then have "2 \<le> card (item_set m)" using Inner_node.prems(1,3) by simp
    then show ?thesis
      using sha_wf_inner_or_leaf [OF Inner_node.prems(2) False] that by fastforce
  qed (use Inner_node.prems(4) that in blast)
  note wf = Inner_node.prems(1) Inner_node.prems(2) [unfolded m]
  have eq: "child_at cs b = child_at cs' b" for b
  proof -
    have eq: "(case child_at cs b of None \<Rightarrow> {} | Some n \<Rightarrow> item_set n) =
        (case child_at cs' b of None \<Rightarrow> {} | Some n \<Rightarrow> item_set n)"
      unfolding item_set_child [OF wf(1)] item_set_child [OF wf(2)] using Inner_node.prems(3) m by simp
    have ne: "item_set c \<noteq> {}" if "child_at cs b = Some c \<or> child_at cs' b = Some c" for c
      using that sha_wf_child [OF wf(1)] sha_wf_child [OF wf(2)] sha_wf_nonempty [of ty "Suc d" c] by blast
    show ?thesis
    proof (cases "child_at cs b"; cases "child_at cs' b")
      fix c c' assume c: "child_at cs b = Some c" "child_at cs' b = Some c'"
      then have "item_set c = item_set c'" using eq by simp
      then have "c = c'"
        using Inner_node.IH [OF child_at_set [OF c(1)], of c "Suc d" c'] sha_wf_child [OF wf(1) c(1)]
          sha_wf_child [OF wf(2) c(2)] by simp
      then show ?thesis using c by simp
    qed (use eq ne in \<open>auto simp del: set_empty\<close>)
  qed
  have "cs = cs'" by (rule children_eqI) (use wf eq in simp_all)
  then show ?case using m by simp
qed

lemma sha_root_canonical:
  assumes "sha_root ty n" "sha_root ty m" "\<And>k. contents n k = contents m k"
  shows "n = m"
proof -
  have wf: "sha_wf ty 0 n" "sha_wf ty 0 m" using assms by (auto simp: sha_root_def)
  have "it \<in> item_set n \<longleftrightarrow> it \<in> item_set m" for it
    using contents_Some [OF wf(1), of "item_key it" it] contents_Some [OF wf(2), of "item_key it" it] assms(3)
    by simp
  then have "item_set n = item_set m" by blast
  then show ?thesis using sha_wf_canonical [OF wf] assms(1,2) by (auto simp: sha_root_def)
qed

section \<open>Hashes\<close>

text \<open>The preimages hashed in a tree.\<close>

fun preimages :: "(preimage \<Rightarrow> nat) \<Rightarrow> sha_node \<Rightarrow> preimage set" where
  "preimages H (Leaf_node t it) = {leaf_preimage t it}"
| "preimages H (Inner_node cs) =
     insert (Pre_inner (map (child_hash H) cs))
       (\<Union>c \<in> set cs. case c of None \<Rightarrow> {} | Some n \<Rightarrow> preimages H n)"

definition collision_free :: "(preimage \<Rightarrow> nat) \<Rightarrow> preimage set \<Rightarrow> bool" where
  "collision_free H P \<longleftrightarrow> inj_on H P \<and> 0 \<notin> H ` P"

lemma collision_freeD:
  assumes "collision_free H P" "x \<in> P"
  shows "H x \<noteq> 0" "y \<in> P \<Longrightarrow> H x = H y \<Longrightarrow> x = y"
  using assms by (auto simp: collision_free_def dest: inj_onD)

lemma collision_free_mono: "collision_free H P \<Longrightarrow> Q \<subseteq> P \<Longrightarrow> collision_free H Q"
  by (auto simp: collision_free_def intro: inj_on_subset)

text \<open>
  The key of a transaction is the hash of its blob, which is why the leaf preimage of a transaction
  without metadata leaves it out.
\<close>

definition addressed :: "(preimage \<Rightarrow> nat) \<Rightarrow> node_type \<Rightarrow> sha_item \<Rightarrow> bool" where
  "addressed H ty it \<longleftrightarrow> (ty = TransactionNm \<longrightarrow> item_key it = H (leaf_preimage TransactionNm it))"

lemma leaf_preimage_inj:
  assumes "leaf_preimage ty it = leaf_preimage ty it'" "addressed H ty it" "addressed H ty it'"
  shows "it = it'"
  using assms by (cases ty) (auto simp: addressed_def intro: sha_item.equality)

lemma preimages_child: "child_at cs b = Some c \<Longrightarrow> preimages H c \<subseteq> preimages H (Inner_node cs)"
  using child_at_set [of cs b c] by fastforce

lemma node_hash_preimage:
  assumes "sha_wf ty d n" "d \<noteq> 0"
  shows "\<exists>x. node_hash H n = H x \<and> x \<in> preimages H n \<and>
    (case n of Leaf_node t it \<Rightarrow> x = leaf_preimage t it | Inner_node cs \<Rightarrow> x = Pre_inner (map (child_hash H) cs))"
proof (cases n)
  case (Inner_node cs)
  have "\<exists>it. it \<in> item_set (Inner_node cs)"
    using sha_wf_nonempty [OF assms] Inner_node unfolding ex_in_conv by simp
  then have "\<not> (\<forall>c \<in> set cs. c = None)" unfolding item_set_inner_iff using child_at_set by fastforce
  then show ?thesis using Inner_node by (auto simp: child_hash_def [abs_def])
qed simp

text \<open>The hash of an inner node determines the hashes of its children.\<close>

lemma node_hash_inner:
  assumes "sha_wf ty d (Inner_node cs)" "sha_wf ty d (Inner_node cs')"
    and "collision_free H (preimages H (Inner_node cs) \<union> preimages H (Inner_node cs'))"
    and "node_hash H (Inner_node cs) = node_hash H (Inner_node cs')"
  shows "child_hash H (child_at cs b) = child_hash H (child_at cs' b)"
proof -
  have len: "length cs = 16" "length cs' = 16" using assms(1,2) by simp_all
  define x where "x = Pre_inner (map (child_hash H) cs)"
  define x' where "x' = Pre_inner (map (child_hash H) cs')"
  have h: "node_hash H (Inner_node cs) = (if \<forall>c \<in> set cs. c = None then 0 else H x)"
    "node_hash H (Inner_node cs') = (if \<forall>c \<in> set cs'. c = None then 0 else H x')"
    by (simp_all add: x_def x'_def child_hash_def [abs_def] del: not_None_eq)
  have pre: "x \<in> preimages H (Inner_node cs) \<union> preimages H (Inner_node cs')"
    "x' \<in> preimages H (Inner_node cs) \<union> preimages H (Inner_node cs')" by (simp_all add: x_def x'_def)
  note nz = collision_freeD(1) [OF assms(3) pre(1)] collision_freeD(1) [OF assms(3) pre(2)]
  note inj = collision_freeD(2) [OF assms(3) pre]
  have none: "child_at ds b = None" if "\<forall>c \<in> set ds. c = None" for ds
    using that child_at_set [of ds b] by (cases "child_at ds b") auto
  show ?thesis
  proof (cases "\<forall>c \<in> set cs. c = None")
    case True
    then have "\<forall>c \<in> set cs'. c = None" using assms(4) h nz by (simp split: if_splits)
    then show ?thesis using none True by simp
  next
    case False
    then have "\<not> (\<forall>c \<in> set cs'. c = None)" using assms(4) h nz by (metis (full_types))
    then have "H x = H x'" using False assms(4) h by metis
    then have "x = x'" by (rule inj)
    then have m: "map (child_hash H) cs = map (child_hash H) cs'" by (simp add: x_def x'_def)
    show ?thesis
    proof (cases "b < 16")
      case True
      then have "map (child_hash H) cs ! b = map (child_hash H) cs' ! b" using m by simp
      then show ?thesis using True len by (simp add: child_at_def)
    qed (use len in \<open>simp add: child_at_def\<close>)
  qed
qed

lemma node_hash_inj:
  assumes "sha_wf ty d n" "sha_wf ty d m" "collision_free H (preimages H n \<union> preimages H m)"
    and "\<And>it. it \<in> item_set n \<union> item_set m \<Longrightarrow> addressed H ty it"
    and "node_hash H n = node_hash H m"
    and "d = 0 \<Longrightarrow> (\<exists>cs. n = Inner_node cs) \<and> (\<exists>cs. m = Inner_node cs)"
  shows "n = m"
  using assms
proof (induction n arbitrary: d m)
  case (Leaf_node t it)
  then have d: "d \<noteq> 0" by blast
  obtain x where x: "node_hash H m = H x" "x \<in> preimages H m"
      "case m of Leaf_node t it \<Rightarrow> x = leaf_preimage t it | Inner_node cs \<Rightarrow> x = Pre_inner (map (child_hash H) cs)"
    using node_hash_preimage [OF Leaf_node.prems(2) d] by blast
  have t: "t = ty" using Leaf_node.prems(1) by simp
  have "leaf_preimage ty it = x"
    by (rule collision_freeD(2) [OF Leaf_node.prems(3)]) (use Leaf_node.prems(5) x t in simp_all)
  moreover have "\<exists>p q r. leaf_preimage ty it = Pre_leaf p q r" by (cases ty) simp_all
  ultimately obtain it' where m: "m = Leaf_node ty it'" "leaf_preimage ty it = leaf_preimage ty it'"
    using x(3) Leaf_node.prems(2) by (cases m) auto
  then show ?case using leaf_preimage_inj [OF m(2), of H] Leaf_node.prems(4) t by simp
next
  case (Inner_node cs)
  have "\<exists>cs'. m = Inner_node cs'"
  proof (cases "d = 0")
    case False
    obtain x where x: "node_hash H (Inner_node cs) = H x" "x = Pre_inner (map (child_hash H) cs)"
        "x \<in> preimages H (Inner_node cs)"
      using node_hash_preimage [OF Inner_node.prems(1) False] by auto
    obtain y where y: "node_hash H m = H y" "y \<in> preimages H m"
      "case m of Leaf_node t it \<Rightarrow> y = leaf_preimage t it | Inner_node cs \<Rightarrow> y = Pre_inner (map (child_hash H) cs)"
      using node_hash_preimage [OF Inner_node.prems(2) False] by blast
    have "x = y" by (rule collision_freeD(2) [OF Inner_node.prems(3)]) (use Inner_node.prems(5) x y in simp_all)
    moreover have "\<exists>p q r. leaf_preimage t it = Pre_leaf p q r" for t it by (cases t) simp_all
    ultimately show ?thesis using x(2) y(3) by (cases m) (auto simp del: leaf_preimage.simps, metis preimage.distinct(1))
  qed (use Inner_node.prems(6) in blast)
  then obtain cs' where m: "m = Inner_node cs'" by blast
  note wf = Inner_node.prems(1) Inner_node.prems(2) [unfolded m]
  have "child_at cs b = child_at cs' b" for b
  proof -
    have eq: "child_hash H (child_at cs b) = child_hash H (child_at cs' b)"
      by (rule node_hash_inner [OF wf Inner_node.prems(3,5) [unfolded m]])
    have sub: "preimages H c \<subseteq> preimages H (Inner_node cs) \<union> preimages H m"
      if "child_at cs b = Some c \<or> child_at cs' b = Some c" for c
      using that preimages_child [of cs b c H] preimages_child [of cs' b c H] m by blast
    have nz: "node_hash H c \<noteq> 0" if c: "child_at cs b = Some c \<or> child_at cs' b = Some c" for c
    proof -
      have "sha_wf ty (Suc d) c" using c sha_wf_child [OF wf(1)] sha_wf_child [OF wf(2)] by blast
      then obtain x where "node_hash H c = H x" "x \<in> preimages H c" using node_hash_preimage by blast
      then show ?thesis using sub [OF c] collision_freeD(1) [OF Inner_node.prems(3), of x] by auto
    qed
    show ?thesis
    proof (cases "child_at cs b"; cases "child_at cs' b")
      fix c c' assume c: "child_at cs b = Some c" "child_at cs' b = Some c'"
      have "c = c'"
      proof (rule Inner_node.IH [OF child_at_set [OF c(1)], of c "Suc d" c'])
        show "collision_free H (preimages H c \<union> preimages H c')"
          by (rule collision_free_mono [OF Inner_node.prems(3)]) (use sub c in blast)
        show "addressed H ty it" if "it \<in> item_set c \<union> item_set c'" for it
        proof (rule Inner_node.prems(4))
          show "it \<in> item_set (Inner_node cs) \<union> item_set m"
            using that c unfolding m Un_iff item_set_inner_iff by blast
        qed
        show "node_hash H c = node_hash H c'" using eq c by (simp add: child_hash_def)
      qed (use c sha_wf_child [OF wf(1)] sha_wf_child [OF wf(2)] in simp_all)
      then show ?thesis using c by simp
    qed (use eq nz in \<open>simp_all add: child_hash_def\<close>)
  qed
  then have "cs = cs'" using wf by (intro children_eqI) simp_all
  then show ?case using m by simp
qed

end
