(* ===== verification/SHAMap_Compare.thy ===== *)
theory SHAMap_Compare
  imports SHAMap_Hash "HOL-Library.Multiset"
begin

text \<open>
  The difference of two SHAMaps, \<^verbatim>\<open>shamap/src/operations/compare.rs\<close>: \<^verbatim>\<open>compare\<close> walks both
  trees with an explicit stack, skips the branches whose hashes agree and records up to
  \<^verbatim>\<open>max_count\<close> differing keys. The trees are held in memory, as they are for the transaction sets
  of consensus, so no node is fetched. \<^term>\<open>None\<close> is a failed \<^verbatim>\<open>expect\<close>.

  The lemmas show that, unless two node preimages collide, the recorded differences are exactly
  the keys whose items differ, whenever there are fewer of them than \<^verbatim>\<open>max_count\<close>.
\<close>

section \<open>The code\<close>

type_synonym delta_item = "sha_item option \<times> sha_item option"

type_synonym delta = "(nat, delta_item) btree"

type_synonym compare_state = "delta \<times> int"

definition record_difference ::
  "nat \<Rightarrow> sha_item option \<Rightarrow> sha_item option \<Rightarrow> compare_state \<Rightarrow> bool \<times> compare_state" where
  "record_difference k l r st =
     (let (differences, max_count) = st;
          differences' =
            (case map_of differences k of None \<Rightarrow> btree_insert k (l, r) differences | Some _ \<Rightarrow> differences);
          max_count' = max_count - 1
      in (0 < max_count', (differences', max_count')))"

text \<open>The two arms of every \<^verbatim>\<open>if is_first_map\<close>: the item on the side of the walked map.\<close>

definition record_side ::
  "bool \<Rightarrow> sha_item option \<Rightarrow> sha_item option \<Rightarrow> nat \<Rightarrow> compare_state \<Rightarrow> bool \<times> compare_state" where
  "record_side is_first_map own other k st =
     (if is_first_map then record_difference k own other st else record_difference k other own st)"

definition push_children :: "sha_node option list \<Rightarrow> sha_node list \<Rightarrow> sha_node list" where
  "push_children cs stack = fold (\<lambda>c s. case c of None \<Rightarrow> s | Some n \<Rightarrow> n # s) cs stack"

lemma push_children_size:
  "sum_list (map (\<lambda>n. Suc (size n)) (push_children cs stack))
     \<le> size_list (size_option size) cs + sum_list (map (\<lambda>n. Suc (size n)) stack)"
proof (induction cs arbitrary: stack)
  case (Cons c cs)
  show ?case using Cons.IH [of "case c of None \<Rightarrow> stack | Some n \<Rightarrow> n # stack"]
    by (cases c) (simp_all add: push_children_def)
qed (simp add: push_children_def)

text \<open>The loop of \<^verbatim>\<open>walk_branch\<close>: whether to continue, \<^verbatim>\<open>empty_branch\<close>, and the differences.\<close>

function walk_loop ::
  "bool \<Rightarrow> sha_item option \<Rightarrow> bool \<Rightarrow> sha_node list \<Rightarrow> compare_state
    \<Rightarrow> (bool \<times> bool \<times> compare_state) option" where
  "walk_loop is_first_map other empty_branch [] st = Some (True, empty_branch, st)"
| "walk_loop is_first_map other empty_branch (Inner_node cs # stack) st =
     walk_loop is_first_map other empty_branch (push_children cs stack) st"
| "walk_loop is_first_map other empty_branch (Leaf_node t it # stack) st =
     (if empty_branch then
        let (can_continue, st') = record_side is_first_map (Some it) None (item_key it) st
        in if can_continue then walk_loop is_first_map other empty_branch stack st'
           else Some (False, empty_branch, st')
      else case other of
             None \<Rightarrow> None
           | Some other_item \<Rightarrow>
               if item_key it \<noteq> item_key other_item then
                 let (can_continue, st') = record_side is_first_map (Some it) None (item_key it) st
                 in if can_continue then walk_loop is_first_map other empty_branch stack st'
                    else Some (False, empty_branch, st')
               else if item_data it \<noteq> item_data other_item then
                 let (can_continue, st') =
                   record_side is_first_map (Some it) (Some other_item) (item_key it) st
                 in if can_continue then walk_loop is_first_map other True stack st'
                    else Some (False, empty_branch, st')
               else walk_loop is_first_map other True stack st)"
  by pat_completeness auto
termination
  by (relation "measure (\<lambda>(f, oi, e, stack, st). sum_list (map (\<lambda>n. Suc (size n)) stack))")
    (auto intro: le_less_trans [OF push_children_size])

text \<open>What follows the loop: a leaf of the other map that was not met.\<close>

definition walk_finish ::
  "bool \<Rightarrow> sha_item option \<Rightarrow> bool \<times> bool \<times> compare_state \<Rightarrow> (bool \<times> compare_state) option" where
  "walk_finish is_first_map other res =
     (let (can_continue, empty_branch, st) = res
      in if \<not> can_continue then Some (False, st)
         else if empty_branch then Some (True, st)
         else case other of
                None \<Rightarrow> None
              | Some other_item \<Rightarrow>
                  Some (record_side is_first_map None (Some other_item) (item_key other_item) st))"

definition walk_branch ::
  "sha_node \<Rightarrow> sha_item option \<Rightarrow> bool \<Rightarrow> compare_state \<Rightarrow> (bool \<times> compare_state) option" where
  "walk_branch n other is_first_map st =
     walk_loop is_first_map other (other = None) [n] st \<bind> walk_finish is_first_map other"

text \<open>The loop over the branches of two inner nodes; pairs to compare go on the stack.\<close>

fun compare_branches ::
  "(preimage \<Rightarrow> nat) \<Rightarrow> sha_node option list \<Rightarrow> sha_node option list \<Rightarrow> nat list
    \<Rightarrow> (sha_node \<times> sha_node) list \<Rightarrow> compare_state
    \<Rightarrow> (bool \<times> (sha_node \<times> sha_node) list \<times> compare_state) option" where
  "compare_branches H ls rs [] stack st = Some (True, stack, st)"
| "compare_branches H ls rs (b # bs) stack st =
     (if child_hash H (child_at ls b) = child_hash H (child_at rs b) then
        compare_branches H ls rs bs stack st
      else
        case (child_at ls b, child_at rs b) of
          (None, None) \<Rightarrow> None
        | (Some l, None) \<Rightarrow>
            do {
              (can_continue, st') \<leftarrow> walk_branch l None True st;
              (if can_continue then compare_branches H ls rs bs stack st' else Some (False, stack, st'))
            }
        | (None, Some r) \<Rightarrow>
            do {
              (can_continue, st') \<leftarrow> walk_branch r None False st;
              (if can_continue then compare_branches H ls rs bs stack st' else Some (False, stack, st'))
            }
        | (Some l, Some r) \<Rightarrow> compare_branches H ls rs bs ((l, r) # stack) st)"

lemma compare_branches_pushed:
  "compare_branches H ls rs bs stack st = Some (ok, stack', st') \<Longrightarrow>
     \<exists>ps. stack' = ps @ stack \<and> (\<forall>p \<in> set ps. size (fst p) < size (Inner_node ls))"
proof (induction bs arbitrary: stack st)
  case (Cons b bs)
  show ?case
  proof (cases "child_hash H (child_at ls b) = child_hash H (child_at rs b)")
    case False
    show ?thesis
    proof (cases "child_at ls b"; cases "child_at rs b")
      fix l r
      assume lr: "child_at ls b = Some l" "child_at rs b = Some r"
      then have "compare_branches H ls rs bs ((l, r) # stack) st = Some (ok, stack', st')"
        using Cons.prems False by simp
      from Cons.IH [OF this]
      obtain ps where "stack' = (ps @ [(l, r)]) @ stack" "\<forall>p \<in> set ps. size (fst p) < size (Inner_node ls)"
        by auto
      moreover have "size l < size (Inner_node ls)" by (rule size_child_at [OF lr(1)])
      ultimately show ?thesis by (intro exI [of _ "ps @ [(l, r)]"]) auto
    qed (use Cons False in \<open>auto split: prod.splits if_splits bind_splits\<close>)
  qed (use Cons in simp)
qed simp

definition stack_less :: "((sha_node \<times> sha_node) list \<times> (sha_node \<times> sha_node) list) set" where
  "stack_less = inv_image (mult less_than) (\<lambda>stack. mset (map (size \<circ> fst) stack))"

lemma wf_stack_less: "wf stack_less"
  by (simp add: stack_less_def wf_mult)

lemma stack_less_expand:
  assumes "\<forall>p \<in> set ps. size (fst p) < size (fst q)"
  shows "(ps @ stack, q # stack) \<in> stack_less"
proof -
  have "(mset (map (size \<circ> fst) stack) + mset (map (size \<circ> fst) ps),
      mset (map (size \<circ> fst) stack) + {#size (fst q)#}) \<in> mult less_than"
    by (rule one_step_implies_mult) (use assms in auto)
  then show ?thesis by (simp add: stack_less_def add.commute)
qed

lemmas stack_less_pop = stack_less_expand [of "[]", simplified]

lemma stack_less_branches:
  "compare_branches H ls rs bs stack st = Some (ok, stack', st') \<Longrightarrow>
     (stack', (Inner_node ls, r) # stack) \<in> stack_less"
  by (drule compare_branches_pushed) (auto intro!: stack_less_expand)

text \<open>The loop of \<^verbatim>\<open>compare\<close>.\<close>

function compare_loop ::
  "(preimage \<Rightarrow> nat) \<Rightarrow> (sha_node \<times> sha_node) list \<Rightarrow> compare_state \<Rightarrow> (bool \<times> compare_state) option" where
  "compare_loop H [] st = Some (True, st)"
| "compare_loop H ((Leaf_node t l, Leaf_node t' r) # stack) st =
     (if item_key l = item_key r then
        if item_data l \<noteq> item_data r then
          let (can_continue, st') = record_difference (item_key l) (Some l) (Some r) st
          in if can_continue then compare_loop H stack st' else Some (False, st')
        else compare_loop H stack st
      else
        let (can_continue, st') = record_difference (item_key l) (Some l) None st
        in if \<not> can_continue then Some (False, st')
           else
             let (can_continue', st'') = record_difference (item_key r) None (Some r) st'
             in if can_continue' then compare_loop H stack st'' else Some (False, st''))"
| "compare_loop H ((Inner_node ls, Leaf_node t' r) # stack) st =
     do {
       (can_continue, st') \<leftarrow> walk_branch (Inner_node ls) (Some r) True st;
       (if can_continue then compare_loop H stack st' else Some (False, st'))
     }"
| "compare_loop H ((Leaf_node t l, Inner_node rs) # stack) st =
     do {
       (can_continue, st') \<leftarrow> walk_branch (Inner_node rs) (Some l) False st;
       (if can_continue then compare_loop H stack st' else Some (False, st'))
     }"
| "compare_loop H ((Inner_node ls, Inner_node rs) # stack) st =
     (case compare_branches H ls rs [0..<BRANCH_FACTOR] stack st of
        None \<Rightarrow> None
      | Some (can_continue, stack', st') \<Rightarrow>
          if can_continue then compare_loop H stack' st' else Some (False, st'))"
  by pat_completeness auto
termination
  by (relation "inv_image stack_less (\<lambda>(H, stack, st). stack)")
    (auto simp: wf_stack_less stack_less_pop intro: stack_less_branches)

definition compare ::
  "(preimage \<Rightarrow> nat) \<Rightarrow> sha_node \<Rightarrow> sha_node \<Rightarrow> compare_state \<Rightarrow> (bool \<times> compare_state) option" where
  "compare H l r st =
     (if node_hash H l = node_hash H r then Some (True, st) else compare_loop H [(l, r)] st)"

section \<open>The differences as a list of records\<close>

type_synonym record_event = "nat \<times> delta_item"

fun record_all :: "record_event list \<Rightarrow> compare_state \<Rightarrow> bool \<times> compare_state" where
  "record_all [] st = (True, st)"
| "record_all ((k, l, r) # es) st =
     (let (can_continue, st') = record_difference k l r st
      in if can_continue then record_all es st' else (False, st'))"

lemma record_all_append:
  "record_all (es @ fs) st =
     (let (can_continue, st') = record_all es st in if can_continue then record_all fs st' else (False, st'))"
  by (induction es st rule: record_all.induct) (simp_all add: Let_def split: prod.split)

definition side :: "bool \<Rightarrow> sha_item option \<Rightarrow> sha_item option \<Rightarrow> delta_item" where
  "side is_first_map own other = (if is_first_map then (own, other) else (other, own))"

lemma record_all_side:
  "record_all ((k, side f own other) # es) st =
     (let (can_continue, st') = record_side f own other k st
      in if can_continue then record_all es st' else (False, st'))"
  by (simp add: record_side_def side_def Let_def split: prod.split)

text \<open>What \<^verbatim>\<open>walk_branch\<close> records for a list of leaves.\<close>

fun walk_events :: "bool \<Rightarrow> sha_item option \<Rightarrow> bool \<Rightarrow> sha_item list \<Rightarrow> record_event list" where
  "walk_events f other empty_branch [] =
     (case other of
        Some oi \<Rightarrow> if empty_branch then [] else [(item_key oi, side f None (Some oi))]
      | None \<Rightarrow> [])"
| "walk_events f other empty_branch (it # its) =
     (case (empty_branch, other) of
        (False, Some oi) \<Rightarrow>
          if item_key it \<noteq> item_key oi then (item_key it, side f (Some it) None) # walk_events f other False its
          else if item_data it \<noteq> item_data oi then
            (item_key it, side f (Some it) (Some oi)) # walk_events f other True its
          else walk_events f other True its
      | _ \<Rightarrow> (item_key it, side f (Some it) None) # walk_events f other True its)"

definition leaves :: "sha_node list \<Rightarrow> sha_item list" where
  "leaves stack = concat (map (\<lambda>n. rev (items n)) stack)"

lemma leaves_push: "leaves (push_children cs stack) = rev (items (Inner_node cs)) @ leaves stack"
proof (induction cs arbitrary: stack)
  case (Cons c cs)
  show ?case using Cons.IH [of "case c of None \<Rightarrow> stack | Some n \<Rightarrow> n # stack"]
    by (cases c) (simp_all add: push_children_def leaves_def items.simps(2))
qed (simp add: push_children_def items.simps(2))

lemma walk_loop_events:
  assumes "other = None \<Longrightarrow> e"
  shows "walk_loop f other e stack st \<bind> walk_finish f other =
    Some (record_all (walk_events f other e (leaves stack)) st)"
  using assms
proof (induction f other e stack st rule: walk_loop.induct)
  case (1 f other e st)
  then show ?case by (cases other) (auto simp: leaves_def record_all_side walk_finish_def split: prod.split)
next
  case (2 f other e cs stack st)
  have "leaves (Inner_node cs # stack) = leaves (push_children cs stack)"
    unfolding leaves_push by (simp add: leaves_def)
  then show ?case using 2 by simp
next
  case (3 f other e t it stack st)
  have l: "leaves (Leaf_node t it # stack) = it # leaves stack" by (simp add: leaves_def)
  have fin: "walk_finish f oi (False, e', st') = Some (False, st')" for oi e' st'
    by (simp add: walk_finish_def)
  show ?case
    using "3.prems" "3.IH"
    by (cases e; cases other)
      (auto simp: l fin record_all_side Let_def split: prod.split)
qed

lemma walk_branch_events:
  "walk_branch n other f st = Some (record_all (walk_events f other (other = None) (rev (items n))) st)"
  unfolding walk_branch_def by (subst walk_loop_events) (simp_all add: leaves_def)

text \<open>What \<^verbatim>\<open>compare\<close> records for two subtrees.\<close>

definition one_sided ::
  "(preimage \<Rightarrow> nat) \<Rightarrow> sha_node option list \<Rightarrow> sha_node option list \<Rightarrow> nat \<Rightarrow> record_event list" where
  "one_sided H ls rs b =
     (if child_hash H (child_at ls b) = child_hash H (child_at rs b) then []
      else case (child_at ls b, child_at rs b) of
             (Some l, None) \<Rightarrow> walk_events True None True (rev (items l))
           | (None, Some r) \<Rightarrow> walk_events False None True (rev (items r))
           | _ \<Rightarrow> [])"

definition pair_at ::
  "(preimage \<Rightarrow> nat) \<Rightarrow> sha_node option list \<Rightarrow> sha_node option list \<Rightarrow> nat \<Rightarrow> (sha_node \<times> sha_node) list" where
  "pair_at H ls rs b =
     (case (child_at ls b, child_at rs b) of
        (Some l, Some r) \<Rightarrow> if node_hash H l = node_hash H r then [] else [(l, r)]
      | _ \<Rightarrow> [])"

lemma pair_at_size: "p \<in> set (pair_at H ls rs b) \<Longrightarrow> size (fst p) < size (Inner_node ls)"
  using size_child_at [of ls b] by (auto simp: pair_at_def split: option.splits if_splits)

function compare_events :: "(preimage \<Rightarrow> nat) \<Rightarrow> sha_node \<times> sha_node \<Rightarrow> record_event list" where
  "compare_events H (Leaf_node t l, Leaf_node t' r) =
     (if item_key l = item_key r then
        if item_data l \<noteq> item_data r then [(item_key l, Some l, Some r)] else []
      else [(item_key l, Some l, None), (item_key r, None, Some r)])"
| "compare_events H (Inner_node ls, Leaf_node t' r) =
     walk_events True (Some r) False (rev (items (Inner_node ls)))"
| "compare_events H (Leaf_node t l, Inner_node rs) =
     walk_events False (Some l) False (rev (items (Inner_node rs)))"
| "compare_events H (Inner_node ls, Inner_node rs) =
     concat (map (one_sided H ls rs) [0..<BRANCH_FACTOR])
     @ concat (map (\<lambda>b. concat (map (compare_events H) (pair_at H ls rs b))) (rev [0..<BRANCH_FACTOR]))"
  by pat_completeness auto
termination
  by (relation "measure (\<lambda>(H, p). size (fst p))") (auto dest: pair_at_size)

lemma compare_branches_events:
  "\<exists>stack'. compare_branches H ls rs bs stack st =
      Some (fst (record_all (concat (map (one_sided H ls rs) bs)) st), stack',
        snd (record_all (concat (map (one_sided H ls rs) bs)) st))
    \<and> (fst (record_all (concat (map (one_sided H ls rs) bs)) st)
        \<longrightarrow> stack' = concat (map (pair_at H ls rs) (rev bs)) @ stack)"
proof (induction bs arbitrary: stack st)
  case (Cons b bs)
  show ?case
  proof (cases "child_hash H (child_at ls b) = child_hash H (child_at rs b)")
    case True
    then have "one_sided H ls rs b = []" "pair_at H ls rs b = []"
      by (auto simp: one_sided_def pair_at_def child_hash_def split: option.splits)
    then show ?thesis using Cons.IH [of stack st] True by simp
  next
    case ne: False
    have walked: ?thesis
      if "one_sided H ls rs b = es" "pair_at H ls rs b = []"
        "compare_branches H ls rs (b # bs) stack st =
           (let (ok, st') = record_all es st
            in if ok then compare_branches H ls rs bs stack st' else Some (False, stack, st'))" for es
      using that Cons.IH [of stack "snd (record_all es st)"]
      by (cases "record_all es st") (auto simp: record_all_append)
    show ?thesis
    proof (cases "child_at ls b"; cases "child_at rs b")
      fix l r assume lr: "child_at ls b = Some l" "child_at rs b = Some r"
      then have "one_sided H ls rs b = []" "pair_at H ls rs b = [(l, r)]"
        using ne by (auto simp: one_sided_def pair_at_def child_hash_def)
      then show ?thesis using Cons.IH [of "(l, r) # stack" st] ne lr by simp
    next
      fix l assume "child_at ls b = Some l" "child_at rs b = None"
      then show ?thesis using ne
        by (intro walked) (auto simp: one_sided_def pair_at_def walk_branch_events Let_def split: prod.split)
    next
      fix r assume "child_at ls b = None" "child_at rs b = Some r"
      then show ?thesis using ne
        by (intro walked) (auto simp: one_sided_def pair_at_def walk_branch_events Let_def split: prod.split)
    next
      assume "child_at ls b = None" "child_at rs b = None"
      then show ?thesis using ne by simp
    qed
  qed
qed simp

lemma concat_map_concat:
  "concat (map f (concat (map g bs))) = concat (map (\<lambda>b. concat (map f (g b))) bs)"
  by (induction bs) simp_all

lemma compare_loop_events:
  "compare_loop H stack st = Some (record_all (concat (map (compare_events H) stack)) st)"
proof (induction H stack st rule: compare_loop.induct)
  case (5 H ls rs stack st)
  define es where "es = concat (map (one_sided H ls rs) [0..<BRANCH_FACTOR])"
  define ps where "ps = concat (map (pair_at H ls rs) (rev [0..<BRANCH_FACTOR]))"
  obtain ok st' where es: "record_all es st = (ok, st')" by (cases "record_all es st")
  obtain stack' where cb: "compare_branches H ls rs [0..<BRANCH_FACTOR] stack st = Some (ok, stack', st')"
      "ok \<longrightarrow> stack' = ps @ stack"
    using compare_branches_events [of H ls rs "[0..<BRANCH_FACTOR]" stack st, folded es_def ps_def] es by auto
  have ev: "compare_events H (Inner_node ls, Inner_node rs) = es @ concat (map (compare_events H) ps)"
    by (simp add: es_def ps_def concat_map_concat)
  show ?case using 5 [OF cb(1)] cb es by (auto simp: ev record_all_append simp del: compare_events.simps)
qed (auto simp: walk_branch_events record_all_append Let_def split: prod.split)

section \<open>The differences are the differing keys\<close>

definition find_item :: "sha_item list \<Rightarrow> nat \<Rightarrow> sha_item option" where
  "find_item its = map_of (map (\<lambda>it. (item_key it, it)) its)"

lemma contents_find: "contents n = find_item (items n)"
  by (simp add: contents_def find_item_def fun_eq_iff)

lemma find_item_rev: "distinct (map item_key its) \<Longrightarrow> find_item (rev its) = find_item its"
  unfolding find_item_def by (subst map_of_inject_set) (simp_all add: comp_def rev_map [symmetric])

lemma find_item_Cons: "find_item (it # its) = (find_item its)(item_key it \<mapsto> it)"
  by (simp add: find_item_def)

lemma find_item_Nil: "find_item [] = (\<lambda>k. None)"
  by (simp add: find_item_def)

lemma find_item_None: "k \<notin> item_key ` set its \<Longrightarrow> find_item its k = None"
  by (auto simp: find_item_def map_of_eq_None_iff image_image)

definition diff :: "bool \<Rightarrow> (nat \<Rightarrow> sha_item option) \<Rightarrow> (nat \<Rightarrow> sha_item option) \<Rightarrow> nat \<Rightarrow> delta_item option" where
  "diff first f g k = (if f k = g k then None else Some (side first (f k) (g k)))"

text \<open>The records \<open>es\<close> are, each once, the keys where \<open>f\<close> and \<open>g\<close> differ.\<close>

definition records ::
  "bool \<Rightarrow> (nat \<Rightarrow> sha_item option) \<Rightarrow> (nat \<Rightarrow> sha_item option) \<Rightarrow> record_event list \<Rightarrow> bool" where
  "records first f g es \<longleftrightarrow> distinct (map fst es) \<and> (\<forall>k v. (k, v) \<in> set es \<longleftrightarrow> diff first f g k = Some v)"

lemma records_skip:
  assumes "records first f g es" "f k = None" "g k = None"
  shows "records first (f(k := x)) (g(k := x)) es"
  using assms unfolding records_def diff_def by auto

lemma records_Cons:
  assumes "records first f g es" "f k = None" "g k = None" "x \<noteq> y"
  shows "records first (f(k := x)) (g(k := y)) ((k, side first x y) # es)"
proof -
  have "diff first f g k = None" by (simp add: diff_def assms(2,3))
  then have "(k, v) \<notin> set es" for v using assms(1) unfolding records_def by (metis option.distinct(1))
  then have "k \<notin> fst ` set es" by force
  then show ?thesis using assms unfolding records_def diff_def by auto
qed

lemma walk_events_records:
  assumes "distinct (map item_key its)"
  shows "records f (find_item its)
    (find_item (if e then [] else case other of None \<Rightarrow> [] | Some oi \<Rightarrow> [oi])) (walk_events f other e its)"
  using assms
proof (induction f other e its rule: walk_events.induct)
  case (1 f other e)
  then show ?case
    by (auto simp: records_def diff_def find_item_Cons find_item_Nil split: option.split)
next
  case (2 f other e it its)
  have fresh: "find_item its (item_key it) = None" using "2.prems" by (intro find_item_None) auto
  note up = find_item_Cons find_item_Nil
  show ?case
  proof (cases "e \<or> other = None")
    case True
    then have "records f (find_item its) (\<lambda>k. None) (walk_events f other True its)"
      using 2 by (auto simp: find_item_Nil split: bool.splits option.splits)
    from records_Cons [OF this fresh, of "Some it" None]
    have r: "records f ((find_item its)(item_key it \<mapsto> it)) (\<lambda>k. None)
        ((item_key it, side f (Some it) None) # walk_events f other True its)" by simp
    have "walk_events f other e (it # its) = (item_key it, side f (Some it) None) # walk_events f other True its"
      using True by (cases e; cases other) simp_all
    moreover have "find_item (if e then [] else case other of None \<Rightarrow> [] | Some oi \<Rightarrow> [oi]) = (\<lambda>k. None)"
      using True by (auto simp: find_item_Nil)
    ultimately show ?thesis using r by (simp only: find_item_Cons)
  next
    case False
    then obtain oi where e: "e = False" "other = Some oi" by blast
    show ?thesis
    proof (cases "item_key it = item_key oi")
      case True
      have IH: "records f (find_item its) (\<lambda>k. None) (walk_events f (Some oi) True its)"
        using 2 e True by (cases "item_data it = item_data oi") (auto simp: find_item_Nil)
      show ?thesis
      proof (cases "item_data it = item_data oi")
        case dt: True
        then have "it = oi" using True by (intro sha_item.equality) simp_all
        then show ?thesis using records_skip [OF IH fresh, of "Some it"] e by (simp add: up del: fun_upd_apply)
      next
        case dt: False
        then have "it \<noteq> oi" by blast
        then show ?thesis using records_Cons [OF IH fresh, of "Some it" "Some oi"] e True dt
          by (simp add: up del: fun_upd_apply)
      qed
    next
      case ne: False
      have IH: "records f (find_item its) (find_item [oi]) (walk_events f (Some oi) False its)"
        using 2 e ne by auto
      have no: "find_item [oi] (item_key it) = None" using ne by (simp add: up)
      from records_Cons [OF IH fresh no, of "Some it" None] show ?thesis
        using e ne no by (simp add: up fun_upd_idem del: fun_upd_apply)
    qed
  qed
qed

lemma walk_events_contents:
  assumes "sha_wf ty d n"
  shows "records f (contents n) (find_item (case other of None \<Rightarrow> [] | Some oi \<Rightarrow> [oi]))
    (walk_events f other (other = None) (rev (items n)))"
proof -
  have "distinct (map item_key (rev (items n)))"
    using items_distinct [OF assms] by (simp add: rev_map [symmetric])
  from walk_events_records [OF this, of f "other = None" other] show ?thesis
    unfolding contents_find find_item_rev [OF items_distinct [OF assms]] by (cases other) simp_all
qed

lemma records_swap: "records False g f es = records True f g es"
  by (auto simp: records_def diff_def side_def)

lemma contents_leaf: "contents (Leaf_node t it) = find_item [it]"
  by (simp add: contents_find)

lemma records_leaves:
  "records True (find_item [l]) (find_item [r])
     (if item_key l = item_key r then
        if item_data l \<noteq> item_data r then [(item_key l, Some l, Some r)] else []
      else [(item_key l, Some l, None), (item_key r, None, Some r)])"
proof -
  have "l = r" if "item_key l = item_key r" "item_data l = item_data r"
    using that by (intro sha_item.equality) simp_all
  then show ?thesis
    by (auto simp: records_def diff_def side_def find_item_Cons find_item_Nil split: if_splits)
qed

text \<open>Two inner nodes: the records of their branches, each under its own branch.\<close>

definition branch_events ::
  "(preimage \<Rightarrow> nat) \<Rightarrow> sha_node option list \<Rightarrow> sha_node option list \<Rightarrow> nat \<Rightarrow> record_event list" where
  "branch_events H ls rs b = one_sided H ls rs b @ concat (map (compare_events H) (pair_at H ls rs b))"

lemma branch_events_records:
  assumes "sha_wf ty d (Inner_node ls)" "sha_wf ty d (Inner_node rs)"
    and "collision_free H (preimages H (Inner_node ls) \<union> preimages H (Inner_node rs))"
    and "\<And>it. it \<in> item_set (Inner_node ls) \<union> item_set (Inner_node rs) \<Longrightarrow> addressed H ty it"
    and "\<And>l r. child_at ls b = Some l \<Longrightarrow> child_at rs b = Some r \<Longrightarrow>
      records True (contents l) (contents r) (compare_events H (l, r))"
  shows "records True (case child_at ls b of None \<Rightarrow> \<lambda>k. None | Some l \<Rightarrow> contents l)
    (case child_at rs b of None \<Rightarrow> \<lambda>k. None | Some r \<Rightarrow> contents r) (branch_events H ls rs b)"
proof -
  let ?P = "preimages H (Inner_node ls) \<union> preimages H (Inner_node rs)"
  have sub: "preimages H c \<subseteq> ?P" if "child_at ls b = Some c \<or> child_at rs b = Some c" for c
    using that preimages_child [of ls b c H] preimages_child [of rs b c H] by blast
  have wfl: "sha_wf ty (Suc d) l" if "child_at ls b = Some l" for l using that sha_wf_child [OF assms(1)] by blast
  have wfr: "sha_wf ty (Suc d) r" if "child_at rs b = Some r" for r using that sha_wf_child [OF assms(2)] by blast
  have nz: "node_hash H c \<noteq> 0" if c: "child_at ls b = Some c \<or> child_at rs b = Some c" for c
  proof -
    have "sha_wf ty (Suc d) c" using c wfl wfr by blast
    then obtain x where "node_hash H c = H x" "x \<in> preimages H c" using node_hash_preimage by blast
    moreover from this have "x \<in> ?P" using sub [OF c] by blast
    ultimately show ?thesis using collision_freeD(1) [OF assms(3)] by simp
  qed
  show ?thesis
  proof (cases "child_at ls b"; cases "child_at rs b")
    fix l r assume lr: "child_at ls b = Some l" "child_at rs b = Some r"
    show ?thesis
    proof (cases "node_hash H l = node_hash H r")
      case True
      have "l = r"
      proof (rule node_hash_inj [OF wfl [OF lr(1)] wfr [OF lr(2)] _ _ True])
        show "collision_free H (preimages H l \<union> preimages H r)"
          by (rule collision_free_mono [OF assms(3)]) (use sub lr in blast)
        show "addressed H ty it" if "it \<in> item_set l \<union> item_set r" for it
          by (rule assms(4)) (use that lr in \<open>unfold Un_iff item_set_inner_iff, blast\<close>)
      qed simp
      then show ?thesis using True lr
        by (simp add: branch_events_def one_sided_def pair_at_def child_hash_def records_def diff_def)
    next
      case False
      then show ?thesis using assms(5) [OF lr] lr
        by (simp add: branch_events_def one_sided_def pair_at_def child_hash_def)
    qed
  next
    fix l assume l: "child_at ls b = Some l" "child_at rs b = None"
    then show ?thesis using nz [of l] walk_events_contents [OF wfl [OF l(1)], of True None]
      by (simp add: branch_events_def one_sided_def pair_at_def child_hash_def find_item_Nil)
  next
    fix r assume r: "child_at ls b = None" "child_at rs b = Some r"
    then show ?thesis using nz [of r] walk_events_contents [OF wfr [OF r(2)], of False None]
      by (simp add: branch_events_def one_sided_def pair_at_def child_hash_def find_item_Nil
          records_swap [symmetric, of "\<lambda>k. None"])
  qed (simp add: branch_events_def one_sided_def pair_at_def records_def diff_def)
qed

lemma compare_events_inner:
  "(k, v) \<in> set (compare_events H (Inner_node ls, Inner_node rs)) \<longleftrightarrow>
     (\<exists>b < 16. (k, v) \<in> set (branch_events H ls rs b))"
  by (auto simp: branch_events_def BRANCH_FACTOR_def)

lemma distinct_two_tagged:
  assumes "distinct xs" "distinct ys" "\<And>b. b \<in> set xs \<Longrightarrow> distinct (f b)" "\<And>b. b \<in> set ys \<Longrightarrow> distinct (h b)"
    and "\<And>b x. b \<in> set xs \<Longrightarrow> x \<in> set (f b) \<Longrightarrow> g x = b" "\<And>b x. b \<in> set ys \<Longrightarrow> x \<in> set (h b) \<Longrightarrow> g x = b"
    and "\<And>b. f b = [] \<or> h b = []"
  shows "distinct (concat (map f xs) @ concat (map h ys))"
proof -
  have "x \<notin> set (concat (map h ys))" if x: "x \<in> set (concat (map f xs))" for x
  proof
    assume "x \<in> set (concat (map h ys))"
    then obtain b c where b: "b \<in> set xs" "x \<in> set (f b)" "c \<in> set ys" "x \<in> set (h c)" using x by auto
    then have "b = c" using assms(5,6) by blast
    then show False using b(2,4) assms(7) [of b] by auto
  qed
  moreover have "distinct (concat (map f xs))" by (rule distinct_concat_tagged [OF assms(1,3,5)])
  moreover have "distinct (concat (map h ys))" by (rule distinct_concat_tagged [OF assms(2,4,6)])
  ultimately show ?thesis by auto
qed

lemma compare_events_inner_distinct:
  assumes "\<And>b. b < 16 \<Longrightarrow> distinct (map fst (branch_events H ls rs b))"
    and "\<And>b k. b < 16 \<Longrightarrow> k \<in> fst ` set (branch_events H ls rs b) \<Longrightarrow> g k = b"
  shows "distinct (map fst (compare_events H (Inner_node ls, Inner_node rs)))"
proof -
  let ?p = "\<lambda>b. concat (map (compare_events H) (pair_at H ls rs b))"
  have ev: "map fst (compare_events H (Inner_node ls, Inner_node rs)) =
      concat (map (\<lambda>b. map fst (one_sided H ls rs b)) [0..<16])
      @ concat (map (\<lambda>b. map fst (?p b)) (rev [0..<16]))"
    by (simp only: compare_events.simps BRANCH_FACTOR_def map_append map_concat map_map comp_def)
  have tag: "g k = b" if "b < 16" "k \<in> set (map fst (one_sided H ls rs b))" for b k
    using that assms(2) [of b k] by (simp add: branch_events_def image_Un)
  have tag': "g k = b" if "b < 16" "k \<in> set (map fst (?p b))" for b k
    using that assms(2) [of b k] by (simp add: branch_events_def image_Un)
  have d: "distinct (map fst (one_sided H ls rs b))" "distinct (map fst (?p b))" if "b < 16" for b
    using assms(1) [OF that] by (simp_all add: branch_events_def)
  have "one_sided H ls rs b = [] \<or> pair_at H ls rs b = []" for b
    by (simp add: one_sided_def pair_at_def split: option.split)
  then have one: "map fst (one_sided H ls rs b) = [] \<or> map fst (?p b) = []" for b by (metis concat.simps(1) list.map(1))
  show ?thesis
    unfolding ev by (rule distinct_two_tagged [where g = g]) (use d tag tag' one in simp_all)
qed

text \<open>The items below one branch, as a map.\<close>

definition branch_contents :: "sha_node option list \<Rightarrow> nat \<Rightarrow> nat \<Rightarrow> sha_item option" where
  "branch_contents cs b = (case child_at cs b of None \<Rightarrow> \<lambda>k. None | Some n \<Rightarrow> contents n)"

lemma branch_contents_branch:
  assumes "sha_wf ty d (Inner_node cs)" "branch_contents cs b k \<noteq> None"
  shows "select_branch d k = b \<and> b < 16"
proof -
  obtain n where n: "child_at cs b = Some n" "contents n k \<noteq> None"
    using assms(2) by (auto simp: branch_contents_def split: option.splits)
  then obtain it where "contents n k = Some it" by blast
  then have "it \<in> item_set n" "item_key it = k" using contents_Some [OF sha_wf_child [OF assms(1) n(1)]] by auto
  moreover have "b < 16" using n(1) assms(1) by (simp add: child_at_def split: if_splits)
  ultimately show ?thesis using sha_wf_branch [OF assms(1) n(1)] by blast
qed

lemma records_branches:
  assumes "sha_wf ty d (Inner_node ls)" "sha_wf ty d (Inner_node rs)"
    and be: "\<And>b. records True (branch_contents ls b) (branch_contents rs b) (branch_events H ls rs b)"
  shows "records True (contents (Inner_node ls)) (contents (Inner_node rs))
    (compare_events H (Inner_node ls, Inner_node rs))"
proof -
  have mem: "(k, v) \<in> set (branch_events H ls rs b) \<longleftrightarrow> diff True (branch_contents ls b) (branch_contents rs b) k = Some v" for b k v
    using be unfolding records_def by blast
  have br: "select_branch d k = b \<and> b < 16" if "(k, v) \<in> set (branch_events H ls rs b)" for b k v
  proof -
    have "branch_contents ls b k \<noteq> None \<or> branch_contents rs b k \<noteq> None"
      using that unfolding mem diff_def by (metis option.distinct(1))
    then show ?thesis using branch_contents_branch [OF assms(1)] branch_contents_branch [OF assms(2)] by blast
  qed
  have inner: "contents (Inner_node ls) k = branch_contents ls (select_branch d k) k"
    "contents (Inner_node rs) k = branch_contents rs (select_branch d k) k" for k
    unfolding contents_inner [OF assms(1)] contents_inner [OF assms(2)]
    by (simp_all add: branch_contents_def split: option.split)
  have "(k, v) \<in> set (compare_events H (Inner_node ls, Inner_node rs)) \<longleftrightarrow>
      (k, v) \<in> set (branch_events H ls rs (select_branch d k))" for k v
    unfolding compare_events_inner using br by blast
  then have "(k, v) \<in> set (compare_events H (Inner_node ls, Inner_node rs)) \<longleftrightarrow>
      diff True (contents (Inner_node ls)) (contents (Inner_node rs)) k = Some v" for k v
    unfolding mem by (simp add: diff_def inner)
  moreover have "distinct (map fst (compare_events H (Inner_node ls, Inner_node rs)))"
    by (rule compare_events_inner_distinct [where g = "select_branch d"])
      (use be br in \<open>auto simp: records_def\<close>)
  ultimately show ?thesis unfolding records_def by blast
qed

lemma compare_events_records:
  assumes "sha_wf ty d l" "sha_wf ty d r" "collision_free H (preimages H l \<union> preimages H r)"
    and "\<And>it. it \<in> item_set l \<union> item_set r \<Longrightarrow> addressed H ty it"
  shows "records True (contents l) (contents r) (compare_events H (l, r))"
  using assms
proof (induction l arbitrary: d r)
  case (Leaf_node t it)
  show ?case
  proof (cases r)
    case leaf: (Leaf_node t' it')
    then show ?thesis using records_leaves by (simp add: contents_leaf)
  next
    case (Inner_node rs)
    then show ?thesis
      using walk_events_contents [OF Leaf_node.prems(2), of False "Some it"]
      by (simp add: contents_leaf records_swap)
  qed
next
  case (Inner_node ls)
  show ?case
  proof (cases r)
    case (Leaf_node t' it')
    then show ?thesis
      using walk_events_contents [OF Inner_node.prems(1), of True "Some it'"] by (simp add: contents_leaf)
  next
    case r: (Inner_node rs)
    note wf = Inner_node.prems(1) Inner_node.prems(2) [unfolded r]
    have be: "records True (branch_contents ls b) (branch_contents rs b) (branch_events H ls rs b)" for b
      unfolding branch_contents_def
    proof (rule branch_events_records [OF wf Inner_node.prems(3,4) [unfolded r]])
      fix l' r' assume c: "child_at ls b = Some l'" "child_at rs b = Some r'"
      show "records True (contents l') (contents r') (compare_events H (l', r'))"
      proof (rule Inner_node.IH [OF child_at_set [OF c(1)], of l' "Suc d" r'])
        show "collision_free H (preimages H l' \<union> preimages H r')"
          by (rule collision_free_mono [OF Inner_node.prems(3)])
            (use preimages_child c r in blast)
        show "addressed H ty it" if "it \<in> item_set l' \<union> item_set r'" for it
          by (rule Inner_node.prems(4)) (use that c in \<open>unfold r Un_iff item_set_inner_iff, blast\<close>)
      qed (use c sha_wf_child [OF wf(1)] sha_wf_child [OF wf(2)] in simp_all)
    qed
    show ?thesis using records_branches [OF wf be] r by simp
  qed
qed

section \<open>The result of compare\<close>

lemma record_all_spec:
  assumes "btree_wf ds" "distinct (map fst es)" "fst ` set es \<inter> dom (map_of ds) = {}" "0 < m"
  shows "\<exists>ds'. record_all es (ds, m) = (int (length es) < m, (ds', max 0 (m - int (length es))))
    \<and> btree_wf ds' \<and> map_of ds' = map_of ds ++ map_of (take (nat m) es)"
  using assms
proof (induction es arbitrary: ds m)
  case (Cons e es)
  obtain k l r where e: "e = (k, l, r)" by (cases e)
  let ?ds = "btree_insert k (l, r) ds"
  have "map_of ds k = None" using Cons.prems(3) by (auto simp: e)
  then have rd: "record_difference k l r (ds, m) = (0 < m - 1, (?ds, m - 1))"
    by (simp add: record_difference_def)
  have up: "map_of ?ds = (map_of ds)(k \<mapsto> (l, r))" using Cons.prems(1) by (rule map_of_btree_insert)
  have take: "take (nat m) (e # es) = (k, l, r) # take (nat (m - 1)) es"
    using Cons.prems(4) by (simp add: e take_Cons' nat_diff_distrib)
  have fresh: "map_of (take (nat (m - 1)) es) k = None"
    using Cons.prems(2) set_take_subset [of "nat (m - 1)" es] by (force simp: e map_of_eq_None_iff)
  show ?case
  proof (cases "0 < m - 1")
    case True
    have "fst ` set es \<inter> dom (map_of ?ds) = {}" using Cons.prems(2,3) by (auto simp: up e)
    then obtain ds' where "record_all es (?ds, m - 1) = (int (length es) < m - 1, (ds', max 0 (m - 1 - int (length es))))"
        "btree_wf ds'" "map_of ds' = map_of ?ds ++ map_of (take (nat (m - 1)) es)"
      using Cons.IH [of ?ds "m - 1"] Cons.prems(1,2) True by auto
    moreover have take': "map_of ds ++ map_of ((k, l, r) # take (nat (m - 1)) es) = map_of ?ds ++ map_of (take (nat (m - 1)) es)"
      by (rule ext) (use fresh in \<open>simp add: up map_add_def split: option.split\<close>)
    ultimately show ?thesis
      using True rd unfolding take take' by (intro exI [of _ ds']) (simp add: e algebra_simps)
  next
    case False
    then have "m = 1" using Cons.prems(4) by simp
    then show ?thesis using rd Cons.prems(1) unfolding take by (simp add: e up del: fun_upd_apply)
  qed
qed simp

lemma compare_records:
  assumes "sha_root ty l" "sha_root ty r" "collision_free H (preimages H l \<union> preimages H r)"
    and "\<And>it. it \<in> item_set l \<union> item_set r \<Longrightarrow> addressed H ty it"
  shows "\<exists>es. records True (contents l) (contents r) es \<and> (\<forall>st. compare H l r st = Some (record_all es st))"
proof -
  have wf: "sha_wf ty 0 l" "sha_wf ty 0 r" using assms(1,2) by (simp_all add: sha_root_def)
  show ?thesis
  proof (cases "node_hash H l = node_hash H r")
    case True
    have "l = r" by (rule node_hash_inj [OF wf assms(3,4) True]) (use assms(1,2) in \<open>auto simp: sha_root_def\<close>)
    then show ?thesis by (intro exI [of _ "[]"]) (simp add: compare_def records_def diff_def)
  next
    case False
    then show ?thesis using compare_events_records [OF wf assms(3,4)]
      by (intro exI [of _ "compare_events H (l, r)"]) (simp add: compare_def compare_loop_events)
  qed
qed

lemma records_card:
  assumes "records first f g es"
  shows "finite {k. f k \<noteq> g k}" "length es = card {k. f k \<noteq> g k}"
proof -
  have "k \<in> set (map fst es) \<longleftrightarrow> f k \<noteq> g k" for k
  proof -
    have "k \<in> set (map fst es) \<longleftrightarrow> (\<exists>v. (k, v) \<in> set es)" by force
    then show ?thesis using assms unfolding records_def diff_def by auto
  qed
  then have s: "{k. f k \<noteq> g k} = set (map fst es)" by blast
  then show "finite {k. f k \<noteq> g k}" by simp
  show "length es = card {k. f k \<noteq> g k}"
    unfolding s using assms distinct_card [of "map fst es"] by (simp add: records_def)
qed

lemma records_map_of:
  assumes "records first f g es"
  shows "map_of es = diff first f g"
proof
  fix k
  have "map_of es k = Some v \<longleftrightarrow> diff first f g k = Some v" for v
    using assms map_of_eq_Some_iff [of es k v] unfolding records_def by blast
  then show "map_of es k = diff first f g k" by (metis not_None_eq)
qed

text \<open>
  The comparison: it always ends with a result; the flag tells whether all differences fitted; what
  is recorded is right; and as many differences are recorded as \<^verbatim>\<open>max_count\<close> allows.
\<close>

lemma compare_all:
  assumes "sha_root ty l" "sha_root ty r" "collision_free H (preimages H l \<union> preimages H r)"
    and "\<And>it. it \<in> item_set l \<union> item_set r \<Longrightarrow> addressed H ty it" "0 < m"
  shows "\<exists>ds m'. compare H l r ([], m) = Some (int (card {k. contents l k \<noteq> contents r k}) < m, (ds, m'))
    \<and> btree_wf ds \<and> map_of ds \<subseteq>\<^sub>m diff True (contents l) (contents r)
    \<and> int (length ds) = min m (int (card {k. contents l k \<noteq> contents r k}))
    \<and> (int (card {k. contents l k \<noteq> contents r k}) < m \<longrightarrow> map_of ds = diff True (contents l) (contents r))"
proof -
  obtain es where es: "records True (contents l) (contents r) es" "\<forall>st. compare H l r st = Some (record_all es st)"
    using compare_records [OF assms(1-4)] by blast
  have d: "distinct (map fst es)" using es(1) by (simp add: records_def)
  note c = records_card(2) [OF es(1), symmetric] and mo = records_map_of [OF es(1)]
  obtain ds where ds: "record_all es ([], m) = (int (length es) < m, (ds, max 0 (m - int (length es))))"
      "btree_wf ds" "map_of ds = map_of (take (nat m) es)"
    using record_all_spec [of "[]" es m] d assms(5) by auto
  have dt: "distinct (map fst (take (nat m) es))" using distinct_take [OF d, of "nat m"] by (simp only: take_map)
  have "map_of ds \<subseteq>\<^sub>m map_of es"
    unfolding ds(3) map_le_def using d dt set_take_subset [of "nat m" es] by (auto simp: subset_iff dest!: map_of_SomeD)
  moreover have "length ds = length (take (nat m) es)"
  proof -
    have "card (dom (map_of ds)) = length ds" "card (dom (map_of (take (nat m) es))) = length (take (nat m) es)"
      using btree_wf_distinct [OF ds(2)] dt distinct_card by (fastforce simp: dom_map_of_conv_image_fst)+
    then show ?thesis using ds(3) by simp
  qed
  moreover have "int (length es) < m \<longrightarrow> map_of ds = map_of es" using ds(3) by simp
  ultimately show ?thesis
    using es(2) ds(1,2) assms(5) unfolding c mo [symmetric]
    by (intro exI [of _ ds] exI [of _ "max 0 (m - int (length es))"]) auto
qed

end
