(* ===== verification/Consensus_Params.thy ===== *)
theory Consensus_Params
  imports Prelude
begin

text \<open>
  The consensus parameters and the pure decision functions: \<^verbatim>\<open>params.rs\<close>, \<^verbatim>\<open>functions.rs\<close>
  and the free function and timer of \<^verbatim>\<open>types.rs\<close> in \<^verbatim>\<open>xrpld/consensus/src/algorithm\<close>.

  Counts (\<^verbatim>\<open>usize\<close>) are natural numbers, durations are nanoseconds. A failing \<^verbatim>\<open>expect\<close> on
  the avalanche table is \<^term>\<open>None\<close>; \<^verbatim>\<open>debug_assert!\<close>s, which release builds drop, are not
  part of the model.
\<close>

section \<open>Parameters\<close>

datatype avalanche_state = Init | Mid | Late | Stuck

text \<open>\<^verbatim>\<open>#[derive(PartialOrd, Ord)]\<close>: the order of declaration.\<close>

fun avalanche_rank :: "avalanche_state \<Rightarrow> nat" where
  "avalanche_rank Init = 0"
| "avalanche_rank Mid = 1"
| "avalanche_rank Late = 2"
| "avalanche_rank Stuck = 3"

lemma avalanche_rank_inj: "avalanche_rank a = avalanche_rank b \<Longrightarrow> a = b"
  by (cases a; cases b) simp_all

instantiation avalanche_state :: linorder
begin

definition less_eq_avalanche_state :: "avalanche_state \<Rightarrow> avalanche_state \<Rightarrow> bool" where
  "less_eq_avalanche_state a b \<longleftrightarrow> avalanche_rank a \<le> avalanche_rank b"

definition less_avalanche_state :: "avalanche_state \<Rightarrow> avalanche_state \<Rightarrow> bool" where
  "less_avalanche_state a b \<longleftrightarrow> avalanche_rank a < avalanche_rank b"

instance
  by intro_classes
    (auto simp: less_eq_avalanche_state_def less_avalanche_state_def avalanche_rank_inj)

end

record avalanche_cutoff =
  consensus_time :: int
  consensus_pct :: nat
  next_state :: avalanche_state

record consensus_parms =
  validation_valid_wall :: duration
  validation_valid_local :: duration
  validation_valid_early :: duration
  propose_freshness :: duration
  propose_interval :: duration
  min_consensus_pct :: nat
  ledger_idle_interval :: duration
  ledger_min_consensus :: duration
  ledger_max_consensus :: duration
  ledger_min_close :: duration
  ledger_granularity :: duration
  ledger_abandon_consensus_factor :: nat
  ledger_abandon_consensus :: duration
  av_min_consensus_time :: duration
  avalanche_cutoffs :: "(avalanche_state, avalanche_cutoff) btree"
  av_ct_consensus_pct :: nat
  av_min_rounds :: nat
  av_stalled_rounds :: nat

definition default_parms :: consensus_parms where
  "default_parms = \<lparr>
     validation_valid_wall = from_secs (5 * 60),
     validation_valid_local = from_secs (3 * 60),
     validation_valid_early = from_secs (3 * 60),
     propose_freshness = from_secs 20,
     propose_interval = from_secs 12,
     min_consensus_pct = 80,
     ledger_idle_interval = from_secs 15,
     ledger_min_consensus = from_millis 1950,
     ledger_max_consensus = from_secs 15,
     ledger_min_close = from_secs 2,
     ledger_granularity = from_secs 1,
     ledger_abandon_consensus_factor = 10,
     ledger_abandon_consensus = from_secs 120,
     av_min_consensus_time = from_secs 5,
     avalanche_cutoffs =
       [(Init, \<lparr>consensus_time = 0, consensus_pct = 50, next_state = Mid\<rparr>),
        (Mid, \<lparr>consensus_time = 50, consensus_pct = 65, next_state = Late\<rparr>),
        (Late, \<lparr>consensus_time = 85, consensus_pct = 70, next_state = Stuck\<rparr>),
        (Stuck, \<lparr>consensus_time = 200, consensus_pct = 95, next_state = Stuck\<rparr>)],
     av_ct_consensus_pct = 75,
     av_min_rounds = 2,
     av_stalled_rounds = 4\<rparr>"

definition get_needed_weight ::
  "consensus_parms \<Rightarrow> avalanche_state \<Rightarrow> int \<Rightarrow> nat \<Rightarrow> nat \<Rightarrow> (nat \<times> avalanche_state option) option"
where
  "get_needed_weight parms current_state percent_time current_rounds minimum_rounds =
     do {
       current_cutoff \<leftarrow> map_of (avalanche_cutoffs parms) current_state;
       if next_state current_cutoff \<noteq> current_state \<and> current_rounds \<ge> minimum_rounds then
         do {
           next_cutoff \<leftarrow> map_of (avalanche_cutoffs parms) (next_state current_cutoff);
           if percent_time \<ge> consensus_time next_cutoff
           then Some (consensus_pct next_cutoff, Some (next_state current_cutoff))
           else Some (consensus_pct current_cutoff, None)
         }
       else Some (consensus_pct current_cutoff, None)
     }"

text \<open>
  The parameters the rest of the crate relies on: the avalanche table covers every state, its
  percentages fit an \<^verbatim>\<open>i32\<close>, and the clamp bounds of \<open>check_consensus\<close> are ordered.
\<close>

definition parms_ok :: "consensus_parms \<Rightarrow> bool" where
  "parms_ok p \<longleftrightarrow> (\<forall>s. map_of (avalanche_cutoffs p) s \<noteq> None)
     \<and> (\<forall>s c. map_of (avalanche_cutoffs p) s = Some c \<longrightarrow> consensus_pct c < 2 ^ 31)
     \<and> min_consensus_pct p < 2 ^ 31
     \<and> ledger_max_consensus p \<le> ledger_abandon_consensus p"

section \<open>Closing the ledger\<close>

definition should_close_ledger ::
  "bool \<Rightarrow> nat \<Rightarrow> nat \<Rightarrow> nat \<Rightarrow> duration \<Rightarrow> duration \<Rightarrow> duration \<Rightarrow> duration \<Rightarrow> consensus_parms \<Rightarrow> bool"
where
  "should_close_ledger any_transactions prev_proposers proposers_closed proposers_validated
     prev_round_time time_since_prev_close open_time idle_interval parms =
     (if prev_round_time > from_secs 600 \<or> time_since_prev_close > from_secs 600 then True
      else if proposers_closed + proposers_validated > prev_proposers div 2 then True
      else if \<not> any_transactions then time_since_prev_close \<ge> idle_interval
      else if open_time < ledger_min_close parms then False
      else if open_time < prev_round_time div 2 then False
      else True)"

section \<open>Reaching consensus\<close>

datatype consensus_state = No | MovedOn | Expired | Yes

definition check_consensus_reached ::
  "nat \<Rightarrow> nat \<Rightarrow> bool \<Rightarrow> nat \<Rightarrow> bool \<Rightarrow> bool \<Rightarrow> bool" where
  "check_consensus_reached agreeing tot count_self min_pct reached_max stalled =
     (if tot = 0 then reached_max
      else if stalled then True
      else
        let agreeing' = (if count_self then agreeing + 1 else agreeing);
            tot' = (if count_self then tot + 1 else tot);
            current_percentage = agreeing' * 100 div tot'
        in current_percentage \<ge> min_pct)"

definition check_consensus ::
  "nat \<Rightarrow> nat \<Rightarrow> nat \<Rightarrow> nat \<Rightarrow> duration \<Rightarrow> duration \<Rightarrow> bool \<Rightarrow> consensus_parms \<Rightarrow> bool \<Rightarrow> consensus_state"
where
  "check_consensus prev_proposers current_proposers current_agree current_finished
     previous_agree_time current_agree_time stalled parms proposing =
     (if current_agree_time \<le> ledger_min_consensus parms then No
      else if current_proposers < prev_proposers * 3 div 4
              \<and> current_agree_time < previous_agree_time + ledger_min_consensus parms then No
      else
        let reached_max = current_agree_time > ledger_max_consensus parms in
        if check_consensus_reached current_agree current_proposers proposing
             (min_consensus_pct parms) reached_max stalled then Yes
        else if check_consensus_reached current_finished current_proposers False
             (min_consensus_pct parms) reached_max False then MovedOn
        else
          let max_agree_time =
                saturating_mul previous_agree_time (ledger_abandon_consensus_factor parms);
              clamped_max =
                clamp (ledger_max_consensus parms) (ledger_abandon_consensus parms) max_agree_time
          in if current_agree_time > clamped_max then Expired else No)"

section \<open>The phase timer and the participant threshold\<close>

record consensus_timer =
  timer_start :: "nat option"
  timer_dur :: duration

definition timer_default :: consensus_timer where
  "timer_default = \<lparr>timer_start = None, timer_dur = 0\<rparr>"

definition timer_read :: "consensus_timer \<Rightarrow> duration" where
  "timer_read t = timer_dur t"

definition timer_tick_fixed :: "duration \<Rightarrow> consensus_timer \<Rightarrow> consensus_timer" where
  "timer_tick_fixed fixed t = t\<lparr>timer_dur := timer_dur t + fixed\<rparr>"

definition timer_reset :: "nat \<Rightarrow> consensus_timer \<Rightarrow> consensus_timer" where
  "timer_reset tp t = t\<lparr>timer_start := Some tp, timer_dur := 0\<rparr>"

text \<open>\<^verbatim>\<open>saturating_duration_since\<close> is truncated subtraction of instants.\<close>

definition timer_tick_to :: "nat \<Rightarrow> consensus_timer \<Rightarrow> consensus_timer" where
  "timer_tick_to tp t =
     (case timer_start t of None \<Rightarrow> t | Some start \<Rightarrow> t\<lparr>timer_dur := tp - start\<rparr>)"

definition participants_needed :: "int \<Rightarrow> int \<Rightarrow> int" where
  "participants_needed participants percent =
     (let result = trunc_div (participants * percent + trunc_div percent 2) 100
      in if result = 0 then 1 else result)"

section \<open>Lemmas\<close>

lemma default_parms_cutoffs:
  "map_of (avalanche_cutoffs default_parms) s = Some (case s of
     Init \<Rightarrow> \<lparr>consensus_time = 0, consensus_pct = 50, next_state = Mid\<rparr>
   | Mid \<Rightarrow> \<lparr>consensus_time = 50, consensus_pct = 65, next_state = Late\<rparr>
   | Late \<Rightarrow> \<lparr>consensus_time = 85, consensus_pct = 70, next_state = Stuck\<rparr>
   | Stuck \<Rightarrow> \<lparr>consensus_time = 200, consensus_pct = 95, next_state = Stuck\<rparr>)"
  by (cases s) (simp_all add: default_parms_def)

lemma default_parms_ok: "parms_ok default_parms"
proof -
  have "ledger_max_consensus default_parms \<le> ledger_abandon_consensus default_parms"
    "min_consensus_pct default_parms < 2 ^ 31"
    by (simp_all add: default_parms_def)
  then show ?thesis
    by (simp add: parms_ok_def default_parms_cutoffs split: avalanche_state.split)
qed

lemma parms_ok_cutoff: "parms_ok p \<Longrightarrow> \<exists>c. map_of (avalanche_cutoffs p) s = Some c"
  by (auto simp: parms_ok_def)

lemma get_needed_weight_total:
  assumes "parms_ok p"
  shows "\<exists>w n. get_needed_weight p s t r m = Some (w, n) \<and> w < 2 ^ 31"
proof -
  obtain c where c: "map_of (avalanche_cutoffs p) s = Some c"
    using parms_ok_cutoff [OF assms] by blast
  obtain d where d: "map_of (avalanche_cutoffs p) (next_state c) = Some d"
    using parms_ok_cutoff [OF assms] by blast
  have "consensus_pct c < 2 ^ 31" "consensus_pct d < 2 ^ 31"
    using assms c d by (auto simp: parms_ok_def)
  then show ?thesis
    by (simp add: get_needed_weight_def c d)
qed

lemma participants_needed_pos:
  assumes "0 \<le> n" "0 \<le> pct"
  shows "1 \<le> participants_needed n pct"
proof -
  have nn: "0 \<le> n * pct + pct div 2" using assms by (simp add: pos_imp_zdiv_nonneg_iff)
  then have "participants_needed n pct =
      (if (n * pct + pct div 2) div 100 = 0 then 1 else (n * pct + pct div 2) div 100)"
    using assms by (simp add: participants_needed_def Let_def)
  moreover have "0 \<le> (n * pct + pct div 2) div 100"
    using nn by (simp add: pos_imp_zdiv_nonneg_iff)
  ultimately show ?thesis by simp
qed

lemma percent_div: "0 < t \<Longrightarrow> p \<le> a * 100 div t \<longleftrightarrow> p * t \<le> a * 100" for a p t :: nat
  by (simp add: less_eq_div_iff_mult_less_eq)

lemma check_consensus_reached_iff:
  "0 < tot \<Longrightarrow> \<not> stalled \<Longrightarrow> check_consensus_reached agreeing tot self pct rm stalled \<longleftrightarrow>
     pct * (tot + (if self then 1 else 0)) \<le> (agreeing + (if self then 1 else 0)) * 100"
  by (simp add: check_consensus_reached_def percent_div add.commute)

lemma check_consensus_No_cases:
  "check_consensus pp cp ca cf pat cat stalled p proposing \<noteq> No \<Longrightarrow>
     ledger_min_consensus p < cat"
  by (auto simp: check_consensus_def Let_def split: if_splits)

lemma yes_supermajority:
  assumes "check_consensus prev cur agree fin pat cat False p proposing = Yes" "0 < cur"
  shows "ledger_min_consensus p < cat
    \<and> min_consensus_pct p * (cur + (if proposing then 1 else 0))
        \<le> 100 * (agree + (if proposing then 1 else 0))"
proof -
  have "check_consensus_reached agree cur proposing (min_consensus_pct p)
      (ledger_max_consensus p < cat) False"
    using assms(1) by (auto simp: check_consensus_def Let_def split: if_splits)
  then have "min_consensus_pct p * (cur + (if proposing then 1 else 0))
      \<le> (agree + (if proposing then 1 else 0)) * 100"
    using check_consensus_reached_iff [OF assms(2), of False] by simp
  then show ?thesis
    using check_consensus_No_cases [of prev cur agree fin pat cat False p proposing] assms(1)
    by (simp add: mult.commute)
qed

section \<open>Properties\<close>







text \<open>
  The avalanche threshold never relaxes: with the default parameters, every evaluation of
  \<open>get_needed_weight\<close> succeeds, asks for at least the percentage of the current state, and
  moves, if at all, to a strictly later state whose cutoff time has been reached, after the
  minimum number of rounds.
\<close>

theorem avalanche_threshold_monotone:
  "\<exists>w n. get_needed_weight default_parms s t r m = Some (w, n)
     \<and> consensus_pct (the (map_of (avalanche_cutoffs default_parms) s)) \<le> w
     \<and> (case n of None \<Rightarrow> True
        | Some s' \<Rightarrow> s < s' \<and> m \<le> r
            \<and> consensus_time (the (map_of (avalanche_cutoffs default_parms) s')) \<le> t)"
  by (cases s)
    (simp_all add: get_needed_weight_def default_parms_cutoffs less_avalanche_state_def)

text \<open>
  A ledger without transactions is not closed early: unless the timing is out of range or
  more than half of the previous proposers have already closed or validated, an empty open
  ledger closes exactly when the idle interval has elapsed, and one with transactions only
  after both the minimum open time and half of the previous round's time.
\<close>

theorem should_close_ledger_waits:
  assumes "prt \<le> from_secs 600" "since \<le> from_secs 600" "closed + validated \<le> prev div 2"
  shows "should_close_ledger anyt prev closed validated prt since opent idle p \<longleftrightarrow>
    (if anyt then ledger_min_close p \<le> opent \<and> prt div 2 \<le> opent else idle \<le> since)"
  using assms by (auto simp: should_close_ledger_def)

theorem should_close_ledger_waits_witness:
  "should_close_ledger True 10 2 3 (from_secs 4) 0 (from_secs 2) (from_secs 15) default_parms
    \<and> \<not> should_close_ledger True 10 2 3 (from_secs 10) 0 (from_secs 3) (from_secs 15) default_parms"
proof -
  have "ledger_min_close default_parms = from_secs 2" by (simp add: default_parms_def)
  then show ?thesis
    using should_close_ledger_waits [of "from_secs 4" 0 2 3 10 True "from_secs 2" "from_secs 15" default_parms]
      should_close_ledger_waits [of "from_secs 10" 0 2 3 10 True "from_secs 3" "from_secs 15" default_parms]
    by (simp add: from_secs_def)
qed

end
