(* ===== verification/Ledger_Timing.thy ===== *)
theory Ledger_Timing
  imports Prelude
begin

text \<open>
  Network time and close-time binning: \<^verbatim>\<open>NetClockTimePoint\<close> of
  \<^verbatim>\<open>xrpl/basics/src/time/chrono.rs\<close> and \<^verbatim>\<open>xrpld/consensus/src/algorithm/timing.rs\<close>.

  A network time point is the \<^verbatim>\<open>u32\<close> number of seconds since 2000-01-01, here a natural
  number below \<open>2 ^ 32\<close>; \<^verbatim>\<open>time::Duration\<close> values of this file are whole seconds.
\<close>

type_synonym net_time = nat

definition u32_max :: nat where
  "u32_max = 2 ^ 32 - 1"

definition try_u32 :: "int \<Rightarrow> nat option" where
  "try_u32 x = (if 0 \<le> x \<and> x \<le> int u32_max then Some (nat x) else None)"

definition net_checked_add :: "net_time \<Rightarrow> int \<Rightarrow> net_time option" where
  "net_checked_add t delta = try_u32 (int t + delta)"

definition net_checked_sub :: "net_time \<Rightarrow> int \<Rightarrow> net_time option" where
  "net_checked_sub t delta = try_u32 (int t - delta)"

text \<open>\<^verbatim>\<open>a - b\<close> on two time points: the signed number of seconds between them.\<close>

definition net_diff :: "net_time \<Rightarrow> net_time \<Rightarrow> int" where
  "net_diff a b = int a - int b"

section \<open>Resolution of the close time\<close>

definition LEDGER_POSSIBLE_TIME_RESOLUTIONS :: "int list" where
  "LEDGER_POSSIBLE_TIME_RESOLUTIONS = [10, 20, 30, 60, 90, 120]"

definition LEDGER_DEFAULT_TIME_RESOLUTION :: int where
  "LEDGER_DEFAULT_TIME_RESOLUTION = LEDGER_POSSIBLE_TIME_RESOLUTIONS ! 2"

definition LEDGER_GENESIS_TIME_RESOLUTION :: int where
  "LEDGER_GENESIS_TIME_RESOLUTION = LEDGER_POSSIBLE_TIME_RESOLUTIONS ! 0"

definition INCREASE_LEDGER_TIME_RESOLUTION_EVERY :: nat where
  "INCREASE_LEDGER_TIME_RESOLUTION_EVERY = 8"

definition DECREASE_LEDGER_TIME_RESOLUTION_EVERY :: nat where
  "DECREASE_LEDGER_TIME_RESOLUTION_EVERY = 1"

text \<open>\<^verbatim>\<open>iter().position(|r| r == x)\<close>: the index of the first occurrence.\<close>

fun position :: "'a \<Rightarrow> 'a list \<Rightarrow> nat option" where
  "position x [] = None"
| "position x (y # ys) = (if x = y then Some 0 else map_option Suc (position x ys))"

definition get_next_ledger_time_resolution :: "int \<Rightarrow> bool \<Rightarrow> nat \<Rightarrow> int" where
  "get_next_ledger_time_resolution previous_resolution previous_agree ledger_seq =
     (case position previous_resolution LEDGER_POSSIBLE_TIME_RESOLUTIONS of
        None \<Rightarrow> previous_resolution
      | Some index \<Rightarrow>
          if \<not> previous_agree \<and> ledger_seq mod DECREASE_LEDGER_TIME_RESOLUTION_EVERY = 0 then
            (if index + 1 < length LEDGER_POSSIBLE_TIME_RESOLUTIONS
             then LEDGER_POSSIBLE_TIME_RESOLUTIONS ! (index + 1) else previous_resolution)
          else if previous_agree \<and> ledger_seq mod INCREASE_LEDGER_TIME_RESOLUTION_EVERY = 0 then
            (if index > 0 then LEDGER_POSSIBLE_TIME_RESOLUTIONS ! (index - 1)
             else previous_resolution)
          else previous_resolution)"

section \<open>Rounding the close time\<close>

definition round_close_time :: "net_time \<Rightarrow> int \<Rightarrow> net_time" where
  "round_close_time close_time resolution =
     (if close_time = 0 then close_time
      else
        let resolution_secs = max resolution 1;
            shifted = int close_time + resolution_secs div 2;
            rounded = shifted - shifted mod resolution_secs
        in nat (max rounded 0) mod 2 ^ 32)"

definition effective_close_time :: "net_time \<Rightarrow> int \<Rightarrow> net_time \<Rightarrow> net_time" where
  "effective_close_time close_time resolution prior_close_time =
     (if close_time = 0 then close_time
      else
        let rounded = round_close_time close_time resolution;
            min_allowed = min (prior_close_time + 1) u32_max
        in max rounded min_allowed)"

section \<open>Lemmas\<close>

lemma position_Some: "position x xs = Some i \<Longrightarrow> i < length xs \<and> xs ! i = x"
  by (induction xs arbitrary: i) (auto split: if_splits)

lemma position_None: "position x xs = None \<longleftrightarrow> x \<notin> set xs"
  by (induction xs) auto

lemma position_nth: "distinct xs \<Longrightarrow> i < length xs \<Longrightarrow> position (xs ! i) xs = Some i"
proof (induction xs arbitrary: i)
  case (Cons x xs)
  then show ?case by (cases i) auto
qed simp

text \<open>The rounding as a closed formula, where the \<^verbatim>\<open>u32\<close> result does not wrap.\<close>

lemma round_close_time_eq:
  assumes "0 < t" "0 < r" "int t + r div 2 < 2 ^ 32"
  shows "int (round_close_time t r) = r * ((int t + r div 2) div r)"
proof -
  let ?s = "int t + r div 2"
  have pos: "0 \<le> ?s" using assms(2) by (simp add: pos_imp_zdiv_nonneg_iff)
  have m: "max r 1 = r" using assms(2) by simp
  have eq: "?s - ?s mod r = r * (?s div r)" by (simp add: minus_mod_eq_mult_div)
  have nn: "0 \<le> r * (?s div r)" using pos assms(2) by (simp add: pos_imp_zdiv_nonneg_iff)
  have "r * (?s div r) \<le> ?s"
    using assms(2) eq pos_mod_sign [of r ?s] by linarith
  then have lt: "r * (?s div r) < 2 ^ 32" using assms(3) by linarith
  have "round_close_time t r = nat (r * (?s div r)) mod 2 ^ 32"
    using assms(1) nn by (simp add: round_close_time_def Let_def m eq)
  also have "\<dots> = nat (r * (?s div r))"
    using lt nn by (simp add: nat_less_iff)
  finally show ?thesis using nn by simp
qed

lemma round_close_time_near:
  assumes "0 < t" "0 < r" "int t + r div 2 < 2 ^ 32"
  shows "2 * int (round_close_time t r) \<le> 2 * int t + r"
    and "2 * int t < 2 * int (round_close_time t r) + r"
proof -
  let ?s = "int t + r div 2"
  have e: "int (round_close_time t r) = ?s - ?s mod r"
    using round_close_time_eq [OF assms] by (simp add: minus_mod_eq_mult_div)
  have "0 \<le> ?s mod r" "?s mod r < r" using assms(2) by simp_all
  moreover have "2 * (r div 2) \<le> r" "r < 2 * (r div 2) + 2" by linarith+
  ultimately show "2 * int (round_close_time t r) \<le> 2 * int t + r"
    and "2 * int t < 2 * int (round_close_time t r) + r"
    using e by linarith+
qed

lemma round_close_time_bounded: "t < 2 ^ 32 \<Longrightarrow> round_close_time t r < 2 ^ 32"
  by (simp add: round_close_time_def Let_def)

section \<open>Properties\<close>

text \<open>
  Rounding a close time gives the nearest multiple of the resolution, a tie rounding up:
  the result is a multiple of the resolution, it exceeds the time by at most half a bin, and
  it lies below the time by strictly less than half a bin. The bound says that the result
  still fits the \<^verbatim>\<open>u32\<close> clock.
\<close>

theorem round_close_time_nearest:
  assumes "0 < t" "0 < r" "int t + r div 2 < 2 ^ 32"
  shows "r dvd int (round_close_time t r)
    \<and> 2 * (int (round_close_time t r) - int t) \<le> r
    \<and> 2 * (int t - int (round_close_time t r)) < r"
  using round_close_time_eq [OF assms] round_close_time_near [OF assms]
  by (simp add: algebra_simps)

theorem round_close_time_nearest_witness:
  "round_close_time 45 30 = 60 \<and> (30::int) dvd int (round_close_time 45 30)
    \<and> 2 * (int (round_close_time 45 30) - 45) \<le> 30
    \<and> 2 * (45 - int (round_close_time 45 30)) < 30"
proof -
  have "round_close_time 45 30 = 60" by (simp add: round_close_time_def)
  then show ?thesis using round_close_time_nearest [of 45 30] by simp
qed

text \<open>
  A ledger whose close time is set never closes at or before its parent: the effective
  close time is strictly later than the parent's as long as the \<^verbatim>\<open>u32\<close> clock has a later
  second to offer, and it is never earlier than the rounded time.
\<close>

theorem effective_close_time_after_parent:
  assumes "close_time \<noteq> 0" "prior < u32_max"
  shows "prior < effective_close_time close_time resolution prior
    \<and> round_close_time close_time resolution \<le> effective_close_time close_time resolution prior"
  using assms by (simp add: effective_close_time_def Let_def)

theorem effective_close_time_after_parent_witness:
  "effective_close_time 100 30 100 = 101 \<and> (100::nat) < effective_close_time 100 30 100
    \<and> round_close_time 100 30 \<le> effective_close_time 100 30 100"
proof -
  have "effective_close_time 100 30 100 = 101"
    by (simp add: effective_close_time_def round_close_time_def u32_max_def)
  then show ?thesis
    using effective_close_time_after_parent [of 100 100 30] by (simp add: u32_max_def)
qed

text \<open>
  C40. The next close-time resolution stays in the table and moves by at most one bin: one bin
  coarser (saturating at the coarsest) after a round without close-time agreement, one bin
  finer (saturating at the finest) after an agreed round whose ledger sequence is a multiple
  of eight, and unchanged otherwise.
\<close>

theorem next_resolution_steps:
  assumes "i < length LEDGER_POSSIBLE_TIME_RESOLUTIONS"
  shows "get_next_ledger_time_resolution (LEDGER_POSSIBLE_TIME_RESOLUTIONS ! i) agree seq =
    LEDGER_POSSIBLE_TIME_RESOLUTIONS !
      (if \<not> agree then min (i + 1) (length LEDGER_POSSIBLE_TIME_RESOLUTIONS - 1)
       else if 8 dvd seq then i - 1 else i)"
proof -
  have "distinct LEDGER_POSSIBLE_TIME_RESOLUTIONS"
    by (simp add: LEDGER_POSSIBLE_TIME_RESOLUTIONS_def)
  then have p: "position (LEDGER_POSSIBLE_TIME_RESOLUTIONS ! i)
      LEDGER_POSSIBLE_TIME_RESOLUTIONS = Some i"
    using assms by (rule position_nth)
  have "min (Suc i) (length LEDGER_POSSIBLE_TIME_RESOLUTIONS - Suc 0) =
      (if Suc i < length LEDGER_POSSIBLE_TIME_RESOLUTIONS then Suc i else i)"
    using assms by auto
  with p assms show ?thesis
    by (auto simp: get_next_ledger_time_resolution_def DECREASE_LEDGER_TIME_RESOLUTION_EVERY_def
        INCREASE_LEDGER_TIME_RESOLUTION_EVERY_def dvd_eq_mod_eq_0)
qed

theorem next_resolution_steps_witness:
  "get_next_ledger_time_resolution 30 False 7 = 60 \<and> get_next_ledger_time_resolution 30 True 16 = 20
    \<and> get_next_ledger_time_resolution 120 False 7 = 120"
proof -
  have l: "length LEDGER_POSSIBLE_TIME_RESOLUTIONS = 6"
    by (simp add: LEDGER_POSSIBLE_TIME_RESOLUTIONS_def)
  show ?thesis
    using next_resolution_steps [of 2 False 7] next_resolution_steps [of 2 True 16]
      next_resolution_steps [of 5 False 7]
    by (simp add: l) (simp add: LEDGER_POSSIBLE_TIME_RESOLUTIONS_def)
qed

end
