(* ===== verification/Proposal.thy ===== *)
theory Proposal
  imports Ledger_Timing
begin

text \<open>
  A peer's position in a consensus round: \<^verbatim>\<open>xrpld/consensus/src/model/proposal.rs\<close>. The
  identifiers of nodes, ledgers and transaction sets are opaque keys that the code only
  compares; they are natural numbers here. Sequence numbers are \<^verbatim>\<open>u32\<close>s.
\<close>

type_synonym node_id = nat
type_synonym ledger_id = nat
type_synonym tx_set_id = nat
type_synonym tx_id = nat

record proposal =
  previous_ledger :: ledger_id
  prop_position :: tx_set_id
  prop_close_time :: net_time
  seen_time :: net_time
  propose_seq :: nat
  prop_node :: node_id

definition SEQ_JOIN :: nat where
  "SEQ_JOIN = 0"

definition SEQ_LEAVE :: nat where
  "SEQ_LEAVE = u32_max"

definition proposal_new ::
  "ledger_id \<Rightarrow> nat \<Rightarrow> tx_set_id \<Rightarrow> net_time \<Rightarrow> net_time \<Rightarrow> node_id \<Rightarrow> proposal" where
  "proposal_new prev seq pos ct seen node =
     \<lparr>previous_ledger = prev, prop_position = pos, prop_close_time = ct, seen_time = seen,
      propose_seq = seq, prop_node = node\<rparr>"

definition is_initial :: "proposal \<Rightarrow> bool" where
  "is_initial p \<longleftrightarrow> propose_seq p = SEQ_JOIN"

definition is_bow_out :: "proposal \<Rightarrow> bool" where
  "is_bow_out p \<longleftrightarrow> propose_seq p = SEQ_LEAVE"

definition is_stale :: "net_time \<Rightarrow> proposal \<Rightarrow> bool" where
  "is_stale cutoff p \<longleftrightarrow> seen_time p \<le> cutoff"

definition change_position :: "tx_set_id \<Rightarrow> net_time \<Rightarrow> net_time \<Rightarrow> proposal \<Rightarrow> proposal" where
  "change_position new_position new_close_time now p =
     p\<lparr>prop_position := new_position, prop_close_time := new_close_time, seen_time := now,
       propose_seq :=
         (if propose_seq p \<noteq> SEQ_LEAVE then propose_seq p + 1 else propose_seq p)\<rparr>"

definition bow_out :: "net_time \<Rightarrow> proposal \<Rightarrow> proposal" where
  "bow_out now p = p\<lparr>seen_time := now, propose_seq := SEQ_LEAVE\<rparr>"

section \<open>Lemmas\<close>

lemma change_position_simps [simp]:
  "previous_ledger (change_position np nct now p) = previous_ledger p"
  "prop_position (change_position np nct now p) = np"
  "prop_close_time (change_position np nct now p) = nct"
  "seen_time (change_position np nct now p) = now"
  "prop_node (change_position np nct now p) = prop_node p"
  by (simp_all add: change_position_def)

lemma bow_out_simps [simp]:
  "previous_ledger (bow_out now p) = previous_ledger p"
  "prop_position (bow_out now p) = prop_position p"
  "prop_close_time (bow_out now p) = prop_close_time p"
  "prop_node (bow_out now p) = prop_node p"
  "is_bow_out (bow_out now p)"
  by (simp_all add: bow_out_def is_bow_out_def)

section \<open>Properties\<close>

text \<open>
  Sequence numbers of a peer's successive positions: a change of position increases the
  sequence number by exactly one and keeps it a \<^verbatim>\<open>u32\<close>, unless the peer has bowed out, in
  which case the position stays bowed out; bowing out is final.
\<close>

theorem change_position_sequence:
  assumes "propose_seq p \<le> u32_max"
  shows "(if is_bow_out p then is_bow_out (change_position np nct now p)
      else propose_seq (change_position np nct now p) = propose_seq p + 1)
    \<and> propose_seq (change_position np nct now p) \<le> u32_max
    \<and> is_bow_out (change_position np nct now (bow_out now p))
    \<and> \<not> is_initial (change_position np nct now p)"
  using assms
  by (auto simp: change_position_def bow_out_def is_bow_out_def is_initial_def SEQ_LEAVE_def
      SEQ_JOIN_def u32_max_def)

theorem change_position_sequence_witness:
  "propose_seq (change_position 5 10 11 (proposal_new 1 SEQ_JOIN 4 9 9 7)) = 1
    \<and> is_bow_out (change_position 5 10 11 (bow_out 11 (proposal_new 1 SEQ_JOIN 4 9 9 7)))"
  using change_position_sequence [of "proposal_new 1 SEQ_JOIN 4 9 9 7" 5 10 11]
  by (simp add: proposal_new_def SEQ_JOIN_def SEQ_LEAVE_def u32_max_def is_bow_out_def)

end
