(* ===== verification/Disputed_Tx.thy ===== *)
theory Disputed_Tx
  imports Consensus_Params Proposal
begin

text \<open>
  A transaction in dispute during consensus: \<^verbatim>\<open>xrpld/consensus/src/model/disputed_tx.rs\<close>.

  The counters are \<^verbatim>\<open>i32\<close>s that count the entries of the vote map (that they do is property
  \<open>dispute_run_counts\<close>), so they stay far below overflow; they are integers here. The functions
  that read the avalanche table or convert a percentage can panic; they return \<^term>\<open>None\<close>
  then.
\<close>

record 'tx disputed_tx =
  yays :: int
  nays :: int
  our_vote :: bool
  dtx_tx :: 'tx
  votes :: "(node_id, bool) btree"
  current_vote_counter :: nat
  dtx_avalanche_state :: avalanche_state
  avalanche_counter :: nat
  dtx_id :: tx_id

definition dispute_new :: "'tx \<Rightarrow> tx_id \<Rightarrow> bool \<Rightarrow> 'tx disputed_tx" where
  "dispute_new tx txid vote =
     \<lparr>yays = 0, nays = 0, our_vote = vote, dtx_tx = tx, votes = [], current_vote_counter = 0,
      dtx_avalanche_state = Init, avalanche_counter = 0, dtx_id = txid\<rparr>"

definition set_our_vote :: "bool \<Rightarrow> 'tx disputed_tx \<Rightarrow> 'tx disputed_tx" where
  "set_our_vote vote d = d\<lparr>our_vote := vote\<rparr>"

definition set_vote :: "node_id \<Rightarrow> bool \<Rightarrow> 'tx disputed_tx \<Rightarrow> 'tx disputed_tx \<times> bool" where
  "set_vote peer votes_yes d =
     (case map_of (votes d) peer of
        None \<Rightarrow>
          (let d1 = d\<lparr>votes := btree_insert peer votes_yes (votes d)\<rparr>
           in (if votes_yes then d1\<lparr>yays := yays d1 + 1\<rparr> else d1\<lparr>nays := nays d1 + 1\<rparr>, True))
      | Some existing \<Rightarrow>
          if existing \<noteq> votes_yes then
            (let d1 = (if votes_yes then d\<lparr>nays := nays d - 1, yays := yays d + 1\<rparr>
                       else d\<lparr>yays := yays d - 1, nays := nays d + 1\<rparr>)
             in (d1\<lparr>votes := btree_insert peer votes_yes (votes d1)\<rparr>, True))
          else (d, False))"

definition un_vote :: "node_id \<Rightarrow> 'tx disputed_tx \<Rightarrow> 'tx disputed_tx" where
  "un_vote peer d =
     (case map_of (votes d) peer of
        None \<Rightarrow> d
      | Some vote \<Rightarrow>
          (let d1 = d\<lparr>votes := btree_remove peer (votes d)\<rparr>
           in if vote then d1\<lparr>yays := yays d1 - 1\<rparr> else d1\<lparr>nays := nays d1 - 1\<rparr>))"

definition stalled :: "consensus_parms \<Rightarrow> bool \<Rightarrow> nat \<Rightarrow> 'tx disputed_tx \<Rightarrow> bool option" where
  "stalled parms proposing peers_unchanged d =
     do {
       current_cutoff \<leftarrow> map_of (avalanche_cutoffs parms) (dtx_avalanche_state d);
       next_cutoff \<leftarrow> map_of (avalanche_cutoffs parms) (next_state current_cutoff);
       if consensus_time next_cutoff > consensus_time current_cutoff
          \<or> avalanche_counter d < av_min_rounds parms then Some False
       else if proposing \<and> current_vote_counter d < av_min_rounds parms then Some False
       else if peers_unchanged < av_stalled_rounds parms
          \<and> (proposing \<and> current_vote_counter d < av_stalled_rounds parms) then Some False
       else
         let support = (yays d + bool_int (proposing \<and> our_vote d)) * 100;
             tot = nays d + yays d + bool_int proposing
         in if tot = 0 then Some False
            else do {
              min_pct \<leftarrow> try_i32 (min_consensus_pct parms);
              let weight = trunc_div support tot;
              Some (weight > min_pct \<or> weight < 100 - min_pct)
            }
     }"

definition update_vote ::
  "int \<Rightarrow> bool \<Rightarrow> consensus_parms \<Rightarrow> 'tx disputed_tx \<Rightarrow> ('tx disputed_tx \<times> bool) option" where
  "update_vote percent_time proposing parms d =
     (if our_vote d \<and> nays d = 0 then Some (d, False)
      else if \<not> our_vote d \<and> yays d = 0 then Some (d, False)
      else do {
        let d1 = d\<lparr>avalanche_counter := avalanche_counter d + 1\<rparr>;
        (required_pct, new_state) \<leftarrow>
          get_needed_weight parms (dtx_avalanche_state d1) percent_time (avalanche_counter d1)
            (av_min_rounds parms);
        let d2 = (case new_state of None \<Rightarrow> d1
                  | Some s \<Rightarrow> d1\<lparr>dtx_avalanche_state := s, avalanche_counter := 0\<rparr>);
        new_position \<leftarrow>
          (if proposing then do {
             req \<leftarrow> try_i32 required_pct;
             let weight = trunc_div (yays d2 * 100 + bool_int (our_vote d2) * 100)
                            (nays d2 + yays d2 + 1);
             Some (weight > req)
           }
           else Some (yays d2 > nays d2));
        if new_position = our_vote d2
        then Some (d2\<lparr>current_vote_counter := current_vote_counter d2 + 1\<rparr>, False)
        else Some (d2\<lparr>current_vote_counter := 0, our_vote := new_position\<rparr>, True)
      })"

section \<open>The bookkeeping invariant\<close>

text \<open>The counters count the votes in the map.\<close>

definition dispute_ok :: "'tx disputed_tx \<Rightarrow> bool" where
  "dispute_ok d \<longleftrightarrow> btree_wf (votes d)
     \<and> yays d = int (bt.tally (\<lambda>v. v) (votes d))
     \<and> nays d = int (bt.tally (\<lambda>v. \<not> v) (votes d))"

definition voters :: "'tx disputed_tx \<Rightarrow> node_id set" where
  "voters d = dom (map_of (votes d))"

lemma dispute_ok_new [simp]: "dispute_ok (dispute_new tx i v)"
  by (simp add: dispute_ok_def dispute_new_def bt.tally_def)

lemma voters_new [simp]: "voters (dispute_new tx i v) = {}"
  by (simp add: voters_def dispute_new_def)

lemma dispute_ok_set_our_vote [simp]: "dispute_ok (set_our_vote v d) = dispute_ok d"
  by (simp add: dispute_ok_def set_our_vote_def)

lemma set_vote_votes:
  assumes "btree_wf (votes d)"
  shows "map_of (votes (fst (set_vote p v d))) = (map_of (votes d))(p \<mapsto> v)"
  using assms by (auto simp: set_vote_def Let_def map_rules split: option.split)

lemma set_vote_frame [simp]:
  "our_vote (fst (set_vote p v d)) = our_vote d"
  "dtx_tx (fst (set_vote p v d)) = dtx_tx d"
  "dtx_id (fst (set_vote p v d)) = dtx_id d"
  by (auto simp: set_vote_def Let_def split: option.split)

lemma un_vote_frame [simp]:
  "our_vote (un_vote p d) = our_vote d"
  "dtx_tx (un_vote p d) = dtx_tx d"
  "dtx_id (un_vote p d) = dtx_id d"
  by (auto simp: un_vote_def Let_def split: option.split)

lemma dispute_ok_set_vote:
  assumes "dispute_ok d"
  shows "dispute_ok (fst (set_vote p v d))"
proof -
  have wf: "btree_wf (votes d)" using assms by (simp add: dispute_ok_def)
  show ?thesis
  proof (cases "map_of (votes d) p")
    case None
    then show ?thesis
      using assms bt.tally_put_new [OF wf None]
      by (simp add: set_vote_def dispute_ok_def Let_def)
  next
    case (Some w)
    show ?thesis
    proof (cases "w = v")
      case True
      then show ?thesis using assms Some by (simp add: set_vote_def)
    next
      case False
      then show ?thesis
        using assms Some bt.tally_put_old [OF wf Some, of "\<lambda>x. x" v]
          bt.tally_put_old [OF wf Some, of "\<lambda>x. \<not> x" v]
        by (cases v) (simp_all add: set_vote_def dispute_ok_def Let_def)
    qed
  qed
qed

lemma dispute_ok_un_vote:
  assumes "dispute_ok d"
  shows "dispute_ok (un_vote p d)"
proof -
  have wf: "btree_wf (votes d)" using assms by (simp add: dispute_ok_def)
  show ?thesis
  proof (cases "map_of (votes d) p")
    case None
    then show ?thesis using assms by (simp add: un_vote_def)
  next
    case (Some w)
    then show ?thesis
      using assms bt.tally_del [OF wf Some, of "\<lambda>x. x"] bt.tally_del [OF wf Some, of "\<lambda>x. \<not> x"]
      by (cases w) (simp_all add: un_vote_def dispute_ok_def Let_def)
  qed
qed

lemma voters_set_vote:
  "dispute_ok d \<Longrightarrow> voters (fst (set_vote p v d)) = insert p (voters d)"
  by (simp add: voters_def set_vote_votes dispute_ok_def)

lemma voters_un_vote: "voters (un_vote p d) = voters d - {p}"
  by (auto simp: voters_def un_vote_def map_of_btree_remove Let_def split: option.splits if_splits)

text \<open>\<open>update_vote\<close> touches our vote and the avalanche bookkeeping only.\<close>

lemma update_vote_frame:
  "update_vote pt proposing parms d = Some (d', c) \<Longrightarrow>
     votes d' = votes d \<and> yays d' = yays d \<and> nays d' = nays d \<and> dtx_tx d' = dtx_tx d
     \<and> dtx_id d' = dtx_id d \<and> (our_vote d' \<noteq> our_vote d) = c"
  by (auto simp: update_vote_def Let_def split: if_splits option.splits bind_splits)

lemma dispute_ok_update_vote:
  "update_vote pt proposing parms d = Some (d', c) \<Longrightarrow> dispute_ok d' = dispute_ok d"
  by (auto dest!: update_vote_frame simp: dispute_ok_def)

lemma voters_update_vote:
  "update_vote pt proposing parms d = Some (d', c) \<Longrightarrow> voters d' = voters d"
  by (auto dest!: update_vote_frame simp: voters_def)

lemma update_vote_total:
  assumes "parms_ok parms"
  shows "\<exists>d' c. update_vote pt proposing parms d = Some (d', c)"
proof -
  obtain w n where w: "get_needed_weight parms (dtx_avalanche_state d) pt
      (Suc (avalanche_counter d)) (av_min_rounds parms) = Some (w, n)" "w < 2 ^ 31"
    using get_needed_weight_total [OF assms] by blast
  then show ?thesis
    by (simp add: update_vote_def Let_def try_i32_def) blast
qed

lemma stalled_total:
  assumes "parms_ok parms"
  shows "\<exists>b. stalled parms proposing k d = Some b"
proof -
  obtain c where c: "map_of (avalanche_cutoffs parms) (dtx_avalanche_state d) = Some c"
    using parms_ok_cutoff [OF assms] by blast
  obtain n where n: "map_of (avalanche_cutoffs parms) (next_state c) = Some n"
    using parms_ok_cutoff [OF assms] by blast
  have "min_consensus_pct parms < 2 ^ 31" using assms by (simp add: parms_ok_def)
  then show ?thesis by (simp add: stalled_def c n Let_def try_i32_def) blast
qed

section \<open>Runs of a dispute\<close>

text \<open>The calls the consensus round makes on a dispute, and a run of them.\<close>

datatype dispute_op =
  Set_vote node_id bool | Un_vote node_id | Set_our_vote bool | Update_vote int bool

fun dispute_step :: "consensus_parms \<Rightarrow> dispute_op \<Rightarrow> 'tx disputed_tx \<Rightarrow> 'tx disputed_tx option" where
  "dispute_step p (Set_vote n v) d = Some (fst (set_vote n v d))"
| "dispute_step p (Un_vote n) d = Some (un_vote n d)"
| "dispute_step p (Set_our_vote v) d = Some (set_our_vote v d)"
| "dispute_step p (Update_vote pt proposing) d = map_option fst (update_vote pt proposing p d)"

fun dispute_run :: "consensus_parms \<Rightarrow> dispute_op list \<Rightarrow> 'tx disputed_tx \<Rightarrow> 'tx disputed_tx option" where
  "dispute_run p [] d = Some d"
| "dispute_run p (x # xs) d = Option.bind (dispute_step p x d) (dispute_run p xs)"

text \<open>The last vote a run records for each peer, the abstract view of the bookkeeping.\<close>

fun last_votes :: "dispute_op list \<Rightarrow> (node_id \<rightharpoonup> bool) \<Rightarrow> (node_id \<rightharpoonup> bool)" where
  "last_votes [] m = m"
| "last_votes (Set_vote n v # xs) m = last_votes xs (m(n \<mapsto> v))"
| "last_votes (Un_vote n # xs) m = last_votes xs (m(n := None))"
| "last_votes (Set_our_vote v # xs) m = last_votes xs m"
| "last_votes (Update_vote pt b # xs) m = last_votes xs m"

lemma dispute_step_ok:
  assumes "dispute_ok d" "parms_ok p"
  shows "\<exists>d'. dispute_step p x d = Some d' \<and> dispute_ok d'
    \<and> map_of (votes d') = last_votes [x] (map_of (votes d))"
proof (cases x)
  case (Set_vote n v)
  have "btree_wf (votes d)" using assms(1) by (simp add: dispute_ok_def)
  then show ?thesis
    using Set_vote assms(1) set_vote_votes [of d n v] by (simp add: dispute_ok_set_vote)
next
  case (Un_vote n)
  have "map_of (votes (un_vote n d)) = (map_of (votes d))(n := None)"
    by (auto simp: un_vote_def map_of_btree_remove Let_def split: option.split)
  then show ?thesis using assms Un_vote by (simp add: dispute_ok_un_vote)
next
  case (Set_our_vote v)
  then show ?thesis using assms by (simp add: set_our_vote_def dispute_ok_def)
next
  case (Update_vote pt b)
  obtain d' c where u: "update_vote pt b p d = Some (d', c)"
    using update_vote_total [OF assms(2)] by blast
  then show ?thesis
    using assms Update_vote dispute_ok_update_vote [OF u] update_vote_frame [OF u] by simp
qed

lemma dispute_run_ok:
  assumes "dispute_ok d" "parms_ok p"
  shows "\<exists>d'. dispute_run p xs d = Some d' \<and> dispute_ok d'
    \<and> map_of (votes d') = last_votes xs (map_of (votes d))"
  using assms(1)
proof (induction xs arbitrary: d)
  case Nil
  then show ?case by simp
next
  case (Cons x xs)
  obtain d1 where d1: "dispute_step p x d = Some d1" "dispute_ok d1"
    "map_of (votes d1) = last_votes [x] (map_of (votes d))"
    using dispute_step_ok [OF Cons.prems assms(2)] by blast
  have "last_votes xs (last_votes [x] m) = last_votes (x # xs) m" for m
    by (cases x) simp_all
  then show ?case using Cons.IH [OF d1(2)] d1 by simp
qed

section \<open>Properties\<close>

text \<open>
  C28. The vote counters of a dispute never drift: after any sequence of calls on a fresh
  dispute, none of which panics, the votes on record are exactly the last vote of every peer
  that voted and was not removed, \<open>yays\<close> is the number of those votes that are yes, \<open>nays\<close> the
  number that are no, and together they are the number of voting peers.
\<close>

theorem dispute_run_counts:
  assumes "parms_ok p"
  shows "\<exists>d. dispute_run p xs (dispute_new tx i v) = Some d
    \<and> map_of (votes d) = last_votes xs Map.empty
    \<and> yays d = int (card {n. last_votes xs Map.empty n = Some True})
    \<and> nays d = int (card {n. last_votes xs Map.empty n = Some False})
    \<and> yays d + nays d = int (card (dom (last_votes xs Map.empty)))"
proof -
  obtain d where d: "dispute_run p xs (dispute_new tx i v) = Some d" "dispute_ok d"
    "map_of (votes d) = last_votes xs Map.empty"
    using dispute_run_ok [OF dispute_ok_new assms] by (fastforce simp: dispute_new_def)
  have wf: "btree_wf (votes d)" using d(2) by (simp add: dispute_ok_def)
  have "yays d = int (card {n. last_votes xs Map.empty n = Some True})"
    "nays d = int (card {n. last_votes xs Map.empty n = Some False})"
    using d(2) by (simp_all add: dispute_ok_def bt.tally_card [OF wf] d(3))
  moreover have "yays d + nays d = int (card (dom (last_votes xs Map.empty)))"
    using d(2) bt.tally_compl [OF wf, of "\<lambda>v. v"] by (simp add: dispute_ok_def d(3))
  ultimately show ?thesis using d(1,3) by blast
qed

theorem dispute_run_counts_witness:
  "\<exists>d. dispute_run default_parms [Set_vote 1 True, Set_vote 2 True, Set_vote 1 False, Un_vote 2]
      (dispute_new () 9 True) = Some d \<and> yays d = 0 \<and> nays d = 1"
proof -
  let ?xs = "[Set_vote 1 True, Set_vote 2 True, Set_vote 1 False, Un_vote 2]"
  have m: "last_votes ?xs Map.empty = [1 \<mapsto> False]" by (auto simp: fun_eq_iff)
  have "{n. [1 \<mapsto> False] n = Some True} = ({} :: nat set)"
    "{n. [1 \<mapsto> False] n = Some False} = {1 :: nat}"
    by (auto split: if_splits)
  then show ?thesis
    using dispute_run_counts [OF default_parms_ok, of ?xs "()" 9 True]
    unfolding m by (elim exE conjE) (intro exI conjI, assumption, simp_all)
qed

text \<open>
  How a dispute moves our vote: if the votes are not unanimous with us, then after
  \<open>update_vote\<close> a proposing node votes yes exactly when the share of yes votes among all
  peers and itself exceeds the required percentage of the current avalanche state, a
  non-proposing node exactly when the yes votes outnumber the no votes; a vote that no peer
  contests is never changed. The result says whether the vote changed.
\<close>

theorem update_vote_decision:
  assumes "parms_ok p" "dispute_ok d"
  shows "\<exists>d' c. update_vote pt proposing p d = Some (d', c) \<and> c = (our_vote d' \<noteq> our_vote d)
    \<and> (if (our_vote d \<and> nays d = 0) \<or> (\<not> our_vote d \<and> yays d = 0) then d' = d
       else if proposing then
         \<exists>w n. get_needed_weight p (dtx_avalanche_state d) pt (avalanche_counter d + 1)
                  (av_min_rounds p) = Some (w, n)
           \<and> (our_vote d' \<longleftrightarrow>
               int w < (yays d + bool_int (our_vote d)) * 100 div (yays d + nays d + 1))
       else (our_vote d' \<longleftrightarrow> nays d < yays d))"
proof -
  have nn: "0 \<le> yays d" "0 \<le> nays d" using assms(2) by (simp_all add: dispute_ok_def)
  obtain w n where w: "get_needed_weight p (dtx_avalanche_state d) pt (avalanche_counter d + 1)
      (av_min_rounds p) = Some (w, n)" "w < 2 ^ 31"
    using get_needed_weight_total [OF assms(1)] by blast
  obtain d' c where u: "update_vote pt proposing p d = Some (d', c)"
    using update_vote_total [OF assms(1)] by blast
  have td: "trunc_div (yays d * 100 + bool_int (our_vote d) * 100) (nays d + yays d + 1) =
      (yays d + bool_int (our_vote d)) * 100 div (yays d + nays d + 1)"
    using nn by (simp add: algebra_simps)
  have "(our_vote d \<and> nays d = 0) \<or> (\<not> our_vote d \<and> yays d = 0) \<Longrightarrow> d' = d"
    using u by (auto simp: update_vote_def split: if_splits)
  moreover have "our_vote d' \<longleftrightarrow>
      (if proposing then int w <
         trunc_div (yays d * 100 + bool_int (our_vote d) * 100) (nays d + yays d + 1)
       else nays d < yays d)"
    if "\<not> ((our_vote d \<and> nays d = 0) \<or> (\<not> our_vote d \<and> yays d = 0))"
    using u w that
    by (cases n)
      (auto simp: update_vote_def Let_def try_i32_def split: if_splits)
  ultimately show ?thesis
    using u w(1) update_vote_frame [OF u] by (simp add: td)
qed

theorem update_vote_decision_witness:
  "\<exists>d' c. update_vote 0 True default_parms
      (fst (set_vote 2 True (fst (set_vote 1 True (dispute_new () 9 False))))) = Some (d', c)
    \<and> our_vote d'"
proof -
  let ?d = "fst (set_vote 2 True (fst (set_vote 1 True (dispute_new () 9 False))))"
  have ok: "dispute_ok ?d" by (simp add: dispute_ok_set_vote)
  have "yays ?d = 2" "nays ?d = 0" "\<not> our_vote ?d" "dtx_avalanche_state ?d = Init"
    "avalanche_counter ?d = 0"
    by (simp_all add: set_vote_def dispute_new_def Let_def)
  then show ?thesis
    using update_vote_decision [OF default_parms_ok ok, of 0 True]
    by (auto simp: bool_int_def get_needed_weight_def default_parms_cutoffs
        default_parms_def)
qed

text \<open>
  C34. What a stalled dispute guarantees, with the default parameters: the dispute is in the
  last avalanche state for at least two rounds, and more than 80 percent of the votes
  (ours included when proposing) are yes, or more than 80 percent are no. Our own vote has
  been held for two rounds when we propose, and then either no peer changed for four rounds
  or we have not for four rounds: one quiet side is enough.
\<close>

theorem stalled_default:
  assumes "dispute_ok d" "stalled default_parms proposing k d = Some True"
  shows "dtx_avalanche_state d = Stuck \<and> 2 \<le> avalanche_counter d
    \<and> (proposing \<longrightarrow> 2 \<le> current_vote_counter d \<and> (4 \<le> k \<or> 4 \<le> current_vote_counter d))
    \<and> (let y = yays d + bool_int (proposing \<and> our_vote d);
           tot = yays d + nays d + bool_int proposing
       in 0 < tot \<and> (80 * tot < 100 * y \<or> 80 * tot < 100 * (tot - y)))"
proof -
  let ?y = "yays d + bool_int (proposing \<and> our_vote d)"
  let ?t = "nays d + yays d + bool_int proposing"
  have nn: "0 \<le> yays d" "0 \<le> nays d" using assms(1) by (simp_all add: dispute_ok_def)
  have y: "0 \<le> ?y" using nn by (simp add: bool_int_def)
  have t0: "0 \<le> ?t" using nn by (simp add: bool_int_def)
  have st: "dtx_avalanche_state d = Stuck"
    using assms(2) by (cases "dtx_avalanche_state d") (auto simp: stalled_def default_parms_cutoffs)
  have pr: "av_min_rounds default_parms = 2" "av_stalled_rounds default_parms = 4"
    "min_consensus_pct default_parms = 80"
    by (simp_all add: default_parms_def)
  have s: "2 \<le> avalanche_counter d"
    "proposing \<longrightarrow> 2 \<le> current_vote_counter d \<and> (4 \<le> k \<or> 4 \<le> current_vote_counter d)"
    "?t \<noteq> 0" "80 < trunc_div (?y * 100) ?t \<or> trunc_div (?y * 100) ?t < 20"
    using assms(2) by (auto simp: stalled_def default_parms_cutoffs st pr Let_def try_i32_def
        split: if_splits)
  have t: "0 < ?t" using t0 s(3) by simp
  have "80 < ?y * 100 div ?t \<or> ?y * 100 div ?t < 20"
    using s(4) y t by simp
  then have "80 * ?t < 100 * ?y \<or> 80 * ?t < 100 * (?t - ?y)"
    using percent_gt [OF t, of 80 ?y] percent_lt [OF t, of ?y 20] by fastforce
  then show ?thesis
    using st s t by (auto simp: Let_def add.commute)
qed

theorem stalled_default_witness:
  "let d = (dispute_new () 9 False)\<lparr>nays := 5, votes := map (\<lambda>n. (n, False)) [0..<5],
       dtx_avalanche_state := Stuck, avalanche_counter := 2, current_vote_counter := 4\<rparr>
   in dispute_ok d \<and> stalled default_parms True 0 d = Some True
     \<and> 80 * (yays d + nays d + 1) < 100 * (nays d + 1)"
proof -
  let ?d = "(dispute_new () 9 False)\<lparr>nays := 5, votes := map (\<lambda>n. (n, False)) [0..<5],
       dtx_avalanche_state := Stuck, avalanche_counter := 2, current_vote_counter := 4\<rparr>"
  have ok: "dispute_ok ?d"
    by (simp add: dispute_ok_def dispute_new_def btree_wf_def bt.tally_def upt_rec)
  have st: "stalled default_parms True 0 ?d = Some True"
    by (simp add: stalled_def default_parms_cutoffs dispute_new_def Let_def bool_int_def
        try_i32_def trunc_div_def default_parms_def)
  show ?thesis
    using ok st stalled_default [OF ok st] by (simp add: Let_def bool_int_def dispute_new_def)
qed

end
