(* ===== verification/Consensus_Round.thy ===== *)
theory Consensus_Round
  imports Disputed_Tx Float32
begin

text \<open>
  The generic consensus state machine: \<^verbatim>\<open>xrpld/consensus/src/algorithm/consensus.rs\<close> and the
  result and close-time types of \<^verbatim>\<open>types.rs\<close>. This theory holds the state and the operations;
  \<open>Consensus_Safety\<close> holds the invariant and the properties.

  \<^item> The Rust code is generic over \<^verbatim>\<open>ConsensusAdaptor\<close>, \<^verbatim>\<open>ConsensusTxSet\<close> and
    \<^verbatim>\<open>ConsensusLedger\<close>. An \<open>adaptor\<close> record carries what the trait methods answer during one
    call; a ledger is the tuple of the values its trait exposes; a peer position is its
    proposal. Transactions and transaction sets are the type variables \<open>'tx\<close> and \<open>'set\<close>.
  \<^item> Trait methods that act on the outside (\<^verbatim>\<open>propose\<close>, \<^verbatim>\<open>share_tx\<close>, \<^verbatim>\<open>on_accept\<close>, \dots) are
    recorded in order in the field \<open>c_effects\<close>.
  \<^item> \<^term>\<open>None\<close> is a panic (\<^verbatim>\<open>expect("result set")\<close>, the avalanche table, the bounds of the
    network clock), or fuel that ran out. Fuel bounds only the recursion
    \<^verbatim>\<open>timer_entry\<close> - \<^verbatim>\<open>check_ledger\<close> - \<^verbatim>\<open>handle_wrong_ledger\<close> - \<^verbatim>\<open>start_round_internal\<close> -
    \<^verbatim>\<open>timer_entry\<close>, which the source leaves unbounded; \<open>Consensus_Safety\<close> shows that two
    units are enough for an adaptor that does not change its mind.
  \<^item> Tracing, JSON dumps and \<^verbatim>\<open>debug_assert!\<close> are left out.
\<close>

section \<open>Types\<close>

definition time_duration_to_std :: "int \<Rightarrow> duration" where
  "time_duration_to_std d = from_secs (nat (max 0 d))"

definition std_duration_to_time :: "duration \<Rightarrow> int" where
  "std_duration_to_time d = int (as_secs d)"

datatype consensus_mode = Proposing | Observing | WrongLedger | SwitchedLedger

datatype consensus_phase = Open | Establish | Accepted

record cx_ledger =
  l_id :: ledger_id
  l_seq :: nat
  l_close_time_resolution :: duration
  l_close_agree :: bool
  l_close_time :: net_time
  l_parent_close_time :: net_time

record close_times =
  ct_peers :: "(net_time, int) btree"
  ct_self :: net_time

record ('tx, 'set) consensus_result =
  r_txns :: 'set
  r_position :: proposal
  r_disputes :: "(tx_id, 'tx disputed_tx) hashm"
  r_compares :: "tx_set_id set"
  r_round_time :: consensus_timer
  r_state :: consensus_state
  r_proposers :: nat

definition consensus_result_new :: "'set \<Rightarrow> proposal \<Rightarrow> ('tx, 'set) consensus_result" where
  "consensus_result_new txns pos =
     \<lparr>r_txns = txns, r_position = pos, r_disputes = [], r_compares = {},
      r_round_time = timer_default, r_state = No, r_proposers = 0\<rparr>"

datatype ('tx, 'set) effect =
    On_mode_change consensus_mode consensus_mode
  | On_accept "('tx, 'set) consensus_result" cx_ledger duration close_times consensus_mode
  | Propose proposal
  | Share_peer_position proposal
  | Share_tx 'tx
  | Share_tx_set 'set
  | Update_operating_mode nat

text \<open>The methods of \<^verbatim>\<open>ConsensusTx\<close> and \<^verbatim>\<open>ConsensusTxSet\<close>.\<close>

record ('tx, 'set) tx_ops =
  t_exists :: "'set \<Rightarrow> tx_id \<Rightarrow> bool"
  t_find :: "'set \<Rightarrow> tx_id \<Rightarrow> 'tx option"
  t_id :: "'set \<Rightarrow> tx_set_id"
  t_compare :: "'set \<Rightarrow> 'set \<Rightarrow> (tx_id, bool) btree"
  t_insert :: "'tx \<Rightarrow> 'set \<Rightarrow> 'set"
  t_erase :: "tx_id \<Rightarrow> 'set \<Rightarrow> 'set"
  t_tx_id :: "'tx \<Rightarrow> tx_id"

record ('tx, 'set) adaptor = "('tx, 'set) tx_ops" +
  a_acquire_ledger :: "ledger_id \<Rightarrow> cx_ledger option"
  a_acquire_tx_set :: "tx_set_id \<Rightarrow> 'set option"
  a_has_open_transactions :: bool
  a_proposers_validated :: "ledger_id \<Rightarrow> nat"
  a_proposers_finished :: "cx_ledger \<Rightarrow> ledger_id \<Rightarrow> nat"
  a_get_prev_ledger :: "ledger_id \<Rightarrow> cx_ledger \<Rightarrow> consensus_mode \<Rightarrow> ledger_id"
  a_on_close :: "cx_ledger \<Rightarrow> net_time \<Rightarrow> consensus_mode \<Rightarrow> ('tx, 'set) consensus_result"
  a_parms :: consensus_parms
  a_next_ledger_time_resolution :: "duration \<Rightarrow> bool \<Rightarrow> nat \<Rightarrow> duration"
  a_round_close_time :: "net_time \<Rightarrow> duration \<Rightarrow> net_time"
  a_valid_ledger_seq :: nat
  a_quorum_keys :: "nat \<times> node_id set"
  a_laggards :: "nat \<Rightarrow> node_id set \<Rightarrow> nat \<times> node_id set"
  a_validator :: bool
  a_have_validated :: bool
  a_clock_now :: nat

record ('tx, 'set) consensus =
  c_phase :: consensus_phase
  c_mode :: consensus_mode
  c_first_round :: bool
  c_have_close_time_consensus :: bool
  c_converge_percent :: int
  c_open_time :: consensus_timer
  c_close_resolution :: duration
  c_close_time_avalanche_state :: avalanche_state
  c_prev_round_time :: duration
  c_now :: net_time
  c_prev_close_time :: net_time
  c_prev_ledger_id :: ledger_id
  c_previous_ledger :: cx_ledger
  c_acquired :: "(tx_set_id, 'set) hashm"
  c_result :: "('tx, 'set) consensus_result option"
  c_raw_close_times :: close_times
  c_peer_unchanged_counter :: nat
  c_establish_counter :: nat
  c_curr_peer_positions :: "(node_id, proposal) hashm"
  c_recent_peer_positions :: "(node_id, proposal list) hashm"
  c_prev_proposers :: nat
  c_dead_nodes :: "node_id set"
  c_effects :: "('tx, 'set) effect list"

text \<open>The state \<^verbatim>\<open>with_clock\<close> constructs; the ledger trait supplies the default ledger.\<close>

definition with_clock :: "cx_ledger \<Rightarrow> ('tx, 'set) consensus" where
  "with_clock default_ledger =
     \<lparr>c_phase = Accepted, c_mode = Observing, c_first_round = True,
      c_have_close_time_consensus = False, c_converge_percent = 0, c_open_time = timer_default,
      c_close_resolution = from_secs 30, c_close_time_avalanche_state = Init,
      c_prev_round_time = 0, c_now = 0, c_prev_close_time = 0, c_prev_ledger_id = 0,
      c_previous_ledger = default_ledger, c_acquired = [], c_result = None,
      c_raw_close_times = \<lparr>ct_peers = [], ct_self = 0\<rparr>, c_peer_unchanged_counter = 0,
      c_establish_counter = 0, c_curr_peer_positions = [], c_recent_peer_positions = [],
      c_prev_proposers = 0, c_dead_nodes = {}, c_effects = []\<rparr>"

section \<open>Small steps\<close>

definition emit :: "('tx, 'set) effect \<Rightarrow> ('tx, 'set) consensus \<Rightarrow> ('tx, 'set) consensus" where
  "emit e c = c\<lparr>c_effects := c_effects c @ [e]\<rparr>"

definition update_result ::
  "(('tx, 'set) consensus_result \<Rightarrow> ('tx, 'set) consensus_result)
    \<Rightarrow> ('tx, 'set) consensus \<Rightarrow> ('tx, 'set) consensus" where
  "update_result f c = c\<lparr>c_result := map_option f (c_result c)\<rparr>"

text \<open>\<^verbatim>\<open>MonitoredMode::set\<close>.\<close>

definition set_mode :: "consensus_mode \<Rightarrow> ('tx, 'set) consensus \<Rightarrow> ('tx, 'set) consensus" where
  "set_mode m c = (emit (On_mode_change (c_mode c) m) c)\<lparr>c_mode := m\<rparr>"

text \<open>\<^verbatim>\<open>dispute.un_vote(peer)\<close> on every dispute of the round.\<close>

definition un_vote_all :: "node_id \<Rightarrow> ('tx, 'set) consensus \<Rightarrow> ('tx, 'set) consensus" where
  "un_vote_all peer =
     update_result (\<lambda>r. r\<lparr>r_disputes := map_values (un_vote peer) (r_disputes r)\<rparr>)"

definition remove_peer :: "node_id \<Rightarrow> ('tx, 'set) consensus \<Rightarrow> ('tx, 'set) consensus" where
  "remove_peer peer c =
     (un_vote_all peer c)\<lparr>c_curr_peer_positions := hm_remove peer (c_curr_peer_positions c)\<rparr>"

definition round_close_time_for ::
  "('tx, 'set) adaptor \<Rightarrow> ('tx, 'set) consensus \<Rightarrow> net_time \<Rightarrow> net_time" where
  "round_close_time_for A c raw = a_round_close_time A raw (c_close_resolution c)"

section \<open>Disputes\<close>

text \<open>
  The votes of a new dispute: every current peer whose transaction set we hold votes for or
  against the transaction; the flag says whether some vote was recorded.
\<close>

fun seed_votes ::
  "('tx, 'set) adaptor \<Rightarrow> (tx_set_id, 'set) hashm \<Rightarrow> tx_id \<Rightarrow> (node_id \<times> proposal) list
    \<Rightarrow> 'tx disputed_tx \<times> bool \<Rightarrow> 'tx disputed_tx \<times> bool" where
  "seed_votes A acq txid [] s = s"
| "seed_votes A acq txid ((node, pos) # ps) (dtx, changed) =
     (case map_of acq (prop_position pos) of
        None \<Rightarrow> seed_votes A acq txid ps (dtx, changed)
      | Some tset \<Rightarrow>
          (let (dtx', ch) = set_vote node (t_exists A tset txid) dtx
           in seed_votes A acq txid ps (dtx', changed \<or> ch)))"

text \<open>The loop of \<^verbatim>\<open>create_disputes\<close> over the differing transactions.\<close>

fun add_disputes ::
  "('tx, 'set) adaptor \<Rightarrow> 'set \<Rightarrow> 'set \<Rightarrow> (tx_id \<times> bool) list
    \<Rightarrow> ('tx, 'set) consensus \<Rightarrow> ('tx, 'set) consensus option" where
  "add_disputes A our other [] c = Some c"
| "add_disputes A our other ((txid, in_this_set) # ds) c =
     (case (if in_this_set then t_find A our txid else t_find A other txid) of
        None \<Rightarrow> add_disputes A our other ds c
      | Some tx \<Rightarrow>
          do {
            r \<leftarrow> c_result c;
            if map_of (r_disputes r) txid \<noteq> None then add_disputes A our other ds c
            else
              let (dtx, changed) =
                    seed_votes A (c_acquired c) txid (c_curr_peer_positions c)
                      (dispute_new tx txid (t_exists A our txid), False);
                  c1 = (if changed then c\<lparr>c_peer_unchanged_counter := 0\<rparr> else c);
                  c2 = emit (Share_tx (dtx_tx dtx)) c1;
                  c3 = update_result
                         (\<lambda>r. r\<lparr>r_disputes := hm_insert txid dtx (r_disputes r)\<rparr>) c2
              in add_disputes A our other ds c3
          })"

definition create_disputes ::
  "('tx, 'set) adaptor \<Rightarrow> 'set \<Rightarrow> ('tx, 'set) consensus \<Rightarrow> ('tx, 'set) consensus option" where
  "create_disputes A other c =
     do {
       r \<leftarrow> c_result c;
       let other_id = t_id A other;
       if other_id \<in> r_compares r then Some c
       else
         let c1 = update_result (\<lambda>r. r\<lparr>r_compares := insert other_id (r_compares r)\<rparr>) c;
             our_txns = r_txns r
         in if t_id A our_txns = other_id then Some c1
            else add_disputes A our_txns other (t_compare A our_txns other) c1
     }"

text \<open>Record the vote of one node on every dispute; the flag says whether one changed.\<close>

fun vote_all ::
  "('tx, 'set) adaptor \<Rightarrow> node_id \<Rightarrow> 'set \<Rightarrow> (tx_id \<times> 'tx disputed_tx) list
    \<Rightarrow> (tx_id \<times> 'tx disputed_tx) list \<times> bool" where
  "vote_all A node other [] = ([], False)"
| "vote_all A node other ((k, d) # ds) =
     (let (d', ch) = set_vote node (t_exists A other (t_tx_id A (dtx_tx d))) d;
          (ds', ch') = vote_all A node other ds
      in ((k, d') # ds', ch \<or> ch'))"

definition update_disputes ::
  "('tx, 'set) adaptor \<Rightarrow> node_id \<Rightarrow> 'set \<Rightarrow> ('tx, 'set) consensus \<Rightarrow> ('tx, 'set) consensus option"
where
  "update_disputes A node other c =
     do {
       r \<leftarrow> c_result c;
       c1 \<leftarrow> (if t_id A other \<notin> r_compares r then create_disputes A other c else Some c);
       r1 \<leftarrow> c_result c1;
       let (ds, changed) = vote_all A node other (r_disputes r1);
       let c2 = c1\<lparr>c_result := Some (r1\<lparr>r_disputes := ds\<rparr>)\<rparr>;
       Some (if changed then c2\<lparr>c_peer_unchanged_counter := 0\<rparr> else c2)
     }"

text \<open>\<^verbatim>\<open>update_disputes\<close> for a list of nodes, one after the other.\<close>

fun update_disputes_for ::
  "('tx, 'set) adaptor \<Rightarrow> node_id list \<Rightarrow> 'set \<Rightarrow> ('tx, 'set) consensus \<Rightarrow> ('tx, 'set) consensus option"
where
  "update_disputes_for A [] tset c = Some c"
| "update_disputes_for A (n # ns) tset c =
     Option.bind (update_disputes A n tset c) (update_disputes_for A ns tset)"

section \<open>Transaction sets and proposals\<close>

definition got_tx_set ::
  "('tx, 'set) adaptor \<Rightarrow> net_time \<Rightarrow> 'set \<Rightarrow> ('tx, 'set) consensus \<Rightarrow> ('tx, 'set) consensus option"
where
  "got_tx_set A now tx_set c =
     (if c_phase c = Accepted then Some c
      else
        let c1 = c\<lparr>c_now := now\<rparr>; id = t_id A tx_set in
        if map_of (c_acquired c1) id \<noteq> None then Some c1
        else
          let c2 = c1\<lparr>c_acquired := hm_insert id tx_set (c_acquired c1)\<rparr> in
          if c_result c2 = None then Some c2
          else update_disputes_for A
                 (map fst (filter (\<lambda>(n, pos). prop_position pos = id) (c_curr_peer_positions c2)))
                 tx_set c2)"

definition peer_proposal_internal ::
  "('tx, 'set) adaptor \<Rightarrow> net_time \<Rightarrow> proposal \<Rightarrow> ('tx, 'set) consensus
    \<Rightarrow> (('tx, 'set) consensus \<times> bool) option" where
  "peer_proposal_internal A now prop c =
     (if c_phase c = Accepted then Some (c, False)
      else
        let c = c\<lparr>c_now := now\<rparr>; peer_id = prop_node prop in
        if previous_ledger prop \<noteq> c_prev_ledger_id c then Some (c, False)
        else if peer_id \<in> c_dead_nodes c then Some (c, False)
        else if (case map_of (c_curr_peer_positions c) peer_id of
                   Some existing \<Rightarrow> propose_seq prop \<le> propose_seq existing
                 | None \<Rightarrow> False) then Some (c, False)
        else if is_bow_out prop then
          (let c1 = remove_peer peer_id c
           in Some (c1\<lparr>c_dead_nodes := insert peer_id (c_dead_nodes c1)\<rparr>, True))
        else
          let c2 = c\<lparr>c_curr_peer_positions := hm_insert peer_id prop (c_curr_peer_positions c)\<rparr>;
              raw = c_raw_close_times c2;
              c3 = (if is_initial prop then
                      c2\<lparr>c_raw_close_times := raw\<lparr>ct_peers :=
                        btree_insert (prop_close_time prop)
                          (case_option 0 id (map_of (ct_peers raw) (prop_close_time prop)) + 1)
                          (ct_peers raw)\<rparr>\<rparr>
                    else c2);
              position = prop_position prop
          in do {
               c4 \<leftarrow>
                 (case map_of (c_acquired c3) position of
                    None \<Rightarrow>
                      (case a_acquire_tx_set A position of
                         None \<Rightarrow> Some c3
                       | Some tset \<Rightarrow> got_tx_set A (c_now c3) tset c3)
                  | Some tset \<Rightarrow>
                      if c_result c3 \<noteq> None then update_disputes A peer_id tset c3 else Some c3);
               Some (c4, True)
             })"

definition peer_proposal ::
  "('tx, 'set) adaptor \<Rightarrow> net_time \<Rightarrow> proposal \<Rightarrow> ('tx, 'set) consensus
    \<Rightarrow> (('tx, 'set) consensus \<times> bool) option" where
  "peer_proposal A now prop c =
     (let peer_id = prop_node prop;
          props = case_option [] id (map_of (c_recent_peer_positions c) peer_id);
          props1 = (if length props \<ge> 10 then tl props else props);
          c1 = c\<lparr>c_recent_peer_positions :=
                 hm_insert peer_id (props1 @ [prop]) (c_recent_peer_positions c)\<rparr>
      in peer_proposal_internal A now prop c1)"

fun playback ::
  "('tx, 'set) adaptor \<Rightarrow> proposal list \<Rightarrow> ('tx, 'set) consensus \<Rightarrow> ('tx, 'set) consensus option" where
  "playback A [] c = Some c"
| "playback A (pos # ps) c =
     (if previous_ledger pos = c_prev_ledger_id c then
        do {
          (c1, relay) \<leftarrow> peer_proposal_internal A (c_now c) pos c;
          playback A ps (if relay then emit (Share_peer_position pos) c1 else c1)
        }
      else playback A ps c)"

definition playback_proposals ::
  "('tx, 'set) adaptor \<Rightarrow> ('tx, 'set) consensus \<Rightarrow> ('tx, 'set) consensus option" where
  "playback_proposals A c = playback A (concat (map snd (c_recent_peer_positions c))) c"

section \<open>Closing the ledger\<close>

fun create_disputes_for ::
  "('tx, 'set) adaptor \<Rightarrow> tx_set_id list \<Rightarrow> ('tx, 'set) consensus \<Rightarrow> ('tx, 'set) consensus option"
where
  "create_disputes_for A [] c = Some c"
| "create_disputes_for A (pos # ps) c =
     (case map_of (c_acquired c) pos of
        None \<Rightarrow> create_disputes_for A ps c
      | Some tset \<Rightarrow> Option.bind (create_disputes A tset c) (create_disputes_for A ps))"

definition close_ledger ::
  "('tx, 'set) adaptor \<Rightarrow> ('tx, 'set) consensus \<Rightarrow> ('tx, 'set) consensus option" where
  "close_ledger A c =
     (let c1 = c\<lparr>c_phase := Establish,
                 c_raw_close_times := (c_raw_close_times c)\<lparr>ct_self := c_now c\<rparr>,
                 c_peer_unchanged_counter := 0, c_establish_counter := 0\<rparr>;
          res0 = a_on_close A (c_previous_ledger c1) (c_now c1) (c_mode c1);
          res = res0\<lparr>r_round_time := timer_reset (a_clock_now A) (r_round_time res0)\<rparr>;
          txns_id = t_id A (r_txns res);
          c2 = (if map_of (c_acquired c1) txns_id = None
                then emit (Share_tx_set (r_txns res))
                       (c1\<lparr>c_acquired := hm_insert txns_id (r_txns res) (c_acquired c1)\<rparr>)
                else c1);
          c3 = (if c_mode c2 = Proposing then emit (Propose (r_position res)) c2 else c2);
          c4 = c3\<lparr>c_result := Some res\<rparr>
      in create_disputes_for A (map (\<lambda>(n, p). prop_position p) (c_curr_peer_positions c4)) c4)"

definition phase_open ::
  "('tx, 'set) adaptor \<Rightarrow> ('tx, 'set) consensus \<Rightarrow> ('tx, 'set) consensus option" where
  "phase_open A c =
     do {
       let any_transactions = a_has_open_transactions A;
       let proposers_closed = length (c_curr_peer_positions c);
       let proposers_validated = a_proposers_validated A (c_prev_ledger_id c);
       let c1 = c\<lparr>c_open_time := timer_tick_to (a_clock_now A) (c_open_time c)\<rparr>;
       let lgr = c_previous_ledger c1;
       prev_parent_close_time_plus_1 \<leftarrow> net_checked_add (l_parent_close_time lgr) 1;
       let previous_close_correct =
             (c_mode c1 \<noteq> WrongLedger \<and> l_close_agree lgr
              \<and> l_close_time lgr \<noteq> prev_parent_close_time_plus_1);
       let last0 = (if previous_close_correct then l_close_time lgr else c_prev_close_time c1);
       let last_close_time = (if last0 = 0 then c_prev_close_time c1 else last0);
       let since_close = (if c_now c1 \<ge> last_close_time
                          then time_duration_to_std (net_diff (c_now c1) last_close_time)
                          else 0);
       let idle_interval =
             max (ledger_idle_interval (a_parms A)) (l_close_time_resolution lgr * 2);
       if should_close_ledger any_transactions (c_prev_proposers c1) proposers_closed
            proposers_validated (c_prev_round_time c1) since_close (timer_read (c_open_time c1))
            idle_interval (a_parms A)
       then close_ledger A c1
       else Some c1
     }"

section \<open>Establishing consensus\<close>

definition leave_consensus ::
  "('tx, 'set) adaptor \<Rightarrow> ('tx, 'set) consensus \<Rightarrow> ('tx, 'set) consensus" where
  "leave_consensus A c =
     (if c_mode c = Proposing then
        set_mode Observing
          (case c_result c of
             None \<Rightarrow> c
           | Some r \<Rightarrow>
               if is_bow_out (r_position r) then c
               else let pos = bow_out (c_now c) (r_position r)
                    in emit (Propose pos) (c\<lparr>c_result := Some (r\<lparr>r_position := pos\<rparr>)\<rparr>))
      else c)"

text \<open>\<^verbatim>\<open>should_pause\<close>; phases 1 to 3 compare single-precision ratios.\<close>

definition MAX_PAUSE_PHASE :: nat where
  "MAX_PAUSE_PHASE = 4"

definition should_pause ::
  "('tx, 'set) adaptor \<Rightarrow> ('tx, 'set) consensus \<Rightarrow> bool option" where
  "should_pause A c =
     do {
       let working_seq = l_seq (c_previous_ledger c);
       let ahead = working_seq - a_valid_ledger_seq A;
       let quorum = fst (a_quorum_keys A);
       let trusted_keys = snd (a_quorum_keys A);
       let total_validators = card trusted_keys;
       let (laggards, remaining) = a_laggards A working_seq trusted_keys;
       let offline = card remaining;
       r \<leftarrow> c_result c;
       let round_time = timer_read (r_round_time r);
       if ahead = 0 \<or> laggards = 0 \<or> total_validators = 0 \<or> \<not> a_validator A
          \<or> \<not> a_have_validated A \<or> round_time > ledger_max_consensus (a_parms A)
       then Some False
       else
         let phase = (ahead - 1) mod (MAX_PAUSE_PHASE + 1);
             unavailable = laggards + offline
         in Some
              (if phase = 0 then unavailable > total_validators - quorum
               else if phase = MAX_PAUSE_PHASE then True
               else
                 let non_laggards = f32_of_nat (total_validators - unavailable);
                     tot = f32_of_nat total_validators;
                     quorum_ratio = f32_div (f32_of_nat quorum) tot;
                     allowed_dissent = f32_sub 1 quorum_ratio;
                     phase_factor = f32_div (f32_of_nat phase) (f32_of_nat MAX_PAUSE_PHASE)
                 in f32_div non_laggards tot
                      < f32_add quorum_ratio (f32_mul allowed_dissent phase_factor))
     }"

text \<open>\<^verbatim>\<open>*votes.entry(t).or_insert(0) += 1\<close>.\<close>

definition count_vote :: "net_time \<Rightarrow> (net_time, int) btree \<Rightarrow> (net_time, int) btree" where
  "count_vote t m = btree_insert t (case_option 0 id (map_of m t) + 1) m"

fun close_time_tally ::
  "('tx, 'set) adaptor \<Rightarrow> ('tx, 'set) consensus \<Rightarrow> (node_id \<times> proposal) list
    \<Rightarrow> (net_time, int) btree \<Rightarrow> (net_time, int) btree" where
  "close_time_tally A c [] m = m"
| "close_time_tally A c ((n, pos) # ps) m =
     close_time_tally A c ps (count_vote (round_close_time_for A c (prop_close_time pos)) m)"

fun remove_peers :: "node_id list \<Rightarrow> ('tx, 'set) consensus \<Rightarrow> ('tx, 'set) consensus" where
  "remove_peers [] c = c"
| "remove_peers (n # ns) c = remove_peers ns (remove_peer n c)"

text \<open>
  The dispute loop of \<^verbatim>\<open>update_our_positions\<close>: our votes are revised one dispute at a time and
  a changed vote is carried over to a copy of our transaction set.
\<close>

fun revise_votes ::
  "('tx, 'set) adaptor \<Rightarrow> int \<Rightarrow> bool \<Rightarrow> 'set \<Rightarrow> (tx_id \<times> 'tx disputed_tx) list \<Rightarrow> 'set option
    \<Rightarrow> ((tx_id \<times> 'tx disputed_tx) list \<times> 'set option) option" where
  "revise_votes A pct proposing txns [] mset = Some ([], mset)"
| "revise_votes A pct proposing txns ((txid, d) # ds) mset =
     do {
       (d', changed) \<leftarrow> update_vote pct proposing (a_parms A) d;
       let mset' =
             (if changed then
                let base = (case mset of None \<Rightarrow> txns | Some s \<Rightarrow> s)
                in Some (if our_vote d' then t_insert A (dtx_tx d') base else t_erase A txid base)
              else mset);
       (ds', mset'') \<leftarrow> revise_votes A pct proposing txns ds mset';
       Some ((txid, d') # ds', mset'')
     }"

text \<open>
  The loop over the close-time votes in increasing time order: a time with at least as many
  votes as the best so far (initially the threshold) becomes the choice.
\<close>

fun pick_close_time ::
  "int \<Rightarrow> (net_time \<times> int) list \<Rightarrow> int \<Rightarrow> net_time \<Rightarrow> bool \<Rightarrow> net_time \<times> bool" where
  "pick_close_time thresh_consensus [] thresh_vote best have = (best, have)"
| "pick_close_time thresh_consensus ((t, v) # vs) thresh_vote best have =
     (if v \<ge> thresh_vote
      then pick_close_time thresh_consensus vs v t (have \<or> v \<ge> thresh_consensus)
      else pick_close_time thresh_consensus vs thresh_vote best have)"

text \<open>The close time we settle on: the time, whether it has consensus, the avalanche state.\<close>

definition decide_close_time ::
  "('tx, 'set) adaptor \<Rightarrow> ('tx, 'set) consensus \<Rightarrow> (net_time, int) btree \<Rightarrow> proposal
    \<Rightarrow> (net_time \<times> bool \<times> avalanche_state) option" where
  "decide_close_time A c close_time_votes pos =
     (if c_curr_peer_positions c = [] then
        Some (round_close_time_for A c (prop_close_time pos), True,
              c_close_time_avalanche_state c)
      else
        do {
          (needed_weight, new_state) \<leftarrow>
            get_needed_weight (a_parms A) (c_close_time_avalanche_state c)
              (as_i32 (c_converge_percent c)) 0 0;
          let peers = int (length (c_curr_peer_positions c));
          let proposing = (c_mode c = Proposing);
          let votes = (if proposing
                       then count_vote (round_close_time_for A c (prop_close_time pos))
                              close_time_votes
                       else close_time_votes);
          let participants = (if proposing then peers + 1 else peers);
          let thresh_vote = participants_needed participants (int needed_weight);
          let thresh_consensus =
                participants_needed participants (int (av_ct_consensus_pct (a_parms A)));
          let (best, have) = pick_close_time thresh_consensus votes thresh_vote 0 False;
          Some (best, have,
                case_option (c_close_time_avalanche_state c) id new_state)
        })"

text \<open>The last part of \<^verbatim>\<open>update_our_positions\<close>: adopt and announce the new set.\<close>

definition adopt_set ::
  "('tx, 'set) adaptor \<Rightarrow> net_time \<Rightarrow> 'set \<Rightarrow> ('tx, 'set) consensus \<Rightarrow> ('tx, 'set) consensus option"
where
  "adopt_set A consensus_close_time new_set c =
     do {
       r \<leftarrow> c_result c;
       let new_id = t_id A new_set;
       let new_pos = change_position new_id consensus_close_time (c_now c) (r_position r);
       let c1 = c\<lparr>c_result := Some (r\<lparr>r_txns := new_set, r_position := new_pos\<rparr>)\<rparr>;
       c2 \<leftarrow>
         (if map_of (c_acquired c1) new_id = None then
            let ca = c1\<lparr>c_acquired := hm_insert new_id new_set (c_acquired c1)\<rparr>;
                cb = (if is_bow_out new_pos then ca else emit (Share_tx_set new_set) ca)
            in update_disputes_for A
                 (map fst (filter (\<lambda>(n, p). prop_position p = new_id) (c_curr_peer_positions cb)))
                 new_set cb
          else Some c1);
       r2 \<leftarrow> c_result c2;
       Some (if \<not> is_bow_out (r_position r2) \<and> c_mode c2 = Proposing
             then emit (Propose (r_position r2)) c2 else c2)
     }"

definition update_our_positions ::
  "('tx, 'set) adaptor \<Rightarrow> ('tx, 'set) consensus \<Rightarrow> ('tx, 'set) consensus option" where
  "update_our_positions A c =
     do {
       let prm = a_parms A;
       let peer_cutoff =
             case_option 0 id (net_checked_sub (c_now c) (std_duration_to_time (propose_freshness prm)));
       let our_cutoff =
             case_option 0 id (net_checked_sub (c_now c) (std_duration_to_time (propose_interval prm)));
       let stale_peers =
             map fst (filter (\<lambda>(n, pos). is_stale peer_cutoff pos) (c_curr_peer_positions c));
       let c1 = remove_peers stale_peers c;
       let close_time_votes = close_time_tally A c1 (c_curr_peer_positions c1) [];
       r \<leftarrow> c_result c1;
       (disputes, mutable_set) \<leftarrow>
         revise_votes A (as_i32 (c_converge_percent c1)) (c_mode c1 = Proposing) (r_txns r)
           (r_disputes r) None;
       let c2 = c1\<lparr>c_result := Some (r\<lparr>r_disputes := disputes\<rparr>)\<rparr>;
       (consensus_close_time, have, av_state) \<leftarrow>
         decide_close_time A c2 close_time_votes (r_position r);
       let c3 = c2\<lparr>c_have_close_time_consensus := have,
                   c_close_time_avalanche_state := av_state\<rparr>;
       let our_new_set =
             (case mutable_set of
                Some s \<Rightarrow> Some s
              | None \<Rightarrow>
                  if consensus_close_time \<noteq> round_close_time_for A c3 (prop_close_time (r_position r))
                     \<or> is_stale our_cutoff (r_position r)
                  then Some (r_txns r) else None);
       (case our_new_set of
          None \<Rightarrow> Some c3
        | Some new_set \<Rightarrow> adopt_set A consensus_close_time new_set c3)
     }"

fun all_stalled ::
  "consensus_parms \<Rightarrow> bool \<Rightarrow> nat \<Rightarrow> 'tx disputed_tx list \<Rightarrow> bool option" where
  "all_stalled p proposing k [] = Some True"
| "all_stalled p proposing k (d # ds) =
     do {
       b \<leftarrow> stalled p proposing k d;
       if b then all_stalled p proposing k ds else Some False
     }"

definition have_consensus ::
  "('tx, 'set) adaptor \<Rightarrow> ('tx, 'set) consensus \<Rightarrow> (('tx, 'set) consensus \<times> bool) option" where
  "have_consensus A c =
     do {
       r \<leftarrow> c_result c;
       let our_position = prop_position (r_position r);
       let agree =
             length (filter (\<lambda>(n, p). prop_position p = our_position) (c_curr_peer_positions c));
       let disagree =
             length (filter (\<lambda>(n, p). prop_position p \<noteq> our_position) (c_curr_peer_positions c));
       let current_finished = a_proposers_finished A (c_previous_ledger c) (c_prev_ledger_id c);
       let prm = a_parms A;
       let proposing = (c_mode c = Proposing);
       is_stalled \<leftarrow>
         (if c_have_close_time_consensus c \<and> r_disputes r \<noteq> []
          then all_stalled prm proposing (c_peer_unchanged_counter c) (map snd (r_disputes r))
          else Some False);
       let state = check_consensus (c_prev_proposers c) (agree + disagree) agree current_finished
                     (c_prev_round_time c) (timer_read (r_round_time r)) is_stalled prm proposing;
       let c1 = c\<lparr>c_result := Some (r\<lparr>r_state := state\<rparr>)\<rparr>;
       Some (if state = No then (c1, False)
             else if state = Expired then
               (let minimum_counter = length (avalanche_cutoffs prm) * av_min_rounds prm
                in if c_establish_counter c1 < minimum_counter then (c1, False)
                   else (leave_consensus A c1, True))
             else (c1, True))
     }"

definition phase_establish ::
  "('tx, 'set) adaptor \<Rightarrow> ('tx, 'set) consensus \<Rightarrow> ('tx, 'set) consensus option" where
  "phase_establish A c =
     do {
       let c1 = c\<lparr>c_peer_unchanged_counter := c_peer_unchanged_counter c + 1,
                   c_establish_counter := c_establish_counter c + 1\<rparr>;
       let prm = a_parms A;
       r0 \<leftarrow> c_result c1;
       let r = r0\<lparr>r_round_time := timer_tick_to (a_clock_now A) (r_round_time r0),
                  r_proposers := length (c_curr_peer_positions c1)\<rparr>;
       let round_time = timer_read (r_round_time r);
       let denom = max (c_prev_round_time c1) (av_min_consensus_time prm);
       let c2 = c1\<lparr>c_result := Some r,
                    c_converge_percent :=
                      int (as_millis round_time) * 100 div int (max (as_millis denom) 1)\<rparr>;
       if round_time < ledger_min_consensus prm then Some c2
       else do {
         c3 \<leftarrow> update_our_positions A c2;
         pause \<leftarrow> should_pause A c3;
         if pause then Some c3
         else do {
           (c4, have) \<leftarrow> have_consensus A c3;
           if \<not> have then Some c4
           else if \<not> c_have_close_time_consensus c4 then Some c4
           else do {
             r4 \<leftarrow> c_result c4;
             let n = length (c_curr_peer_positions c4);
             let c5 = (emit (Update_operating_mode n) c4)
                        \<lparr>c_prev_proposers := n, c_prev_round_time := timer_read (r_round_time r4),
                         c_phase := Accepted\<rparr>;
             Some (emit (On_accept r4 (c_previous_ledger c5) (c_close_resolution c5)
                          (c_raw_close_times c5) (c_mode c5)) c5)
           }
         }
       }
     }"

section \<open>Rounds\<close>

text \<open>
  The four operations that call each other. \<open>tick\<close> is the call \<^verbatim>\<open>self.timer_entry(adaptor,
  self.now)\<close> at the end of \<^verbatim>\<open>start_round_internal\<close>.
\<close>

definition start_round_internal ::
  "(('tx, 'set) consensus \<Rightarrow> ('tx, 'set) consensus option) \<Rightarrow> ('tx, 'set) adaptor \<Rightarrow> net_time
    \<Rightarrow> ledger_id \<Rightarrow> cx_ledger \<Rightarrow> consensus_mode \<Rightarrow> ('tx, 'set) consensus
    \<Rightarrow> ('tx, 'set) consensus option" where
  "start_round_internal tick A now prev_ledger_id prev_ledger mode c =
     do {
       let c1 = set_mode mode (c\<lparr>c_phase := Open\<rparr>);
       let c2 = c1\<lparr>c_now := now, c_prev_ledger_id := prev_ledger_id,
                    c_previous_ledger := prev_ledger, c_result := None, c_converge_percent := 0,
                    c_close_time_avalanche_state := Init, c_have_close_time_consensus := False,
                    c_open_time := timer_reset (a_clock_now A) (c_open_time c1),
                    c_curr_peer_positions := [], c_acquired := [],
                    c_raw_close_times := \<lparr>ct_peers = [], ct_self = 0\<rparr>, c_dead_nodes := {},
                    c_close_resolution :=
                      a_next_ledger_time_resolution A (l_close_time_resolution prev_ledger)
                        (l_close_agree prev_ledger) (l_seq prev_ledger + 1)\<rparr>;
       c3 \<leftarrow> playback_proposals A c2;
       if length (c_curr_peer_positions c3) > c_prev_proposers c3 div 2 then tick c3 else Some c3
     }"

definition handle_wrong_ledger ::
  "(('tx, 'set) consensus \<Rightarrow> ('tx, 'set) consensus option) \<Rightarrow> ('tx, 'set) adaptor \<Rightarrow> ledger_id
    \<Rightarrow> ('tx, 'set) consensus \<Rightarrow> ('tx, 'set) consensus option" where
  "handle_wrong_ledger tick A lgr_id c =
     do {
       let c1 = leave_consensus A c;
       c2 \<leftarrow>
         (if c_prev_ledger_id c1 \<noteq> lgr_id then
            let ca = update_result (\<lambda>r. r\<lparr>r_disputes := [], r_compares := {}\<rparr>)
                       (c1\<lparr>c_prev_ledger_id := lgr_id\<rparr>);
                cb = ca\<lparr>c_curr_peer_positions := [],
                        c_raw_close_times := (c_raw_close_times ca)\<lparr>ct_peers := []\<rparr>,
                        c_dead_nodes := {}\<rparr>
            in playback_proposals A cb
          else Some c1);
       if l_id (c_previous_ledger c2) = c_prev_ledger_id c2 then Some c2
       else
         (case a_acquire_ledger A (c_prev_ledger_id c2) of
            Some new_ledger \<Rightarrow>
              start_round_internal tick A (c_now c2) lgr_id new_ledger SwitchedLedger c2
          | None \<Rightarrow> Some (set_mode WrongLedger c2))
     }"

definition check_ledger ::
  "(('tx, 'set) consensus \<Rightarrow> ('tx, 'set) consensus option) \<Rightarrow> ('tx, 'set) adaptor
    \<Rightarrow> ('tx, 'set) consensus \<Rightarrow> ('tx, 'set) consensus option" where
  "check_ledger tick A c =
     (let net_lgr = a_get_prev_ledger A (c_prev_ledger_id c) (c_previous_ledger c) (c_mode c)
      in if net_lgr \<noteq> c_prev_ledger_id c \<or> l_id (c_previous_ledger c) \<noteq> c_prev_ledger_id c
         then handle_wrong_ledger tick A net_lgr c
         else Some c)"

primrec timer_entry ::
  "nat \<Rightarrow> ('tx, 'set) adaptor \<Rightarrow> net_time \<Rightarrow> ('tx, 'set) consensus \<Rightarrow> ('tx, 'set) consensus option"
where
  "timer_entry 0 A now c = None"
| "timer_entry (Suc fuel) A now c =
     (if c_phase c = Accepted then Some c
      else do {
        c1 \<leftarrow> check_ledger (\<lambda>s. timer_entry fuel A (c_now s) s) A (c\<lparr>c_now := now\<rparr>);
        (case c_phase c1 of
           Open \<Rightarrow> phase_open A c1
         | Establish \<Rightarrow> phase_establish A c1
         | Accepted \<Rightarrow> Some c1)
      })"

definition start_round ::
  "nat \<Rightarrow> ('tx, 'set) adaptor \<Rightarrow> net_time \<Rightarrow> ledger_id \<Rightarrow> cx_ledger \<Rightarrow> node_id list \<Rightarrow> bool
    \<Rightarrow> ('tx, 'set) consensus \<Rightarrow> ('tx, 'set) consensus option" where
  "start_round fuel A now prev_ledger_id prev_ledger now_untrusted proposing c =
     (let c1 = (if c_first_round c then
                  c\<lparr>c_prev_round_time := ledger_idle_interval (a_parms A),
                    c_prev_close_time :=
                      (if l_close_time prev_ledger = 0 then now else l_close_time prev_ledger),
                    c_first_round := False\<rparr>
                else c\<lparr>c_prev_close_time := ct_self (c_raw_close_times c)\<rparr>);
          c2 = c1\<lparr>c_recent_peer_positions :=
                   fold hm_remove now_untrusted (c_recent_peer_positions c1)\<rparr>;
          start_mode = (if proposing then Proposing else Observing);
          (lgr, mode) =
            (if l_id prev_ledger \<noteq> prev_ledger_id then
               (case a_acquire_ledger A prev_ledger_id of
                  Some new_ledger \<Rightarrow> (new_ledger, start_mode)
                | None \<Rightarrow> (prev_ledger, WrongLedger))
             else (prev_ledger, start_mode))
      in start_round_internal (\<lambda>s. timer_entry fuel A (c_now s) s) A now prev_ledger_id lgr mode c2)"

end
