(* ===== verification/Consensus_Invariant.thy ===== *)
theory Consensus_Invariant
  imports Consensus_Round
begin

text \<open>
  The invariant of the consensus round of \<open>Consensus_Round\<close>, and that the dispute bookkeeping
  keeps it; \<open>Consensus_Safety\<close> has the other operations.

  The round relies on two interfaces. \<open>tx_set\<close> is the contract of the trait
  \<^verbatim>\<open>ConsensusTxSet\<close>; \<open>Rcl_Tx_Set\<close> interprets it on the SHAMap-backed set. \<open>consensus_env\<close> adds
  what the round needs of the answers of \<^verbatim>\<open>ConsensusAdaptor\<close>: ledgers and sets are acquired by
  their identifier and \<^verbatim>\<open>on_close\<close> returns a fresh result.
\<close>

section \<open>The contracts\<close>

text \<open>
  \<open>ok\<close> are the transaction sets in play, \<open>tx_ok\<close> the transactions in play.
\<close>

locale tx_set =
  fixes T :: "('tx, 'set, 'x) tx_ops_scheme"
    and ok :: "'set \<Rightarrow> bool"
    and tx_ok :: "'tx \<Rightarrow> bool"
  assumes ok_insert: "ok s \<Longrightarrow> tx_ok tx \<Longrightarrow> ok (t_insert T tx s)"
    and ok_erase: "ok s \<Longrightarrow> ok (t_erase T i s)"
    and find_exists: "ok s \<Longrightarrow> t_exists T s i \<longleftrightarrow> (\<exists>tx. t_find T s i = Some tx)"
    and find_id: "ok s \<Longrightarrow> t_find T s i = Some tx \<Longrightarrow> t_tx_id T tx = i \<and> tx_ok tx"
    and exists_insert: "ok s \<Longrightarrow> tx_ok tx \<Longrightarrow>
      t_exists T (t_insert T tx s) i \<longleftrightarrow> i = t_tx_id T tx \<or> t_exists T s i"
    and exists_erase: "ok s \<Longrightarrow> t_exists T (t_erase T j s) i \<longleftrightarrow> i \<noteq> j \<and> t_exists T s i"
    and compare_wf: "ok a \<Longrightarrow> ok b \<Longrightarrow> btree_wf (t_compare T a b)"
    and compare_diff: "ok a \<Longrightarrow> ok b \<Longrightarrow> map_of (t_compare T a b) i =
      (if t_exists T a i = t_exists T b i then None else Some (t_exists T a i))"
    and id_exists: "ok a \<Longrightarrow> ok b \<Longrightarrow> t_id T a = t_id T b \<Longrightarrow> t_exists T a i = t_exists T b i"

locale consensus_env = tx_set A ok tx_ok
  for A :: "('tx, 'set) adaptor" and ok tx_ok +
  assumes acquire_tx_set_ok: "a_acquire_tx_set A i = Some s \<Longrightarrow> t_id A s = i \<and> ok s"
    and acquire_ledger_ok: "a_acquire_ledger A i = Some l \<Longrightarrow>
      l_id l = i \<and> l_parent_close_time l < u32_max"
    and on_close_fresh: "r = a_on_close A l now m \<Longrightarrow>
      ok (r_txns r) \<and> prop_position (r_position r) = t_id A (r_txns r)
      \<and> r_disputes r = [] \<and> r_compares r = {}"
    and parms: "parms_ok (a_parms A)"

section \<open>The invariant\<close>

text \<open>
  A dispute over transaction \<open>i\<close>: its counters are right, our vote is membership in our set,
  and every current peer whose set we hold, except those in \<open>X\<close>, has its vote recorded as
  membership in that set; only current peers have votes.
\<close>

definition dispute_inv ::
  "('tx, 'set, 'x) tx_ops_scheme \<Rightarrow> ('tx \<Rightarrow> bool) \<Rightarrow> node_id set \<Rightarrow> (node_id, proposal) hashm
    \<Rightarrow> (tx_set_id, 'set) hashm \<Rightarrow> 'set \<Rightarrow> tx_id \<Rightarrow> 'tx disputed_tx \<Rightarrow> bool" where
  "dispute_inv T tx_ok X cur acq txns i d \<longleftrightarrow>
     dispute_ok d \<and> dtx_id d = i \<and> t_tx_id T (dtx_tx d) = i \<and> tx_ok (dtx_tx d)
     \<and> our_vote d = t_exists T txns i
     \<and> voters d \<subseteq> dom (map_of cur)
     \<and> (\<forall>n p s. n \<notin> X \<longrightarrow> map_of cur n = Some p \<longrightarrow> map_of acq (prop_position p) = Some s
          \<longrightarrow> map_of (votes d) n = Some (t_exists T s i))"

definition result_inv ::
  "('tx, 'set, 'x) tx_ops_scheme \<Rightarrow> ('set \<Rightarrow> bool) \<Rightarrow> ('tx \<Rightarrow> bool) \<Rightarrow> node_id set
    \<Rightarrow> (node_id, proposal) hashm \<Rightarrow> (tx_set_id, 'set) hashm \<Rightarrow> ('tx, 'set) consensus_result \<Rightarrow> bool"
where
  "result_inv T ok tx_ok X cur acq r \<longleftrightarrow>
     hm_wf (r_disputes r) \<and> ok (r_txns r)
     \<and> prop_position (r_position r) = t_id T (r_txns r)
     \<and> (\<forall>i d. map_of (r_disputes r) i = Some d
          \<longrightarrow> dispute_inv T tx_ok X cur acq (r_txns r) i d)"

text \<open>A peer position the round tracks: keyed by its node, on our ledger, not withdrawn.\<close>

definition position_inv :: "('tx, 'set) consensus \<Rightarrow> bool" where
  "position_inv c \<longleftrightarrow> hm_wf (c_curr_peer_positions c)
     \<and> (\<forall>n p. map_of (c_curr_peer_positions c) n = Some p \<longrightarrow>
          prop_node p = n \<and> previous_ledger p = c_prev_ledger_id c \<and> \<not> is_bow_out p
          \<and> n \<notin> c_dead_nodes c)"

definition acquired_inv ::
  "('tx, 'set, 'x) tx_ops_scheme \<Rightarrow> ('set \<Rightarrow> bool) \<Rightarrow> (tx_set_id, 'set) hashm \<Rightarrow> bool" where
  "acquired_inv T ok acq \<longleftrightarrow> hm_wf acq \<and> (\<forall>i s. map_of acq i = Some s \<longrightarrow> t_id T s = i \<and> ok s)"

definition base_inv ::
  "('tx, 'set, 'x) tx_ops_scheme \<Rightarrow> ('set \<Rightarrow> bool) \<Rightarrow> ('tx \<Rightarrow> bool) \<Rightarrow> node_id set
    \<Rightarrow> ('tx, 'set) consensus \<Rightarrow> bool" where
  "base_inv T ok tx_ok X c \<longleftrightarrow> position_inv c \<and> acquired_inv T ok (c_acquired c)
     \<and> (\<forall>r. c_result c = Some r
          \<longrightarrow> result_inv T ok tx_ok X (c_curr_peer_positions c) (c_acquired c) r)
     \<and> (c_phase c = Open \<longrightarrow> c_result c = None)
     \<and> (c_phase c = Establish \<longrightarrow> (\<exists>r. c_result c = Some r))"

text \<open>Every difference with a set we compared ours with is disputed.\<close>

definition complete ::
  "('tx, 'set, 'x) tx_ops_scheme \<Rightarrow> ('set \<Rightarrow> bool) \<Rightarrow> ('tx, 'set) consensus_result \<Rightarrow> bool" where
  "complete T ok r \<longleftrightarrow>
     (\<forall>s i. ok s \<longrightarrow> t_id T s \<in> r_compares r \<longrightarrow> t_exists T s i \<noteq> t_exists T (r_txns r) i
        \<longrightarrow> (\<exists>d. map_of (r_disputes r) i = Some d))"

text \<open>The set of every current peer outside \<open>X\<close>, if we hold it, has been compared with ours.\<close>

definition covered ::
  "node_id set \<Rightarrow> ('tx, 'set) consensus \<Rightarrow> ('tx, 'set) consensus_result \<Rightarrow> bool" where
  "covered X c r \<longleftrightarrow>
     (\<forall>n p s. n \<notin> X \<longrightarrow> map_of (c_curr_peer_positions c) n = Some p
        \<longrightarrow> map_of (c_acquired c) (prop_position p) = Some s \<longrightarrow> prop_position p \<in> r_compares r)"

definition round_inv ::
  "('tx, 'set, 'x) tx_ops_scheme \<Rightarrow> ('set \<Rightarrow> bool) \<Rightarrow> ('tx \<Rightarrow> bool) \<Rightarrow> node_id set
    \<Rightarrow> ('tx, 'set) consensus \<Rightarrow> bool" where
  "round_inv T ok tx_ok X c \<longleftrightarrow> base_inv T ok tx_ok X c
     \<and> (\<forall>r. c_result c = Some r \<longrightarrow> complete T ok r \<and> covered X c r)"

text \<open>
  What the dispute bookkeeping may touch: the disputes and compared sets of the result, the
  counter of unchanged rounds, and the log of effects.
\<close>

definition result_frame ::
  "('tx, 'set) consensus_result \<Rightarrow> ('tx, 'set) consensus_result \<Rightarrow> bool" where
  "result_frame r r' \<longleftrightarrow> r' = r\<lparr>r_disputes := r_disputes r', r_compares := r_compares r'\<rparr>
     \<and> r_compares r \<subseteq> r_compares r'
     \<and> dom (map_of (r_disputes r)) \<subseteq> dom (map_of (r_disputes r'))"

definition dispute_frame :: "('tx, 'set) consensus \<Rightarrow> ('tx, 'set) consensus \<Rightarrow> bool" where
  "dispute_frame c c' \<longleftrightarrow>
     c' = c\<lparr>c_result := c_result c', c_peer_unchanged_counter := c_peer_unchanged_counter c',
            c_effects := c_effects c'\<rparr>
     \<and> rel_option result_frame (c_result c) (c_result c')"

lemma result_frame_refl [simp]: "result_frame r r"
  by (simp add: result_frame_def)

lemma result_frame_trans: "result_frame a b \<Longrightarrow> result_frame b c \<Longrightarrow> result_frame a c"
  unfolding result_frame_def by (cases a; cases b; cases c) (auto simp: subset_iff domIff)

lemma result_frameD:
  assumes "result_frame r r'"
  shows "r_txns r' = r_txns r" "r_position r' = r_position r" "r_round_time r' = r_round_time r"
    "r_state r' = r_state r" "r_proposers r' = r_proposers r"
  using assms unfolding result_frame_def by (cases r; cases r'; simp)+

lemma dispute_frame_refl [simp]: "dispute_frame c c"
  by (cases "c_result c") (simp_all add: dispute_frame_def)

lemma dispute_frame_trans:
  assumes "dispute_frame a b" "dispute_frame b c"
  shows "dispute_frame a c"
proof -
  have "c = a\<lparr>c_result := c_result c, c_peer_unchanged_counter := c_peer_unchanged_counter c,
              c_effects := c_effects c\<rparr>"
    using assms unfolding dispute_frame_def by (cases a; cases b; cases c) simp
  moreover have "rel_option result_frame (c_result a) (c_result c)"
    using assms unfolding dispute_frame_def
    by (cases "c_result a"; cases "c_result b"; cases "c_result c")
      (auto intro: result_frame_trans)
  ultimately show ?thesis unfolding dispute_frame_def by blast
qed

lemma dispute_frameD:
  assumes "dispute_frame c c'"
  shows "c_phase c' = c_phase c" "c_mode c' = c_mode c" "c_now c' = c_now c"
    "c_prev_ledger_id c' = c_prev_ledger_id c" "c_previous_ledger c' = c_previous_ledger c"
    "c_acquired c' = c_acquired c" "c_curr_peer_positions c' = c_curr_peer_positions c"
    "c_dead_nodes c' = c_dead_nodes c" "c_recent_peer_positions c' = c_recent_peer_positions c"
    "c_close_resolution c' = c_close_resolution c" "c_prev_proposers c' = c_prev_proposers c"
    "c_have_close_time_consensus c' = c_have_close_time_consensus c"
  using assms unfolding dispute_frame_def by (cases c; cases c'; simp)+

lemma dispute_frame_result:
  assumes "dispute_frame c c'"
  shows "c_result c = Some r \<Longrightarrow> \<exists>r'. c_result c' = Some r' \<and> result_frame r r'"
    and "c_result c = None \<Longrightarrow> c_result c' = None"
  using assms unfolding dispute_frame_def by (auto simp: option_rel_Some1)

text \<open>What messages of peers leave alone: the phase, the mode, the ledger, our set and position.\<close>

definition peer_frame :: "('tx, 'set) consensus \<Rightarrow> ('tx, 'set) consensus \<Rightarrow> bool" where
  "peer_frame c c' \<longleftrightarrow> c_phase c' = c_phase c \<and> c_mode c' = c_mode c
     \<and> c_prev_ledger_id c' = c_prev_ledger_id c \<and> c_previous_ledger c' = c_previous_ledger c
     \<and> c_prev_proposers c' = c_prev_proposers c
     \<and> rel_option (\<lambda>r r'. r_txns r' = r_txns r \<and> r_position r' = r_position r
          \<and> r_round_time r' = r_round_time r \<and> r_state r' = r_state r) (c_result c) (c_result c')"

lemma peer_frame_refl [simp]: "peer_frame c c"
  by (cases "c_result c") (simp_all add: peer_frame_def)

lemma peer_frame_trans: "peer_frame a b \<Longrightarrow> peer_frame b c \<Longrightarrow> peer_frame a c"
  unfolding peer_frame_def
  by (cases "c_result a"; cases "c_result b"; cases "c_result c") auto

lemma peer_frame_dispute:
  assumes "dispute_frame c c'"
  shows "peer_frame c c'"
proof (cases "c_result c")
  case None
  then show ?thesis
    using dispute_frame_result(2) [OF assms] by (simp add: peer_frame_def dispute_frameD [OF assms])
next
  case (Some r)
  then obtain r' where r': "c_result c' = Some r'" "result_frame r r'"
    using dispute_frame_result(1) [OF assms] by blast
  then show ?thesis
    using Some by (simp add: peer_frame_def dispute_frameD [OF assms] result_frameD [OF r'(2)])
qed

lemma peer_frame_fields:
  "peer_frame c (d\<lparr>c_now := t\<rparr>) = peer_frame c d"
  "peer_frame c (emit e d) = peer_frame c d"
  "peer_frame c (d\<lparr>c_recent_peer_positions := q\<rparr>) = peer_frame c d"
  "peer_frame c (d\<lparr>c_acquired := a\<rparr>) = peer_frame c d"
  "peer_frame c (d\<lparr>c_raw_close_times := w\<rparr>) = peer_frame c d"
  "peer_frame c (d\<lparr>c_curr_peer_positions := ps\<rparr>) = peer_frame c d"
  "peer_frame c (d\<lparr>c_dead_nodes := ns\<rparr>) = peer_frame c d"
  by (simp_all add: peer_frame_def emit_def)

lemma peer_frame_remove_peer: "peer_frame c (remove_peer n c)"
  by (cases "c_result c")
    (simp_all add: peer_frame_def remove_peer_def un_vote_all_def update_result_def)

section \<open>Disputes\<close>

lemma seed_votes_spec:
  assumes "dispute_ok d" "distinct (map fst ps)"
  shows "dispute_ok (fst (seed_votes A acq i ps (d, ch)))
    \<and> our_vote (fst (seed_votes A acq i ps (d, ch))) = our_vote d
    \<and> dtx_tx (fst (seed_votes A acq i ps (d, ch))) = dtx_tx d
    \<and> dtx_id (fst (seed_votes A acq i ps (d, ch))) = dtx_id d
    \<and> map_of (votes (fst (seed_votes A acq i ps (d, ch)))) n =
        (case map_of ps n of
           Some p \<Rightarrow> (case map_of acq (prop_position p) of
                        Some s \<Rightarrow> Some (t_exists A s i) | None \<Rightarrow> map_of (votes d) n)
         | None \<Rightarrow> map_of (votes d) n)"
  using assms
proof (induction ps arbitrary: d ch)
  case (Cons np ps)
  obtain m p where np: "np = (m, p)" by (cases np)
  show ?case
  proof (cases "map_of acq (prop_position p)")
    case None
    moreover have "map_of ps m = None" using Cons.prems(2) by (simp add: np map_of_eq_None_iff)
    ultimately show ?thesis using Cons by (simp add: np split: option.split)
  next
    case (Some s)
    obtain d' ch' where sv: "set_vote m (t_exists A s i) d = (d', ch')" by fastforce
    then have d': "d' = fst (set_vote m (t_exists A s i) d)" by simp
    have "btree_wf (votes d)" using Cons.prems(1) by (simp add: dispute_ok_def)
    then have v: "map_of (votes d') = (map_of (votes d))(m \<mapsto> t_exists A s i)"
      by (simp add: d' set_vote_votes)
    have fr: "our_vote d' = our_vote d" "dtx_tx d' = dtx_tx d" "dtx_id d' = dtx_id d"
      by (simp_all add: d')
    have "dispute_ok d'" using Cons.prems(1) by (simp add: d' dispute_ok_set_vote)
    moreover have "map_of ps m = None" using Cons.prems(2) by (simp add: np map_of_eq_None_iff)
    ultimately show ?thesis
      using Cons.IH [of d' "ch \<or> ch'"] Cons.prems(2)
      by (simp add: np Some sv v fr split: option.split)
  qed
qed simp

lemma vote_all_values:
  "fst (vote_all A n s ds) =
     map_values (\<lambda>d. fst (set_vote n (t_exists A s (t_tx_id A (dtx_tx d))) d)) ds"
  by (induction ds rule: vote_all.induct [of _ A n s])
    (auto simp: map_values_def Let_def split: prod.split)

text \<open>\<open>dispute_inv\<close> when peers vote, leave, or change position.\<close>

lemma dispute_inv_un_vote:
  assumes "dispute_inv T tx_ok X cur acq txns i d"
  shows "dispute_inv T tx_ok X (hm_remove n cur) acq txns i (un_vote n d)"
proof -
  have "map_of (votes (un_vote n d)) m = map_of (votes d) m" if "m \<noteq> n" for m
    using that by (auto simp: un_vote_def map_rules Let_def split: option.split)
  then show ?thesis
    using assms by (auto simp: dispute_inv_def dispute_ok_un_vote voters_un_vote map_rules)
qed

lemma dispute_inv_set_vote:
  assumes "dispute_inv T tx_ok (insert n X) cur acq txns i d"
    and "map_of cur n = Some p" "map_of acq (prop_position p) = Some s"
  shows "dispute_inv T tx_ok X cur acq txns i (fst (set_vote n (t_exists T s i) d))"
proof -
  have ok: "dispute_ok d" and wf: "btree_wf (votes d)"
    using assms(1) by (simp_all add: dispute_inv_def dispute_ok_def)
  show ?thesis
    using assms ok
    by (auto simp: dispute_inv_def dispute_ok_set_vote voters_set_vote set_vote_votes [OF wf])
qed

lemma dispute_inv_mono:
  assumes "dispute_inv T tx_ok X cur acq txns i d" "dom (map_of cur) \<subseteq> dom (map_of cur')"
    and "\<And>n p. n \<notin> Y \<Longrightarrow> map_of cur' n = Some p \<Longrightarrow> n \<notin> X \<and> map_of cur n = Some p"
    and "\<And>n p s. n \<notin> Y \<Longrightarrow> map_of cur' n = Some p \<Longrightarrow> map_of acq' (prop_position p) = Some s
      \<Longrightarrow> map_of acq (prop_position p) = Some s"
  shows "dispute_inv T tx_ok Y cur' acq' txns i d"
  using assms unfolding dispute_inv_def by (meson order_trans)

lemma dispute_inv_new:
  assumes "hm_wf cur" "t_tx_id A tx = i" "tx_ok tx"
  shows "dispute_inv A tx_ok X cur acq txns i
    (fst (seed_votes A acq i cur (dispute_new tx i (t_exists A txns i), ch)))"
proof -
  let ?d0 = "dispute_new tx i (t_exists A txns i)"
  note S = seed_votes_spec [OF dispute_ok_new, of cur A acq i tx i "t_exists A txns i" ch]
  have d: "distinct (map fst cur)" using assms(1) by (simp add: hm_wf_def)
  have v0: "map_of (votes ?d0) n = None" for n by (simp add: dispute_new_def)
  have "voters (fst (seed_votes A acq i cur (?d0, ch))) \<subseteq> dom (map_of cur)"
    using S [OF d] v0 by (auto simp: voters_def split: option.splits)
  then show ?thesis
    using S [OF d] assms(2,3) by (simp add: dispute_inv_def) (simp add: dispute_new_def)
qed

context consensus_env
begin

abbreviation binv where "binv \<equiv> base_inv A ok tx_ok"

abbreviation rinv where "rinv \<equiv> round_inv A ok tx_ok"

lemma add_disputes_inv:
  assumes "binv X c" "c_result c = Some r" "ok other"
    and "\<And>i b. (i, b) \<in> set ds \<Longrightarrow> t_exists A (if b then r_txns r else other) i"
  shows "\<exists>c' r'. add_disputes A (r_txns r) other ds c = Some c' \<and> binv X c' \<and> dispute_frame c c'
    \<and> c_result c' = Some r' \<and> r_compares r' = r_compares r
    \<and> fst ` set ds \<subseteq> dom (map_of (r_disputes r'))"
  using assms
proof (induction ds arbitrary: c r)
  case (Cons e ds)
  obtain i b where e: "e = (i, b)" by (cases e)
  have okr: "ok (r_txns r)" using Cons.prems(1,2) by (simp add: base_inv_def result_inv_def)
  have ex: "t_exists A (if b then r_txns r else other) i" using Cons.prems(4) by (simp add: e)
  then obtain tx where tx: "t_find A (if b then r_txns r else other) i = Some tx"
    using find_exists [of "if b then r_txns r else other" i] okr Cons.prems(3) by auto
  have txi: "t_tx_id A tx = i" "tx_ok tx"
    using find_id [OF _ tx] okr Cons.prems(3) by (simp_all split: if_splits)
  show ?case
  proof (cases "map_of (r_disputes r) i")
    case (Some d)
    obtain c' r' where IH: "add_disputes A (r_txns r) other ds c = Some c'" "binv X c'"
        "dispute_frame c c'" "c_result c' = Some r'" "r_compares r' = r_compares r"
        "fst ` set ds \<subseteq> dom (map_of (r_disputes r'))"
      using Cons.IH [OF Cons.prems(1,2,3)] Cons.prems(4) by auto
    have "i \<in> dom (map_of (r_disputes r'))"
      using dispute_frame_result(1) [OF IH(3) Cons.prems(2)] IH(4) Some
      by (auto simp: result_frame_def)
    then show ?thesis using IH tx Some Cons.prems(2) by (simp add: e split: if_splits)
  next
    case None
    obtain dtx ch where sv: "seed_votes A (c_acquired c) i (c_curr_peer_positions c)
        (dispute_new tx i (t_exists A (r_txns r) i), False) = (dtx, ch)" by fastforce
    have wfc: "hm_wf (c_curr_peer_positions c)"
      using Cons.prems(1) by (simp add: base_inv_def position_inv_def)
    have di: "dispute_inv A tx_ok X (c_curr_peer_positions c) (c_acquired c) (r_txns r) i dtx"
      using dispute_inv_new [OF wfc txi(1), of tx_ok, OF txi(2), where acq = "c_acquired c" and ch = False] sv
      by (metis fst_conv)
    let ?r1 = "r\<lparr>r_disputes := hm_insert i dtx (r_disputes r)\<rparr>"
    let ?c1 = "update_result (\<lambda>r. r\<lparr>r_disputes := hm_insert i dtx (r_disputes r)\<rparr>)
      (emit (Share_tx (dtx_tx dtx)) (if ch then c\<lparr>c_peer_unchanged_counter := 0\<rparr> else c))"
    have res1: "c_result ?c1 = Some ?r1"
      using Cons.prems(2) by (simp add: update_result_def emit_def)
    have inv1: "binv X ?c1"
      using Cons.prems(1,2) di
      by (auto simp: base_inv_def position_inv_def result_inv_def update_result_def emit_def map_rules)
    have fr1: "dispute_frame c ?c1"
      using Cons.prems(2)
      by (auto simp: dispute_frame_def result_frame_def update_result_def emit_def map_rules)
    have p4: "t_exists A (if b' then r_txns ?r1 else other) j" if "(j, b') \<in> set ds" for j b'
      using Cons.prems(4) [of j b'] that by (simp split: if_splits)
    obtain c' r' where IH: "add_disputes A (r_txns r) other ds ?c1 = Some c'" "binv X c'"
        "dispute_frame ?c1 c'" "c_result c' = Some r'" "r_compares r' = r_compares r"
        "fst ` set ds \<subseteq> dom (map_of (r_disputes r'))"
      using Cons.IH [OF inv1 res1 Cons.prems(3) p4] by auto
    have "i \<in> dom (map_of (r_disputes r'))"
      using dispute_frame_result(1) [OF IH(3) res1] IH(4)
      by (auto simp: result_frame_def map_rules)
    then show ?thesis
      using IH tx None Cons.prems(2) dispute_frame_trans [OF fr1 IH(3)] sv
      by (simp add: e Let_def split: if_splits)
  qed
qed simp

lemma create_disputes_inv:
  assumes "binv X c" "c_result c = Some r" "complete A ok r" "ok other"
  shows "\<exists>c' r'. create_disputes A other c = Some c' \<and> binv X c' \<and> dispute_frame c c'
    \<and> c_result c' = Some r' \<and> complete A ok r' \<and> r_compares r' = insert (t_id A other) (r_compares r)"
proof -
  let ?r1 = "r\<lparr>r_compares := insert (t_id A other) (r_compares r)\<rparr>"
  let ?c1 = "update_result (\<lambda>r. r\<lparr>r_compares := insert (t_id A other) (r_compares r)\<rparr>) c"
  have okr: "ok (r_txns r)" using assms(1,2) by (simp add: base_inv_def result_inv_def)
  have res1: "c_result ?c1 = Some ?r1" using assms(2) by (simp add: update_result_def)
  have inv1: "binv X ?c1"
    using assms(1,2) by (simp add: base_inv_def position_inv_def result_inv_def update_result_def)
  have fr1: "dispute_frame c ?c1"
    using assms(2) by (auto simp: dispute_frame_def result_frame_def update_result_def)
  consider (seen) "t_id A other \<in> r_compares r"
    | (same) "t_id A other \<notin> r_compares r" "t_id A (r_txns r) = t_id A other"
    | (new) "t_id A other \<notin> r_compares r" "t_id A (r_txns r) \<noteq> t_id A other" by blast
  then show ?thesis
  proof cases
    case seen
    then show ?thesis
      using assms by (intro exI [of _ c] exI [of _ r]) (simp add: create_disputes_def insert_absorb)
  next
    case same
    have "complete A ok ?r1"
      using assms(3) id_exists [OF _ okr] same by (auto simp: complete_def)
    then show ?thesis using same assms(2) inv1 fr1 res1 by (simp add: create_disputes_def)
  next
    case new
    let ?ds = "t_compare A (r_txns r) other"
    have ds: "map_of ?ds i = (if t_exists A (r_txns r) i = t_exists A other i then None
        else Some (t_exists A (r_txns r) i))" for i
      by (rule compare_diff [OF okr assms(4)])
    have dsE: "t_exists A (if b then r_txns ?r1 else other) i" if "(i, b) \<in> set ?ds" for i b
    proof -
      have "map_of ?ds i = Some b"
        using that btree_wf_distinct [OF compare_wf [OF okr assms(4)]] by simp
      then show ?thesis using ds [of i] by (auto split: if_splits)
    qed
    obtain c' r' where c': "add_disputes A (r_txns r) other ?ds ?c1 = Some c'" "binv X c'"
        "dispute_frame ?c1 c'" "c_result c' = Some r'" "r_compares r' = r_compares ?r1"
        "fst ` set ?ds \<subseteq> dom (map_of (r_disputes r'))"
      using add_disputes_inv [OF inv1 res1 assms(4), of ?ds, OF dsE] by auto
    have rf: "result_frame ?r1 r'" using dispute_frame_result(1) [OF c'(3) res1] c'(4) by simp
    have tx: "r_txns r' = r_txns r" using result_frameD(1) [OF rf] by simp
    have dm: "dom (map_of (r_disputes r)) \<subseteq> dom (map_of (r_disputes r'))"
      using rf by (simp add: result_frame_def)
    have all: "i \<in> dom (map_of (r_disputes r'))"
      if "ok s" "t_id A s \<in> insert (t_id A other) (r_compares r)"
        "t_exists A s i \<noteq> t_exists A (r_txns r) i" for s i
    proof (cases "t_id A s = t_id A other")
      case True
      then have "map_of ?ds i \<noteq> None"
        using id_exists [OF that(1) assms(4)] that(3) ds [of i] by simp
      then show ?thesis using c'(6) unfolding map_of_eq_None_iff by blast
    next
      case False
      then have "i \<in> dom (map_of (r_disputes r))"
        using that assms(3) unfolding complete_def by blast
      then show ?thesis using dm by blast
    qed
    have "complete A ok r'" unfolding complete_def tx using all c'(5) by (simp add: domIff)
    then show ?thesis
      using c' new assms(2) dispute_frame_trans [OF fr1 c'(3)] by (simp add: create_disputes_def)
  qed
qed

lemma update_disputes_inv:
  assumes "rinv (insert n X) c" "c_result c = Some r"
    and p: "map_of (c_curr_peer_positions c) n = Some p"
    and s: "map_of (c_acquired c) (prop_position p) = Some s"
  shows "\<exists>c'. update_disputes A n s c = Some c' \<and> rinv X c' \<and> dispute_frame c c'"
proof -
  have b: "binv (insert n X) c" and comp: "complete A ok r" and cov: "covered (insert n X) c r"
    using assms(1,2) by (simp_all add: round_inv_def)
  have sok: "ok s" and sid: "t_id A s = prop_position p"
    using b s by (simp_all add: base_inv_def acquired_inv_def)
  have "\<exists>c1 r1. (if t_id A s \<notin> r_compares r then create_disputes A s c else Some c) = Some c1
      \<and> binv (insert n X) c1 \<and> dispute_frame c c1 \<and> c_result c1 = Some r1 \<and> complete A ok r1
      \<and> r_compares r1 = insert (t_id A s) (r_compares r)"
    using create_disputes_inv [OF b assms(2) comp sok] b comp assms(2)
    by (cases "t_id A s \<in> r_compares r") (auto simp: insert_absorb)
  then obtain c1 r1 where
    c1: "(if t_id A s \<notin> r_compares r then create_disputes A s c else Some c) = Some c1"
      "binv (insert n X) c1" "dispute_frame c c1" "c_result c1 = Some r1" "complete A ok r1"
      "r_compares r1 = insert (t_id A s) (r_compares r)" by blast
  note F = dispute_frameD [OF c1(3)]
  obtain ds ch where va: "vote_all A n s (r_disputes r1) = (ds, ch)" by fastforce
  have ds: "ds = map_values (\<lambda>d. fst (set_vote n (t_exists A s (t_tx_id A (dtx_tx d))) d)) (r_disputes r1)"
    using vote_all_values [of A n s "r_disputes r1"] va by simp
  let ?r2 = "r1\<lparr>r_disputes := ds\<rparr>"
  let ?c2 = "if ch then c1\<lparr>c_result := Some ?r2, c_peer_unchanged_counter := 0\<rparr>
             else c1\<lparr>c_result := Some ?r2\<rparr>"
  have r1: "result_inv A ok tx_ok (insert n X) (c_curr_peer_positions c1) (c_acquired c1) r1"
    using c1(2,4) by (simp add: base_inv_def)
  have "dispute_inv A tx_ok X (c_curr_peer_positions c1) (c_acquired c1) (r_txns r1) i d"
    if d: "map_of ds i = Some d" for i d
  proof -
    obtain d0 where d0: "map_of (r_disputes r1) i = Some d0"
        "d = fst (set_vote n (t_exists A s (t_tx_id A (dtx_tx d0))) d0)"
      using d by (auto simp: ds map_rules)
    have di: "dispute_inv A tx_ok (insert n X) (c_curr_peer_positions c1) (c_acquired c1) (r_txns r1) i d0"
      using r1 d0(1) by (simp add: result_inv_def)
    then have "t_tx_id A (dtx_tx d0) = i" by (simp add: dispute_inv_def)
    then show ?thesis using dispute_inv_set_vote [OF di, of p s] p s F d0(2) by simp
  qed
  then have ri: "result_inv A ok tx_ok X (c_curr_peer_positions c1) (c_acquired c1) ?r2"
    using r1 by (simp add: result_inv_def ds)
  have "binv X ?c2" using c1(2,4) ri by (auto simp: base_inv_def position_inv_def)
  moreover have dm: "dom (map_of ds) = dom (map_of (r_disputes r1))"
    by (auto simp: ds map_rules)
  then have "complete A ok ?r2" using c1(5) by (fastforce simp: complete_def)
  moreover have "prop_position q \<in> r_compares r1"
    if "m \<notin> X" "map_of (c_curr_peer_positions c) m = Some q"
      "map_of (c_acquired c) (prop_position q) = Some t" for m q t
    using that cov c1(6) p sid by (cases "m = n") (auto simp: covered_def)
  then have "covered X ?c2 ?r2" using F by (simp add: covered_def) blast
  moreover have "dispute_frame c1 ?c2"
    using c1(4) dm by (auto simp: dispute_frame_def result_frame_def)
  ultimately show ?thesis
    using c1(1,4) va assms(2) dispute_frame_trans [OF c1(3)]
    by (auto simp: update_disputes_def round_inv_def Let_def)
qed

lemma update_disputes_for_inv:
  assumes "rinv (set ns \<union> X) c" "c_result c = Some r" "map_of (c_acquired c) (t_id A s) = Some s"
    and "\<And>n. n \<in> set ns \<Longrightarrow> \<exists>p. map_of (c_curr_peer_positions c) n = Some p \<and> prop_position p = t_id A s"
  shows "\<exists>c'. update_disputes_for A ns s c = Some c' \<and> rinv X c' \<and> dispute_frame c c'"
  using assms
proof (induction ns arbitrary: c r)
  case (Cons n ns)
  obtain p where p: "map_of (c_curr_peer_positions c) n = Some p" "prop_position p = t_id A s"
    using Cons.prems(4) [of n] by auto
  have "rinv (insert n (set ns \<union> X)) c" using Cons.prems(1) by simp
  then obtain c1 where c1: "update_disputes A n s c = Some c1" "rinv (set ns \<union> X) c1"
      "dispute_frame c c1"
    using update_disputes_inv [OF _ Cons.prems(2) p(1)] p(2) Cons.prems(3) by auto
  note F = dispute_frameD [OF c1(3)]
  obtain r1 where r1: "c_result c1 = Some r1"
    using dispute_frame_result(1) [OF c1(3) Cons.prems(2)] by blast
  obtain c' where "update_disputes_for A ns s c1 = Some c'" "rinv X c'" "dispute_frame c1 c'"
    using Cons.IH [OF c1(2) r1] Cons.prems(3,4) F by auto
  then show ?case using c1 dispute_frame_trans by fastforce
qed simp

text \<open>What a newly held transaction set does to the invariant.\<close>

lemma rinv_acquire:
  assumes "rinv X c" "ok s" "map_of (c_acquired c) (t_id A s) = None"
  shows "rinv (X \<union> {n. \<exists>p. map_of (c_curr_peer_positions c) n = Some p \<and> prop_position p = t_id A s})
    (c\<lparr>c_acquired := hm_insert (t_id A s) s (c_acquired c)\<rparr>)" (is "rinv ?Y ?c")
proof -
  have "dispute_inv A tx_ok ?Y (c_curr_peer_positions c) (c_acquired ?c) txns i d"
    if "dispute_inv A tx_ok X (c_curr_peer_positions c) (c_acquired c) txns i d" for txns i d
    by (rule dispute_inv_mono [OF that]) (auto simp: map_rules split: if_splits)
  then have "binv ?Y ?c"
    using assms(1,2)
    by (auto simp: round_inv_def base_inv_def position_inv_def acquired_inv_def result_inv_def map_rules)
  moreover have "covered ?Y ?c r" if "covered X c r" for r
    using that by (auto simp: covered_def map_rules split: if_splits)
  ultimately show ?thesis using assms(1) by (simp add: round_inv_def)
qed

lemma rinv_frame_fields:
  "rinv X (c\<lparr>c_now := t\<rparr>) = rinv X c"
  "rinv X (emit e c) = rinv X c"
  "rinv X (c\<lparr>c_recent_peer_positions := q\<rparr>) = rinv X c"
  "rinv X (c\<lparr>c_raw_close_times := w\<rparr>) = rinv X c"
  "rinv X (c\<lparr>c_peer_unchanged_counter := k\<rparr>) = rinv X c"
  "rinv X (c\<lparr>c_establish_counter := k\<rparr>) = rinv X c"
  "rinv X (c\<lparr>c_converge_percent := z\<rparr>) = rinv X c"
  "rinv X (c\<lparr>c_have_close_time_consensus := b\<rparr>) = rinv X c"
  "rinv X (c\<lparr>c_close_time_avalanche_state := st\<rparr>) = rinv X c"
  "rinv X (c\<lparr>c_prev_proposers := k\<rparr>) = rinv X c"
  "rinv X (c\<lparr>c_prev_round_time := k\<rparr>) = rinv X c"
  "rinv X (set_mode md c) = rinv X c"
  by (simp_all add: round_inv_def base_inv_def position_inv_def covered_def emit_def set_mode_def)

lemma got_tx_set_inv:
  assumes "rinv X c" "ok s"
  shows "\<exists>c'. got_tx_set A now s c = Some c' \<and> rinv X c' \<and> peer_frame c c'"
proof -
  let ?c1 = "c\<lparr>c_now := now\<rparr>"
  let ?c2 = "?c1\<lparr>c_acquired := hm_insert (t_id A s) s (c_acquired ?c1)\<rparr>"
  let ?P = "\<lambda>(n, pos). prop_position pos = t_id A s"
  let ?ns = "map fst (filter ?P (c_curr_peer_positions c))"
  have wf: "distinct (map fst (c_curr_peer_positions c))"
    using assms(1) by (simp add: round_inv_def base_inv_def position_inv_def hm_wf_def)
  have ns: "set ?ns = {n. \<exists>p. map_of (c_curr_peer_positions c) n = Some p \<and> prop_position p = t_id A s}"
    using wf by force
  consider "c_phase c = Accepted" | "c_phase c \<noteq> Accepted" "map_of (c_acquired c) (t_id A s) \<noteq> None"
    | (new) "c_phase c \<noteq> Accepted" "map_of (c_acquired c) (t_id A s) = None" by blast
  then show ?thesis
  proof cases
    case new
    have inv2: "rinv (set ?ns \<union> X) ?c2"
      using rinv_acquire [of X ?c1 s] assms new(2) ns by (simp add: rinv_frame_fields Un_commute)
    show ?thesis
    proof (cases "c_result c")
      case None
      then have "rinv X ?c2" using inv2 by (simp add: round_inv_def base_inv_def position_inv_def)
      then show ?thesis using new None by (simp add: got_tx_set_def Let_def peer_frame_fields)
    next
      case (Some r)
      have held: "map_of (c_acquired ?c2) (t_id A s) = Some s" by (simp add: map_rules)
      have at: "\<exists>p. map_of (c_curr_peer_positions ?c2) n = Some p \<and> prop_position p = t_id A s"
        if "n \<in> set ?ns" for n using that unfolding ns by simp
      obtain c' where c': "update_disputes_for A ?ns s ?c2 = Some c'" "rinv X c'" "dispute_frame ?c2 c'"
        using update_disputes_for_inv [OF inv2 _ held at] Some by auto
      have "peer_frame c ?c2" by (simp add: peer_frame_fields)
      from peer_frame_trans [OF this peer_frame_dispute [OF c'(3)]]
      show ?thesis using new Some c' by (simp add: got_tx_set_def Let_def)
    qed
  qed (use assms(1) in \<open>auto simp: got_tx_set_def Let_def rinv_frame_fields peer_frame_fields\<close>)
qed

end

end
