(* ===== verification/Rcl_Tx_Set.thy ===== *)
theory Rcl_Tx_Set
  imports SHAMap_Compare Consensus_Round Consensus_Invariant
begin

text \<open>
  The transaction sets of the XRP Ledger consensus, \<^verbatim>\<open>xrpld/consensus/src/rcl.rs\<close>: a SHAMap of
  transactions behind the trait \<^verbatim>\<open>ConsensusTxSet\<close>. A transaction (\<^verbatim>\<open>RclCxTxRef\<close>) is its SHAMap
  item. The shared node cache is not modelled. \<^term>\<open>None\<close> is a panic: a failed \<^verbatim>\<open>expect\<close> or the
  \<^verbatim>\<open>assert!\<close> of \<^verbatim>\<open>compare\<close>.

  The locale \<open>tx_pool\<close> says what the set of transactions in play must satisfy: they are keyed by
  their hash, there are fewer than the limit of \<^verbatim>\<open>compare\<close>, and no two preimages of trees over
  them collide. Under it the sets satisfy the contract \<open>tx_set\<close> of the consensus round.
\<close>

section \<open>The code\<close>

record rcl_tx_set =
  ts_root :: sha_node
  ts_backed :: bool
  ts_ledger_seq :: nat

definition rcl_new :: "nat \<Rightarrow> rcl_tx_set" where
  "rcl_new seq = \<lparr>ts_root = new_inner, ts_backed = False, ts_ledger_seq = seq\<rparr>"

definition rcl_exists :: "rcl_tx_set \<Rightarrow> tx_id \<Rightarrow> bool option" where
  "rcl_exists s entry = has_item entry (ts_root s)"

definition rcl_find :: "rcl_tx_set \<Rightarrow> tx_id \<Rightarrow> sha_item option option" where
  "rcl_find s entry = peek_item entry (ts_root s)"

definition rcl_id :: "(preimage \<Rightarrow> nat) \<Rightarrow> rcl_tx_set \<Rightarrow> tx_set_id" where
  "rcl_id H s = node_hash H (ts_root s)"

definition rcl_compare :: "(preimage \<Rightarrow> nat) \<Rightarrow> rcl_tx_set \<Rightarrow> rcl_tx_set \<Rightarrow> (tx_id, bool) btree option" where
  "rcl_compare H a b =
     do {
       (_, delta, _) \<leftarrow> compare H (ts_root a) (ts_root b) ([], 65536);
       (if \<forall>(k, l, r) \<in> set delta. (l \<noteq> None \<and> r = None) \<or> (l = None \<and> r \<noteq> None)
        then Some (map (\<lambda>(k, l, r). (k, l \<noteq> None)) delta) else None)
     }"

text \<open>
  \<^verbatim>\<open>mutable_view\<close> and \<^verbatim>\<open>freeze\<close> copy the tree on write: the mutable view is the set itself.
\<close>

definition rcl_insert :: "sha_item \<Rightarrow> rcl_tx_set \<Rightarrow> (bool \<times> rcl_tx_set) option" where
  "rcl_insert tx s =
     (case add_item TransactionNm tx (ts_root s) of
        Some (Inr (inserted, root')) \<Rightarrow> Some (inserted, s\<lparr>ts_root := root'\<rparr>)
      | _ \<Rightarrow> None)"

definition rcl_erase :: "tx_id \<Rightarrow> rcl_tx_set \<Rightarrow> (bool \<times> rcl_tx_set) option" where
  "rcl_erase entry s =
     map_option (\<lambda>(erased, root'). (erased, s\<lparr>ts_root := root'\<rparr>)) (delete_item entry (ts_root s))"

text \<open>
  The methods of the trait, as the consensus round calls them; it ignores the flags of
  \<^verbatim>\<open>insert\<close> and \<^verbatim>\<open>erase\<close>. Lemma \<open>rcl_ops_total\<close> shows that no call panics on the sets in play.
\<close>

definition rcl_ops :: "(preimage \<Rightarrow> nat) \<Rightarrow> (sha_item, rcl_tx_set) tx_ops" where
  "rcl_ops H =
     \<lparr>t_exists = \<lambda>s i. case_option False id (rcl_exists s i),
      t_find = \<lambda>s i. case_option None id (rcl_find s i),
      t_id = rcl_id H,
      t_compare = \<lambda>a b. case_option [] id (rcl_compare H a b),
      t_insert = \<lambda>tx s. case_option s snd (rcl_insert tx s),
      t_erase = \<lambda>i s. case_option s snd (rcl_erase i s),
      t_tx_id = item_key\<rparr>"

lemma rcl_ops_simps [simp]:
  "t_exists (rcl_ops H) s i = case_option False id (rcl_exists s i)"
  "t_find (rcl_ops H) s i = case_option None id (rcl_find s i)"
  "t_id (rcl_ops H) s = rcl_id H s"
  "t_compare (rcl_ops H) a b = case_option [] id (rcl_compare H a b)"
  "t_insert (rcl_ops H) tx s = case_option s snd (rcl_insert tx s)"
  "t_erase (rcl_ops H) i s = case_option s snd (rcl_erase i s)"
  "t_tx_id (rcl_ops H) tx = item_key tx"
  by (simp_all add: rcl_ops_def)

section \<open>Sets over a pool of transactions\<close>

definition rcl_ok :: "sha_item set \<Rightarrow> rcl_tx_set \<Rightarrow> bool" where
  "rcl_ok pool s \<longleftrightarrow> sha_root TransactionNm (ts_root s) \<and> item_set (ts_root s) \<subseteq> pool"

definition pool_preimages :: "(preimage \<Rightarrow> nat) \<Rightarrow> sha_item set \<Rightarrow> preimage set" where
  "pool_preimages H pool = (\<Union>s \<in> {s. rcl_ok pool s}. preimages H (ts_root s))"

lemma rcl_ok_wf: "rcl_ok pool s \<Longrightarrow> sha_wf TransactionNm 0 (ts_root s)"
  by (simp add: rcl_ok_def sha_root_def)

lemma rcl_ok_contents: "rcl_ok pool s \<Longrightarrow> contents (ts_root s) i = Some tx \<Longrightarrow> tx \<in> pool \<and> item_key tx = i"
  using contents_Some [OF rcl_ok_wf] by (auto simp: rcl_ok_def)

lemma rcl_exists_contents: "rcl_ok pool s \<Longrightarrow> rcl_exists s i = Some (contents (ts_root s) i \<noteq> None)"
  by (simp add: rcl_exists_def has_item_contents [OF rcl_ok_wf])

lemma rcl_find_contents: "rcl_ok pool s \<Longrightarrow> rcl_find s i = Some (contents (ts_root s) i)"
  by (simp add: rcl_find_def peek_item_contents [OF rcl_ok_wf])

lemma rcl_insert_spec:
  assumes "rcl_ok pool s" "tx \<in> pool" "key_ok (item_key tx)"
  shows "\<exists>s'. rcl_insert tx s = Some (contents (ts_root s) (item_key tx) = None, s') \<and> rcl_ok pool s'
    \<and> contents (ts_root s') =
      (contents (ts_root s))(item_key tx \<mapsto> case_option tx id (contents (ts_root s) (item_key tx)))"
proof (cases "contents (ts_root s) (item_key tx)")
  case None
  have rt: "sha_root TransactionNm (ts_root s)" using assms(1) by (simp add: rcl_ok_def)
  obtain n' where n': "add_item TransactionNm tx (ts_root s) = Some (Inr (True, n'))"
      "sha_root TransactionNm n'" "item_set n' = insert tx (item_set (ts_root s))"
    using add_item_new [OF rt assms(3) None] by blast
  have wf: "sha_wf TransactionNm 0 n'" using n'(2) by (simp add: sha_root_def)
  have "contents n' = (contents (ts_root s))(item_key tx \<mapsto> tx)"
  proof
    fix k
    have "contents n' k = Some it \<longleftrightarrow> ((contents (ts_root s))(item_key tx \<mapsto> tx)) k = Some it" for it
      unfolding contents_Some [OF wf] n'(3) using contents_Some [OF rcl_ok_wf [OF assms(1)], of k it] None
      by (auto simp: contents_None)
    then show "contents n' k = ((contents (ts_root s))(item_key tx \<mapsto> tx)) k" by (metis not_None_eq)
  qed
  then show ?thesis
    using n' None assms(1,2) by (simp add: rcl_insert_def rcl_ok_def)
next
  case (Some old)
  have rt: "sha_root TransactionNm (ts_root s)" using assms(1) by (simp add: rcl_ok_def)
  have "add_item TransactionNm tx (ts_root s) = Some (Inr (False, ts_root s))"
    by (rule add_item_old [OF rt Some]) simp
  then show ?thesis using Some assms(1) by (simp add: rcl_insert_def fun_upd_idem)
qed

lemma rcl_erase_spec:
  assumes "rcl_ok pool s"
  shows "\<exists>s'. rcl_erase i s = Some (contents (ts_root s) i \<noteq> None, s') \<and> rcl_ok pool s'
    \<and> contents (ts_root s') = (contents (ts_root s))(i := None)"
proof (cases "contents (ts_root s) i")
  case (Some old)
  have rt: "sha_root TransactionNm (ts_root s)" using assms(1) by (simp add: rcl_ok_def)
  obtain n' where n': "delete_item i (ts_root s) = Some (True, n')"
      "sha_root TransactionNm n'" "item_set n' = item_set (ts_root s) - {old}"
    using delete_item_old [OF rt Some] by blast
  have wf: "sha_wf TransactionNm 0 n'" using n'(2) by (simp add: sha_root_def)
  note old = rcl_ok_wf [OF assms] Some [unfolded contents_Some [OF rcl_ok_wf [OF assms]]]
  have "contents n' = (contents (ts_root s))(i := None)"
  proof
    fix k
    have "contents n' k = Some it \<longleftrightarrow> ((contents (ts_root s))(i := None)) k = Some it" for it
      unfolding contents_Some [OF wf] n'(3)
      using contents_Some [OF old(1), of k it] sha_wf_inj [OF old(1), of it old] old(2) by auto
    then show "contents n' k = ((contents (ts_root s))(i := None)) k" by (metis not_None_eq)
  qed
  then show ?thesis using n' Some assms by (auto simp: rcl_erase_def rcl_ok_def)
next
  case None
  have rt: "sha_root TransactionNm (ts_root s)" using assms(1) by (simp add: rcl_ok_def)
  show ?thesis using delete_item_new [OF rt None] None assms by (simp add: rcl_erase_def fun_upd_idem)
qed

section \<open>The contract of the consensus round\<close>

locale tx_pool =
  fixes H :: "preimage \<Rightarrow> nat" and pool :: "sha_item set"
  assumes pool_finite: "finite pool"
    and pool_limit: "card pool < 65536"
    and pool_keys: "tx \<in> pool \<Longrightarrow> key_ok (item_key tx) \<and> addressed H TransactionNm tx"
    and pool_collision_free: "collision_free H (pool_preimages H pool)"
    and pool_inj: "inj_on item_key pool"
begin

lemma pool_pair:
  assumes "rcl_ok pool a" "rcl_ok pool b"
  shows "collision_free H (preimages H (ts_root a) \<union> preimages H (ts_root b))"
    and "it \<in> item_set (ts_root a) \<union> item_set (ts_root b) \<Longrightarrow> addressed H TransactionNm it"
proof -
  have "preimages H (ts_root a) \<union> preimages H (ts_root b) \<subseteq> pool_preimages H pool"
    unfolding pool_preimages_def using assms by blast
  then show "collision_free H (preimages H (ts_root a) \<union> preimages H (ts_root b))"
    by (rule collision_free_mono [OF pool_collision_free])
  show "addressed H TransactionNm it" if "it \<in> item_set (ts_root a) \<union> item_set (ts_root b)"
    using that assms pool_keys by (auto simp: rcl_ok_def)
qed

lemma same_id:
  assumes "rcl_ok pool a" "rcl_ok pool b" "rcl_id H a = rcl_id H b"
  shows "ts_root a = ts_root b"
  by (rule node_hash_inj [OF rcl_ok_wf rcl_ok_wf pool_pair])
    (use assms in \<open>auto simp: rcl_id_def rcl_ok_def sha_root_def\<close>)

lemma differing_keys:
  assumes "rcl_ok pool a" "rcl_ok pool b"
  shows "int (card {k. contents (ts_root a) k \<noteq> contents (ts_root b) k}) < 65536"
proof -
  have "k \<in> item_key ` pool" if d: "contents (ts_root a) k \<noteq> contents (ts_root b) k" for k
  proof -
    obtain tx where "contents (ts_root a) k = Some tx \<or> contents (ts_root b) k = Some tx"
      using d by (cases "contents (ts_root a) k"; cases "contents (ts_root b) k") auto
    then have "tx \<in> pool" "item_key tx = k" using rcl_ok_contents assms by blast+
    then show ?thesis by blast
  qed
  then have "card {k. contents (ts_root a) k \<noteq> contents (ts_root b) k} \<le> card (item_key ` pool)"
    using pool_finite by (intro card_mono) auto
  also have "\<dots> \<le> card pool" by (rule card_image_le [OF pool_finite])
  finally show ?thesis using pool_limit by simp
qed

lemma contents_same:
  assumes "rcl_ok pool a" "rcl_ok pool b" "contents (ts_root a) i \<noteq> None" "contents (ts_root b) i \<noteq> None"
  shows "contents (ts_root a) i = contents (ts_root b) i"
proof -
  obtain x y where xy: "contents (ts_root a) i = Some x" "contents (ts_root b) i = Some y" using assms(3,4) by blast
  then have "x = y"
    using rcl_ok_contents [OF assms(1) xy(1)] rcl_ok_contents [OF assms(2) xy(2)] pool_inj by (auto dest: inj_onD)
  then show ?thesis using xy by simp
qed

lemma compare_spec:
  assumes "rcl_ok pool a" "rcl_ok pool b"
  shows "\<exists>ds. rcl_compare H a b = Some ds \<and> btree_wf ds
    \<and> (\<forall>i. map_of ds i = (if (contents (ts_root a) i = None) = (contents (ts_root b) i = None) then None
         else Some (contents (ts_root a) i \<noteq> None)))"
proof -
  let ?a = "contents (ts_root a)" and ?b = "contents (ts_root b)"
  have ab: "sha_root TransactionNm (ts_root a)" "sha_root TransactionNm (ts_root b)"
    using assms by (simp_all add: rcl_ok_def)
  obtain ds m' where ds: "compare H (ts_root a) (ts_root b) ([], 65536) = Some (True, (ds, m'))"
      "btree_wf ds" "map_of ds = diff True ?a ?b"
    using compare_all [OF ab pool_pair [OF assms], of 65536] differing_keys [OF assms] by auto
  have one: "(l \<noteq> None \<and> r = None) \<or> (l = None \<and> r \<noteq> None)" if "(k, l, r) \<in> set ds" for k l r
  proof -
    have "diff True ?a ?b k = Some (l, r)"
      using that ds(3) btree_wf_distinct [OF ds(2)] map_of_eq_Some_iff by metis
    then have "l = ?a k" "r = ?b k" "l \<noteq> r" by (auto simp: diff_def side_def split: if_splits)
    then show ?thesis using contents_same [OF assms, of k] by metis
  qed
  let ?ds = "map (\<lambda>(k, v). (k, fst v \<noteq> None)) ds"
  have "rcl_compare H a b = Some ?ds"
  proof -
    have "\<forall>(k, l, r) \<in> set ds. (l \<noteq> None \<and> r = None) \<or> (l = None \<and> r \<noteq> None)" using one by blast
    then show ?thesis using ds(1) by (simp add: rcl_compare_def case_prod_unfold del: not_None_eq)
  qed
  moreover have "btree_wf ?ds" using ds(2) by (simp add: btree_wf_def comp_def case_prod_unfold)
  moreover have "map_of ?ds i = (if (?a i = None) = (?b i = None) then None else Some (?a i \<noteq> None))" for i
    unfolding map_of_map ds(3) using contents_same [OF assms, of i]
    by (cases "?a i"; cases "?b i") (auto simp: diff_def side_def)
  ultimately show ?thesis by blast
qed

text \<open>No call of the trait panics on the sets in play.\<close>

lemma rcl_ops_total:
  assumes "rcl_ok pool s" "rcl_ok pool s'"
  shows "rcl_exists s i \<noteq> None" "rcl_find s i \<noteq> None" "rcl_compare H s s' \<noteq> None" "rcl_erase i s \<noteq> None"
    and "tx \<in> pool \<Longrightarrow> rcl_insert tx s \<noteq> None"
  using rcl_exists_contents [OF assms(1)] rcl_find_contents [OF assms(1)] compare_spec [OF assms]
    rcl_erase_spec [OF assms(1), of i] rcl_insert_spec [OF assms(1), of tx] pool_keys [of tx] by auto

end

sublocale tx_pool \<subseteq> rts: tx_set "rcl_ops H" "rcl_ok pool" "\<lambda>tx. tx \<in> pool"
proof
  fix s a b :: rcl_tx_set and tx :: sha_item and i j :: tx_id
  assume s: "rcl_ok pool s"
  note X = rcl_exists_contents [OF s] rcl_find_contents [OF s]
  show "t_exists (rcl_ops H) s i \<longleftrightarrow> (\<exists>tx. t_find (rcl_ops H) s i = Some tx)" by (simp add: X)
  show "t_tx_id (rcl_ops H) tx = i \<and> tx \<in> pool" if "t_find (rcl_ops H) s i = Some tx"
    using that rcl_ok_contents [OF s, of i tx] by (simp add: X)
  obtain s' where s': "rcl_erase j s = Some (contents (ts_root s) j \<noteq> None, s')" "rcl_ok pool s'"
      "contents (ts_root s') = (contents (ts_root s))(j := None)" using rcl_erase_spec [OF s] by blast
  show "rcl_ok pool (t_erase (rcl_ops H) j s)" using s' by simp
  show "t_exists (rcl_ops H) (t_erase (rcl_ops H) j s) i \<longleftrightarrow> i \<noteq> j \<and> t_exists (rcl_ops H) s i"
    using s' by (simp add: X rcl_exists_contents [OF s'(2)])
  assume tx: "tx \<in> pool"
  obtain s'' where s'': "rcl_insert tx s = Some (contents (ts_root s) (item_key tx) = None, s'')" "rcl_ok pool s''"
      "contents (ts_root s'') =
      (contents (ts_root s))(item_key tx \<mapsto> case_option tx id (contents (ts_root s) (item_key tx)))"
    using rcl_insert_spec [OF s tx] pool_keys [OF tx] by blast
  show "rcl_ok pool (t_insert (rcl_ops H) tx s)" using s'' by simp
  show "t_exists (rcl_ops H) (t_insert (rcl_ops H) tx s) i \<longleftrightarrow> i = t_tx_id (rcl_ops H) tx \<or> t_exists (rcl_ops H) s i"
    using s'' by (simp add: X rcl_exists_contents [OF s''(2)])
next
  fix a b :: rcl_tx_set and i :: tx_id
  assume ab: "rcl_ok pool a" "rcl_ok pool b"
  note X = rcl_exists_contents [OF ab(1)] rcl_exists_contents [OF ab(2)]
  obtain ds where ds: "rcl_compare H a b = Some ds" "btree_wf ds"
    "\<forall>i. map_of ds i = (if (contents (ts_root a) i = None) = (contents (ts_root b) i = None) then None
         else Some (contents (ts_root a) i \<noteq> None))" using compare_spec [OF ab] by blast
  show "btree_wf (t_compare (rcl_ops H) a b)" using ds by simp
  show "map_of (t_compare (rcl_ops H) a b) i =
      (if t_exists (rcl_ops H) a i = t_exists (rcl_ops H) b i then None else Some (t_exists (rcl_ops H) a i))"
    using ds by (auto simp: X)
  show "t_exists (rcl_ops H) a i = t_exists (rcl_ops H) b i" if "t_id (rcl_ops H) a = t_id (rcl_ops H) b"
    using same_id [OF ab] that by (simp add: X)
qed

end
