(* ===== verification/Consensus_Safety.thy ===== *)
theory Consensus_Safety
  imports Consensus_Invariant
begin

text \<open>
  Every operation of the consensus round keeps the invariant of \<open>Consensus_Invariant\<close> and
  returns: proposals of peers, the three phases, and the change of ledger.
\<close>

lemma ex_bool [simp]: "\<exists>b. b" "Ex Not"
  by blast+

section \<open>Peer proposals\<close>

context consensus_env
begin

lemma rinv_remove_peer:
  assumes "rinv X c"
  shows "rinv X (remove_peer n c)"
proof -
  let ?c = "remove_peer n c"
  have cur: "c_curr_peer_positions ?c = hm_remove n (c_curr_peer_positions c)"
    "c_acquired ?c = c_acquired c" "c_phase ?c = c_phase c" "c_prev_ledger_id ?c = c_prev_ledger_id c"
    "c_dead_nodes ?c = c_dead_nodes c"
    "c_result ?c = map_option (\<lambda>r. r\<lparr>r_disputes := map_values (un_vote n) (r_disputes r)\<rparr>) (c_result c)"
    by (simp_all add: remove_peer_def un_vote_all_def update_result_def)
  have "position_inv ?c"
    using assms by (auto simp: round_inv_def base_inv_def position_inv_def cur map_rules)
  moreover have "result_inv A ok tx_ok X (c_curr_peer_positions ?c) (c_acquired ?c)
      (r\<lparr>r_disputes := map_values (un_vote n) (r_disputes r)\<rparr>)" if "c_result c = Some r" for r
    using assms that dispute_inv_un_vote
    by (fastforce simp: round_inv_def base_inv_def result_inv_def cur map_rules)
  ultimately have "binv X ?c" using assms by (auto simp: round_inv_def base_inv_def cur)
  moreover have "complete A ok (r\<lparr>r_disputes := map_values (un_vote n) (r_disputes r)\<rparr>)
      \<and> covered X ?c (r\<lparr>r_disputes := map_values (un_vote n) (r_disputes r)\<rparr>)"
    if "c_result c = Some r" for r
  proof
    have "complete A ok r" "covered X c r" using assms that by (simp_all add: round_inv_def)
    then show "complete A ok (r\<lparr>r_disputes := map_values (un_vote n) (r_disputes r)\<rparr>)"
      "covered X ?c (r\<lparr>r_disputes := map_values (un_vote n) (r_disputes r)\<rparr>)"
      by (auto simp: complete_def covered_def cur map_rules split: if_splits)
  qed
  ultimately show ?thesis by (auto simp: round_inv_def cur)
qed

lemma rinv_dead:
  assumes "rinv X c" "map_of (c_curr_peer_positions c) n = None"
  shows "rinv X (c\<lparr>c_dead_nodes := insert n (c_dead_nodes c)\<rparr>)"
  using assms by (auto simp: round_inv_def base_inv_def position_inv_def covered_def)

text \<open>A new position of node \<open>n\<close>, which has to be compared with ours.\<close>

lemma rinv_new_position:
  assumes "rinv X c" "previous_ledger p = c_prev_ledger_id c" "\<not> is_bow_out p"
    "prop_node p \<notin> c_dead_nodes c"
  shows "rinv (insert (prop_node p) X)
    (c\<lparr>c_curr_peer_positions := hm_insert (prop_node p) p (c_curr_peer_positions c)\<rparr>)"
    (is "rinv ?Y ?c")
proof -
  have "dispute_inv A tx_ok ?Y (c_curr_peer_positions ?c) (c_acquired c) txns i d"
    if "dispute_inv A tx_ok X (c_curr_peer_positions c) (c_acquired c) txns i d" for txns i d
    by (rule dispute_inv_mono [OF that]) (auto simp: map_rules split: if_splits)
  then have "binv ?Y ?c"
    using assms by (auto simp: round_inv_def base_inv_def position_inv_def result_inv_def map_rules)
  moreover have "covered ?Y ?c r" if "covered X c r" for r
    using that by (auto simp: covered_def map_rules split: if_splits)
  ultimately show ?thesis using assms(1) by (simp add: round_inv_def)
qed

text \<open>Nothing is owed for a node whose set we do not hold.\<close>

lemma rinv_unheld:
  assumes "rinv (insert n X) c" "c_result c = None \<or>
    (\<forall>p. map_of (c_curr_peer_positions c) n = Some p \<longrightarrow> map_of (c_acquired c) (prop_position p) = None)"
  shows "rinv X c"
proof -
  have d: "dispute_inv A tx_ok X (c_curr_peer_positions c) (c_acquired c) txns i d"
    if "dispute_inv A tx_ok (insert n X) (c_curr_peer_positions c) (c_acquired c) txns i d"
      "\<forall>p. map_of (c_curr_peer_positions c) n = Some p \<longrightarrow> map_of (c_acquired c) (prop_position p) = None"
    for txns i d
    using that unfolding dispute_inv_def by (metis insertE option.distinct(1))
  have "covered X c r" if "covered (insert n X) c r"
      "\<forall>p. map_of (c_curr_peer_positions c) n = Some p \<longrightarrow> map_of (c_acquired c) (prop_position p) = None"
    for r
    using that unfolding covered_def by (metis insertE option.distinct(1))
  then show ?thesis
    using assms d by (auto simp: round_inv_def base_inv_def result_inv_def)
qed

lemma peer_proposal_internal_inv:
  assumes "rinv {} c"
  shows "\<exists>c' relay. peer_proposal_internal A now p c = Some (c', relay) \<and> rinv {} c' \<and> peer_frame c c'"
proof -
  let ?n = "prop_node p"
  let ?c1 = "c\<lparr>c_now := now\<rparr>"
  let ?c2 = "?c1\<lparr>c_curr_peer_positions := hm_insert ?n p (c_curr_peer_positions c)\<rparr>"
  let ?raw = "c_raw_close_times c"
  define c3 where "c3 = (if is_initial p then ?c2\<lparr>c_raw_close_times := ?raw\<lparr>ct_peers :=
      btree_insert (prop_close_time p)
        (case_option 0 id (map_of (ct_peers ?raw) (prop_close_time p)) + 1) (ct_peers ?raw)\<rparr>\<rparr> else ?c2)"
  let ?old = "case map_of (c_curr_peer_positions c) ?n of
    Some e \<Rightarrow> propose_seq p \<le> propose_seq e | None \<Rightarrow> False"
  have inv1: "rinv {} ?c1" using assms by (simp add: rinv_frame_fields)
  have pf3: "peer_frame c c3" by (simp add: c3_def peer_frame_fields)
  consider (ended) "c_phase c = Accepted"
    | (skip) "c_phase c \<noteq> Accepted" "previous_ledger p \<noteq> c_prev_ledger_id c \<or> ?n \<in> c_dead_nodes c \<or> ?old"
    | (bow) "c_phase c \<noteq> Accepted" "previous_ledger p = c_prev_ledger_id c" "?n \<notin> c_dead_nodes c"
      "\<not> ?old" "is_bow_out p"
    | (new) "c_phase c \<noteq> Accepted" "previous_ledger p = c_prev_ledger_id c" "?n \<notin> c_dead_nodes c"
      "\<not> ?old" "\<not> is_bow_out p"
    by blast
  then show ?thesis
  proof cases
    case skip
    from skip(2) have "peer_proposal_internal A now p c = Some (?c1, False)"
      by (elim disjE) (simp_all add: peer_proposal_internal_def Let_def skip(1))
    then show ?thesis using inv1 by (simp add: peer_frame_fields)
  next
    case bow
    have "map_of (c_curr_peer_positions (remove_peer ?n ?c1)) ?n = None"
      by (simp add: remove_peer_def map_rules)
    then have "rinv {} ((remove_peer ?n ?c1)\<lparr>c_dead_nodes :=
        insert ?n (c_dead_nodes (remove_peer ?n ?c1))\<rparr>)"
      by (intro rinv_dead rinv_remove_peer inv1)
    moreover have "peer_frame c (remove_peer ?n ?c1)"
      by (rule peer_frame_trans [OF _ peer_frame_remove_peer]) (simp add: peer_frame_fields)
    ultimately show ?thesis
      using bow by (simp add: peer_proposal_internal_def Let_def peer_frame_fields)
  next
    case new
    have run: "peer_proposal_internal A now p c = Option.bind
        (case map_of (c_acquired c3) (prop_position p) of
           None \<Rightarrow> (case a_acquire_tx_set A (prop_position p) of
                     None \<Rightarrow> Some c3 | Some s \<Rightarrow> got_tx_set A (c_now c3) s c3)
         | Some s \<Rightarrow> if c_result c3 \<noteq> None then update_disputes A ?n s c3 else Some c3)
        (\<lambda>c4. Some (c4, True))"
      using new by (cases "is_initial p") (simp_all add: peer_proposal_internal_def c3_def Let_def
          cong: option.case_cong if_cong)
    have "rinv {?n} ?c2" using rinv_new_position [OF inv1, of p] new by simp
    then have inv3: "rinv {?n} c3" by (simp add: rinv_frame_fields c3_def)
    have at: "map_of (c_curr_peer_positions c3) ?n = Some p" by (simp add: map_rules c3_def)
    show ?thesis
    proof (cases "map_of (c_acquired c3) (prop_position p)")
      case None
      then have inv3': "rinv {} c3" using rinv_unheld [OF inv3] at by simp
      show ?thesis
      proof (cases "a_acquire_tx_set A (prop_position p)")
        case (Some s)
        then have "ok s" using acquire_tx_set_ok by blast
        from got_tx_set_inv [OF inv3' this] obtain c' where
          "got_tx_set A (c_now c3) s c3 = Some c'" "rinv {} c'" "peer_frame c3 c'" by blast
        then show ?thesis using None Some peer_frame_trans [OF pf3] by (simp add: run)
      qed (use inv3' pf3 None in \<open>simp add: run\<close>)
    next
      case held: (Some s)
      show ?thesis
      proof (cases "c_result c3")
        case None
        then have "rinv {} c3" using rinv_unheld [OF inv3] by simp
        then show ?thesis using None held pf3 by (simp add: run)
      next
        case (Some r)
        obtain c' where "update_disputes A ?n s c3 = Some c'" "rinv {} c'" "dispute_frame c3 c'"
          using update_disputes_inv [OF inv3 Some at held] by blast
        then show ?thesis
          using held Some peer_frame_trans [OF pf3 peer_frame_dispute] by (simp add: run)
      qed
    qed
  qed (use assms in \<open>simp add: peer_proposal_internal_def\<close>)
qed

lemma playback_inv:
  assumes "rinv {} c"
  shows "\<exists>c'. playback A ps c = Some c' \<and> rinv {} c' \<and> peer_frame c c'"
  using assms
proof (induction ps arbitrary: c)
  case (Cons p ps)
  show ?case
  proof (cases "previous_ledger p = c_prev_ledger_id c")
    case True
    obtain c1 relay where c1: "peer_proposal_internal A (c_now c) p c = Some (c1, relay)" "rinv {} c1"
        "peer_frame c c1"
      using peer_proposal_internal_inv [OF Cons.prems] by blast
    let ?c2 = "if relay then emit (Share_peer_position p) c1 else c1"
    have "rinv {} ?c2" and pf: "peer_frame c ?c2"
      using c1(2,3) by (simp_all add: rinv_frame_fields peer_frame_fields)
    then obtain c' where "playback A ps ?c2 = Some c'" "rinv {} c'" "peer_frame ?c2 c'"
      using Cons.IH by blast
    then show ?thesis using True c1(1) peer_frame_trans [OF pf] by simp
  next
    case False
    then show ?thesis using Cons.IH [OF Cons.prems] by simp
  qed
qed simp

lemma peer_proposal_inv:
  assumes "rinv {} c"
  shows "\<exists>c' relay. peer_proposal A now p c = Some (c', relay) \<and> rinv {} c' \<and> peer_frame c c'"
proof -
  let ?q = "hm_insert (prop_node p)
    ((let props = case_option [] id (map_of (c_recent_peer_positions c) (prop_node p))
      in if length props \<ge> 10 then tl props else props) @ [p]) (c_recent_peer_positions c)"
  let ?c1 = "c\<lparr>c_recent_peer_positions := ?q\<rparr>"
  have "rinv {} ?c1" using assms by (simp add: rinv_frame_fields)
  from peer_proposal_internal_inv [OF this] obtain c' relay where
    "peer_proposal_internal A now p ?c1 = Some (c', relay)" "rinv {} c'" "peer_frame ?c1 c'" by blast
  moreover have "peer_frame c ?c1" by (simp add: peer_frame_fields)
  ultimately show ?thesis using peer_frame_trans [of c ?c1] by (simp add: peer_proposal_def Let_def)
qed

end

section \<open>Closing the ledger\<close>

definition ledger_inv :: "('tx, 'set) consensus \<Rightarrow> bool" where
  "ledger_inv c \<longleftrightarrow> l_parent_close_time (c_previous_ledger c) < u32_max"

context consensus_env
begin

lemma create_disputes_for_inv:
  assumes "binv {} c" "c_result c = Some r" "complete A ok r"
    "\<And>n p s. map_of (c_curr_peer_positions c) n = Some p \<Longrightarrow>
       map_of (c_acquired c) (prop_position p) = Some s \<Longrightarrow>
       prop_position p \<in> r_compares r \<or> prop_position p \<in> set ps"
  shows "\<exists>c'. create_disputes_for A ps c = Some c' \<and> rinv {} c' \<and> dispute_frame c c'"
  using assms
proof (induction ps arbitrary: c r)
  case Nil
  then show ?case by (simp add: round_inv_def covered_def) blast
next
  case (Cons q ps)
  show ?case
  proof (cases "map_of (c_acquired c) q")
    case None
    have "prop_position p \<in> r_compares r \<or> prop_position p \<in> set ps"
      if "map_of (c_curr_peer_positions c) n = Some p"
        "map_of (c_acquired c) (prop_position p) = Some s" for n p s
      using Cons.prems(4) [OF that] None that(2) by auto
    then show ?thesis using Cons.IH [OF Cons.prems(1-3)] None by simp
  next
    case (Some s)
    have s: "ok s" "t_id A s = q"
      using Cons.prems(1) Some by (simp_all add: base_inv_def acquired_inv_def)
    obtain c1 r1 where c1: "create_disputes A s c = Some c1" "binv {} c1" "dispute_frame c c1"
        "c_result c1 = Some r1" "complete A ok r1" "r_compares r1 = insert q (r_compares r)"
      using create_disputes_inv [OF Cons.prems(1-3) s(1)] s(2) by blast
    have "prop_position p \<in> r_compares r1 \<or> prop_position p \<in> set ps"
      if "map_of (c_curr_peer_positions c1) n = Some p"
        "map_of (c_acquired c1) (prop_position p) = Some t" for n p t
      using Cons.prems(4) [of n p t] c1(6) dispute_frameD(6,7) [OF c1(3)] that by auto
    then obtain c' where
      "create_disputes_for A ps c1 = Some c'" "rinv {} c'" "dispute_frame c1 c'"
      using Cons.IH [OF c1(2,4,5)] by blast
    then show ?thesis using Some c1(1) dispute_frame_trans [OF c1(3)] by simp
  qed
qed

lemma close_ledger_inv:
  assumes "rinv {} c" "c_result c = None"
  shows "\<exists>c'. close_ledger A c = Some c' \<and> rinv {} c' \<and> c_previous_ledger c' = c_previous_ledger c"
proof -
  let ?res0 = "a_on_close A (c_previous_ledger c) (c_now c) (c_mode c)"
  define res where "res = ?res0\<lparr>r_round_time := timer_reset (a_clock_now A) (r_round_time ?res0)\<rparr>"
  define c1 where "c1 = c\<lparr>c_phase := Establish,
    c_raw_close_times := (c_raw_close_times c)\<lparr>ct_self := c_now c\<rparr>,
    c_peer_unchanged_counter := 0, c_establish_counter := 0\<rparr>"
  define c2 where "c2 = (if map_of (c_acquired c1) (t_id A (r_txns res)) = None
    then emit (Share_tx_set (r_txns res))
      (c1\<lparr>c_acquired := hm_insert (t_id A (r_txns res)) (r_txns res) (c_acquired c1)\<rparr>) else c1)"
  define c4 where "c4 = (if c_mode c2 = Proposing then emit (Propose (r_position res)) c2 else c2)
    \<lparr>c_result := Some res\<rparr>"
  have fresh: "ok (r_txns res)" "prop_position (r_position res) = t_id A (r_txns res)"
      "r_disputes res = []" "r_compares res = {}"
    using on_close_fresh [OF refl, of "c_previous_ledger c" "c_now c" "c_mode c"] by (simp_all add: res_def)
  have acq: "acquired_inv A ok (c_acquired c4)"
    using assms(1) fresh(1)
    by (auto simp: round_inv_def base_inv_def acquired_inv_def c4_def c2_def c1_def emit_def map_rules)
  have same: "c_curr_peer_positions c4 = c_curr_peer_positions c" "c_dead_nodes c4 = c_dead_nodes c"
      "c_prev_ledger_id c4 = c_prev_ledger_id c" "c_phase c4 = Establish" "c_result c4 = Some res"
      "c_previous_ledger c4 = c_previous_ledger c"
    by (simp_all add: c4_def c2_def c1_def emit_def)
  have inv4: "binv {} c4"
    using assms(1) acq fresh
    by (simp add: round_inv_def base_inv_def position_inv_def result_inv_def same)
  have comp: "complete A ok res" by (simp add: complete_def fresh)
  let ?ps = "map (\<lambda>(n, p). prop_position p) (c_curr_peer_positions c4)"
  have "prop_position p \<in> r_compares res \<or> prop_position p \<in> set ?ps"
    if "map_of (c_curr_peer_positions c4) n = Some p" for n p
    using map_of_SomeD [OF that] by force
  then obtain c' where
    c': "create_disputes_for A ?ps c4 = Some c'" "rinv {} c'" "dispute_frame c4 c'"
    using create_disputes_for_inv [OF inv4 same(5) comp] by blast
  have "close_ledger A c = create_disputes_for A ?ps c4"
    by (simp add: close_ledger_def Let_def c4_def c2_def c1_def res_def)
  then show ?thesis using c' same(6) dispute_frameD(5) [OF c'(3)] by simp
qed

lemma phase_open_inv:
  assumes "rinv {} c" "c_phase c = Open" "ledger_inv c"
  shows "\<exists>c'. phase_open A c = Some c' \<and> rinv {} c' \<and> c_previous_ledger c' = c_previous_ledger c"
proof -
  let ?c1 = "c\<lparr>c_open_time := timer_tick_to (a_clock_now A) (c_open_time c)\<rparr>"
  obtain t where t: "net_checked_add (l_parent_close_time (c_previous_ledger c)) 1 = Some t"
    using assms(3) by (auto simp: ledger_inv_def net_checked_add_def try_u32_def)
  have inv1: "rinv {} ?c1"
    using assms(1) by (simp add: round_inv_def base_inv_def position_inv_def covered_def)
  have "c_result ?c1 = None"
    using assms(1,2) by (simp add: round_inv_def base_inv_def)
  from close_ledger_inv [OF inv1 this] inv1 show ?thesis
    by (simp add: phase_open_def t Let_def)
qed

end

section \<open>Revising our position\<close>

text \<open>The set our position stands for while votes are revised.\<close>

definition revised :: "'set \<Rightarrow> 'set option \<Rightarrow> 'set" where
  "revised txns mset = (case mset of None \<Rightarrow> txns | Some s \<Rightarrow> s)"

text \<open>A dispute whose votes, transaction and identifier are those of another.\<close>

definition same_votes :: "'tx disputed_tx \<Rightarrow> 'tx disputed_tx \<Rightarrow> bool" where
  "same_votes d d' \<longleftrightarrow> votes d' = votes d \<and> yays d' = yays d \<and> nays d' = nays d
     \<and> dtx_tx d' = dtx_tx d \<and> dtx_id d' = dtx_id d"

lemma dispute_inv_same_votes:
  assumes "dispute_inv T tx_ok X cur acq txns i d" "same_votes d d'" "our_vote d' = t_exists T txns' i"
  shows "dispute_inv T tx_ok X cur acq txns' i d'"
  using assms by (simp add: dispute_inv_def same_votes_def dispute_ok_def voters_def)

context consensus_env
begin

lemma revise_votes_spec:
  assumes "distinct (map fst ds)" "ok (revised txns mset)"
    "\<And>i d. (i, d) \<in> set ds \<Longrightarrow> t_tx_id A (dtx_tx d) = i \<and> tx_ok (dtx_tx d)
       \<and> our_vote d = t_exists A (revised txns mset) i"
  shows "\<exists>ds' mset'. revise_votes A pct proposing txns ds mset = Some (ds', mset')
    \<and> map fst ds' = map fst ds \<and> ok (revised txns mset')
    \<and> (\<forall>i. i \<notin> fst ` set ds \<longrightarrow>
         t_exists A (revised txns mset') i = t_exists A (revised txns mset) i)
    \<and> (\<forall>(i, d') \<in> set ds'. our_vote d' = t_exists A (revised txns mset') i
         \<and> (\<exists>d. (i, d) \<in> set ds \<and> same_votes d d'))"
  using assms
proof (induction ds arbitrary: mset)
  case (Cons e ds)
  obtain i d where e: "e = (i, d)" by (cases e)
  have d: "t_tx_id A (dtx_tx d) = i" "tx_ok (dtx_tx d)" "our_vote d = t_exists A (revised txns mset) i"
    using Cons.prems(3) e by auto
  obtain d1 ch where uv: "update_vote pct proposing (a_parms A) d = Some (d1, ch)"
    using update_vote_total [OF parms] by blast
  note F = update_vote_frame [OF uv]
  define m1 where "m1 = (if ch then Some (if our_vote d1 then t_insert A (dtx_tx d1) (revised txns mset)
      else t_erase A i (revised txns mset)) else mset)"
  have run: "revise_votes A pct proposing txns (e # ds) mset = Option.bind
      (revise_votes A pct proposing txns ds m1) (\<lambda>(ds', m'). Some ((i, d1) # ds', m'))"
    by (simp add: e uv m1_def revised_def Let_def)
  have ok1: "ok (revised txns m1)"
    using Cons.prems(2) F d(2) by (simp add: m1_def revised_def [of _ "Some _"] ok_insert ok_erase)
  have ex1: "t_exists A (revised txns m1) j = (if j = i then our_vote d1 else t_exists A (revised txns mset) j)"
    for j
    using Cons.prems(2) F d
    by (auto simp: m1_def revised_def [of _ "Some _"] exists_insert exists_erase)
  have "\<exists>ds' mset'. revise_votes A pct proposing txns ds m1 = Some (ds', mset')
    \<and> map fst ds' = map fst ds \<and> ok (revised txns mset')
    \<and> (\<forall>i. i \<notin> fst ` set ds \<longrightarrow> t_exists A (revised txns mset') i = t_exists A (revised txns m1) i)
    \<and> (\<forall>(i, d') \<in> set ds'. our_vote d' = t_exists A (revised txns mset') i
         \<and> (\<exists>d. (i, d) \<in> set ds \<and> same_votes d d'))"
  proof (rule Cons.IH [OF _ ok1])
    show "distinct (map fst ds)" using Cons.prems(1) by simp
    show "t_tx_id A (dtx_tx d') = j \<and> tx_ok (dtx_tx d') \<and> our_vote d' = t_exists A (revised txns m1) j"
      if "(j, d') \<in> set ds" for j d'
      using Cons.prems(1) Cons.prems(3) [of j d'] that ex1 [of j] by (force simp: e)
  qed
  then obtain ds' m' where IH: "revise_votes A pct proposing txns ds m1 = Some (ds', m')"
      "map fst ds' = map fst ds" "ok (revised txns m')"
      "\<And>j. j \<notin> fst ` set ds \<Longrightarrow> t_exists A (revised txns m') j = t_exists A (revised txns m1) j"
      "\<forall>(j, d') \<in> set ds'. our_vote d' = t_exists A (revised txns m') j
         \<and> (\<exists>d. (j, d) \<in> set ds \<and> same_votes d d')" by blast
  have "i \<notin> fst ` set ds" using Cons.prems(1) by (simp add: e)
  then have "our_vote d1 = t_exists A (revised txns m') i" using IH(4) ex1 by simp
  moreover have "same_votes d d1" using F by (simp add: same_votes_def)
  ultimately have "\<forall>(j, d') \<in> set ((i, d1) # ds'). our_vote d' = t_exists A (revised txns m') j
      \<and> (\<exists>d. (j, d) \<in> set (e # ds) \<and> same_votes d d')"
    using IH(5) by (auto simp: e)
  moreover have "t_exists A (revised txns m') j = t_exists A (revised txns mset) j"
    if "j \<notin> fst ` set (e # ds)" for j
    using that IH(4) [of j] ex1 [of j] by (auto simp: e)
  ultimately show ?case using run IH(1,2,3) by (simp add: e)
qed simp

lemma rinv_revised:
  assumes "rinv {} c" "c_result c = Some r" "map fst ds = map fst (r_disputes r)" "ok s"
    and same: "\<And>i. i \<notin> fst ` set (r_disputes r) \<Longrightarrow> t_exists A s i = t_exists A (r_txns r) i"
    and vote: "\<forall>(i, d') \<in> set ds. our_vote d' = t_exists A s i
      \<and> (\<exists>d. (i, d) \<in> set (r_disputes r) \<and> same_votes d d')"
    and "prop_position pos = t_id A s"
  shows "rinv {} (c\<lparr>c_result := Some (r\<lparr>r_disputes := ds, r_txns := s, r_position := pos\<rparr>)\<rparr>)"
    (is "rinv {} ?c")
proof -
  let ?r = "r\<lparr>r_disputes := ds, r_txns := s, r_position := pos\<rparr>"
  have r: "result_inv A ok tx_ok {} (c_curr_peer_positions c) (c_acquired c) r"
    using assms(1,2) by (simp add: round_inv_def base_inv_def)
  then have dist: "distinct (map fst (r_disputes r))" by (simp add: result_inv_def hm_wf_def)
  have "dispute_inv A tx_ok {} (c_curr_peer_positions c) (c_acquired c) s i d'"
    if at: "map_of ds i = Some d'" for i d'
  proof -
    obtain d where d: "(i, d) \<in> set (r_disputes r)" "same_votes d d'" "our_vote d' = t_exists A s i"
      using vote map_of_SomeD [OF at] by blast
    then have "dispute_inv A tx_ok {} (c_curr_peer_positions c) (c_acquired c) (r_txns r) i d"
      using r dist by (simp add: result_inv_def)
    then show ?thesis by (rule dispute_inv_same_votes) (use d in simp_all)
  qed
  then have "binv {} ?c"
    using assms(1,2,4,7) dist assms(3)
    by (simp add: round_inv_def base_inv_def position_inv_def result_inv_def hm_wf_def)
  moreover have dm: "dom (map_of ds) = dom (map_of (r_disputes r))"
    by (metis assms(3) dom_map_of_conv_image_fst list.set_map)
  have "complete A ok ?r"
    unfolding complete_def
  proof (intro allI impI)
    fix u i assume u: "ok u" "t_id A u \<in> r_compares ?r" "t_exists A u i \<noteq> t_exists A (r_txns ?r) i"
    have "i \<in> dom (map_of (r_disputes r))"
    proof (cases "i \<in> fst ` set (r_disputes r)")
      case False
      then have "t_exists A u i \<noteq> t_exists A (r_txns r) i" using u(3) same by simp
      then show ?thesis using assms(1,2) u(1,2) by (auto simp: round_inv_def complete_def)
    qed (simp add: dom_map_of_conv_image_fst)
    then show "\<exists>d. map_of (r_disputes ?r) i = Some d" using dm by auto
  qed
  moreover have "covered {} ?c ?r"
    using assms(1,2) by (simp add: round_inv_def covered_def)
  ultimately show ?thesis by (simp add: round_inv_def)
qed

lemma remove_peers_inv: "rinv {} c \<Longrightarrow> rinv {} (remove_peers ns c) \<and> peer_frame c (remove_peers ns c)"
proof (induction ns c rule: remove_peers.induct)
  case (2 n ns c)
  then show ?case using rinv_remove_peer peer_frame_trans [OF peer_frame_remove_peer [of c n]] by simp
qed simp

lemma adopt_set_inv:
  assumes "c_result c = Some r" "ok s"
    and "rinv {} (c\<lparr>c_result := Some (r\<lparr>r_txns := s,
      r_position := change_position (t_id A s) ct (c_now c) (r_position r)\<rparr>)\<rparr>)"
  shows "\<exists>c' r'. adopt_set A ct s c = Some c' \<and> rinv {} c' \<and> c_result c' = Some r'
    \<and> c_phase c' = c_phase c \<and> c_previous_ledger c' = c_previous_ledger c"
proof -
  let ?pos = "change_position (t_id A s) ct (c_now c) (r_position r)"
  define c1 where "c1 = c\<lparr>c_result := Some (r\<lparr>r_txns := s, r_position := ?pos\<rparr>)\<rparr>"
  have inv1: "rinv {} c1" using assms(3) by (simp add: c1_def)
  let ?done = "\<lambda>c2 r2. if \<not> is_bow_out (r_position r2) \<and> c_mode c2 = Proposing
    then emit (Propose (r_position r2)) c2 else c2"
  have "\<exists>c2 r2. adopt_set A ct s c = Some (?done c2 r2) \<and> rinv {} c2 \<and> c_result c2 = Some r2
      \<and> c_phase c2 = c_phase c \<and> c_previous_ledger c2 = c_previous_ledger c"
  proof (cases "map_of (c_acquired c1) (t_id A s)")
    case None
    define cb where "cb = (let ca = c1\<lparr>c_acquired := hm_insert (t_id A s) s (c_acquired c1)\<rparr>
      in if is_bow_out ?pos then ca else emit (Share_tx_set s) ca)"
    let ?ns = "map fst (filter (\<lambda>(n, p). prop_position p = t_id A s) (c_curr_peer_positions cb))"
    have cur: "c_curr_peer_positions cb = c_curr_peer_positions c1"
      "c_result cb = c_result c1" "c_phase cb = c_phase c1" "c_previous_ledger cb = c_previous_ledger c1"
      by (simp_all add: cb_def Let_def emit_def)
    have wf: "distinct (map fst (c_curr_peer_positions c1))"
      using inv1 by (simp add: round_inv_def base_inv_def position_inv_def hm_wf_def)
    have ns: "set ?ns = {n. \<exists>p. map_of (c_curr_peer_positions c1) n = Some p \<and> prop_position p = t_id A s}"
      using wf by (force simp: cur)
    have invb: "rinv (set ?ns \<union> {}) cb"
      using rinv_acquire [OF inv1 assms(2) None] unfolding ns
      by (simp add: cb_def Let_def rinv_frame_fields)
    have held: "map_of (c_acquired cb) (t_id A s) = Some s"
      by (simp add: cb_def Let_def emit_def map_rules)
    have resb: "c_result cb = Some (r\<lparr>r_txns := s, r_position := ?pos\<rparr>)"
      by (simp add: cur c1_def)
    have at: "\<exists>p. map_of (c_curr_peer_positions cb) n = Some p \<and> prop_position p = t_id A s"
      if "n \<in> set ?ns" for n using that unfolding ns by (simp add: cur)
    obtain c2 where c2: "update_disputes_for A ?ns s cb = Some c2" "rinv {} c2" "dispute_frame cb c2"
      using update_disputes_for_inv [OF invb resb held at] by blast
    obtain r2 where r2: "c_result c2 = Some r2" using dispute_frame_result(1) [OF c2(3) resb] by blast
    have "adopt_set A ct s c = Some (?done c2 r2)"
      using assms(1) None c2(1) r2
      by (simp add: adopt_set_def Let_def c1_def cb_def cong: if_cong)
    moreover have "c_phase c2 = c_phase c" "c_previous_ledger c2 = c_previous_ledger c"
      using dispute_frameD(1,5) [OF c2(3)] cur by (simp_all add: c1_def)
    ultimately show ?thesis using c2(2) r2 by blast
  next
    case (Some t)
    then have "adopt_set A ct s c = Some (?done c1 (r\<lparr>r_txns := s, r_position := ?pos\<rparr>))"
      using assms(1) by (simp add: adopt_set_def Let_def c1_def)
    moreover have "c_result c1 = Some (r\<lparr>r_txns := s, r_position := ?pos\<rparr>)" "c_phase c1 = c_phase c"
      "c_previous_ledger c1 = c_previous_ledger c" by (simp_all add: c1_def)
    ultimately show ?thesis using inv1 by blast
  qed
  then obtain c2 r2 where *: "adopt_set A ct s c = Some (?done c2 r2)" "rinv {} c2"
    "c_result c2 = Some r2" "c_phase c2 = c_phase c" "c_previous_ledger c2 = c_previous_ledger c" by blast
  then show ?thesis
    by (intro exI [of _ "?done c2 r2"] exI [of _ r2])
      (simp add: rinv_frame_fields, simp add: emit_def)
qed

lemma decide_close_time_total:
  "\<exists>ct hv st. decide_close_time A c vs pos = Some (ct, hv, st)"
proof -
  obtain w st where "get_needed_weight (a_parms A) (c_close_time_avalanche_state c)
      (as_i32 (c_converge_percent c)) 0 0 = Some (w, st)"
    using get_needed_weight_total [OF parms] by blast
  then show ?thesis by (simp add: decide_close_time_def Let_def case_prod_beta)
qed

lemma update_our_positions_inv:
  assumes "rinv {} c" "c_result c = Some r0"
  shows "\<exists>c' r'. update_our_positions A c = Some c' \<and> rinv {} c' \<and> c_result c' = Some r'
    \<and> c_phase c' = c_phase c \<and> c_previous_ledger c' = c_previous_ledger c"
proof -
  let ?cut = "case_option 0 id (net_checked_sub (c_now c)
    (std_duration_to_time (propose_freshness (a_parms A))))"
  let ?own = "case_option 0 id (net_checked_sub (c_now c)
    (std_duration_to_time (propose_interval (a_parms A))))"
  define c1 where "c1 = remove_peers
    (map fst (filter (\<lambda>(n, pos). is_stale ?cut pos) (c_curr_peer_positions c))) c"
  have inv1: "rinv {} c1" and pf: "peer_frame c c1"
    using remove_peers_inv [OF assms(1)] by (simp_all add: c1_def)
  obtain r where r: "c_result c1 = Some r"
    using pf assms(2) by (auto simp: peer_frame_def option_rel_Some1)
  have ri: "result_inv A ok tx_ok {} (c_curr_peer_positions c1) (c_acquired c1) r"
    using inv1 r by (simp add: round_inv_def base_inv_def)
  have dist: "distinct (map fst (r_disputes r))" using ri by (simp add: result_inv_def hm_wf_def)
  have rn: "revised (r_txns r) None = r_txns r" by (simp add: revised_def)
  have okr: "ok (revised (r_txns r) None)" using ri by (simp add: result_inv_def rn)
  have dsok: "t_tx_id A (dtx_tx d) = i \<and> tx_ok (dtx_tx d) \<and> our_vote d = t_exists A (revised (r_txns r) None) i"
    if "(i, d) \<in> set (r_disputes r)" for i d
    using ri dist that by (simp add: result_inv_def dispute_inv_def rn)
  obtain ds ms where
    rv: "revise_votes A (as_i32 (c_converge_percent c1)) (c_mode c1 = Proposing) (r_txns r)
        (r_disputes r) None = Some (ds, ms)"
      "map fst ds = map fst (r_disputes r)" "ok (revised (r_txns r) ms)"
      "\<And>i. i \<notin> fst ` set (r_disputes r) \<Longrightarrow>
         t_exists A (revised (r_txns r) ms) i = t_exists A (r_txns r) i"
      "\<forall>(i, d') \<in> set ds. our_vote d' = t_exists A (revised (r_txns r) ms) i
         \<and> (\<exists>d. (i, d) \<in> set (r_disputes r) \<and> same_votes d d')"
    using revise_votes_spec [OF dist okr dsok, unfolded rn] by blast
  define c2 where "c2 = c1\<lparr>c_result := Some (r\<lparr>r_disputes := ds\<rparr>)\<rparr>"
  obtain ct hv st where dc: "decide_close_time A c2
      (close_time_tally A c1 (c_curr_peer_positions c1) []) (r_position r) = Some (ct, hv, st)"
    using decide_close_time_total by blast
  define c3 where "c3 = c2\<lparr>c_have_close_time_consensus := hv, c_close_time_avalanche_state := st\<rparr>"
  have res3: "c_result c3 = Some (r\<lparr>r_disputes := ds\<rparr>)" and ph3: "c_phase c3 = c_phase c"
      "c_previous_ledger c3 = c_previous_ledger c"
    using pf by (simp_all add: c3_def c2_def peer_frame_def)
  have c3r: "c3\<lparr>c_result := q\<rparr> = c1\<lparr>c_result := q, c_have_close_time_consensus := hv,
      c_close_time_avalanche_state := st\<rparr>" for q by (simp add: c3_def c2_def)
  have inv3: "rinv {} (c3\<lparr>c_result := Some (r\<lparr>r_disputes := ds, r_txns := revised (r_txns r) ms,
      r_position := pos\<rparr>)\<rparr>)" if "prop_position pos = t_id A (revised (r_txns r) ms)" for pos
    unfolding c3r rinv_frame_fields by (rule rinv_revised [OF inv1 r rv(2,3,4,5) that])
  let ?new = "case ms of Some s \<Rightarrow> Some s | None \<Rightarrow>
    if ct \<noteq> round_close_time_for A c3 (prop_close_time (r_position r)) \<or> is_stale ?own (r_position r)
    then Some (r_txns r) else None"
  have run: "update_our_positions A c =
      (case ?new of None \<Rightarrow> Some c3 | Some s \<Rightarrow> adopt_set A ct s c3)"
    unfolding update_our_positions_def Let_def c1_def [symmetric]
    by (simp add: r rv(1) c2_def [symmetric] dc c3_def [symmetric] cong: option.case_cong)
  show ?thesis
  proof (cases ?new)
    case None
    then have "ms = None" by (cases ms) simp_all
    have "c3\<lparr>c_result := Some (r\<lparr>r_disputes := ds, r_txns := r_txns r, r_position := r_position r\<rparr>)\<rparr> = c3"
      using res3 by simp
    then have "rinv {} c3" using inv3 [of "r_position r"] ri \<open>ms = None\<close>
      by (simp add: result_inv_def rn)
    then show ?thesis using run None res3 ph3 by simp
  next
    case (Some s)
    then have s: "s = revised (r_txns r) ms" by (cases ms) (simp_all add: revised_def split: if_splits)
    have "rinv {} (c3\<lparr>c_result := Some (r\<lparr>r_disputes := ds, r_txns := s,
        r_position := change_position (t_id A s) ct (c_now c3) (r_position r)\<rparr>)\<rparr>)"
      unfolding s by (rule inv3) (simp add: change_position_def)
    with adopt_set_inv [OF res3, of s ct] rv(3) s obtain c' r' where
      "adopt_set A ct s c3 = Some c'" "rinv {} c'" "c_result c' = Some r'" "c_phase c' = c_phase c3"
      "c_previous_ledger c' = c_previous_ledger c3" by auto
    then show ?thesis using run Some ph3 by simp
  qed
qed

section \<open>Reaching consensus\<close>

lemma all_stalled_total: "\<exists>b. all_stalled (a_parms A) proposing k ds = Some b"
proof (induction ds)
  case (Cons d ds)
  obtain b where "stalled (a_parms A) proposing k d = Some b"
    using stalled_total [OF parms] by blast
  then show ?case using Cons.IH by simp
qed simp

lemma should_pause_total: "c_result c = Some r \<Longrightarrow> \<exists>b. should_pause A c = Some b"
  by (simp add: should_pause_def Let_def case_prod_beta)

lemma rinv_result:
  assumes "rinv X c" "c_result c = Some r" "r_txns r' = r_txns r" "r_disputes r' = r_disputes r"
    "r_compares r' = r_compares r" "prop_position (r_position r') = prop_position (r_position r)"
  shows "rinv X (c\<lparr>c_result := Some r'\<rparr>)"
  using assms
  by (simp add: round_inv_def base_inv_def position_inv_def result_inv_def complete_def covered_def)

lemma leave_consensus_inv:
  assumes "rinv X c"
  shows "rinv X (leave_consensus A c)" "c_phase (leave_consensus A c) = c_phase c"
    "c_previous_ledger (leave_consensus A c) = c_previous_ledger c"
    "c_prev_ledger_id (leave_consensus A c) = c_prev_ledger_id c"
    "c_result (leave_consensus A c) = None \<longleftrightarrow> c_result c = None"
proof -
  have "rinv X (c\<lparr>c_result := Some (r\<lparr>r_position := bow_out (c_now c) (r_position r)\<rparr>)\<rparr>)"
    if "c_result c = Some r" for r
    by (rule rinv_result [OF assms that]) (simp_all add: bow_out_def)
  then show "rinv X (leave_consensus A c)"
    using assms by (auto simp: leave_consensus_def rinv_frame_fields Let_def split: option.split)
qed (auto simp: leave_consensus_def set_mode_def emit_def Let_def split: option.split)

end

text \<open>The verdict of \<open>have_consensus\<close> on the positions of the round.\<close>

definition verdict_of :: "('tx, 'set) adaptor \<Rightarrow> ('tx, 'set) consensus \<Rightarrow> ('tx, 'set) consensus_result
    \<Rightarrow> bool \<Rightarrow> consensus_state" where
  "verdict_of A c r is_stalled =
     (let agree = hm.tally (\<lambda>p. prop_position p = prop_position (r_position r)) (c_curr_peer_positions c)
      in check_consensus (c_prev_proposers c) (length (c_curr_peer_positions c)) agree
           (a_proposers_finished A (c_previous_ledger c) (c_prev_ledger_id c)) (c_prev_round_time c)
           (timer_read (r_round_time r)) is_stalled (a_parms A) (c_mode c = Proposing))"

definition stalled_of :: "('tx, 'set) adaptor \<Rightarrow> ('tx, 'set) consensus \<Rightarrow> ('tx, 'set) consensus_result
    \<Rightarrow> bool option" where
  "stalled_of A c r =
     (if c_have_close_time_consensus c \<and> r_disputes r \<noteq> []
      then all_stalled (a_parms A) (c_mode c = Proposing) (c_peer_unchanged_counter c)
             (map snd (r_disputes r))
      else Some False)"

lemma have_consensus_eq:
  assumes "c_result c = Some r" "stalled_of A c r = Some b"
  defines "st \<equiv> verdict_of A c r b"
  defines "c1 \<equiv> c\<lparr>c_result := Some (r\<lparr>r_state := st\<rparr>)\<rparr>"
  shows "have_consensus A c = Some
    (if st = No then (c1, False)
     else if st = Expired \<and> c_establish_counter c < length (avalanche_cutoffs (a_parms A)) * av_min_rounds (a_parms A)
       then (c1, False)
     else if st = Expired then (leave_consensus A c1, True) else (c1, True))"
proof -
  have len: "length (filter (\<lambda>(n, p). prop_position p = q) ps)
      + length (filter (\<lambda>(n, p). prop_position p \<noteq> q) ps) = length ps"
    for q and ps :: "(node_id \<times> proposal) list"
    using sum_length_filter_compl [of "\<lambda>(n, p). prop_position p = q" ps]
    by (simp add: case_prod_unfold)
  show ?thesis
    using assms(1,2)
    by (simp add: have_consensus_def Let_def stalled_of_def verdict_of_def hm.tally_def len st_def c1_def)
qed

context consensus_env
begin

lemma stalled_of_total: "\<exists>b. stalled_of A c r = Some b"
  by (simp add: stalled_of_def all_stalled_total)

lemma have_consensus_inv:
  assumes "rinv {} c" "c_result c = Some r"
  shows "\<exists>c' b r'. have_consensus A c = Some (c', b) \<and> rinv {} c' \<and> c_phase c' = c_phase c
    \<and> c_previous_ledger c' = c_previous_ledger c \<and> c_result c' = Some r'"
proof -
  obtain b where b: "stalled_of A c r = Some b" using stalled_of_total by blast
  define st where "st = verdict_of A c r b"
  define c1 where "c1 = c\<lparr>c_result := Some (r\<lparr>r_state := st\<rparr>)\<rparr>"
  have inv1: "rinv {} c1" unfolding c1_def by (rule rinv_result [OF assms]) simp_all
  have same: "c_phase c1 = c_phase c" "c_previous_ledger c1 = c_previous_ledger c"
    "c_result c1 = Some (r\<lparr>r_state := st\<rparr>)" by (simp_all add: c1_def)
  note L = leave_consensus_inv [OF inv1]
  obtain r' where r': "c_result (leave_consensus A c1) = Some r'" using L(5) same(3) by auto
  show ?thesis
    unfolding have_consensus_eq [OF assms(2) b] st_def [symmetric] c1_def [symmetric]
    using inv1 L(1-3) r' same by simp
qed

lemma phase_establish_inv:
  assumes "rinv {} c" "c_phase c = Establish"
  shows "\<exists>c'. phase_establish A c = Some c' \<and> rinv {} c' \<and> c_previous_ledger c' = c_previous_ledger c"
proof -
  obtain r0 where r0: "c_result c = Some r0" using assms by (auto simp: round_inv_def base_inv_def)
  let ?prm = "a_parms A"
  define c1 where "c1 = c\<lparr>c_peer_unchanged_counter := c_peer_unchanged_counter c + 1,
    c_establish_counter := c_establish_counter c + 1\<rparr>"
  define r where "r = r0\<lparr>r_round_time := timer_tick_to (a_clock_now A) (r_round_time r0),
    r_proposers := length (c_curr_peer_positions c1)\<rparr>"
  define c2 where "c2 = c1\<lparr>c_result := Some r, c_converge_percent :=
    int (as_millis (timer_read (r_round_time r))) * 100
      div int (max (as_millis (max (c_prev_round_time c1) (av_min_consensus_time ?prm))) 1)\<rparr>"
  have inv1: "rinv {} c1" "c_result c1 = Some r0"
    using assms(1) r0 by (simp_all add: c1_def rinv_frame_fields)
  have "rinv {} (c1\<lparr>c_result := Some r\<rparr>)" by (rule rinv_result [OF inv1]) (simp_all add: r_def)
  then have inv2: "rinv {} c2" "c_result c2 = Some r" "c_previous_ledger c2 = c_previous_ledger c"
    by (simp_all add: c2_def c1_def rinv_frame_fields)
  obtain c3 r3 where c3: "update_our_positions A c2 = Some c3" "rinv {} c3" "c_result c3 = Some r3"
      "c_previous_ledger c3 = c_previous_ledger c2"
    using update_our_positions_inv [OF inv2(1,2)] by blast
  obtain b where b: "should_pause A c3 = Some b" using should_pause_total [OF c3(3)] by blast
  obtain c4 h r4 where c4: "have_consensus A c3 = Some (c4, h)" "rinv {} c4" "c_result c4 = Some r4"
      "c_previous_ledger c4 = c_previous_ledger c3"
    using have_consensus_inv [OF c3(2,3)] by blast
  have acc: "rinv {} (d\<lparr>c_phase := Accepted\<rparr>)" if "rinv {} d" for d
    using that by (simp add: round_inv_def base_inv_def position_inv_def covered_def)
  let ?n = "length (c_curr_peer_positions c4)"
  let ?c5 = "(emit (Update_operating_mode ?n) c4)\<lparr>c_prev_proposers := ?n,
    c_prev_round_time := timer_read (r_round_time r4), c_phase := Accepted\<rparr>"
  have "phase_establish A c =
      (if timer_read (r_round_time r) < ledger_min_consensus ?prm then Some c2
       else if b then Some c3 else if \<not> h \<or> \<not> c_have_close_time_consensus c4 then Some c4
       else Some (emit (On_accept r4 (c_previous_ledger ?c5) (c_close_resolution ?c5)
                          (c_raw_close_times ?c5) (c_mode ?c5)) ?c5))"
    unfolding phase_establish_def Let_def c1_def [symmetric] inv1(2) Option.bind.simps
      r_def [symmetric] c2_def [symmetric]
    by (simp add: c3(1) b c4(1,3))
  then show ?thesis
    using inv2(1,3) c3(2,4) c4(2,4) by (simp add: rinv_frame_fields acc, simp add: emit_def)
qed

end

end
