(* ===== verification/Consensus_Rounds.thy ===== *)
theory Consensus_Rounds
  imports Consensus_Safety
begin

text \<open>
  Rounds of consensus: the operations that switch ledgers and call each other, the timer, and
  runs of public calls on one \<^verbatim>\<open>Consensus\<close> value.

  The recursion \<^verbatim>\<open>timer_entry\<close> - \<^verbatim>\<open>start_round_internal\<close> is bounded by fuel in the model. A call
  that returns keeps the invariant whatever the fuel; two units suffice when the adaptor's
  preferred ledger is settled, that is when a ledger just switched to is still preferred.
\<close>

locale settled_env = consensus_env +
  assumes settled: "lg = a_get_prev_ledger A i l m \<Longrightarrow> a_acquire_ledger A lg = Some l' \<Longrightarrow>
    a_get_prev_ledger A lg l' SwitchedLedger = lg"

section \<open>Switching ledgers\<close>

context consensus_env
begin

lemma start_round_internal_cases:
  "\<exists>c3. (start_round_internal tick A now i l m c = Some c3
       \<or> start_round_internal tick A now i l m c = tick c3)
     \<and> rinv {} c3 \<and> c_prev_ledger_id c3 = i \<and> c_previous_ledger c3 = l \<and> c_mode c3 = m
     \<and> c_phase c3 = Open \<and> c_result c3 = None"
proof -
  define c1 where "c1 = set_mode m (c\<lparr>c_phase := Open\<rparr>)"
  define c2 where "c2 = c1\<lparr>c_now := now, c_prev_ledger_id := i,
      c_previous_ledger := l, c_result := None, c_converge_percent := 0,
      c_close_time_avalanche_state := Init, c_have_close_time_consensus := False,
      c_open_time := timer_reset (a_clock_now A) (c_open_time c1),
      c_curr_peer_positions := [], c_acquired := [],
      c_raw_close_times := \<lparr>ct_peers = [], ct_self = 0\<rparr>, c_dead_nodes := {},
      c_close_resolution := a_next_ledger_time_resolution A (l_close_time_resolution l)
        (l_close_agree l) (l_seq l + 1)\<rparr>"
  have c2: "c_phase c2 = Open" "c_mode c2 = m" "c_prev_ledger_id c2 = i" "c_previous_ledger c2 = l"
      "c_result c2 = None" "c_curr_peer_positions c2 = []" "c_acquired c2 = []" "c_dead_nodes c2 = {}"
    by (simp_all add: c2_def c1_def set_mode_def emit_def)
  have "rinv {} c2"
    by (simp add: round_inv_def base_inv_def position_inv_def acquired_inv_def c2)
  then obtain c3 where c3: "playback_proposals A c2 = Some c3" "rinv {} c3" "peer_frame c2 c3"
    using playback_inv unfolding playback_proposals_def by blast
  have "start_round_internal tick A now i l m c =
      (if length (c_curr_peer_positions c3) > c_prev_proposers c3 div 2 then tick c3 else Some c3)"
    unfolding start_round_internal_def Let_def c1_def [symmetric] c2_def [symmetric]
    by (simp add: c3(1))
  moreover have "c_result c3 = None" using c3(3) c2(5) by (simp add: peer_frame_def)
  ultimately show ?thesis using c3 c2 by (auto simp: peer_frame_def)
qed

lemma rinv_new_ledger:
  assumes "rinv {} c"
  shows "rinv {} ((update_result (\<lambda>r. r\<lparr>r_disputes := [], r_compares := {}\<rparr>)
      (c\<lparr>c_prev_ledger_id := lgr\<rparr>))\<lparr>c_curr_peer_positions := [], c_raw_close_times := w, c_dead_nodes := {}\<rparr>)"
  using assms
  by (auto simp: update_result_def round_inv_def base_inv_def position_inv_def result_inv_def
      complete_def covered_def)

lemma handle_wrong_ledger_cases:
  assumes "rinv {} c"
  shows "(\<exists>c'. handle_wrong_ledger tick A lgr c = Some c' \<and> rinv {} c'
       \<and> (c_previous_ledger c' = c_previous_ledger c \<or> a_acquire_ledger A lgr = Some (c_previous_ledger c')))
     \<or> (\<exists>c3. handle_wrong_ledger tick A lgr c = tick c3 \<and> rinv {} c3 \<and> c_phase c3 = Open
       \<and> c_prev_ledger_id c3 = lgr \<and> c_mode c3 = SwitchedLedger
       \<and> a_acquire_ledger A lgr = Some (c_previous_ledger c3))"
proof -
  define c1 where "c1 = leave_consensus A c"
  note L = leave_consensus_inv [OF assms, folded c1_def]
  define ca where "ca = update_result (\<lambda>r. r\<lparr>r_disputes := [], r_compares := {}\<rparr>)
    (c1\<lparr>c_prev_ledger_id := lgr\<rparr>)"
  define cb where "cb = ca\<lparr>c_curr_peer_positions := [],
    c_raw_close_times := (c_raw_close_times ca)\<lparr>ct_peers := []\<rparr>, c_dead_nodes := {}\<rparr>"
  have invb: "rinv {} cb" using rinv_new_ledger [OF L(1)] by (simp add: cb_def ca_def)
  have cb: "c_prev_ledger_id cb = lgr" "c_previous_ledger cb = c_previous_ledger c"
    using L(3) by (simp_all add: cb_def ca_def update_result_def)
  obtain cc where cc: "playback_proposals A cb = Some cc" "rinv {} cc" "peer_frame cb cc"
    using playback_inv [OF invb] unfolding playback_proposals_def by blast
  obtain c2 where c2: "(if c_prev_ledger_id c1 \<noteq> lgr then playback_proposals A cb else Some c1) = Some c2"
      "rinv {} c2" "c_prev_ledger_id c2 = lgr" "c_previous_ledger c2 = c_previous_ledger c"
    using cc L(1,3) cb by (cases "c_prev_ledger_id c1 = lgr") (auto simp: peer_frame_def)
  have run: "handle_wrong_ledger tick A lgr c =
      (if l_id (c_previous_ledger c2) = lgr then Some c2
       else case a_acquire_ledger A lgr of
          Some l \<Rightarrow> start_round_internal tick A (c_now c2) lgr l SwitchedLedger c2
        | None \<Rightarrow> Some (set_mode WrongLedger c2))"
    unfolding handle_wrong_ledger_def Let_def c1_def [symmetric] ca_def [symmetric] cb_def [symmetric]
      c2(1) Option.bind.simps c2(3) by (rule refl)
  show ?thesis
  proof (cases "l_id (c_previous_ledger c2) = lgr \<or> a_acquire_ledger A lgr = None")
    case True
    have "rinv {} (set_mode WrongLedger c2)" using c2(2) by (simp add: rinv_frame_fields)
    moreover have "c_previous_ledger (set_mode WrongLedger c2) = c_previous_ledger c"
      using c2(4) by (simp add: set_mode_def emit_def)
    ultimately show ?thesis
      using True c2(2,4) by (cases "l_id (c_previous_ledger c2) = lgr") (simp_all add: run)
  next
    case False
    then obtain l where l: "a_acquire_ledger A lgr = Some l" by auto
    show ?thesis
      using start_round_internal_cases [of tick "c_now c2" lgr l SwitchedLedger c2] False l
      by (auto simp: run)
  qed
qed

section \<open>The timer\<close>

lemma ledger_inv_cases:
  "ledger_inv c \<Longrightarrow> c_previous_ledger c' = c_previous_ledger c
     \<or> a_acquire_ledger A i = Some (c_previous_ledger c') \<Longrightarrow> ledger_inv c'"
  using acquire_ledger_ok by (auto simp: ledger_inv_def)

text \<open>Everything after \<^verbatim>\<open>check_ledger\<close> returns.\<close>

lemma phase_step_inv:
  assumes "rinv {} c" "ledger_inv c"
  shows "\<exists>c'. (case c_phase c of Open \<Rightarrow> phase_open A c | Establish \<Rightarrow> phase_establish A c
      | Accepted \<Rightarrow> Some c) = Some c' \<and> rinv {} c' \<and> ledger_inv c'"
proof (cases "c_phase c")
  case Open
  then show ?thesis using phase_open_inv [OF assms(1) _ assms(2)] assms(2)
    by (auto simp: ledger_inv_def)
next
  case Establish
  then show ?thesis using phase_establish_inv [OF assms(1)] assms(2) by (auto simp: ledger_inv_def)
qed (use assms in simp)

lemma check_ledger_cases:
  assumes "rinv {} c" "ledger_inv c"
  defines "lgr \<equiv> a_get_prev_ledger A (c_prev_ledger_id c) (c_previous_ledger c) (c_mode c)"
  shows "(\<exists>c'. check_ledger tick A c = Some c' \<and> rinv {} c' \<and> ledger_inv c')
     \<or> (\<exists>c3. check_ledger tick A c = tick c3 \<and> rinv {} c3 \<and> ledger_inv c3 \<and> c_phase c3 = Open
       \<and> c_prev_ledger_id c3 = lgr \<and> c_mode c3 = SwitchedLedger
       \<and> a_acquire_ledger A lgr = Some (c_previous_ledger c3))"
proof (cases "lgr \<noteq> c_prev_ledger_id c \<or> l_id (c_previous_ledger c) \<noteq> c_prev_ledger_id c")
  case True
  then have "check_ledger tick A c = handle_wrong_ledger tick A lgr c"
    by (simp add: check_ledger_def lgr_def Let_def)
  moreover have li: "ledger_inv c'"
    if "c_previous_ledger c' = c_previous_ledger c \<or> a_acquire_ledger A lgr = Some (c_previous_ledger c')"
    for c' :: "('a, 'b) consensus" using ledger_inv_cases [OF assms(2) that] .
  ultimately show ?thesis
    using handle_wrong_ledger_cases [OF assms(1), of tick lgr] by (elim disjE exE conjE) (auto intro: li)
next
  case False
  then show ?thesis using assms(1,2) by (simp add: check_ledger_def lgr_def Let_def)
qed

lemma timer_entry_inv:
  assumes "rinv {} c" "ledger_inv c" "timer_entry fuel A now c = Some c'"
  shows "rinv {} c' \<and> ledger_inv c'"
  using assms
proof (induction fuel arbitrary: now c c')
  case (Suc fuel)
  show ?case
  proof (cases "c_phase c = Accepted")
    case False
    let ?tick = "\<lambda>s. timer_entry fuel A (c_now s) s"
    have "rinv {} (c\<lparr>c_now := now\<rparr>)" "ledger_inv (c\<lparr>c_now := now\<rparr>)"
      using Suc.prems(1,2) by (simp_all add: rinv_frame_fields ledger_inv_def)
    note C = check_ledger_cases [OF this, of ?tick]
    obtain c1 where c1: "check_ledger ?tick A (c\<lparr>c_now := now\<rparr>) = Some c1"
        "(case c_phase c1 of Open \<Rightarrow> phase_open A c1 | Establish \<Rightarrow> phase_establish A c1
          | Accepted \<Rightarrow> Some c1) = Some c'"
      using Suc.prems(3) False by (auto simp: bind_eq_Some_conv)
    have "rinv {} c1 \<and> ledger_inv c1"
      using C
    proof (elim disjE exE conjE)
      fix c3 assume "check_ledger ?tick A (c\<lparr>c_now := now\<rparr>) = ?tick c3" "rinv {} c3" "ledger_inv c3"
      then show ?thesis using Suc.IH [of c3 "c_now c3" c1] c1(1) by simp
    qed (use c1(1) in simp)
    then show ?thesis using phase_step_inv [of c1] c1(2) by auto
  qed (use Suc.prems in simp)
qed simp

end

context settled_env
begin

lemma timer_entry_returns:
  assumes "rinv {} c" "ledger_inv c"
  shows "\<exists>c'. timer_entry (Suc (Suc n)) A now c = Some c'"
proof (cases "c_phase c = Accepted")
  case False
  let ?tick = "\<lambda>s. timer_entry (Suc n) A (c_now s) s"
  let ?c = "c\<lparr>c_now := now\<rparr>"
  have inv1: "rinv {} ?c" "ledger_inv ?c"
    using assms by (simp_all add: rinv_frame_fields ledger_inv_def)
  have second: "\<exists>c'. ?tick c3 = Some c' \<and> rinv {} c' \<and> ledger_inv c'"
    if "rinv {} c3" "ledger_inv c3" "c_prev_ledger_id c3 = lgr" "c_mode c3 = SwitchedLedger"
      "a_acquire_ledger A lgr = Some (c_previous_ledger c3)" "c_phase c3 = Open"
      "lgr = a_get_prev_ledger A (c_prev_ledger_id ?c) (c_previous_ledger ?c) (c_mode ?c)" for c3 lgr
  proof -
    have "a_get_prev_ledger A lgr (c_previous_ledger c3) SwitchedLedger = lgr"
      using settled that(5,7) by blast
    moreover have "l_id (c_previous_ledger c3) = lgr" using acquire_ledger_ok that(5) by blast
    ultimately have "check_ledger tick A c3 = Some c3" for tick
      using that(3,4) by (simp add: check_ledger_def)
    then show ?thesis using that(6) phase_step_inv [OF that(1,2)] by simp
  qed
  have "\<exists>c1. check_ledger ?tick A ?c = Some c1 \<and> rinv {} c1 \<and> ledger_inv c1"
    using check_ledger_cases [OF inv1, of ?tick]
  proof (elim disjE exE conjE)
    fix c3 assume *: "check_ledger ?tick A ?c = ?tick c3" "rinv {} c3" "ledger_inv c3" "c_phase c3 = Open"
      "c_prev_ledger_id c3 = a_get_prev_ledger A (c_prev_ledger_id ?c) (c_previous_ledger ?c) (c_mode ?c)"
      "c_mode c3 = SwitchedLedger" "a_acquire_ledger A (a_get_prev_ledger A (c_prev_ledger_id ?c)
        (c_previous_ledger ?c) (c_mode ?c)) = Some (c_previous_ledger c3)"
    show ?thesis using second [OF *(2,3,5,6,7,4) refl] unfolding *(1) .
  qed blast
  then obtain c1 where "check_ledger ?tick A ?c = Some c1" "rinv {} c1" "ledger_inv c1" by blast
  then show ?thesis using phase_step_inv [of c1] False by (auto simp del: timer_entry.simps(2)
      simp: timer_entry.simps(2) [of "Suc n"])
qed simp

end

section \<open>Runs\<close>

text \<open>The public calls on a \<^verbatim>\<open>Consensus\<close> value, each with the adaptor of that moment.\<close>

datatype 'set cons_op =
    Start_round net_time ledger_id cx_ledger "node_id list" bool
  | Timer_entry net_time
  | Peer_proposal net_time proposal
  | Got_tx_set net_time 'set

fun cons_step ::
  "nat \<Rightarrow> ('tx, 'set) adaptor \<Rightarrow> 'set cons_op \<Rightarrow> ('tx, 'set) consensus \<Rightarrow> ('tx, 'set) consensus option"
where
  "cons_step fuel A (Start_round now i l untrusted proposing) c =
     start_round fuel A now i l untrusted proposing c"
| "cons_step fuel A (Timer_entry now) c = timer_entry fuel A now c"
| "cons_step fuel A (Peer_proposal now p) c = map_option fst (peer_proposal A now p c)"
| "cons_step fuel A (Got_tx_set now s) c = got_tx_set A now s c"

fun cons_run ::
  "nat \<Rightarrow> (('tx, 'set) adaptor \<times> 'set cons_op) list \<Rightarrow> ('tx, 'set) consensus
    \<Rightarrow> ('tx, 'set) consensus option" where
  "cons_run fuel [] c = Some c"
| "cons_run fuel ((A, op) # ops) c = Option.bind (cons_step fuel A op c) (cons_run fuel ops)"

text \<open>The arguments of a call: sets in play, and ledgers whose parent closed before the end of time.\<close>

fun op_ok :: "('set \<Rightarrow> bool) \<Rightarrow> 'set cons_op \<Rightarrow> bool" where
  "op_ok ok (Start_round now i l untrusted proposing) \<longleftrightarrow> l_parent_close_time l < u32_max"
| "op_ok ok (Got_tx_set now s) \<longleftrightarrow> ok s"
| "op_ok ok _ \<longleftrightarrow> True"

definition same_ops :: "('tx, 'set, 'x) tx_ops_scheme \<Rightarrow> ('tx, 'set, 'y) tx_ops_scheme \<Rightarrow> bool" where
  "same_ops S T \<longleftrightarrow> t_exists S = t_exists T \<and> t_find S = t_find T \<and> t_id S = t_id T
     \<and> t_compare S = t_compare T \<and> t_insert S = t_insert T \<and> t_erase S = t_erase T
     \<and> t_tx_id S = t_tx_id T"

lemma round_inv_same_ops:
  "same_ops S T \<Longrightarrow> round_inv S ok tx_ok X c = round_inv T ok tx_ok X c"
  by (simp add: same_ops_def round_inv_def base_inv_def acquired_inv_def result_inv_def
      dispute_inv_def complete_def)

context consensus_env
begin

lemma start_round_cases:
  assumes "l_parent_close_time l < u32_max"
  shows "\<exists>c3. (start_round fuel A now i l untrusted proposing c = Some c3
      \<or> start_round fuel A now i l untrusted proposing c = timer_entry fuel A (c_now c3) c3)
    \<and> rinv {} c3 \<and> ledger_inv c3"
proof -
  have *: "\<exists>c3. (start_round_internal tick A now i l' m d = Some c3
       \<or> start_round_internal tick A now i l' m d = tick c3) \<and> rinv {} c3 \<and> ledger_inv c3"
    if "l_parent_close_time l' < u32_max" for tick l' m d
    using start_round_internal_cases [of tick now i l' m d] that by (auto simp: ledger_inv_def)
  show ?thesis
  proof (cases "l_id l = i")
    case True
    then show ?thesis unfolding start_round_def Let_def using * [OF assms] by simp
  next
    case False
    then show ?thesis
      unfolding start_round_def Let_def
      using * assms acquire_ledger_ok by (cases "a_acquire_ledger A i") simp_all
  qed
qed

lemma cons_step_inv:
  assumes "rinv {} c" "ledger_inv c" "op_ok ok op" "cons_step fuel A op c = Some c'"
  shows "rinv {} c' \<and> ledger_inv c'"
proof (cases op)
  case (Start_round now i l untrusted proposing)
  have run: "start_round fuel A now i l untrusted proposing c = Some c'"
    using assms(4) Start_round by simp
  obtain c3 where c3: "start_round fuel A now i l untrusted proposing c = Some c3
      \<or> start_round fuel A now i l untrusted proposing c = timer_entry fuel A (c_now c3) c3"
    "rinv {} c3" "ledger_inv c3"
    using start_round_cases [of l fuel now i untrusted proposing c] assms(3) Start_round by auto
  show ?thesis
  proof (cases "c' = c3")
    case False
    then have "timer_entry fuel A (c_now c3) c3 = Some c'" using c3(1) run by simp
    then show ?thesis by (rule timer_entry_inv [OF c3(2,3)])
  qed (use c3 in simp)
next
  case (Timer_entry now)
  then show ?thesis using timer_entry_inv [OF assms(1,2)] assms(4) by simp
next
  case (Peer_proposal now p)
  then show ?thesis
    using peer_proposal_inv [OF assms(1), of now p] assms(2,4) by (auto simp: peer_frame_def ledger_inv_def)
next
  case (Got_tx_set now s)
  then show ?thesis
    using got_tx_set_inv [OF assms(1), of s now] assms(2,3,4) by (auto simp: peer_frame_def ledger_inv_def)
qed

end

context settled_env
begin

lemma cons_step_returns:
  assumes "rinv {} c" "ledger_inv c" "op_ok ok op"
  shows "\<exists>c'. cons_step (Suc (Suc n)) A op c = Some c'"
proof (cases op)
  case (Start_round now i l untrusted proposing)
  obtain c3 where c3: "start_round (Suc (Suc n)) A now i l untrusted proposing c = Some c3
      \<or> start_round (Suc (Suc n)) A now i l untrusted proposing c =
          timer_entry (Suc (Suc n)) A (c_now c3) c3" "rinv {} c3" "ledger_inv c3"
    using start_round_cases [of l "Suc (Suc n)" now i untrusted proposing c] assms(3) Start_round
    by (auto simp del: timer_entry.simps)
  show ?thesis
    using c3(1) timer_entry_returns [OF c3(2,3), of n "c_now c3"] Start_round
    by (auto simp del: timer_entry.simps)
next
  case (Timer_entry now)
  then show ?thesis using timer_entry_returns [OF assms(1,2)] by (simp del: timer_entry.simps)
next
  case (Peer_proposal now p)
  then show ?thesis using peer_proposal_inv [OF assms(1), of now p] by auto
next
  case (Got_tx_set now s)
  then show ?thesis using got_tx_set_inv [OF assms(1), of s now] assms(3) by auto
qed

end

text \<open>A fresh \<^verbatim>\<open>Consensus\<close> value, and runs of calls on it.\<close>

lemma round_inv_with_clock: "round_inv T ok tx_ok {} (with_clock l)"
  by (simp add: with_clock_def round_inv_def base_inv_def position_inv_def acquired_inv_def)

lemma cons_run_inv:
  assumes "\<forall>(A, op) \<in> set ops. consensus_env A ok tx_ok \<and> same_ops A T \<and> op_ok ok op"
    and "round_inv T ok tx_ok {} c" "ledger_inv c" "cons_run fuel ops c = Some c'"
  shows "round_inv T ok tx_ok {} c' \<and> ledger_inv c'"
  using assms
proof (induction fuel ops c rule: cons_run.induct)
  case (2 fuel A op ops c)
  then have A: "consensus_env A ok tx_ok" "same_ops A T" "op_ok ok op" by auto
  obtain c1 where c1: "cons_step fuel A op c = Some c1" "cons_run fuel ops c1 = Some c'"
    using "2.prems"(4) by (auto simp: bind_eq_Some_conv)
  have "round_inv T ok tx_ok {} c1 \<and> ledger_inv c1"
    using consensus_env.cons_step_inv [OF A(1) _ "2.prems"(3) A(3) c1(1)] "2.prems"(2)
    by (simp add: round_inv_same_ops [OF A(2)])
  then show ?case using "2.IH" [OF c1(1)] "2.prems"(1) c1(2) by simp
qed simp

lemma cons_run_returns:
  assumes "\<forall>(A, op) \<in> set ops. settled_env A ok tx_ok \<and> same_ops A T \<and> op_ok ok op"
    and "round_inv T ok tx_ok {} c" "ledger_inv c" "2 \<le> fuel"
  shows "\<exists>c'. cons_run fuel ops c = Some c'"
  using assms
proof (induction fuel ops c rule: cons_run.induct)
  case (2 fuel A op ops c)
  then have A: "settled_env A ok tx_ok" "same_ops A T" "op_ok ok op" by auto
  have A': "consensus_env A ok tx_ok" using A(1) by (simp add: settled_env_def)
  obtain n where n: "fuel = Suc (Suc n)" using "2.prems"(4) by (metis One_nat_def Suc_1 Suc_le_D Suc_le_mono)
  have inv: "round_inv A ok tx_ok {} c" using "2.prems"(2) by (simp add: round_inv_same_ops [OF A(2)])
  obtain c1 where c1: "cons_step fuel A op c = Some c1"
    using settled_env.cons_step_returns [OF A(1) inv "2.prems"(3) A(3)] n by blast
  have "round_inv T ok tx_ok {} c1 \<and> ledger_inv c1"
    using consensus_env.cons_step_inv [OF A' inv "2.prems"(3) A(3) c1]
    by (simp add: round_inv_same_ops [OF A(2)])
  then show ?case using "2.IH" [OF c1] "2.prems"(1,4) c1 by simp
qed simp

end
