(* ===== verification/Rcl_Consensus.thy ===== *)
theory Rcl_Consensus
  imports Rcl_Tx_Set Consensus_Rounds
begin

text \<open>
  The adaptor through which the server runs the consensus round,
  \<^verbatim>\<open>xrpld/app/src/consensus/rcl_consensus.rs\<close>. The services it asks (ledger registry, inbound
  transaction sets, open ledger, validations, voting) are the fields of \<open>app_env\<close>, the answers
  they give during one call; the adaptor's own logic is translated: which resolved ledger may be
  adopted, how the preferred ledger is retained, and the transaction set and position built when
  the ledger closes.

  The locale \<open>app_services\<close> states what the services promise; under it the adaptor satisfies the
  contract \<open>consensus_env\<close> of the round, and \<open>settled_services\<close> gives \<open>settled_env\<close>.
\<close>

section \<open>The median close time\<close>

text \<open>
  The loop of \<^verbatim>\<open>median_close_offset_seconds\<close> over the peer bins in time order. The bins are a
  \<^verbatim>\<open>BTreeMap\<close>, the weights \<^verbatim>\<open>i32\<close>s.
\<close>

fun median_loop :: "int \<Rightarrow> net_time \<Rightarrow> (net_time \<times> int) list \<Rightarrow> int \<Rightarrow> bool \<Rightarrow> int" where
  "median_loop half_weight self_time [] tally self_placed = 0"
| "median_loop half_weight self_time ((time, weight) # peers) tally self_placed =
     (let place = \<not> self_placed \<and> self_time \<le> time;
          tally' = (if place then tally + 1 else tally)
      in if place \<and> tally' \<ge> half_weight then 0
         else
           let tally'' = tally' + weight
           in if tally'' \<ge> half_weight then int time - int self_time
              else median_loop half_weight self_time peers tally'' (self_placed \<or> place))"

definition median_close_offset_seconds :: "close_times \<Rightarrow> int" where
  "median_close_offset_seconds cts =
     (let total_weight = 1 + sum_list (map snd (ct_peers cts));
          half_weight = (total_weight + 1) div 2
      in median_loop half_weight (ct_self cts) (ct_peers cts) 0 False)"

text \<open>The specification: every vote as one sample, in order.\<close>

definition close_samples :: "close_times \<Rightarrow> net_time list" where
  "close_samples cts =
     sort (ct_self cts # concat (map (\<lambda>(t, w). replicate (nat w) t) (ct_peers cts)))"

definition expand :: "(net_time \<times> int) list \<Rightarrow> net_time list" where
  "expand peers = concat (map (\<lambda>(t, w). replicate (nat w) t) peers)"

lemma expand_simps [simp]: "expand [] = []" "expand ((t, w) # ps) = replicate (nat w) t @ expand ps"
  by (simp_all add: expand_def)

fun place_self :: "net_time \<Rightarrow> (net_time \<times> int) list \<Rightarrow> net_time list" where
  "place_self s [] = [s]"
| "place_self s ((t, w) # ps) =
     (if s \<le> t then s # expand ((t, w) # ps) else replicate (nat w) t @ place_self s ps)"

lemma set_expand: "x \<in> set (expand ps) \<Longrightarrow> x \<in> fst ` set ps"
  by (induction ps) (auto split: if_splits)

lemma sorted_expand: "sorted_wrt (<) (map fst ps) \<Longrightarrow> sorted (expand ps)"
  by (induction ps) (auto simp: sorted_append dest!: set_expand intro!: less_imp_le)

lemma mset_place_self: "mset (place_self s ps) = add_mset s (mset (expand ps))"
  by (induction s ps rule: place_self.induct) simp_all

lemma set_place_self: "set (place_self s ps) = insert s (set (expand ps))"
  using arg_cong [OF mset_place_self, of set_mset s ps] by simp

lemma sorted_place_self: "sorted_wrt (<) (map fst ps) \<Longrightarrow> sorted (place_self s ps)"
proof (induction s ps rule: place_self.induct)
  case (2 s t w ps)
  have later: "t < x" if "x \<in> set (expand ps)" for x using that "2.prems" by (auto dest!: set_expand)
  show ?case
  proof (cases "s \<le> t")
    case True
    then show ?thesis using sorted_expand [OF "2.prems"] later by (auto simp: order.strict_implies_order)
      (meson later le_trans less_imp_le_nat)
  next
    case False
    then show ?thesis using 2 later by (auto simp: sorted_append set_place_self less_imp_le)
  qed
qed simp

lemma close_samples_place:
  assumes "btree_wf (ct_peers ct)"
  shows "close_samples ct = place_self (ct_self ct) (ct_peers ct)"
  unfolding close_samples_def expand_def [symmetric] using assms
  by (intro properties_for_sort) (simp_all add: mset_place_self sorted_place_self btree_wf_def)

lemma median_loop_placed:
  assumes "tally < half" "half - tally \<le> int (length (expand ps))" "\<forall>(t, w) \<in> set ps. 0 \<le> w"
  shows "median_loop half s ps tally True = int (expand ps ! nat (half - tally - 1)) - int s"
  using assms
proof (induction half s ps tally True rule: median_loop.induct)
  case (2 half s t w ps tally)
  have w: "0 \<le> w" using "2.prems"(3) by simp
  show ?case
  proof (cases "tally + w \<ge> half")
    case True
    then have "nat (half - tally - 1) < nat w" using "2.prems"(1) by linarith
    then show ?thesis using True by (simp add: nth_append)
  next
    case False
    have i: "nat (half - tally - 1) - nat w = nat (half - (tally + w) - 1)" "\<not> nat (half - tally - 1) < nat w"
      using False w by linarith+
    have "median_loop half s ps (tally + w) True = int (expand ps ! nat (half - (tally + w) - 1)) - int s"
      using 2 False w by simp
    then show ?thesis using False i by (simp add: nth_append)
  qed
qed simp

lemma median_loop_unplaced:
  assumes "tally < half" "half - tally \<le> int (length (place_self s ps))" "\<forall>(t, w) \<in> set ps. 0 \<le> w"
  shows "median_loop half s ps tally False = int (place_self s ps ! nat (half - tally - 1)) - int s"
  using assms
proof (induction half s ps tally False rule: median_loop.induct)
  case (2 half s t w ps tally)
  have w: "0 \<le> w" using "2.prems"(3) by simp
  show ?case
  proof (cases "s \<le> t")
    case True
    show ?thesis
    proof (cases "tally + 1 \<ge> half")
      case at: True
      then have "nat (half - tally - 1) = 0" by simp
      then show ?thesis using True at by simp
    next
      case past: False
      have "median_loop half s ((t, w) # ps) (tally + 1) True =
          int (expand ((t, w) # ps) ! nat (half - (tally + 1) - 1)) - int s"
        by (rule median_loop_placed) (use past True "2.prems" in auto)
      moreover have "nat (half - tally - 1) = Suc (nat (half - (tally + 1) - 1))" using past by linarith
      ultimately show ?thesis using True past by (auto simp: Let_def split: if_splits)
    qed
  next
    case False
    show ?thesis
    proof (cases "tally + w \<ge> half")
      case True
      then have "nat (half - tally - 1) < nat w" using "2.prems"(1) by linarith
      then show ?thesis using True False by (simp add: nth_append)
    next
      case past: False
      have i: "nat (half - tally - 1) - nat w = nat (half - (tally + w) - 1)" "\<not> nat (half - tally - 1) < nat w"
        using past w by linarith+
      have "median_loop half s ps (tally + w) False = int (place_self s ps ! nat (half - (tally + w) - 1)) - int s"
        using 2 past False w by simp
      then show ?thesis using past False i by (simp add: nth_append)
    qed
  qed
qed simp

text \<open>
  C39. The close-time offset the server adopts after a round is the lower median of all close-time
  votes, its own vote counted once, relative to its own close time: with the votes of all peers
  expanded into one ordered list of samples, it is the sample at the lower middle position minus
  the server's close time.
\<close>

theorem median_close_offset_is_lower_median:
  assumes "btree_wf (ct_peers ct)" "\<forall>(t, w) \<in> set (ct_peers ct). 0 \<le> w"
  shows "median_close_offset_seconds ct =
    int (close_samples ct ! ((length (close_samples ct) - 1) div 2)) - int (ct_self ct)"
proof -
  let ?S = "close_samples ct" and ?ps = "ct_peers ct"
  have len: "int (length ?S) = 1 + sum_list (map snd ?ps)"
  proof -
    have "int (length (expand ps)) = sum_list (map snd ps)" if "\<forall>(t, w) \<in> set ps. 0 \<le> w" for ps
      using that by (induction ps) auto
    then show ?thesis using assms(2) unfolding close_samples_def expand_def [symmetric] by simp
  qed
  define half where "half = (int (length ?S) + 1) div 2"
  have pos: "1 \<le> int (length ?S)" by (simp add: close_samples_def)
  have "median_close_offset_seconds ct = median_loop half (ct_self ct) ?ps 0 False"
    by (simp add: median_close_offset_seconds_def half_def len)
  also have "\<dots> = int (?S ! nat (half - 1)) - int (ct_self ct)"
    using median_loop_unplaced [of 0 half "ct_self ct" ?ps] pos assms(2)
    unfolding close_samples_place [OF assms(1), symmetric] by (simp add: half_def)
  also have "nat (half - 1) = (length ?S - 1) div 2" using pos unfolding half_def by linarith
  finally show ?thesis .
qed

theorem median_close_offset_is_lower_median_witness:
  "median_close_offset_seconds \<lparr>ct_peers = [(90, 2), (100, 2), (120, 2)], ct_self = 110\<rparr> = - 10
    \<and> close_samples \<lparr>ct_peers = [(90, 2), (100, 2), (120, 2)], ct_self = 110\<rparr> = [90, 90, 100, 100, 110, 120, 120]"
proof -
  have r: "replicate 2 x = [x, x]" for x :: nat by (simp add: numeral_2_eq_2)
  show ?thesis
    using median_close_offset_is_lower_median [of "\<lparr>ct_peers = [(90, 2), (100, 2), (120, 2)], ct_self = 110\<rparr>"]
    by (simp add: btree_wf_def close_samples_def r)
qed

section \<open>The adaptor\<close>

record app_env =
  e_ledgers :: "(ledger_id, cx_ledger) hashm"
  e_provisional :: "ledger_id set"
  e_tx_sets :: "(tx_set_id, rcl_tx_set) hashm"
  e_open_txs :: "sha_item list"
  e_standalone :: bool
  e_parent_validations :: "cx_ledger \<Rightarrow> nat"
  e_quorum :: nat
  e_amendment_votes :: "cx_ledger \<Rightarrow> sha_item list"
  e_fee_votes :: "cx_ledger \<Rightarrow> sha_item list"
  e_negative_unl_votes :: "cx_ledger \<Rightarrow> sha_item list"
  e_public_key :: "node_id option"
  e_preferred :: "cx_ledger \<Rightarrow> nat \<Rightarrow> ledger_id"
  e_recovery :: "(ledger_id \<times> nat) option"
  e_valid_ledger_seq :: nat
  e_trusted_for_ledger :: "ledger_id \<Rightarrow> nat"
  e_nodes_after :: "cx_ledger \<Rightarrow> ledger_id \<Rightarrow> nat"
  e_quorum_keys :: "nat \<times> node_id set"
  e_laggards :: "nat \<Rightarrow> node_id set \<Rightarrow> nat \<times> node_id set"
  e_have_validated :: bool
  e_clock_now :: nat

definition FLAG_LEDGER_INTERVAL :: nat where
  "FLAG_LEDGER_INTERVAL = 256"

definition is_flag_ledger :: "nat \<Rightarrow> bool" where
  "is_flag_ledger seq \<longleftrightarrow> FLAG_LEDGER_INTERVAL dvd seq"

definition is_voting_ledger :: "nat \<Rightarrow> bool" where
  "is_voting_ledger seq \<longleftrightarrow> FLAG_LEDGER_INTERVAL dvd ((seq + 1) mod 2 ^ 32)"

definition pseudo_transaction_voting_enabled :: "bool \<Rightarrow> consensus_mode \<Rightarrow> bool" where
  "pseudo_transaction_voting_enabled standalone mode \<longleftrightarrow> standalone \<or> mode = Proposing"

definition trusted_validation_quorum_reached :: "nat \<Rightarrow> nat \<Rightarrow> bool" where
  "trusted_validation_quorum_reached validations quorum \<longleftrightarrow> validations \<ge> quorum"

definition retain_stable_recovery_preference ::
  "ledger_id \<Rightarrow> ledger_id \<Rightarrow> (ledger_id \<times> nat) option \<Rightarrow> ledger_id" where
  "retain_stable_recovery_preference ordinary_preferred local_parent stable_recovery =
     (case map_option fst stable_recovery of
        Some hash \<Rightarrow> if hash \<noteq> local_parent then hash else ordinary_preferred
      | None \<Rightarrow> ordinary_preferred)"

definition resolved_consensus_ledger_is_adoptable :: "bool \<Rightarrow> bool" where
  "resolved_consensus_ledger_is_adoptable provisional \<longleftrightarrow> \<not> provisional"

text \<open>What \<^verbatim>\<open>acquire_ledger\<close> answers; the acquisition it starts on a miss is left out.\<close>

definition rcl_acquire_ledger :: "app_env \<Rightarrow> ledger_id \<Rightarrow> cx_ledger option" where
  "rcl_acquire_ledger E i =
     (case map_of (e_ledgers E) i of
        Some l \<Rightarrow> if resolved_consensus_ledger_is_adoptable (i \<in> e_provisional E) then Some l else None
      | None \<Rightarrow> None)"

definition rcl_acquire_tx_set :: "app_env \<Rightarrow> tx_set_id \<Rightarrow> rcl_tx_set option" where
  "rcl_acquire_tx_set E i = map_of (e_tx_sets E) i"

text \<open>The preferred ledger \<^verbatim>\<open>get_prev_ledger\<close> answers; demoting the operating mode is left out.\<close>

definition rcl_get_prev_ledger :: "app_env \<Rightarrow> ledger_id \<Rightarrow> cx_ledger \<Rightarrow> consensus_mode \<Rightarrow> ledger_id" where
  "rcl_get_prev_ledger E prev_ledger_id prev_ledger mode =
     retain_stable_recovery_preference (e_preferred E prev_ledger (e_valid_ledger_seq E))
       (l_id prev_ledger) (e_recovery E)"

fun insert_all :: "sha_item list \<Rightarrow> rcl_tx_set \<Rightarrow> rcl_tx_set option" where
  "insert_all [] s = Some s"
| "insert_all (tx # txs) s = do { (_, s') \<leftarrow> rcl_insert tx s; insert_all txs s' }"

definition open_ledger_consensus_snapshot :: "nat \<Rightarrow> sha_item list \<Rightarrow> rcl_tx_set option" where
  "open_ledger_consensus_snapshot seq transactions = insert_all transactions (rcl_new seq)"

text \<open>The pseudo-transactions \<^verbatim>\<open>on_close\<close> injects.\<close>

definition pseudo_transactions :: "app_env \<Rightarrow> cx_ledger \<Rightarrow> consensus_mode \<Rightarrow> sha_item list" where
  "pseudo_transactions E l mode =
     (if pseudo_transaction_voting_enabled (e_standalone E) mode \<and> is_flag_ledger (l_seq l) then
        (if trusted_validation_quorum_reached (e_parent_validations E l) (e_quorum E)
         then e_amendment_votes E l @ e_fee_votes E l else [])
      else if pseudo_transaction_voting_enabled (e_standalone E) mode \<and> is_voting_ledger (l_seq l) then
        e_negative_unl_votes E l
      else [])"

definition on_close ::
  "(preimage \<Rightarrow> nat) \<Rightarrow> app_env \<Rightarrow> cx_ledger \<Rightarrow> net_time \<Rightarrow> consensus_mode
    \<Rightarrow> (sha_item, rcl_tx_set) consensus_result option" where
  "on_close H E prev_ledger now mode =
     do {
       tset \<leftarrow> open_ledger_consensus_snapshot (l_seq prev_ledger + 1) (e_open_txs E);
       tset' \<leftarrow> insert_all (pseudo_transactions E prev_ledger mode) tset;
       let position_id = rcl_id H tset';
           node_id = (case e_public_key E of Some k \<Rightarrow> k | None \<Rightarrow> 0);
           pos = proposal_new (l_id prev_ledger) 0 position_id now now node_id
       in Some (consensus_result_new tset' pos)
     }"

definition next_ledger_time_resolution :: "duration \<Rightarrow> bool \<Rightarrow> nat \<Rightarrow> duration" where
  "next_ledger_time_resolution previous_resolution previous_agree ledger_seq =
     from_secs (nat (max 0
       (get_next_ledger_time_resolution (int (as_secs previous_resolution)) previous_agree ledger_seq)))"

definition adaptor_round_close_time :: "net_time \<Rightarrow> duration \<Rightarrow> net_time" where
  "adaptor_round_close_time raw resolution = round_close_time raw (int (as_secs resolution))"

definition rcl_adaptor :: "(preimage \<Rightarrow> nat) \<Rightarrow> app_env \<Rightarrow> (sha_item, rcl_tx_set) adaptor" where
  "rcl_adaptor H E = tx_ops.extend (rcl_ops H)
     \<lparr>a_acquire_ledger = rcl_acquire_ledger E,
      a_acquire_tx_set = rcl_acquire_tx_set E,
      a_has_open_transactions = (e_open_txs E \<noteq> []),
      a_proposers_validated = e_trusted_for_ledger E,
      a_proposers_finished = e_nodes_after E,
      a_get_prev_ledger = rcl_get_prev_ledger E,
      a_on_close = \<lambda>l now m.
        case_option (consensus_result_new (rcl_new 0) (proposal_new 0 0 0 0 0 0)) id (on_close H E l now m),
      a_parms = default_parms,
      a_next_ledger_time_resolution = next_ledger_time_resolution,
      a_round_close_time = adaptor_round_close_time,
      a_valid_ledger_seq = e_valid_ledger_seq E,
      a_quorum_keys = e_quorum_keys E,
      a_laggards = e_laggards E,
      a_validator = (e_public_key E \<noteq> None),
      a_have_validated = e_have_validated E,
      a_clock_now = e_clock_now E\<rparr>"

lemma rcl_adaptor_simps [simp]:
  "a_acquire_ledger (rcl_adaptor H E) = rcl_acquire_ledger E"
  "a_acquire_tx_set (rcl_adaptor H E) = rcl_acquire_tx_set E"
  "a_get_prev_ledger (rcl_adaptor H E) = rcl_get_prev_ledger E"
  "a_on_close (rcl_adaptor H E) l now m =
     case_option (consensus_result_new (rcl_new 0) (proposal_new 0 0 0 0 0 0)) id (on_close H E l now m)"
  "a_parms (rcl_adaptor H E) = default_parms"
  "t_exists (rcl_adaptor H E) = t_exists (rcl_ops H)" "t_find (rcl_adaptor H E) = t_find (rcl_ops H)"
  "t_id (rcl_adaptor H E) = t_id (rcl_ops H)" "t_compare (rcl_adaptor H E) = t_compare (rcl_ops H)"
  "t_insert (rcl_adaptor H E) = t_insert (rcl_ops H)" "t_erase (rcl_adaptor H E) = t_erase (rcl_ops H)"
  "t_tx_id (rcl_adaptor H E) = t_tx_id (rcl_ops H)"
  by (simp_all add: rcl_adaptor_def tx_ops.defs)

lemma same_ops_rcl: "same_ops (rcl_adaptor H E) (rcl_ops H)"
  by (simp add: same_ops_def)

section \<open>What the services promise\<close>

lemma rcl_new_ok: "rcl_ok pool (rcl_new seq)"
proof -
  have "sha_wf TransactionNm 0 (Inner_node (replicate 16 None))" by (rule sha_wf_innerI) simp_all
  then show ?thesis
    by (simp add: rcl_ok_def rcl_new_def sha_root_def new_inner_def BRANCH_FACTOR_def)
qed

context tx_pool
begin

lemma insert_all_ok: "rcl_ok pool s \<Longrightarrow> set txs \<subseteq> pool \<Longrightarrow> \<exists>s'. insert_all txs s = Some s' \<and> rcl_ok pool s'"
proof (induction txs arbitrary: s)
  case (Cons tx txs)
  obtain b s1 where "rcl_insert tx s = Some (b, s1)" "rcl_ok pool s1"
    using rcl_insert_spec [OF Cons.prems(1), of tx] Cons.prems(2) pool_keys [of tx] by auto
  then show ?case using Cons.IH [of s1] Cons.prems(2) by simp
qed simp

end

locale app_services = tx_pool H pool for H and pool +
  fixes E :: app_env
  assumes ledgers: "map_of (e_ledgers E) i = Some l \<Longrightarrow> l_id l = i \<and> l_parent_close_time l < u32_max"
    and tx_sets: "map_of (e_tx_sets E) i = Some s \<Longrightarrow> rcl_id H s = i \<and> rcl_ok pool s"
    and open_txs: "set (e_open_txs E) \<subseteq> pool"
    and votes_in_pool: "set (e_amendment_votes E l) \<union> set (e_fee_votes E l) \<union> set (e_negative_unl_votes E l) \<subseteq> pool"
begin

lemma pseudo_in_pool: "set (pseudo_transactions E l m) \<subseteq> pool"
  using votes_in_pool by (auto simp: pseudo_transactions_def)

text \<open>Closing the ledger never panics and yields a fresh result over the pool.\<close>

lemma on_close_ok:
  "\<exists>r. on_close H E l now m = Some r \<and> rcl_ok pool (r_txns r) \<and> prop_position (r_position r) = rcl_id H (r_txns r)
     \<and> r_disputes r = [] \<and> r_compares r = {}"
proof -
  obtain s where s: "open_ledger_consensus_snapshot (l_seq l + 1) (e_open_txs E) = Some s" "rcl_ok pool s"
    using insert_all_ok [OF rcl_new_ok open_txs] by (auto simp: open_ledger_consensus_snapshot_def)
  obtain s' where "insert_all (pseudo_transactions E l m) s = Some s'" "rcl_ok pool s'"
    using insert_all_ok [OF s(2) pseudo_in_pool] by blast
  then show ?thesis
    using s by (simp add: on_close_def consensus_result_new_def proposal_new_def Let_def)
qed

end

sublocale app_services \<subseteq> env: consensus_env "rcl_adaptor H E" "rcl_ok pool" "\<lambda>tx. tx \<in> pool"
proof (unfold_locales, unfold rcl_adaptor_simps)
  show "t_id (rcl_ops H) s = i \<and> rcl_ok pool s" if "rcl_acquire_tx_set E i = Some s" for i s
    using that tx_sets by (simp add: rcl_acquire_tx_set_def)
  show "l_id l = i \<and> l_parent_close_time l < u32_max" if "rcl_acquire_ledger E i = Some l" for i l
    using that ledgers by (auto simp: rcl_acquire_ledger_def split: option.splits if_splits)
  show "rcl_ok pool (r_txns r) \<and> prop_position (r_position r) = t_id (rcl_ops H) (r_txns r)
      \<and> r_disputes r = [] \<and> r_compares r = {}"
    if "r = case_option (consensus_result_new (rcl_new 0) (proposal_new 0 0 0 0 0 0)) id (on_close H E l now m)"
    for r l now m
    using that on_close_ok [of l now m] by auto
qed (fact rts.ok_insert rts.ok_erase rts.find_exists rts.find_id rts.exists_insert rts.exists_erase rts.compare_wf
    rts.compare_diff rts.id_exists default_parms_ok)+

context app_services
begin

lemma services_env: "consensus_env (rcl_adaptor H E) (rcl_ok pool) (\<lambda>tx. tx \<in> pool)"
  by unfold_locales

end

text \<open>
  Services whose advice is stable during a call: no recovery anchor is bound, and a ledger that
  was preferred is preferred from itself.
\<close>

locale settled_services = app_services +
  assumes no_recovery: "e_recovery E = None"
    and preferred_settled: "map_of (e_ledgers E) (e_preferred E l s) = Some l' \<Longrightarrow>
      e_preferred E l' s = e_preferred E l s"

sublocale settled_services \<subseteq> settled: settled_env "rcl_adaptor H E" "rcl_ok pool" "\<lambda>tx. tx \<in> pool"
proof (unfold_locales, unfold rcl_adaptor_simps)
  fix lg i l m l'
  assume "lg = rcl_get_prev_ledger E i l m" "rcl_acquire_ledger E lg = Some l'"
  then show "rcl_get_prev_ledger E lg l' SwitchedLedger = lg"
    using no_recovery preferred_settled [of l "e_valid_ledger_seq E" l']
    by (auto simp: rcl_get_prev_ledger_def rcl_acquire_ledger_def retain_stable_recovery_preference_def
        split: option.splits if_splits)
qed

context settled_services
begin

lemma services_settled: "settled_env (rcl_adaptor H E) (rcl_ok pool) (\<lambda>tx. tx \<in> pool)"
  by unfold_locales

end

end
