(* ===== verification/Rcl_Sample.thy ===== *)
theory Rcl_Sample
  imports Rcl_Consensus
begin

text \<open>
  A small network on which the contracts of \<open>Rcl_Tx_Set\<close> and \<open>Rcl_Consensus\<close> hold, with a concrete
  hash function: three transactions whose identifiers differ in their first digit. It shows that
  the assumptions of the locales can be met by the model's own transaction sets and adaptor, and it
  is the input of the witnesses.
\<close>

section \<open>Hash and transactions\<close>

fun zero_pattern :: "nat list \<Rightarrow> nat" where
  "zero_pattern [] = 0"
| "zero_pattern (h # hs) = (if h = 0 then 0 else 1) + 2 * zero_pattern hs"

fun sample_hash :: "preimage \<Rightarrow> nat" where
  "sample_hash (Pre_leaf prefix data key) = hd data * 16 ^ 63"
| "sample_hash (Pre_inner hs) = 16 ^ 64 + zero_pattern hs"

definition sample_tx :: "nat \<Rightarrow> sha_item" where
  "sample_tx x = \<lparr>item_key = x * 16 ^ 63, item_data = [x]\<rparr>"

definition sample_pool :: "sha_item set" where
  "sample_pool = {sample_tx 1, sample_tx 2, sample_tx 3}"

lemma zero_pattern_inj:
  assumes "length hs = length ks" "zero_pattern hs = zero_pattern ks" "i < length hs"
  shows "hs ! i = 0 \<longleftrightarrow> ks ! i = 0"
  using assms
proof (induction hs ks arbitrary: i rule: list_induct2)
  case (Cons h hs k ks)
  have "h = 0 \<longleftrightarrow> k = 0" "zero_pattern hs = zero_pattern ks"
    using Cons.prems(1) by (auto split: if_splits) presburger+
  then show ?case using Cons.IH Cons.prems(2) by (cases i) simp_all
qed simp

lemma sample_pool_iff: "tx \<in> sample_pool \<longleftrightarrow> (\<exists>x \<in> {1, 2, 3}. tx = sample_tx x)"
  by (auto simp: sample_pool_def)

lemma sample_branch: "x \<in> {1, 2, 3} \<Longrightarrow> select_branch 0 (item_key (sample_tx x)) = x"
  by (auto simp: select_branch_nibble sample_tx_def)

lemma sample_child:
  assumes "rcl_ok sample_pool s" "ts_root s = Inner_node cs" "child_at cs b = Some c"
  shows "b \<in> {1, 2, 3} \<and> c = Leaf_node TransactionNm (sample_tx b)"
proof -
  have wf: "sha_wf TransactionNm 0 (Inner_node cs)" using rcl_ok_wf [OF assms(1)] assms(2) by simp
  have c: "sha_wf TransactionNm (Suc 0) c" by (rule sha_wf_child [OF wf assms(3)])
  have it: "it = sample_tx b \<and> b \<in> {1, 2, 3}" if i: "it \<in> item_set c" for it
  proof -
    have "it \<in> item_set (Inner_node cs)" using i assms(3) unfolding item_set_inner_iff by blast
    then have "it \<in> sample_pool" using assms(1,2) unfolding rcl_ok_def by auto
    then obtain x where "x \<in> {1, 2, 3}" "it = sample_tx x" unfolding sample_pool_iff by blast
    then show ?thesis using sha_wf_branch [OF wf assms(3) i] sample_branch by simp
  qed
  then have "item_set c \<subseteq> {sample_tx b}" by blast
  then have "card (item_set c) \<le> card {sample_tx b}" by (intro card_mono) simp_all
  then obtain it' where "c = Leaf_node TransactionNm it'" "item_set c = {it'}"
    using sha_wf_inner_or_leaf [OF c] by auto
  then show ?thesis using it [of it'] by simp
qed

text \<open>The preimages hashed in the trees over the pool.\<close>

lemma sample_preimages:
  assumes "y \<in> pool_preimages sample_hash sample_pool"
  shows "(\<exists>x \<in> {1, 2, 3}. y = Pre_leaf HASH_PREFIX_TRANSACTION_ID [x] None)
    \<or> (\<exists>hs. y = Pre_inner hs \<and> length hs = 16 \<and> (\<forall>b < 16. hs ! b = 0 \<or> hs ! b = b * 16 ^ 63))"
proof -
  obtain s where s: "rcl_ok sample_pool s" "y \<in> preimages sample_hash (ts_root s)"
    using assms by (auto simp: pool_preimages_def)
  obtain cs where cs: "ts_root s = Inner_node cs" using s(1) by (auto simp: rcl_ok_def sha_root_def)
  have len: "length cs = 16" using rcl_ok_wf [OF s(1)] cs by simp
  show ?thesis
  proof (cases "y = Pre_inner (map (child_hash sample_hash) cs)")
    case True
    have "child_hash sample_hash (cs ! b) = 0 \<or> child_hash sample_hash (cs ! b) = b * 16 ^ 63" if "b < 16" for b
    proof (cases "cs ! b")
      case (Some c)
      then have "child_at cs b = Some c" using len that by (simp add: child_at_def)
      from sample_child [OF s(1) cs this] show ?thesis
        using Some by (simp add: child_hash_def sample_tx_def)
    qed (simp add: child_hash_def)
    then show ?thesis using True len by simp
  next
    case False
    then obtain c where "Some c \<in> set cs" "y \<in> preimages sample_hash c"
      using s(2) cs by (auto split: option.splits)
    then obtain b where "child_at cs b = Some c" using set_child_at by blast
    from sample_child [OF s(1) cs this] show ?thesis
      using \<open>y \<in> preimages sample_hash c\<close> by (auto simp: sample_tx_def)
  qed
qed

lemma sample_collision_free: "collision_free sample_hash (pool_preimages sample_hash sample_pool)"
proof -
  have small: "x * 16 ^ 63 < 16 ^ 64 + z" if "x \<in> {1, 2, 3}" for x z :: nat
    using that by auto
  have "y = z" if y: "y \<in> pool_preimages sample_hash sample_pool" and z: "z \<in> pool_preimages sample_hash sample_pool"
    and eq: "sample_hash y = sample_hash z" for y z
    using sample_preimages [OF y] sample_preimages [OF z]
  proof (elim disjE bexE exE conjE, goal_cases)
    case (4 hs ks)
    have "zero_pattern hs = zero_pattern ks" using eq 4 by simp
    then have zero: "hs ! b = 0 \<longleftrightarrow> ks ! b = 0" if "b < 16" for b using zero_pattern_inj [of hs ks b] 4 that by simp
    have "hs ! b = ks ! b" if b: "b < 16" for b
    proof (cases "hs ! b = 0")
      case True
      then show ?thesis using zero [OF b] by simp
    next
      case False
      moreover have "hs ! b = 0 \<or> hs ! b = b * 16 ^ 63" "ks ! b = 0 \<or> ks ! b = b * 16 ^ 63" using 4 b by blast+
      ultimately show ?thesis using zero [OF b] by argo
    qed
    moreover have "length hs = 16" "length ks = 16" using 4 by simp_all
    ultimately have "hs = ks" by (intro nth_equalityI) simp_all
    then show ?case using 4 by simp
  qed (use eq small in \<open>fastforce+\<close>)
  moreover have "sample_hash y \<noteq> 0" if y: "y \<in> pool_preimages sample_hash sample_pool" for y
  proof -
    have "(\<exists>x \<in> {1, 2, 3}. y = Pre_leaf HASH_PREFIX_TRANSACTION_ID [x] None) \<or> (\<exists>hs. y = Pre_inner hs)"
      using sample_preimages [OF y] by blast
    then show ?thesis by auto
  qed
  ultimately show ?thesis unfolding collision_free_def by (intro conjI inj_onI) (assumption, metis imageE)
qed

interpretation sample: tx_pool sample_hash sample_pool
proof
  show "finite sample_pool" "card sample_pool < 65536"
    by (auto simp: sample_pool_def card_insert_if)
  show "key_ok (item_key tx) \<and> addressed sample_hash TransactionNm tx" if "tx \<in> sample_pool" for tx
    using that by (auto simp: sample_pool_def sample_tx_def key_ok_def addressed_def)
  show "inj_on item_key sample_pool" by (auto simp: inj_on_def sample_pool_def sample_tx_def)
qed (fact sample_collision_free)

section \<open>Services\<close>

text \<open>Two transaction sets: ours has the first transaction, a peer has the second and third.\<close>

definition sample_set :: "nat list \<Rightarrow> rcl_tx_set" where
  "sample_set xs = case_option (rcl_new 11) id (insert_all (map sample_tx xs) (rcl_new 11))"

lemma sample_set_ok: "set xs \<subseteq> {1, 2, 3} \<Longrightarrow> rcl_ok sample_pool (sample_set xs)"
  using sample.insert_all_ok [OF rcl_new_ok, of "map sample_tx xs" 11]
  by (force simp: sample_set_def sample_pool_iff)

definition sample_ledger :: cx_ledger where
  "sample_ledger = \<lparr>l_id = 7, l_seq = 10, l_close_time_resolution = from_secs 30, l_close_agree = True,
     l_close_time = 1000, l_parent_close_time = 990\<rparr>"

definition sample_env :: "nat \<Rightarrow> app_env" where
  "sample_env clock =
     \<lparr>e_ledgers = [(7, sample_ledger)], e_provisional = {},
      e_tx_sets = [(rcl_id sample_hash (sample_set [2, 3]), sample_set [2, 3])],
      e_open_txs = [sample_tx 1], e_standalone = False, e_parent_validations = \<lambda>l. 0, e_quorum = 2,
      e_amendment_votes = \<lambda>l. [], e_fee_votes = \<lambda>l. [], e_negative_unl_votes = \<lambda>l. [],
      e_public_key = Some 1, e_preferred = \<lambda>l s. 7, e_recovery = None, e_valid_ledger_seq = 9,
      e_trusted_for_ledger = \<lambda>i. 0, e_nodes_after = \<lambda>l i. 0, e_quorum_keys = (2, {2, 3}),
      e_laggards = \<lambda>s ks. (0, ks), e_have_validated = True, e_clock_now = clock\<rparr>"

interpretation sample_app: settled_services sample_hash sample_pool "sample_env clock" for clock
proof
  show "rcl_id sample_hash s = i \<and> rcl_ok sample_pool s" if "map_of (e_tx_sets (sample_env clock)) i = Some s" for i s
    using that sample_set_ok [of "[2, 3]"] by (auto simp: sample_env_def split: if_splits)
  show "set (e_open_txs (sample_env clock)) \<subseteq> sample_pool" by (auto simp: sample_env_def sample_pool_iff)
qed (auto simp: sample_env_def sample_ledger_def u32_max_def split: if_splits)

end
