(* ===== verification/Consensus_Observer.thy ===== *)
theory Consensus_Observer
  imports Consensus_Rounds
begin

text \<open>
  What a node that does not propose sends, and how peer positions evolve: facts about
  \<open>Consensus_Round\<close> that hold in every state and for every adaptor. \<open>quiet\<close> is the frame of the
  dispute bookkeeping; \<open>unproposed\<close> says that a call announced no position of ours.
\<close>

section \<open>Announced positions\<close>

fun announces :: "('tx, 'set) effect \<Rightarrow> proposal list" where
  "announces (Propose p) = [p]"
| "announces _ = []"

definition proposed :: "('tx, 'set) consensus \<Rightarrow> proposal list" where
  "proposed c = concat (map announces (c_effects c))"

lemma proposed_emit [simp]: "proposed (emit e c) = proposed c @ announces e"
  by (simp add: proposed_def emit_def)

lemma emit_fields [simp]:
  "c_mode (emit e c) = c_mode c" "c_curr_peer_positions (emit e c) = c_curr_peer_positions c"
  "c_result (emit e c) = c_result c" "c_phase (emit e c) = c_phase c" "c_now (emit e c) = c_now c"
  "c_acquired (emit e c) = c_acquired c"
  by (simp_all add: emit_def)

definition quiet :: "('tx, 'set) consensus \<Rightarrow> ('tx, 'set) consensus \<Rightarrow> bool" where
  "quiet c c' \<longleftrightarrow> proposed c' = proposed c \<and> c_mode c' = c_mode c \<and> c_phase c' = c_phase c
     \<and> c_curr_peer_positions c' = c_curr_peer_positions c"

lemma quiet_refl [simp]: "quiet c c"
  by (simp add: quiet_def)

lemma quiet_trans [trans]: "quiet a b \<Longrightarrow> quiet b c \<Longrightarrow> quiet a c"
  by (simp add: quiet_def)

lemma quiet_fields [simp]:
  "quiet c (update_result f d) = quiet c d"
  "quiet c (d\<lparr>c_peer_unchanged_counter := n\<rparr>) = quiet c d"
  "quiet c (d\<lparr>c_acquired := acq\<rparr>) = quiet c d"
  "quiet c (d\<lparr>c_now := t\<rparr>) = quiet c d"
  "quiet c (d\<lparr>c_result := r\<rparr>) = quiet c d"
  "quiet c (d\<lparr>c_raw_close_times := w\<rparr>) = quiet c d"
  "announces e = [] \<Longrightarrow> quiet c (emit e d) = quiet c d"
  by (simp_all add: quiet_def proposed_def update_result_def emit_def)

section \<open>Disputes and transaction sets\<close>

lemma quiet_add_disputes: "add_disputes A our other ds c = Some c' \<Longrightarrow> quiet d c \<Longrightarrow> quiet d c'"
proof (induction ds arbitrary: c)
  case (Cons x ds)
  obtain txid b where x: "x = (txid, b)" by (cases x)
  show ?case
  proof (cases "if b then t_find A our txid else t_find A other txid")
    case None
    then show ?thesis using Cons by (simp add: x)
  next
    case (Some tx)
    then obtain r where r: "c_result c = Some r" using Cons.prems(1) by (cases "c_result c") (simp_all add: x)
    show ?thesis
    proof (cases "map_of (r_disputes r) txid")
      case None
      obtain dtx ch where sv: "seed_votes A (c_acquired c) txid (c_curr_peer_positions c)
          (dispute_new tx txid (t_exists A our txid), False) = (dtx, ch)" by fastforce
      let ?c3 = "update_result (\<lambda>r. r\<lparr>r_disputes := hm_insert txid dtx (r_disputes r)\<rparr>)
        (emit (Share_tx (dtx_tx dtx)) (if ch then c\<lparr>c_peer_unchanged_counter := 0\<rparr> else c))"
      have "add_disputes A our other ds ?c3 = Some c'"
        using Cons.prems(1) Some r None sv by (simp add: x Let_def)
      then show ?thesis by (rule Cons.IH) (use Cons.prems(2) in simp)
    qed (use Cons Some r in \<open>simp add: x\<close>)
  qed
qed simp

lemma quiet_create_disputes: "create_disputes A other c = Some c' \<Longrightarrow> quiet c c'"
  by (auto simp: create_disputes_def Let_def split: bind_splits if_splits intro: quiet_add_disputes)

lemma quiet_update_disputes:
  assumes "update_disputes A n other c = Some c'"
  shows "quiet c c'"
proof -
  obtain r c1 r1 where c1: "c_result c = Some r" "c_result c1 = Some r1"
      "(if t_id A other \<notin> r_compares r then create_disputes A other c else Some c) = Some c1"
      "(let (ds, changed) = vote_all A n other (r_disputes r1);
            c2 = c1\<lparr>c_result := Some (r1\<lparr>r_disputes := ds\<rparr>)\<rparr>
        in Some (if changed then c2\<lparr>c_peer_unchanged_counter := 0\<rparr> else c2)) = Some c'"
    using assms unfolding update_disputes_def bind_eq_Some_conv by blast
  have "quiet c c1" using c1(3) quiet_create_disputes by (auto split: if_splits)
  then show ?thesis using c1(4) by (auto simp: Let_def split: prod.splits if_splits)
qed

lemma quiet_update_disputes_for: "update_disputes_for A ns s c = Some c' \<Longrightarrow> quiet c c'"
proof (induction ns arbitrary: c)
  case (Cons n ns)
  then obtain c1 where c1: "update_disputes A n s c = Some c1" "update_disputes_for A ns s c1 = Some c'"
    by (auto simp: bind_eq_Some_conv)
  show ?case by (rule quiet_trans [OF quiet_update_disputes [OF c1(1)] Cons.IH [OF c1(2)]])
qed simp

lemma quiet_got_tx_set: "got_tx_set A now s c = Some c' \<Longrightarrow> quiet c c'"
proof -
  assume run: "got_tx_set A now s c = Some c'"
  let ?c2 = "c\<lparr>c_now := now, c_acquired := hm_insert (t_id A s) s (c_acquired c)\<rparr>"
  have "quiet c c'" if "update_disputes_for A ns s ?c2 = Some c'" for ns
    by (rule quiet_trans [OF _ quiet_update_disputes_for [OF that]]) simp
  then show ?thesis using run by (auto simp: got_tx_set_def Let_def split: if_splits)
qed

lemma quiet_create_disputes_for: "create_disputes_for A ps c = Some c' \<Longrightarrow> quiet c c'"
proof (induction ps arbitrary: c)
  case (Cons pos ps)
  show ?case
  proof (cases "map_of (c_acquired c) pos")
    case (Some s)
    then obtain c1 where c1: "create_disputes A s c = Some c1" "create_disputes_for A ps c1 = Some c'"
      using Cons.prems by (auto simp: bind_eq_Some_conv)
    show ?thesis by (rule quiet_trans [OF quiet_create_disputes [OF c1(1)] Cons.IH [OF c1(2)]])
  qed (use Cons in simp)
qed simp

section \<open>Peer positions\<close>

text \<open>The positions \<^verbatim>\<open>peer_proposal_internal\<close> acts on, and the state with the position recorded.\<close>

definition acceptable :: "proposal \<Rightarrow> ('tx, 'set) consensus \<Rightarrow> bool" where
  "acceptable p c \<longleftrightarrow> c_phase c \<noteq> Accepted \<and> previous_ledger p = c_prev_ledger_id c
     \<and> prop_node p \<notin> c_dead_nodes c
     \<and> (\<forall>q. map_of (c_curr_peer_positions c) (prop_node p) = Some q \<longrightarrow> propose_seq q < propose_seq p)"

definition recorded :: "net_time \<Rightarrow> proposal \<Rightarrow> ('tx, 'set) consensus \<Rightarrow> ('tx, 'set) consensus" where
  "recorded now p c =
     (let c2 = c\<lparr>c_now := now, c_curr_peer_positions := hm_insert (prop_node p) p (c_curr_peer_positions c)\<rparr>;
          raw = c_raw_close_times c
      in if is_initial p then
           c2\<lparr>c_raw_close_times := raw\<lparr>ct_peers :=
             btree_insert (prop_close_time p)
               (case_option 0 id (map_of (ct_peers raw) (prop_close_time p)) + 1) (ct_peers raw)\<rparr>\<rparr>
         else c2)"

lemma recorded_fields [simp]:
  "c_curr_peer_positions (recorded now p c) = hm_insert (prop_node p) p (c_curr_peer_positions c)"
  "c_mode (recorded now p c) = c_mode c" "proposed (recorded now p c) = proposed c"
  by (simp_all add: recorded_def Let_def proposed_def)

lemma peer_proposal_internal_cases:
  assumes "peer_proposal_internal A now p c = Some (c', relay)"
  shows "\<not> relay \<and> (c' = c \<or> c' = c\<lparr>c_now := now\<rparr>)
    \<or> relay \<and> acceptable p c \<and> is_bow_out p
      \<and> c' = (remove_peer (prop_node p) (c\<lparr>c_now := now\<rparr>))\<lparr>c_dead_nodes := insert (prop_node p) (c_dead_nodes c)\<rparr>
    \<or> relay \<and> acceptable p c \<and> \<not> is_bow_out p \<and> quiet (recorded now p c) c'"
proof (cases "acceptable p c")
  case False
  let ?old = "case map_of (c_curr_peer_positions c) (prop_node p) of
    Some e \<Rightarrow> propose_seq p \<le> propose_seq e | None \<Rightarrow> False"
  have "peer_proposal_internal A now p c = Some (if c_phase c = Accepted then c else c\<lparr>c_now := now\<rparr>, False)"
  proof (cases "c_phase c = Accepted")
    case opened: False
    have "previous_ledger p \<noteq> c_prev_ledger_id c \<or> prop_node p \<in> c_dead_nodes c \<or> ?old"
      using False opened by (auto simp: acceptable_def split: option.splits)
    then show ?thesis by (elim disjE) (simp_all add: peer_proposal_internal_def Let_def opened)
  qed (simp add: peer_proposal_internal_def)
  then show ?thesis using assms by (auto split: if_splits)
next
  case True
  then have new: "c_phase c \<noteq> Accepted" "previous_ledger p = c_prev_ledger_id c" "prop_node p \<notin> c_dead_nodes c"
    "\<not> (case map_of (c_curr_peer_positions c) (prop_node p) of
      Some e \<Rightarrow> propose_seq p \<le> propose_seq e | None \<Rightarrow> False)"
    by (auto simp: acceptable_def split: option.splits)
  show ?thesis
  proof (cases "is_bow_out p")
    case bow: True
    then show ?thesis
      using assms new True by (auto simp: peer_proposal_internal_def Let_def remove_peer_def un_vote_all_def update_result_def)
  next
    case False
    define c3 where "c3 = recorded now p c"
    have run: "peer_proposal_internal A now p c = Option.bind
      (case map_of (c_acquired c3) (prop_position p) of
         None \<Rightarrow> (case a_acquire_tx_set A (prop_position p) of
                   None \<Rightarrow> Some c3 | Some s \<Rightarrow> got_tx_set A (c_now c3) s c3)
       | Some s \<Rightarrow> if c_result c3 \<noteq> None then update_disputes A (prop_node p) s c3 else Some c3)
      (\<lambda>c4. Some (c4, True))"
      using new False by (cases "is_initial p") (simp_all add: peer_proposal_internal_def c3_def recorded_def Let_def
          cong: option.case_cong if_cong)
    have "relay \<and> quiet c3 c'"
      using assms unfolding run
      by (auto simp: bind_eq_Some_conv split: option.splits if_splits
          intro: quiet_got_tx_set quiet_update_disputes)
    then show ?thesis using True False c3_def by blast
  qed
qed

section \<open>Acceptance\<close>

lemma remove_peer_phase [simp]: "c_phase (remove_peers ns c) = c_phase c"
  by (induction ns arbitrary: c) (simp_all add: remove_peer_def un_vote_all_def update_result_def)

lemma adopt_set_phase:
  assumes "adopt_set A ct s c = Some c'"
  shows "c_phase c' = c_phase c"
proof -
  have "c_phase d' = c_phase d" if "update_disputes_for A ns s d = Some d'" for ns d d'
    using quiet_update_disputes_for [OF that] by (simp add: quiet_def)
  then show ?thesis
    using assms by (auto simp: adopt_set_def Let_def bind_eq_Some_conv split: if_splits)
qed

lemma update_our_positions_phase:
  assumes "update_our_positions A c = Some c'"
  shows "c_phase c' = c_phase c"
proof -
  let ?cut = "case_option 0 id (net_checked_sub (c_now c)
    (std_duration_to_time (propose_freshness (a_parms A))))"
  define c1 where "c1 = remove_peers
    (map fst (filter (\<lambda>(n, pos). is_stale ?cut pos) (c_curr_peer_positions c))) c"
  have c1: "c_phase c1 = c_phase c" by (simp add: c1_def)
  have adopt: "c_phase c' = c_phase c" if "adopt_set A ct s (c1\<lparr>c_result := ds, c_have_close_time_consensus := h,
      c_close_time_avalanche_state := a\<rparr>) = Some c'" for ct s ds h a
    using adopt_set_phase [OF that] c1 by simp
  show ?thesis
    using assms unfolding update_our_positions_def Let_def c1_def [symmetric]
    by (auto simp: bind_eq_Some_conv c1 split: option.splits if_splits intro: adopt)
qed

lemma leave_consensus_fields:
  "c_phase (leave_consensus A c) = c_phase c"
  "c_curr_peer_positions (leave_consensus A c) = c_curr_peer_positions c"
  by (simp_all add: leave_consensus_def set_mode_def Let_def split: option.split)

lemma have_consensus_runs:
  "have_consensus A c = Some x \<Longrightarrow> \<exists>r b. c_result c = Some r \<and> stalled_of A c r = Some b"
  by (auto simp: have_consensus_def stalled_of_def Let_def bind_eq_Some_conv cong: if_cong)

lemma phase_establish_split:
  assumes "phase_establish A c = Some c'"
  obtains r p c2 where "c_result c = Some r"
    "c2 = c\<lparr>c_peer_unchanged_counter := c_peer_unchanged_counter c + 1,
      c_establish_counter := c_establish_counter c + 1,
      c_result := Some (r\<lparr>r_round_time := timer_tick_to (a_clock_now A) (r_round_time r),
        r_proposers := length (c_curr_peer_positions c)\<rparr>), c_converge_percent := p\<rparr>"
    "c' = c2 \<or> (\<exists>c3. update_our_positions A c2 = Some c3 \<and>
      (c' = c3 \<or> (\<exists>c4 h. have_consensus A c3 = Some (c4, h) \<and>
        (c' = c4 \<or> (h \<and> c_have_close_time_consensus c4 \<and> (\<exists>r4. c_result c4 = Some r4 \<and>
          c' = emit (On_accept r4 (c_previous_ledger c4) (c_close_resolution c4) (c_raw_close_times c4) (c_mode c4))
            ((emit (Update_operating_mode (length (c_curr_peer_positions c4))) c4)
              \<lparr>c_prev_proposers := length (c_curr_peer_positions c4),
               c_prev_round_time := timer_read (r_round_time r4), c_phase := Accepted\<rparr>)))))))"
proof -
  obtain r where r: "c_result c = Some r"
    using assms by (cases "c_result c") (simp_all add: phase_establish_def Let_def)
  define c1 where "c1 = c\<lparr>c_peer_unchanged_counter := c_peer_unchanged_counter c + 1,
    c_establish_counter := c_establish_counter c + 1\<rparr>"
  define r2 where "r2 = r\<lparr>r_round_time := timer_tick_to (a_clock_now A) (r_round_time r),
    r_proposers := length (c_curr_peer_positions c1)\<rparr>"
  define p where "p = int (as_millis (timer_read (r_round_time r2))) * 100
      div int (max (as_millis (max (c_prev_round_time c1) (av_min_consensus_time (a_parms A)))) 1)"
  define c2 where "c2 = c1\<lparr>c_result := Some r2, c_converge_percent := p\<rparr>"
  have r1: "c_result c1 = Some r" using r by (simp add: c1_def)
  have run: "(if timer_read (r_round_time r2) < ledger_min_consensus (a_parms A) then Some c2
     else update_our_positions A c2 \<bind> (\<lambda>c3. should_pause A c3 \<bind> (\<lambda>pause. if pause then Some c3
       else have_consensus A c3 \<bind> (\<lambda>(c4, have). if \<not> have then Some c4
         else if \<not> c_have_close_time_consensus c4 then Some c4
         else c_result c4 \<bind> (\<lambda>r4.
           let n = length (c_curr_peer_positions c4);
               c5 = (emit (Update_operating_mode n) c4)
                 \<lparr>c_prev_proposers := n, c_prev_round_time := timer_read (r_round_time r4), c_phase := Accepted\<rparr>
           in Some (emit (On_accept r4 (c_previous_ledger c5) (c_close_resolution c5)
                        (c_raw_close_times c5) (c_mode c5)) c5)))))) = Some c'"
    using assms unfolding phase_establish_def Let_def c1_def [symmetric] r1 Option.bind.simps
      r2_def [symmetric] p_def [symmetric] c2_def [symmetric] .
  show ?thesis
  proof (rule that [of r c2 p])
    show "c2 = c\<lparr>c_peer_unchanged_counter := c_peer_unchanged_counter c + 1,
      c_establish_counter := c_establish_counter c + 1,
      c_result := Some (r\<lparr>r_round_time := timer_tick_to (a_clock_now A) (r_round_time r),
        r_proposers := length (c_curr_peer_positions c)\<rparr>), c_converge_percent := p\<rparr>"
      by (simp add: c2_def c1_def r2_def)
  qed (use r run in \<open>auto simp: bind_eq_Some_conv Let_def emit_def split: if_splits\<close>)
qed

text \<open>What a call that accepts has found: the verdict on the peer positions of that moment.\<close>

lemma phase_establish_accepts:
  assumes "phase_establish A c = Some c'" "c_phase c = Establish" "c_phase c' = Accepted"
  obtains c3 r3 b r where "c_result c3 = Some r3" "stalled_of A c3 r3 = Some b"
    "c_curr_peer_positions c' = c_curr_peer_positions c3" "c_have_close_time_consensus c'"
    "c_result c' = Some r" "r_state r = verdict_of A c3 r3 b" "r_state r \<noteq> No"
    "r_state r \<noteq> Expired \<longrightarrow> c_mode c' = c_mode c3"
    "prop_position (r_position r) = prop_position (r_position r3)" "r_disputes r = r_disputes r3"
    "c_peer_unchanged_counter c' = c_peer_unchanged_counter c3" "r_round_time r = r_round_time r3"
    "\<exists>l d w m. last (c_effects c') = On_accept r l d w m"
  using assms(1)
proof (cases rule: phase_establish_split)
  case (1 r0 p c2)
  have p2: "c_phase c2 = Establish" using assms(2) 1(2) by simp
  have p3: "c_phase c3 = Establish" if "update_our_positions A c2 = Some c3" for c3
    using update_our_positions_phase [OF that] p2 by simp
  have p4: "c_phase c4 = Establish"
    if u: "update_our_positions A c2 = Some c3" and hc: "have_consensus A c3 = Some (c4, h)" for c3 c4 h
  proof -
    obtain r b where rb: "c_result c3 = Some r" "stalled_of A c3 r = Some b"
      using have_consensus_runs [OF hc] by blast
    show ?thesis
      using hc p3 [OF u] unfolding have_consensus_eq [OF rb]
      by (auto simp: leave_consensus_fields split: if_splits)
  qed
  obtain c3 c4 r4 where c3: "update_our_positions A c2 = Some c3" "have_consensus A c3 = Some (c4, True)"
      "c_have_close_time_consensus c4" "c_result c4 = Some r4"
      "c' = emit (On_accept r4 (c_previous_ledger c4) (c_close_resolution c4) (c_raw_close_times c4) (c_mode c4))
            ((emit (Update_operating_mode (length (c_curr_peer_positions c4))) c4)
              \<lparr>c_prev_proposers := length (c_curr_peer_positions c4),
               c_prev_round_time := timer_read (r_round_time r4), c_phase := Accepted\<rparr>)"
    using 1(3)
  proof (elim disjE exE conjE)
    assume "c' = c2"
    then show thesis using p2 assms(3) by simp
  next
    fix c3 assume "update_our_positions A c2 = Some c3" "c' = c3"
    then show thesis using p3 [of c3] assms(3) by simp
  next
    fix c3 c4 h assume "update_our_positions A c2 = Some c3" "have_consensus A c3 = Some (c4, h)" "c' = c4"
    then show thesis using p4 [of c3 c4 h] assms(3) by simp
  qed (use that in simp)
  obtain r3 b where r3: "c_result c3 = Some r3" "stalled_of A c3 r3 = Some b"
    using have_consensus_runs [OF c3(2)] by blast
  let ?st = "verdict_of A c3 r3 b"
  have c4: "?st \<noteq> No \<and> (c4 = c3\<lparr>c_result := Some (r3\<lparr>r_state := ?st\<rparr>)\<rparr> \<and> ?st \<noteq> Expired
      \<or> ?st = Expired \<and> c4 = leave_consensus A (c3\<lparr>c_result := Some (r3\<lparr>r_state := ?st\<rparr>)\<rparr>))"
    using c3(2) unfolding have_consensus_eq [OF r3] by (auto split: if_splits)
  have e: "c_have_close_time_consensus (emit e d) = c_have_close_time_consensus d"
    "c_peer_unchanged_counter (emit e d) = c_peer_unchanged_counter d" for e d by (simp_all add: emit_def)
  show ?thesis
    by (rule that [OF r3, of r4])
      (use c3(3-5) c4 in \<open>auto simp: e leave_consensus_def set_mode_def Let_def bow_out_def emit_def
        split: option.splits if_splits\<close>)
qed

section \<open>A node that does not propose\<close>

definition silent :: "('tx, 'set) consensus \<Rightarrow> ('tx, 'set) consensus \<Rightarrow> bool" where
  "silent c c' \<longleftrightarrow> (c_mode c \<noteq> Proposing \<longrightarrow> proposed c' = proposed c \<and> c_mode c' \<noteq> Proposing)"

lemma silent_refl [simp]: "silent c c"
  by (simp add: silent_def)

lemma silent_trans: "silent a b \<Longrightarrow> silent b c \<Longrightarrow> silent a c"
  by (simp add: silent_def)

lemma silent_quiet: "quiet c c' \<Longrightarrow> silent c c'"
  by (simp add: silent_def quiet_def)

lemma silent_fields [simp]:
  "silent c (d\<lparr>c_now := t\<rparr>) = silent c d" "silent c (d\<lparr>c_phase := ph\<rparr>) = silent c d"
  "silent c (d\<lparr>c_dead_nodes := ns\<rparr>) = silent c d" "silent c (d\<lparr>c_result := r\<rparr>) = silent c d"
  "silent c (d\<lparr>c_acquired := acq\<rparr>) = silent c d" "silent c (d\<lparr>c_raw_close_times := w\<rparr>) = silent c d"
  "silent c (d\<lparr>c_curr_peer_positions := ps\<rparr>) = silent c d" "silent c (d\<lparr>c_open_time := ot\<rparr>) = silent c d"
  "silent c (d\<lparr>c_peer_unchanged_counter := k\<rparr>) = silent c d" "silent c (d\<lparr>c_establish_counter := k\<rparr>) = silent c d"
  "silent c (d\<lparr>c_converge_percent := z\<rparr>) = silent c d" "silent c (d\<lparr>c_prev_proposers := k\<rparr>) = silent c d"
  "silent c (d\<lparr>c_prev_round_time := t\<rparr>) = silent c d" "silent c (d\<lparr>c_prev_ledger_id := i\<rparr>) = silent c d"
  "silent c (d\<lparr>c_have_close_time_consensus := b\<rparr>) = silent c d"
  "silent c (d\<lparr>c_close_time_avalanche_state := a\<rparr>) = silent c d"
  "silent c (d\<lparr>c_previous_ledger := l\<rparr>) = silent c d" "silent c (d\<lparr>c_close_resolution := t\<rparr>) = silent c d"
  "silent c (d\<lparr>c_recent_peer_positions := q\<rparr>) = silent c d" "silent c (d\<lparr>c_prev_close_time := t\<rparr>) = silent c d"
  "silent c (d\<lparr>c_first_round := b\<rparr>) = silent c d"
  "silent c (update_result f d) = silent c d" "silent c (remove_peer n d) = silent c d"
  "announces e = [] \<Longrightarrow> silent c (emit e d) = silent c d"
  by (simp_all add: silent_def proposed_def update_result_def emit_def remove_peer_def un_vote_all_def)

lemma silent_set_mode: "m \<noteq> Proposing \<Longrightarrow> silent c d \<Longrightarrow> silent c (set_mode m d)"
  by (simp add: silent_def set_mode_def) (simp add: proposed_def emit_def)

lemma silent_peer_proposal_internal:
  assumes "peer_proposal_internal A now p c = Some (c', relay)"
  shows "silent c c'"
  using peer_proposal_internal_cases [OF assms]
proof (elim disjE conjE)
  assume "quiet (recorded now p c) c'"
  then show ?thesis by (simp add: silent_def quiet_def)
qed simp_all

lemma silent_playback: "playback A ps c = Some c' \<Longrightarrow> silent c c'"
proof (induction ps arbitrary: c)
  case (Cons p ps)
  show ?case
  proof (cases "previous_ledger p = c_prev_ledger_id c")
    case True
    then obtain c1 relay where c1: "peer_proposal_internal A (c_now c) p c = Some (c1, relay)"
        "playback A ps (if relay then emit (Share_peer_position p) c1 else c1) = Some c'"
      using Cons.prems by (auto simp: bind_eq_Some_conv)
    have "silent c (if relay then emit (Share_peer_position p) c1 else c1)"
      using silent_peer_proposal_internal [OF c1(1)] by simp
    then show ?thesis by (rule silent_trans [OF _ Cons.IH [OF c1(2)]])
  qed (use Cons in simp)
qed simp

lemma silent_leave_consensus: "silent c d \<Longrightarrow> c_mode c \<noteq> Proposing \<Longrightarrow> silent c (leave_consensus A d)"
  by (simp add: silent_def leave_consensus_def)

lemma silent_remove_peers: "silent c d \<Longrightarrow> silent c (remove_peers ns d)"
  by (induction ns arbitrary: d) simp_all

lemma silentI: "(c_mode c \<noteq> Proposing \<Longrightarrow> silent c c') \<Longrightarrow> silent c c'"
  by (auto simp: silent_def)

lemma silent_mode: "silent c d \<Longrightarrow> c_mode c \<noteq> Proposing \<Longrightarrow> c_mode d \<noteq> Proposing"
  by (simp add: silent_def)

lemma silent_close_ledger:
  assumes "close_ledger A c = Some c'"
  shows "silent c c'"
proof (rule silentI)
  assume m: "c_mode c \<noteq> Proposing"
  obtain ps c4 where "create_disputes_for A ps c4 = Some c'" "silent c c4"
    using assms m by (auto simp: close_ledger_def Let_def split: if_splits)
  then show ?thesis using silent_trans silent_quiet quiet_create_disputes_for by metis
qed

lemma silent_phase_open:
  assumes "phase_open A c = Some c'"
  shows "silent c c'"
proof -
  let ?c1 = "c\<lparr>c_open_time := timer_tick_to (a_clock_now A) (c_open_time c)\<rparr>"
  obtain b where "(if b then close_ledger A ?c1 else Some ?c1) = Some c'"
    using assms unfolding phase_open_def Let_def bind_eq_Some_conv by (elim exE conjE) (rule that)
  then have "c' = ?c1 \<or> close_ledger A ?c1 = Some c'" by (auto split: if_splits)
  moreover have "silent c ?c1" by simp
  ultimately show ?thesis using silent_trans [OF _ silent_close_ledger] by blast
qed

lemma silent_adopt_set:
  assumes "adopt_set A ct s c = Some c'" "silent d c"
  shows "silent d c'"
proof (rule silentI)
  assume m: "c_mode d \<noteq> Proposing"
  obtain r where r: "c_result c = Some r" using assms(1) by (auto simp: adopt_set_def bind_eq_Some_conv)
  define pos where "pos = change_position (t_id A s) ct (c_now c) (r_position r)"
  define c1 where "c1 = c\<lparr>c_result := Some (r\<lparr>r_txns := s, r_position := pos\<rparr>)\<rparr>"
  define ca where "ca = c1\<lparr>c_acquired := hm_insert (t_id A s) s (c_acquired c1)\<rparr>"
  define cb where "cb = (if is_bow_out pos then ca else emit (Share_tx_set s) ca)"
  have d: "silent d c1" "silent d cb" using assms(2) by (simp_all add: c1_def ca_def cb_def)
  obtain c2 r2 where c2: "(if map_of (c_acquired c1) (t_id A s) = None then update_disputes_for A
      (map fst (filter (\<lambda>(n, p). prop_position p = t_id A s) (c_curr_peer_positions cb))) s cb else Some c1) = Some c2"
    "c_result c2 = Some r2"
    "c' = (if \<not> is_bow_out (r_position r2) \<and> c_mode c2 = Proposing then emit (Propose (r_position r2)) c2 else c2)"
    using assms(1) unfolding adopt_set_def r Option.bind.simps Let_def pos_def [symmetric] c1_def [symmetric]
      ca_def [symmetric] cb_def [symmetric] by (auto simp: bind_eq_Some_conv)
  have "quiet cb c2 \<or> c2 = c1"
    using c2(1) quiet_update_disputes_for by (auto split: if_splits)
  then have "silent d c2" using d silent_quiet silent_trans by metis
  then show ?thesis using c2(3) silent_mode [OF _ m] by simp
qed

lemma silent_update_our_positions:
  assumes "update_our_positions A c = Some c'"
  shows "silent c c'"
proof -
  let ?cut = "case_option 0 id (net_checked_sub (c_now c)
    (std_duration_to_time (propose_freshness (a_parms A))))"
  define c1 where "c1 = remove_peers
    (map fst (filter (\<lambda>(n, pos). is_stale ?cut pos) (c_curr_peer_positions c))) c"
  have c1: "silent c c1" by (simp add: c1_def silent_remove_peers)
  have adopt: "silent c c'" if "adopt_set A ct s (c1\<lparr>c_result := ds, c_have_close_time_consensus := h,
      c_close_time_avalanche_state := a\<rparr>) = Some c'" for ct s ds h a
    by (rule silent_adopt_set [OF that]) (simp add: c1)
  show ?thesis
    using assms unfolding update_our_positions_def Let_def c1_def [symmetric]
    by (auto simp: bind_eq_Some_conv c1 split: option.splits if_splits intro: adopt)
qed

lemma silent_have_consensus:
  assumes "have_consensus A c = Some (c', h)" "c_mode d \<noteq> Proposing" "silent d c"
  shows "silent d c'"
proof -
  obtain r b where rb: "c_result c = Some r" "stalled_of A c r = Some b"
    using have_consensus_runs [OF assms(1)] by blast
  have s: "silent d (c\<lparr>c_result := Some r'\<rparr>)" for r' using assms(3) by simp
  show ?thesis
    using assms(1) s silent_leave_consensus [OF s assms(2)]
    unfolding have_consensus_eq [OF rb] by (auto split: if_splits)
qed

lemma silent_phase_establish:
  assumes "phase_establish A c = Some c'"
  shows "silent c c'"
proof (rule silentI)
  assume m: "c_mode c \<noteq> Proposing"
  from assms show "silent c c'"
  proof (cases rule: phase_establish_split)
    case (1 r p c2)
    have c2: "silent c c2" by (simp add: 1(2))
    have c3: "silent c c3" if "update_our_positions A c2 = Some c3" for c3
      by (rule silent_trans [OF c2 silent_update_our_positions [OF that]])
    have c4: "silent c c4" if "update_our_positions A c2 = Some c3" "have_consensus A c3 = Some (c4, h)" for c3 c4 h
      by (rule silent_have_consensus [OF that(2) m c3 [OF that(1)]])
    show ?thesis using 1(3) c2 c3 c4 by (elim disjE exE conjE) simp_all
  qed
qed

lemma silent_start_round_internal:
  assumes "start_round_internal tick A now i l mode c = Some c'" "mode \<noteq> Proposing" "silent d c"
    and "\<And>s s'. tick s = Some s' \<Longrightarrow> silent s s'"
  shows "silent d c'"
proof -
  have m: "silent d (set_mode mode (c\<lparr>c_phase := Open\<rparr>))"
    by (rule silent_set_mode [OF assms(2)]) (use assms(3) in simp)
  define c2 where "c2 = (set_mode mode (c\<lparr>c_phase := Open\<rparr>))\<lparr>c_now := now, c_prev_ledger_id := i,
    c_previous_ledger := l, c_result := None, c_converge_percent := 0,
    c_close_time_avalanche_state := Init, c_have_close_time_consensus := False,
    c_open_time := timer_reset (a_clock_now A) (c_open_time (set_mode mode (c\<lparr>c_phase := Open\<rparr>))),
    c_curr_peer_positions := [], c_acquired := [],
    c_raw_close_times := \<lparr>ct_peers = [], ct_self = 0\<rparr>, c_dead_nodes := {},
    c_close_resolution := a_next_ledger_time_resolution A (l_close_time_resolution l)
      (l_close_agree l) (l_seq l + 1)\<rparr>"
  have c2: "silent d c2" using m by (simp add: c2_def)
  obtain c3 where c3: "playback A (concat (map snd (c_recent_peer_positions c2))) c2 = Some c3"
      "c' = c3 \<or> tick c3 = Some c'"
    using assms(1) unfolding start_round_internal_def Let_def c2_def [symmetric] playback_proposals_def
    by (auto simp: bind_eq_Some_conv split: if_splits)
  have "silent d c3" by (rule silent_trans [OF c2 silent_playback [OF c3(1)]])
  then show ?thesis using c3(2) assms(4) silent_trans by metis
qed

lemma silent_handle_wrong_ledger:
  assumes "handle_wrong_ledger tick A lgr c = Some c'" "c_mode c \<noteq> Proposing"
    and "\<And>s s'. tick s = Some s' \<Longrightarrow> silent s s'"
  shows "silent c c'"
proof -
  have leave: "silent c (leave_consensus A c)" by (rule silent_leave_consensus [OF silent_refl assms(2)])
  have pb: "silent c d'" if "playback_proposals A d = Some d'" "silent c d" for d d'
    using silent_trans [OF that(2) silent_playback] that(1) by (auto simp: playback_proposals_def)
  obtain c2 where c2: "silent c c2"
    "c' = c2 \<or> c' = set_mode WrongLedger c2
     \<or> (\<exists>l. start_round_internal tick A (c_now c2) lgr l SwitchedLedger c2 = Some c')"
    using assms(1) leave unfolding handle_wrong_ledger_def Let_def
    by (auto simp: bind_eq_Some_conv split: if_splits option.splits dest!: pb)
  then show ?thesis
    using silent_start_round_internal [OF _ _ c2(1) assms(3), where mode = SwitchedLedger] silent_set_mode [OF _ c2(1)]
    by auto
qed

lemma silent_timer_entry: "timer_entry fuel A now c = Some c' \<Longrightarrow> silent c c'"
proof (induction fuel arbitrary: now c c')
  case (Suc fuel)
  let ?tick = "\<lambda>s. timer_entry fuel A (c_now s) s"
  show ?case
  proof (rule silentI)
    assume m: "c_mode c \<noteq> Proposing"
    show ?thesis
    proof (cases "c_phase c = Accepted")
      case False
      obtain c1 where c1: "check_ledger ?tick A (c\<lparr>c_now := now\<rparr>) = Some c1"
          "(case c_phase c1 of Open \<Rightarrow> phase_open A c1 | Establish \<Rightarrow> phase_establish A c1
            | Accepted \<Rightarrow> Some c1) = Some c'"
        using Suc.prems False by (auto simp: bind_eq_Some_conv)
      have "silent (c\<lparr>c_now := now\<rparr>) c1"
        using c1(1) m silent_handle_wrong_ledger [of ?tick A _ "c\<lparr>c_now := now\<rparr>" c1, OF _ _ Suc.IH]
        by (auto simp: check_ledger_def Let_def split: if_splits)
      then have "silent c c1" by (rule silent_trans [rotated]) simp
      moreover have "silent c1 c'"
        using c1(2) silent_phase_open silent_phase_establish by (auto split: consensus_phase.splits)
      ultimately show ?thesis by (rule silent_trans)
    qed (use Suc.prems in simp)
  qed
qed simp

lemma silent_start_round:
  assumes "start_round fuel A now i l untrusted False c = Some c'"
  shows "silent c c'"
proof -
  let ?tick = "\<lambda>s. timer_entry fuel A (c_now s) s"
  obtain c2 l' m where "start_round_internal ?tick A now i l' m c2 = Some c'" "m \<noteq> Proposing" "silent c c2"
    using assms unfolding start_round_def Let_def
    by (cases "c_first_round c"; cases "l_id l = i"; cases "a_acquire_ledger A i") simp_all
  then show ?thesis using silent_start_round_internal [of ?tick A now i l' m c2 c' c] silent_timer_entry by blast
qed

text \<open>Calls that do not start a proposing round.\<close>

fun observes :: "'set cons_op \<Rightarrow> bool" where
  "observes (Start_round now i l untrusted proposing) \<longleftrightarrow> \<not> proposing"
| "observes _ \<longleftrightarrow> True"

lemma silent_cons_step: "cons_step fuel A op c = Some c' \<Longrightarrow> observes op \<Longrightarrow> silent c c'"
proof (cases op)
  case (Peer_proposal now p)
  assume "cons_step fuel A op c = Some c'"
  then show ?thesis
    using Peer_proposal silent_trans [OF _ silent_peer_proposal_internal, of c "c\<lparr>c_recent_peer_positions := _\<rparr>"]
    by (auto simp: peer_proposal_def Let_def)
qed (auto intro: silent_timer_entry silent_start_round silent_quiet quiet_got_tx_set)

lemma silent_cons_run:
  "cons_run fuel ops c = Some c' \<Longrightarrow> \<forall>(A, op) \<in> set ops. observes op \<Longrightarrow> silent c c'"
proof (induction fuel ops c rule: cons_run.induct)
  case (2 fuel A op ops c)
  obtain c1 where c1: "cons_step fuel A op c = Some c1" "cons_run fuel ops c1 = Some c'"
    using "2.prems"(1) by (auto simp: bind_eq_Some_conv)
  have "silent c c1" using silent_cons_step [OF c1(1)] "2.prems"(2) by simp
  then show ?case by (rule silent_trans [OF _ "2.IH" [OF c1(1)]]) (use c1 "2.prems"(2) in simp_all)
qed simp

end
