(* ===== verification/Consensus_Properties.thy ===== *)
theory Consensus_Properties
  imports Rcl_Sample Consensus_Observer
begin

text \<open>
  Properties of the consensus round as the server runs it: the state machine of
  \<open>Consensus_Round\<close> over the transaction sets of \<open>Rcl_Tx_Set\<close> and the adaptor of \<open>Rcl_Consensus\<close>,
  for arbitrary sequences of calls. A run gives for every call the services of that moment.
\<close>

definition rcl_run ::
  "(preimage \<Rightarrow> nat) \<Rightarrow> nat \<Rightarrow> (app_env \<times> rcl_tx_set cons_op) list
    \<Rightarrow> (sha_item, rcl_tx_set) consensus \<Rightarrow> (sha_item, rcl_tx_set) consensus option" where
  "rcl_run H fuel ops c = cons_run fuel (map (\<lambda>(E, op). (rcl_adaptor H E, op)) ops) c"

section \<open>Runs keep the invariant and return\<close>

lemma ledger_inv_with_clock: "l_parent_close_time l < u32_max \<Longrightarrow> ledger_inv (with_clock l)"
  by (simp add: ledger_inv_def with_clock_def)

lemma rcl_ops_env:
  assumes "\<forall>(E, op) \<in> set ops. app_services H pool E \<and> op_ok (rcl_ok pool) op"
  shows "\<forall>(A, op) \<in> set (map (\<lambda>(E, op). (rcl_adaptor H E, op)) ops).
    consensus_env A (rcl_ok pool) (\<lambda>tx. tx \<in> pool) \<and> same_ops A (rcl_ops H) \<and> op_ok (rcl_ok pool) op"
  using assms same_ops_rcl app_services.services_env by fastforce

lemma rcl_run_inv:
  assumes "\<forall>(E, op) \<in> set ops. app_services H pool E \<and> op_ok (rcl_ok pool) op"
    and "l_parent_close_time l < u32_max" "rcl_run H fuel ops (with_clock l) = Some c"
  shows "round_inv (rcl_ops H) (rcl_ok pool) (\<lambda>tx. tx \<in> pool) {} c"
  using cons_run_inv [OF rcl_ops_env [OF assms(1)] round_inv_with_clock ledger_inv_with_clock [OF assms(2)]]
    assms(3) by (simp add: rcl_run_def)

lemma rcl_run_total:
  assumes "\<forall>(E, op) \<in> set ops. settled_services H pool E \<and> op_ok (rcl_ok pool) op"
    and "l_parent_close_time l < u32_max" "2 \<le> fuel"
  shows "\<exists>c. rcl_run H fuel ops (with_clock l) = Some c"
proof -
  have "\<forall>(A, op) \<in> set (map (\<lambda>(E, op). (rcl_adaptor H E, op)) ops).
    settled_env A (rcl_ok pool) (\<lambda>tx. tx \<in> pool) \<and> same_ops A (rcl_ops H) \<and> op_ok (rcl_ok pool) op"
    using assms(1) same_ops_rcl settled_services.services_settled by fastforce
  then show ?thesis
    unfolding rcl_run_def
    by (rule cons_run_returns [OF _ round_inv_with_clock ledger_inv_with_clock [OF assms(2)] assms(3)])
qed

text \<open>A short history: a round is started, a peer takes a position, the ledger closes.\<close>

definition sample_ops :: "(app_env \<times> rcl_tx_set cons_op) list" where
  "sample_ops =
     [(sample_env 0, Start_round 1010 7 sample_ledger [] True),
      (sample_env 0, Peer_proposal 1010 (proposal_new 7 0 (rcl_id sample_hash (sample_set [2, 3])) 1012 1012 2)),
      (sample_env 0, Got_tx_set 1011 (sample_set [1, 2])),
      (sample_env (from_secs 4), Timer_entry 1014),
      (sample_env (from_secs 6), Timer_entry 1016)]"

lemma sample_ops_settled:
  "\<forall>(E, op) \<in> set sample_ops. settled_services sample_hash sample_pool E \<and> op_ok (rcl_ok sample_pool) op"
  by (simp add: sample_ops_def sample_app.settled_services_axioms sample_set_ok sample_ledger_def u32_max_def)

lemma sample_ops_services:
  "\<forall>(E, op) \<in> set sample_ops. app_services sample_hash sample_pool E \<and> op_ok (rcl_ok sample_pool) op"
  using sample_ops_settled settled_services.axioms(1) by fastforce

lemma sample_ledger_ok: "l_parent_close_time sample_ledger < u32_max"
  by (simp add: sample_ledger_def u32_max_def)

lemma sample_run: "\<exists>c. rcl_run sample_hash 2 sample_ops (with_clock sample_ledger) = Some c"
  using rcl_run_total [OF sample_ops_settled sample_ledger_ok] by simp



section \<open>Disputes and positions\<close>

text \<open>
  C2. In every state a run reaches, the disputes of the round are right: if a peer currently holds
  a position whose transaction set we have, then every transaction on which that set and ours differ
  is disputed, and in every dispute the vote recorded for the peer is whether its set contains the
  transaction, and our vote is whether our set contains it.
\<close>

theorem disputes_match_sets:
  assumes "\<forall>(E, op) \<in> set ops. app_services H pool E \<and> op_ok (rcl_ok pool) op"
    and "l_parent_close_time l < u32_max" "rcl_run H fuel ops (with_clock l) = Some c"
    and "c_result c = Some r" "map_of (c_curr_peer_positions c) n = Some p"
    and "map_of (c_acquired c) (prop_position p) = Some s"
  shows "(rcl_exists s i \<noteq> rcl_exists (r_txns r) i \<longrightarrow> (\<exists>d. map_of (r_disputes r) i = Some d))
    \<and> (\<forall>d. map_of (r_disputes r) i = Some d \<longrightarrow>
         rcl_exists s i = map_of (votes d) n \<and> rcl_exists (r_txns r) i = Some (our_vote d))"
proof -
  note inv = rcl_run_inv [OF assms(1-3)]
  have ok: "rcl_ok pool s" "rcl_id H s = prop_position p" "rcl_ok pool (r_txns r)"
    using inv assms(4,6) by (auto simp: round_inv_def base_inv_def acquired_inv_def result_inv_def)
  have e: "rcl_exists s i = Some (t_exists (rcl_ops H) s i)"
    "rcl_exists (r_txns r) i = Some (t_exists (rcl_ops H) (r_txns r) i)"
    using rcl_exists_contents [OF ok(1)] rcl_exists_contents [OF ok(3)] by simp_all
  have cov: "prop_position p \<in> r_compares r" "complete (rcl_ops H) (rcl_ok pool) r"
    using inv assms(4-6) by (auto simp: round_inv_def covered_def)
  have "\<exists>d. map_of (r_disputes r) i = Some d" if "t_exists (rcl_ops H) s i \<noteq> t_exists (rcl_ops H) (r_txns r) i"
    using cov ok that by (auto simp: complete_def)
  moreover have "map_of (votes d) n = Some (t_exists (rcl_ops H) s i) \<and> our_vote d = t_exists (rcl_ops H) (r_txns r) i"
    if "map_of (r_disputes r) i = Some d" for d
    using inv assms(4-6) that by (auto simp: round_inv_def base_inv_def result_inv_def dispute_inv_def)
  ultimately show ?thesis unfolding e by auto
qed

theorem disputes_match_sets_witness:
  "\<exists>c. rcl_run sample_hash 2 sample_ops (with_clock sample_ledger) = Some c
    \<and> (\<forall>r n p s i. c_result c = Some r \<longrightarrow> map_of (c_curr_peer_positions c) n = Some p
        \<longrightarrow> map_of (c_acquired c) (prop_position p) = Some s
        \<longrightarrow> rcl_exists s i \<noteq> rcl_exists (r_txns r) i \<longrightarrow> (\<exists>d. map_of (r_disputes r) i = Some d))"
  using sample_run disputes_match_sets [OF sample_ops_services sample_ledger_ok] by blast

text \<open>
  C24. In every state a run reaches, the tracked peer positions are sound: each is filed under its
  own node, refers to the ledger we work on, is not a bow-out and does not belong to a peer that
  bowed out; and only peers with a tracked position have votes in a dispute.
\<close>

theorem tracked_positions_sound:
  assumes "\<forall>(E, op) \<in> set ops. app_services H pool E \<and> op_ok (rcl_ok pool) op"
    and "l_parent_close_time l < u32_max" "rcl_run H fuel ops (with_clock l) = Some c"
  shows "(\<forall>n p. map_of (c_curr_peer_positions c) n = Some p \<longrightarrow>
      prop_node p = n \<and> previous_ledger p = c_prev_ledger_id c \<and> \<not> is_bow_out p \<and> n \<notin> c_dead_nodes c)
    \<and> (\<forall>r i d. c_result c = Some r \<longrightarrow> map_of (r_disputes r) i = Some d
      \<longrightarrow> voters d \<subseteq> dom (map_of (c_curr_peer_positions c)))"
  using rcl_run_inv [OF assms]
  by (auto simp: round_inv_def base_inv_def position_inv_def result_inv_def dispute_inv_def)

theorem tracked_positions_sound_witness:
  "\<exists>c. rcl_run sample_hash 2 sample_ops (with_clock sample_ledger) = Some c
    \<and> (\<forall>n p. map_of (c_curr_peer_positions c) n = Some p \<longrightarrow>
      prop_node p = n \<and> previous_ledger p = c_prev_ledger_id c \<and> \<not> is_bow_out p)"
  using sample_run tracked_positions_sound [OF sample_ops_services sample_ledger_ok] by blast

text \<open>
  C25. A message from a peer changes at most the tracked position of that peer, and only forwards:
  the position of every other peer stays; the sender's is replaced only by one on our ledger with a
  strictly larger sequence number, and removed only by a bow-out, after which the peer is ignored
  for the rest of the round.
\<close>

theorem peer_proposal_monotone:
  assumes "peer_proposal_internal A now p c = Some (c', relay)"
  shows "map_of (c_curr_peer_positions c') n =
      (if relay \<and> n = prop_node p then (if is_bow_out p then None else Some p)
       else map_of (c_curr_peer_positions c) n)
    \<and> (relay \<longrightarrow> previous_ledger p = c_prev_ledger_id c \<and> prop_node p \<notin> c_dead_nodes c
         \<and> (\<forall>q. map_of (c_curr_peer_positions c) (prop_node p) = Some q \<longrightarrow> propose_seq q < propose_seq p)
         \<and> (is_bow_out p \<longrightarrow> prop_node p \<in> c_dead_nodes c'))"
  using peer_proposal_internal_cases [OF assms]
proof (elim disjE conjE)
  assume "relay" "acceptable p c" "is_bow_out p"
    "c' = (remove_peer (prop_node p) (c\<lparr>c_now := now\<rparr>))\<lparr>c_dead_nodes := insert (prop_node p) (c_dead_nodes c)\<rparr>"
  then show ?thesis by (simp add: acceptable_def remove_peer_def map_rules)
next
  assume "relay" "acceptable p c" "\<not> is_bow_out p" "quiet (recorded now p c) c'"
  then show ?thesis by (simp add: acceptable_def quiet_def map_rules)
qed simp_all

text \<open>An open round, and services without transaction sets.\<close>

definition opened :: "(sha_item, rcl_tx_set) consensus" where
  "opened = (with_clock sample_ledger)\<lparr>c_phase := Open, c_prev_ledger_id := 7\<rparr>"

definition bare_env :: "nat \<Rightarrow> app_env" where
  "bare_env clock = (sample_env clock)\<lparr>e_tx_sets := [], e_open_txs := []\<rparr>"

theorem peer_proposal_monotone_witness:
  "\<exists>c. peer_proposal_internal (rcl_adaptor sample_hash (bare_env 0)) 1010 (proposal_new 7 0 99 1012 1012 2) opened
      = Some (c, True)
    \<and> map_of (c_curr_peer_positions c) 2 = Some (proposal_new 7 0 99 1012 1012 2)"
proof -
  have run: "\<exists>c. peer_proposal_internal (rcl_adaptor sample_hash (bare_env 0)) 1010 (proposal_new 7 0 99 1012 1012 2) opened
      = Some (c, True)"
    by (simp add: peer_proposal_internal_def opened_def with_clock_def proposal_new_def is_bow_out_def SEQ_LEAVE_def
        u32_max_def Let_def rcl_acquire_tx_set_def bare_env_def)
  then obtain c where c: "peer_proposal_internal (rcl_adaptor sample_hash (bare_env 0)) 1010
      (proposal_new 7 0 99 1012 1012 2) opened = Some (c, True)" by blast
  show ?thesis
    using c peer_proposal_monotone [OF c, of 2] by (simp add: proposal_new_def is_bow_out_def SEQ_LEAVE_def u32_max_def)
qed

section \<open>Acceptance\<close>


text \<open>A proposing node and one peer that holds the same, empty set.\<close>

definition agreeing :: "(sha_item, rcl_tx_set) consensus" where
  "agreeing = (with_clock sample_ledger)\<lparr>c_phase := Establish, c_mode := Proposing, c_prev_ledger_id := 7,
     c_now := 1016, c_curr_peer_positions := [(2, proposal_new 7 0 0 1020 1012 2)],
     c_acquired := [(0, rcl_new 11)],
     c_result := Some ((consensus_result_new (rcl_new 11) (proposal_new 7 0 0 1020 1012 1))
       \<lparr>r_round_time := \<lparr>timer_start = Some 0, timer_dur = 0\<rparr>\<rparr>)\<rparr>"

lemma rcl_adaptor_services:
  "a_clock_now (rcl_adaptor H E) = e_clock_now E" "a_round_close_time (rcl_adaptor H E) = adaptor_round_close_time"
  "a_valid_ledger_seq (rcl_adaptor H E) = e_valid_ledger_seq E" "a_quorum_keys (rcl_adaptor H E) = e_quorum_keys E"
  "a_laggards (rcl_adaptor H E) = e_laggards E" "a_proposers_finished (rcl_adaptor H E) = e_nodes_after E"
  by (simp_all add: rcl_adaptor_def tx_ops.defs)

lemmas agreeing_eval = phase_establish_def agreeing_def with_clock_def update_our_positions_def Let_def
  proposal_new_def consensus_result_new_def is_stale_def default_parms_def from_secs_def from_millis_def
  as_millis_def as_secs_def timer_tick_to_def timer_read_def rcl_adaptor_services bare_env_def sample_env_def
  net_checked_sub_def try_u32_def u32_max_def std_duration_to_time_def decide_close_time_def
  get_needed_weight_def as_i32_def count_vote_def round_close_time_for_def adaptor_round_close_time_def
  round_close_time_def participants_needed_def should_pause_def have_consensus_def check_consensus_def
  check_consensus_reached_def sample_ledger_def

lemma agreeing_accepts:
  "\<exists>c'. phase_establish (rcl_adaptor sample_hash (bare_env (from_secs 6))) agreeing = Some c'
     \<and> c_phase c' = Accepted \<and> c_curr_peer_positions c' \<noteq> []"
  by (simp add: agreeing_eval) (simp flip: numeral_2_eq_2)


section \<open>Observers\<close>

text \<open>
  C26. A node that only observes announces no position: in any run in which no round is started as
  proposing, whatever the services answer, the node never proposes and never enters the proposing
  mode.
\<close>

theorem observer_never_proposes:
  assumes "\<forall>(E, op) \<in> set ops. observes op" "rcl_run H fuel ops (with_clock l) = Some c"
  shows "proposed c = [] \<and> c_mode c \<noteq> Proposing"
proof -
  have "silent (with_clock l) c"
    using assms(2) unfolding rcl_run_def by (rule silent_cons_run) (use assms(1) in auto)
  then show ?thesis by (simp add: silent_def) (simp add: with_clock_def proposed_def)
qed

definition observer_ops :: "(app_env \<times> rcl_tx_set cons_op) list" where
  "observer_ops = map (\<lambda>(E, op). (E, case op of
     Start_round now i l untrusted proposing \<Rightarrow> Start_round now i l untrusted False | _ \<Rightarrow> op)) sample_ops"

theorem observer_never_proposes_witness:
  "\<exists>c. rcl_run sample_hash 2 observer_ops (with_clock sample_ledger) = Some c \<and> proposed c = []"
proof -
  have "\<forall>(E, op) \<in> set observer_ops. settled_services sample_hash sample_pool E \<and> op_ok (rcl_ok sample_pool) op"
    by (simp add: observer_ops_def sample_ops_def sample_app.settled_services_axioms sample_set_ok
        sample_ledger_def u32_max_def)
  from rcl_run_total [OF this sample_ledger_ok, of 2]
  obtain c where c: "rcl_run sample_hash 2 observer_ops (with_clock sample_ledger) = Some c" by auto
  have "\<forall>(E, op) \<in> set observer_ops. observes op" by (simp add: observer_ops_def sample_ops_def)
  from observer_never_proposes [OF this c] c show ?thesis by blast
qed

end
