(* ===== verification/SHAMap_Iterate.thy ===== *)
theory SHAMap_Iterate
  imports SHAMap_Map
begin

text \<open>
  Ordered walks over the leaves of a SHAMap (\<^verbatim>\<open>traverse/iteration.rs\<close> on loaded trees): the
  first and the last leaf below a node, the next leaf after the one on top of the stack, the
  bounds of a key, and the collection of a range. A stack is the list of its entries with the
  top first; a node identifier enters only through its depth. The walks are related to the list
  of items of the tree, which the invariant sorts by key.
\<close>

section \<open>The walks\<close>

type_synonym node_stack = "(sha_node \<times> nat) list"

text \<open>The first child at or after a branch, and the last child before one.\<close>

definition next_child :: "sha_node option list \<Rightarrow> nat \<Rightarrow> sha_node option" where
  "next_child cs b =
     (case find (\<lambda>i. child_at cs i \<noteq> None) [b..<BRANCH_FACTOR] of
        None \<Rightarrow> None
      | Some i \<Rightarrow> child_at cs i)"

definition previous_child :: "sha_node option list \<Rightarrow> nat \<Rightarrow> sha_node option" where
  "previous_child cs b =
     (case find (\<lambda>i. child_at cs i \<noteq> None) (rev [0..<b]) of
        None \<Rightarrow> None
      | Some i \<Rightarrow> child_at cs i)"

lemma size_next_child: "next_child cs b = Some n \<Longrightarrow> size n < size (Inner_node cs)"
  by (auto simp: next_child_def split: option.splits dest: size_child_at)

lemma size_previous_child: "previous_child cs b = Some n \<Longrightarrow> size n < size (Inner_node cs)"
  by (auto simp: previous_child_def split: option.splits dest: size_child_at)

text \<open>
  \<^verbatim>\<open>extreme_below\<close>: the result and the stack; the outer \<^term>\<open>None\<close> is the panic of
  \<^verbatim>\<open>get_child_node_id\<close> below the deepest level.
\<close>

function extreme_below ::
  "bool \<Rightarrow> sha_node \<Rightarrow> nat \<Rightarrow> node_stack \<Rightarrow> (sha_node option \<times> node_stack) option" where
  "extreme_below forward (Leaf_node t it) d st = Some (Some (Leaf_node t it), (Leaf_node t it, d) # st)"
| "extreme_below forward (Inner_node cs) d st =
     (case (if forward then next_child cs 0 else previous_child cs BRANCH_FACTOR) of
        None \<Rightarrow> Some (None, (Inner_node cs, d) # st)
      | Some n \<Rightarrow>
          if d \<ge> SHAMAP_LEAF_DEPTH then None
          else extreme_below forward n (Suc d) ((Inner_node cs, d) # st))"
  by pat_completeness auto
termination
  by (relation "measure (\<lambda>(f, n, d, st). size n)")
    (auto dest: size_next_child size_previous_child split: if_splits)

definition first_below :: "sha_node \<Rightarrow> nat \<Rightarrow> node_stack \<Rightarrow> (sha_node option \<times> node_stack) option" where
  "first_below = extreme_below True"

definition last_below :: "sha_node \<Rightarrow> nat \<Rightarrow> node_stack \<Rightarrow> (sha_node option \<times> node_stack) option" where
  "last_below = extreme_below False"

definition peek_first_item :: "sha_node \<Rightarrow> (sha_node option \<times> node_stack) option" where
  "peek_first_item root =
     do {
       (leaf, st) \<leftarrow> first_below root 0 [];
       Some (leaf, if leaf = None then [] else st)
     }"

text \<open>The descent all walks share: from an inner node into the first leaf after the branch of a key.\<close>

definition descend_after ::
  "nat \<Rightarrow> sha_node option list \<Rightarrow> nat \<Rightarrow> sha_node option" where
  "descend_after k cs d = next_child cs (select_branch d k + 1)"

fun next_loop :: "nat \<Rightarrow> node_stack \<Rightarrow> (sha_node option \<times> node_stack) option" where
  "next_loop k [] = Some (None, [])"
| "next_loop k ((Leaf_node t it, d) # st) = None"
| "next_loop k ((Inner_node cs, d) # st) =
     (if d \<ge> SHAMAP_LEAF_DEPTH then None
      else case descend_after k cs d of
             None \<Rightarrow> next_loop k st
           | Some n \<Rightarrow> first_below n (Suc d) ((Inner_node cs, d) # st))"

fun peek_next_item :: "nat \<Rightarrow> node_stack \<Rightarrow> (sha_node option \<times> node_stack) option" where
  "peek_next_item k ((Leaf_node t it, d) # st) = next_loop k st"
| "peek_next_item k st = None"

fun upper_loop :: "nat \<Rightarrow> node_stack \<Rightarrow> sha_node option option" where
  "upper_loop k [] = Some None"
| "upper_loop k ((Leaf_node t it, d) # st) =
     (if item_key it > k then Some (Some (Leaf_node t it)) else upper_loop k st)"
| "upper_loop k ((Inner_node cs, d) # st) =
     (if d \<ge> SHAMAP_LEAF_DEPTH then None
      else case descend_after k cs d of
             None \<Rightarrow> upper_loop k st
           | Some n \<Rightarrow> map_option fst (first_below n (Suc d) []))"

definition upper_bound :: "nat \<Rightarrow> sha_node \<Rightarrow> sha_node option option" where
  "upper_bound k root =
     do {
       (leaf, path) \<leftarrow> walk_towards_key 0 k root;
       upper_loop k (rev path)
     }"

fun lower_loop :: "nat \<Rightarrow> node_stack \<Rightarrow> sha_node option option" where
  "lower_loop k [] = Some None"
| "lower_loop k ((Leaf_node t it, d) # st) =
     (if item_key it < k then Some (Some (Leaf_node t it)) else lower_loop k st)"
| "lower_loop k ((Inner_node cs, d) # st) =
     (if d \<ge> SHAMAP_LEAF_DEPTH then None
      else case previous_child cs (select_branch d k) of
             None \<Rightarrow> lower_loop k st
           | Some n \<Rightarrow> map_option fst (last_below n (Suc d) []))"

definition lower_bound :: "nat \<Rightarrow> sha_node \<Rightarrow> sha_node option option" where
  "lower_bound k root =
     do {
       (leaf, path) \<leftarrow> walk_towards_key 0 k root;
       lower_loop k (rev path)
     }"

text \<open>
  The seek of \<^verbatim>\<open>iterate_from_inner\<close>. When the descent finds no leaf the loop goes round again
  with the deeper stack, which on a malformed tree may not end: then the value is \<^term>\<open>None\<close>.
\<close>

partial_function (option) seek_loop ::
  "nat \<Rightarrow> node_stack \<Rightarrow> (sha_node option \<times> node_stack) option" where
  "seek_loop k stack =
     (case stack of
        [] \<Rightarrow> Some (None, [])
      | (node, d) # st \<Rightarrow>
          (case node of
             Leaf_node t it \<Rightarrow>
               if item_key it > k then Some (Some node, stack) else seek_loop k st
           | Inner_node cs \<Rightarrow>
               if d \<ge> SHAMAP_LEAF_DEPTH then None
               else (case descend_after k cs d of
                       None \<Rightarrow> seek_loop k st
                     | Some n \<Rightarrow>
                         do {
                           (leaf, st') \<leftarrow> first_below n (Suc d) stack;
                           (case leaf of
                              Some l \<Rightarrow> Some (Some l, st')
                            | None \<Rightarrow> seek_loop k st')
                         })))"

definition leaf_key :: "sha_node \<Rightarrow> nat option" where
  "leaf_key n = (case n of Leaf_node t it \<Rightarrow> Some (item_key it) | Inner_node cs \<Rightarrow> None)"

fun collect_loop :: "nat \<Rightarrow> nat \<Rightarrow> node_stack \<Rightarrow> sha_node list option" where
  "collect_loop 0 k st = Some []"
| "collect_loop (Suc n) k st =
     do {
       (leaf, st') \<leftarrow> peek_next_item k st;
       (case leaf of
          None \<Rightarrow> Some []
        | Some l \<Rightarrow>
            do {
              k' \<leftarrow> leaf_key l;
              ls \<leftarrow> collect_loop n k' st';
              Some (l # ls)
            })
     }"

definition iterate_from_inner :: "nat \<Rightarrow> nat \<Rightarrow> sha_node \<Rightarrow> sha_node list option" where
  "iterate_from_inner start limit root =
     do {
       (t, path) \<leftarrow> walk_towards_key 0 start root;
       (leaf, st) \<leftarrow> seek_loop start (rev path);
       (case leaf of
          None \<Rightarrow> Some []
        | Some l \<Rightarrow>
            do {
              k \<leftarrow> leaf_key l;
              ls \<leftarrow> collect_loop (limit - 1) k st;
              Some (l # ls)
            })
     }"

definition iterate_from :: "nat \<Rightarrow> nat \<Rightarrow> sha_node \<Rightarrow> sha_node list option" where
  "iterate_from start limit root = (if limit = 0 then Some [] else iterate_from_inner start limit root)"

section \<open>Items in branch order\<close>

definition opt_items :: "sha_node option \<Rightarrow> sha_item list" where
  "opt_items c = (case c of None \<Rightarrow> [] | Some n \<Rightarrow> items n)"

definition item_span :: "sha_node option list \<Rightarrow> nat \<Rightarrow> nat \<Rightarrow> sha_item list" where
  "item_span cs lo hi = concat (map (\<lambda>i. opt_items (child_at cs i)) [lo..<hi])"

lemma opt_items_simps [simp]: "opt_items None = []" "opt_items (Some n) = items n"
  by (simp_all add: opt_items_def)

lemma items_span:
  assumes "length cs = 16"
  shows "items (Inner_node cs) = item_span cs 0 16"
proof -
  have "map (\<lambda>i. opt_items (child_at cs i)) [0..<16] = map opt_items cs"
    using assms by (intro nth_equalityI) (simp_all add: child_at_def)
  moreover have "items (Inner_node cs) = concat (map opt_items cs)"
    by (simp add: items.simps(2) opt_items_def [abs_def])
  ultimately show ?thesis by (simp add: item_span_def)
qed

lemma span_split: "lo \<le> m \<Longrightarrow> m \<le> hi \<Longrightarrow> item_span cs lo hi = item_span cs lo m @ item_span cs m hi"
  using upt_add_eq_append [of lo m "hi - m"] by (simp add: item_span_def)

lemma span_first: "lo < hi \<Longrightarrow> item_span cs lo hi = opt_items (child_at cs lo) @ item_span cs (Suc lo) hi"
  by (simp add: item_span_def upt_conv_Cons)

lemma span_last: "lo \<le> hi \<Longrightarrow> item_span cs lo (Suc hi) = item_span cs lo hi @ opt_items (child_at cs hi)"
  by (simp add: item_span_def)

lemma span_empty: "(\<And>i. lo \<le> i \<Longrightarrow> i < hi \<Longrightarrow> child_at cs i = None) \<Longrightarrow> item_span cs lo hi = []"
  by (simp add: item_span_def)

lemma span_at:
  "child_at cs b = Some n \<Longrightarrow> lo \<le> b \<Longrightarrow> b < hi
     \<Longrightarrow> item_span cs lo hi = item_span cs lo b @ items n @ item_span cs (Suc b) hi"
  using span_split [of lo b hi cs] span_first [of b hi cs] by simp

lemma set_span: "it \<in> set (item_span cs lo hi) \<longleftrightarrow> (\<exists>b n. lo \<le> b \<and> b < hi \<and> child_at cs b = Some n \<and> it \<in> item_set n)"
  by (force simp: item_span_def opt_items_def split: option.splits)

lemma find_upt:
  "find P [b..<e] = Some i \<longleftrightarrow> b \<le> i \<and> i < e \<and> P i \<and> (\<forall>j. b \<le> j \<longrightarrow> j < i \<longrightarrow> \<not> P j)"
proof (induction "e - b" arbitrary: b)
  case (Suc n)
  have lt: "b < e" using Suc(2) by simp
  have IH: "find P [Suc b..<e] = Some i \<longleftrightarrow> Suc b \<le> i \<and> i < e \<and> P i \<and> (\<forall>j. Suc b \<le> j \<longrightarrow> j < i \<longrightarrow> \<not> P j)"
    using Suc(2) by (intro Suc(1)) simp
  have "(\<forall>j. b \<le> j \<longrightarrow> j < i \<longrightarrow> \<not> P j) \<longleftrightarrow> (b < i \<longrightarrow> \<not> P b) \<and> (\<forall>j. Suc b \<le> j \<longrightarrow> j < i \<longrightarrow> \<not> P j)"
    (is "?l = ?r")
  proof
    assume r: ?r
    have "\<not> P j" if "b \<le> j" "j < i" for j using r that by (cases "j = b") simp_all
    then show ?l by blast
  qed simp
  then show ?case using lt IH by (cases "P b"; cases "i = b") (auto simp: upt_conv_Cons)
qed simp

lemma next_child_None: "next_child cs b = None \<longleftrightarrow> (\<forall>i. b \<le> i \<longrightarrow> i < 16 \<longrightarrow> child_at cs i = None)"
  by (fastforce simp: next_child_def BRANCH_FACTOR_def find_upt find_None_iff split: option.splits)

lemma next_child_Some:
  assumes "next_child cs b = Some n"
  obtains i where "b \<le> i" "i < 16" "child_at cs i = Some n" "item_span cs b 16 = items n @ item_span cs (Suc i) 16"
proof -
  obtain i where i: "b \<le> i" "i < 16" "child_at cs i = Some n" "\<forall>j. b \<le> j \<longrightarrow> j < i \<longrightarrow> child_at cs j = None"
    using assms by (auto simp: next_child_def BRANCH_FACTOR_def find_upt split: option.splits)
  have "item_span cs b i = []" using i(4) by (intro span_empty) simp
  then show thesis using that [OF i(1-3)] span_at [OF i(3,1,2)] by simp
qed

lemma find_rev_upt:
  "find P (rev [0..<b]) = Some i \<longleftrightarrow> i < b \<and> P i \<and> (\<forall>j. i < j \<longrightarrow> j < b \<longrightarrow> \<not> P j)"
proof (induction b)
  case (Suc b)
  show ?case by (auto simp: Suc.IH less_Suc_eq)
qed simp

lemma previous_child_None: "previous_child cs b = None \<longleftrightarrow> (\<forall>i < b. child_at cs i = None)"
  by (fastforce simp: previous_child_def find_rev_upt find_None_iff split: option.splits)

lemma previous_child_Some:
  assumes "previous_child cs b = Some n"
  obtains i where "i < b" "child_at cs i = Some n" "item_span cs 0 b = item_span cs 0 i @ items n"
proof -
  obtain i where i: "i < b" "child_at cs i = Some n" "\<forall>j. i < j \<longrightarrow> j < b \<longrightarrow> child_at cs j = None"
    using assms by (auto simp: previous_child_def find_rev_upt split: option.splits)
  have "item_span cs (Suc i) b = []" using i(3) by (intro span_empty) simp
  then show thesis using that [OF i(1,2)] span_at [OF i(2) _ i(1), of 0] by simp
qed

section \<open>Branch order is key order\<close>

lemma nibble_step:
  assumes "d < 64"
  shows "j div 16 ^ (63 - d) = 16 * (j div 16 ^ (64 - d)) + select_branch d j"
proof -
  have "64 - d = Suc (63 - d)" using assms by simp
  then have "(16 :: nat) ^ (64 - d) = 16 ^ (63 - d) * 16" by simp
  then have "j div 16 ^ (64 - d) = j div 16 ^ (63 - d) div 16" by (simp add: div_mult2_eq)
  then show ?thesis using assms by (simp add: select_branch_nibble)
qed

lemma branch_less:
  assumes "d < 64" "key_ok k" "key_ok k'" "same_prefix d k k'" "select_branch d k < select_branch d k'"
  shows "k < k'"
proof (rule ccontr)
  assume "\<not> k < k'"
  then have "k' div 16 ^ (63 - d) \<le> k div 16 ^ (63 - d)" by (intro div_le_mono) simp
  then show False
    using assms same_prefix_div [OF _ assms(2-4)] by (simp add: nibble_step [OF assms(1)])
qed

lemma same_prefix_sym: "same_prefix d k k' \<Longrightarrow> same_prefix d k' k"
  by (simp add: same_prefix_def)

lemma items_sorted:
  assumes "sha_wf ty d n" "\<And>it it'. it \<in> item_set n \<Longrightarrow> it' \<in> item_set n \<Longrightarrow> same_prefix d (item_key it) (item_key it')"
  shows "sorted_wrt (\<lambda>a b. item_key a < item_key b) (items n)"
  using assms
proof (induction n arbitrary: d)
  case (Inner_node cs)
  note wf = Inner_node.prems(1)
  have len: "length cs = 16" and d: "d < 64" using wf by simp_all
  have branch: "select_branch d (item_key it) = b" if "child_at cs b = Some n" "it \<in> item_set n" for b n it
    using sha_wf_branch [OF wf that] .
  have sub: "it \<in> item_set (Inner_node cs)" if "child_at cs b = Some n" "it \<in> item_set n" for b n it
    using that unfolding item_set_inner_iff by blast
  have below: "sorted_wrt (\<lambda>a b. item_key a < item_key b) (items n)" if n: "child_at cs b = Some n" for b n
  proof (rule Inner_node.IH [OF child_at_set [OF n] _ sha_wf_child [OF wf n]])
    fix it it' assume "it \<in> item_set n" "it' \<in> item_set n"
    then show "same_prefix (Suc d) (item_key it) (item_key it')"
      using Inner_node.prems(2) [OF sub [OF n] sub [OF n]] branch [OF n] by (simp add: same_prefix_Suc)
  qed simp
  have "sorted_wrt (\<lambda>a b. item_key a < item_key b) (item_span cs 0 m)" if "m \<le> 16" for m
    using that
  proof (induction m)
    case (Suc m)
    have "item_key a < item_key b" if a: "a \<in> set (item_span cs 0 m)" and b: "b \<in> set (opt_items (child_at cs m))" for a b
    proof -
      obtain n where n: "child_at cs m = Some n" "b \<in> item_set n" using b by (cases "child_at cs m") auto
      obtain i n' where n': "i < m" "child_at cs i = Some n'" "a \<in> item_set n'" using a by (auto simp: set_span)
      show ?thesis
        using branch_less [OF d, of "item_key a" "item_key b"] branch [OF n] branch [OF n'(2,3)] n'(1)
          sha_wf_items [OF wf sub [OF n'(2,3)]] sha_wf_items [OF wf sub [OF n]]
          Inner_node.prems(2) [OF sub [OF n'(2,3)] sub [OF n]] by simp
    qed
    moreover have "sorted_wrt (\<lambda>a b. item_key a < item_key b) (opt_items (child_at cs m))"
      using below by (simp add: opt_items_def split: option.splits)
    ultimately show ?case using Suc by (simp add: span_last sorted_wrt_append)
  qed (simp add: item_span_def)
  from this [of 16] show ?case by (simp add: items_span [OF len])
qed simp

lemma root_items_sorted: "sha_wf ty 0 n \<Longrightarrow> sorted_wrt (\<lambda>a b. item_key a < item_key b) (items n)"
  by (rule items_sorted, assumption) (rule same_prefix_0)

section \<open>Stacks\<close>

text \<open>A stack is a path of the tree that follows the branches of a key.\<close>

fun stack_ok :: "node_type \<Rightarrow> nat \<Rightarrow> node_stack \<Rightarrow> bool" where
  "stack_ok ty k [] \<longleftrightarrow> True"
| "stack_ok ty k [(n, d)] \<longleftrightarrow> sha_wf ty d n"
| "stack_ok ty k ((n, d) # (m, e) # st) \<longleftrightarrow>
     sha_wf ty d n \<and> d = Suc e \<and> (\<exists>cs. m = Inner_node cs \<and> child_at cs (select_branch e k) = Some n)
     \<and> stack_ok ty k ((m, e) # st)"

text \<open>The items that come after a key, and those that come before it, as seen from a stack.\<close>

fun items_above :: "nat \<Rightarrow> node_stack \<Rightarrow> sha_item list" where
  "items_above k [] = []"
| "items_above k ((Leaf_node t it, d) # st) = (if k < item_key it then [it] else []) @ items_above k st"
| "items_above k ((Inner_node cs, d) # st) = item_span cs (Suc (select_branch d k)) 16 @ items_above k st"

fun items_below :: "nat \<Rightarrow> node_stack \<Rightarrow> sha_item list" where
  "items_below k [] = []"
| "items_below k ((Leaf_node t it, d) # st) = items_below k st @ (if item_key it < k then [it] else [])"
| "items_below k ((Inner_node cs, d) # st) = items_below k st @ item_span cs 0 (select_branch d k)"

lemma stack_ok_tl: "stack_ok ty k (e # st) \<Longrightarrow> stack_ok ty k st"
  by (cases e; cases st) (auto elim: stack_ok.elims)

lemma stack_ok_wf: "stack_ok ty k ((n, d) # st) \<Longrightarrow> sha_wf ty d n"
  by (cases st) auto

lemma stack_rekey:
  assumes "stack_ok ty k ((n, d) # st)" "x \<in> item_set n"
  shows "stack_ok ty (item_key x) ((n, d) # st) \<and> items_above (item_key x) st = items_above k st"
  using assms
proof (induction st arbitrary: n d)
  case (Cons e st)
  obtain m j where e: "e = (m, j)" by fastforce
  obtain cs where m: "m = Inner_node cs" "child_at cs (select_branch j k) = Some n"
      and ok: "sha_wf ty d n" "d = Suc j" "stack_ok ty k ((m, j) # st)"
    using Cons.prems(1) e by auto
  have wf: "sha_wf ty j (Inner_node cs)" using stack_ok_wf [OF ok(3)] m(1) by simp
  have same: "select_branch j (item_key x) = select_branch j k"
    by (rule sha_wf_branch [OF wf m(2) Cons.prems(2)])
  have "x \<in> item_set m" using m Cons.prems(2) unfolding m(1) item_set_inner_iff by blast
  then have "stack_ok ty (item_key x) ((m, j) # st)" "items_above (item_key x) st = items_above k st"
    using Cons.IH [OF ok(3)] by auto
  then show ?case using e m ok(1,2) same by simp
qed simp

lemma stack_push:
  assumes "stack_ok ty k ((Inner_node cs, d) # st)" "child_at cs b = Some n" "x \<in> item_set n"
  shows "stack_ok ty (item_key x) ((n, Suc d) # (Inner_node cs, d) # st)"
    and "items_above (item_key x) ((Inner_node cs, d) # st) = item_span cs (Suc b) 16 @ items_above k st"
proof -
  have wf: "sha_wf ty d (Inner_node cs)" by (rule stack_ok_wf [OF assms(1)])
  have x: "x \<in> item_set (Inner_node cs)" using assms(2,3) unfolding item_set_inner_iff by blast
  have b: "select_branch d (item_key x) = b" by (rule sha_wf_branch [OF wf assms(2,3)])
  note re = stack_rekey [OF assms(1) x]
  show "stack_ok ty (item_key x) ((n, Suc d) # (Inner_node cs, d) # st)"
    using re sha_wf_child [OF wf assms(2)] b assms(2) by simp
  show "items_above (item_key x) ((Inner_node cs, d) # st) = item_span cs (Suc b) 16 @ items_above k st"
    using re b by simp
qed

lemma sha_wf_hd:
  assumes "sha_wf ty (Suc d) n"
  obtains x xs where "items n = x # xs"
  using sha_wf_nonempty [OF assms] by (cases "items n") auto

lemma first_below_spec:
  assumes "stack_ok ty (item_key x) ((n, d) # st)" "items n = x # xs"
  shows "\<exists>j st'. first_below n d st = Some (Some (Leaf_node ty x), (Leaf_node ty x, j) # st')
    \<and> stack_ok ty (item_key x) ((Leaf_node ty x, j) # st')
    \<and> items_above (item_key x) st' = xs @ items_above (item_key x) st"
  using assms
proof (induction n arbitrary: d st xs)
  case (Leaf_node t it)
  then have "t = ty" "it = x" "xs = []" using stack_ok_wf [OF Leaf_node.prems(1)] by auto
  then show ?case using Leaf_node.prems(1) by (auto simp: first_below_def)
next
  case (Inner_node cs)
  have wf: "sha_wf ty d (Inner_node cs)" by (rule stack_ok_wf [OF Inner_node.prems(1)])
  then have len: "length cs = 16" and d: "\<not> SHAMAP_LEAF_DEPTH \<le> d" by (simp_all add: SHAMAP_LEAF_DEPTH_def)
  have sp: "item_span cs 0 16 = x # xs" using Inner_node.prems(2) items_span [OF len] by simp
  then obtain n where n: "next_child cs 0 = Some n"
    by (cases "next_child cs 0") (simp_all add: next_child_None span_empty)
  obtain i where i: "child_at cs i = Some n" "item_span cs 0 16 = items n @ item_span cs (Suc i) 16"
    using next_child_Some [OF n] by blast
  obtain y ys where ys: "items n = y # ys" by (rule sha_wf_hd [OF sha_wf_child [OF wf i(1)]])
  have x: "y = x" "xs = ys @ item_span cs (Suc i) 16" "x \<in> item_set n" using sp i(2) ys by simp_all
  note push = stack_push [OF Inner_node.prems(1) i(1) x(3)]
  show ?case
    using Inner_node.IH [OF child_at_set [OF i(1)] _ push(1), of ys] ys x(1,2) push(2) d n
    by (simp add: first_below_def)
qed

lemma last_below_spec:
  assumes "sha_wf ty d n" "items n = xs @ [x]"
  shows "map_option fst (last_below n d st) = Some (Some (Leaf_node ty x))"
  using assms
proof (induction n arbitrary: d st xs)
  case (Inner_node cs)
  have len: "length cs = 16" and d: "\<not> SHAMAP_LEAF_DEPTH \<le> d"
    using Inner_node.prems(1) by (simp_all add: SHAMAP_LEAF_DEPTH_def)
  have sp: "item_span cs 0 16 = xs @ [x]" using Inner_node.prems(2) items_span [OF len] by simp
  then obtain n where n: "previous_child cs 16 = Some n"
    by (cases "previous_child cs 16") (simp_all add: previous_child_None span_empty)
  obtain i where i: "child_at cs i = Some n" "item_span cs 0 16 = item_span cs 0 i @ items n"
    using previous_child_Some [OF n] by blast
  have wf: "sha_wf ty (Suc d) n" by (rule sha_wf_child [OF Inner_node.prems(1) i(1)])
  obtain ys y where ys: "items n = ys @ [y]" using sha_wf_nonempty [OF wf] by (cases "items n" rule: rev_cases) auto
  then have "y = x" using sp i(2) by simp
  then show ?case
    using Inner_node.IH [OF child_at_set [OF i(1)] _ wf, of ys] ys d n
    by (simp add: last_below_def BRANCH_FACTOR_def)
qed (simp add: last_below_def)

section \<open>What the walks return\<close>

definition hd_opt :: "'a list \<Rightarrow> 'a option" where
  "hd_opt xs = (case xs of [] \<Rightarrow> None | x # ys \<Rightarrow> Some x)"

definition last_opt :: "'a list \<Rightarrow> 'a option" where
  "last_opt xs = hd_opt (rev xs)"

lemma hd_opt_simps [simp]: "hd_opt [] = None" "hd_opt (x # xs) = Some x"
  by (simp_all add: hd_opt_def)

lemma last_opt_simps [simp]: "last_opt [] = None" "last_opt (xs @ [x]) = Some x"
  by (simp_all add: last_opt_def)

lemma hd_opt_append: "xs \<noteq> [] \<Longrightarrow> hd_opt (xs @ ys) = hd_opt xs"
  by (cases xs) simp_all

lemma last_opt_append: "ys \<noteq> [] \<Longrightarrow> last_opt (xs @ ys) = last_opt ys"
  by (simp add: last_opt_def hd_opt_append)

text \<open>The descent from an inner node of a stack, when there is a branch to descend into.\<close>

lemma descend_after_cases:
  assumes "stack_ok ty k ((Inner_node cs, d) # st)"
  obtains "descend_after k cs d = None" "item_span cs (Suc (select_branch d k)) 16 = []"
  | n b x xs where "descend_after k cs d = Some n" "child_at cs b = Some n" "items n = x # xs"
      "item_span cs (Suc (select_branch d k)) 16 = x # xs @ item_span cs (Suc b) 16" "sha_wf ty (Suc d) n"
proof (cases "descend_after k cs d")
  case None
  then have "item_span cs (Suc (select_branch d k)) 16 = []"
    by (intro span_empty) (simp add: descend_after_def next_child_None)
  then show thesis using that(1) None by simp
next
  case (Some n)
  obtain b where b: "child_at cs b = Some n"
      "item_span cs (Suc (select_branch d k)) 16 = items n @ item_span cs (Suc b) 16"
    using next_child_Some [of cs "Suc (select_branch d k)" n] Some by (auto simp: descend_after_def)
  have wf: "sha_wf ty (Suc d) n" by (rule sha_wf_child [OF stack_ok_wf [OF assms] b(1)])
  obtain x xs where "items n = x # xs" by (rule sha_wf_hd [OF wf])
  then show thesis using that(2) [OF Some b(1)] b(2) wf by simp
qed

lemma stack_inner_depth: "stack_ok ty k ((Inner_node cs, d) # st) \<Longrightarrow> \<not> SHAMAP_LEAF_DEPTH \<le> d"
  using stack_ok_wf by (fastforce simp: SHAMAP_LEAF_DEPTH_def)

lemma stack_leaf_type: "stack_ok ty k ((Leaf_node t it, d) # st) \<Longrightarrow> t = ty"
  using stack_ok_wf by fastforce

lemma first_below_push:
  assumes "stack_ok ty k ((Inner_node cs, d) # st)" "child_at cs b = Some n" "items n = x # xs"
  shows "\<exists>j st'. first_below n (Suc d) ((Inner_node cs, d) # st)
      = Some (Some (Leaf_node ty x), (Leaf_node ty x, j) # st')
    \<and> stack_ok ty (item_key x) ((Leaf_node ty x, j) # st')
    \<and> items_above (item_key x) st' = xs @ item_span cs (Suc b) 16 @ items_above k st"
proof -
  have "x \<in> item_set n" using assms(3) by simp
  note push = stack_push [OF assms(1,2) this]
  show ?thesis using first_below_spec [OF push(1) assms(3)] push(2) by simp
qed

lemma upper_loop_spec:
  "stack_ok ty k st \<Longrightarrow> upper_loop k st = Some (map_option (Leaf_node ty) (hd_opt (items_above k st)))"
proof (induction k st rule: upper_loop.induct)
  case (2 k t it d st)
  then show ?case using stack_leaf_type [OF "2.prems"] stack_ok_tl [OF "2.prems"] by simp
next
  case (3 k cs d st)
  note depth = stack_inner_depth [OF "3.prems"]
  show ?case
  proof (cases rule: descend_after_cases [OF "3.prems"])
    case 1
    then show ?thesis using "3.IH" depth stack_ok_tl [OF "3.prems"] by simp
  next
    case (2 n b x xs)
    have "stack_ok ty (item_key x) [(n, Suc d)]" using 2(5) by simp
    then show ?thesis using first_below_spec [OF _ 2(3), of ty "Suc d" "[]"] 2 depth by auto
  qed
qed simp

lemma lower_loop_spec:
  "stack_ok ty k st \<Longrightarrow> lower_loop k st = Some (map_option (Leaf_node ty) (last_opt (items_below k st)))"
proof (induction k st rule: lower_loop.induct)
  case (2 k t it d st)
  then show ?case using stack_leaf_type [OF "2.prems"] stack_ok_tl [OF "2.prems"] by simp
next
  case (3 k cs d st)
  note depth = stack_inner_depth [OF "3.prems"]
  show ?case
  proof (cases "previous_child cs (select_branch d k)")
    case None
    then have "item_span cs 0 (select_branch d k) = []" by (intro span_empty) (simp add: previous_child_None)
    then show ?thesis using "3.IH" depth None stack_ok_tl [OF "3.prems"] by simp
  next
    case (Some n)
    obtain b where b: "child_at cs b = Some n" "item_span cs 0 (select_branch d k) = item_span cs 0 b @ items n"
      using previous_child_Some [OF Some] by blast
    have wf: "sha_wf ty (Suc d) n" by (rule sha_wf_child [OF stack_ok_wf [OF "3.prems"] b(1)])
    obtain ys y where ys: "items n = ys @ [y]"
      using sha_wf_nonempty [OF wf] by (cases "items n" rule: rev_cases) auto
    have "last_opt (items_below k ((Inner_node cs, d) # st)) = Some y"
      using last_opt_simps(2) [of "items_below k st @ item_span cs 0 b @ ys" y] b(2) ys by simp
    then show ?thesis using last_below_spec [OF wf ys, of "[]"] depth Some by simp
  qed
qed simp

text \<open>A walk that has the given items ahead of it stands on the first of them.\<close>

definition stands_on :: "node_type \<Rightarrow> sha_item list \<Rightarrow> (sha_node option \<times> node_stack) option \<Rightarrow> bool" where
  "stands_on ty its r \<longleftrightarrow>
     (case its of
        [] \<Rightarrow> r = Some (None, [])
      | x # xs \<Rightarrow> \<exists>j st. r = Some (Some (Leaf_node ty x), (Leaf_node ty x, j) # st)
          \<and> stack_ok ty (item_key x) ((Leaf_node ty x, j) # st) \<and> items_above (item_key x) st = xs)"

lemma seek_loop_spec:
  assumes "stack_ok ty k st"
  shows "stands_on ty (items_above k st) (seek_loop k st)"
  using assms
proof (induction k st rule: upper_loop.induct)
  case (1 k)
  show ?case by (simp add: stands_on_def seek_loop.simps)
next
  case (2 k t it d st)
  note t = stack_leaf_type [OF "2.prems"]
  show ?case
  proof (cases "k < item_key it")
    case True
    have "it \<in> item_set (Leaf_node t it)" by simp
    then show ?thesis
      using stack_rekey [OF "2.prems"] True t by (simp add: stands_on_def seek_loop.simps [of k "_ # _"])
  next
    case False
    then show ?thesis
      using "2.IH" stack_ok_tl [OF "2.prems"] by (simp add: seek_loop.simps [of k "_ # _"])
  qed
next
  case (3 k cs d st)
  note depth = stack_inner_depth [OF "3.prems"]
  show ?case
  proof (cases rule: descend_after_cases [OF "3.prems"])
    case 1
    then show ?thesis
      using "3.IH" depth stack_ok_tl [OF "3.prems"] by (simp add: seek_loop.simps [of k "_ # _"])
  next
    case (2 n b x xs)
    then show ?thesis
      using first_below_push [OF "3.prems" 2(2,3)] depth by (auto simp: stands_on_def seek_loop.simps [of k "_ # _"])
  qed
qed

lemma next_loop_spec:
  assumes "stack_ok ty k st" "\<forall>(n, d) \<in> set st. \<exists>cs. n = Inner_node cs"
  shows "stands_on ty (items_above k st) (next_loop k st)"
  using assms
proof (induction k st rule: next_loop.induct)
  case (3 k cs d st)
  note depth = stack_inner_depth [OF "3.prems"(1)]
  show ?case
  proof (cases rule: descend_after_cases [OF "3.prems"(1)])
    case 1
    then show ?thesis using "3.IH" depth stack_ok_tl [OF "3.prems"(1)] "3.prems"(2) by simp
  next
    case (2 n b x xs)
    then show ?thesis using first_below_push [OF "3.prems"(1) 2(2,3)] depth by (auto simp: stands_on_def)
  qed
qed (auto simp: stands_on_def)

text \<open>The path of a search has the items after the key above it and those before it below it.\<close>

lemma span_side:
  assumes wf: "sha_wf ty d (Inner_node cs)" and k: "key_ok k"
    and pre: "\<And>it. it \<in> item_set (Inner_node cs) \<Longrightarrow> same_prefix d (item_key it) k"
  shows "it \<in> set (item_span cs (Suc (select_branch d k)) 16) \<Longrightarrow> k < item_key it"
    and "it \<in> set (item_span cs 0 (select_branch d k)) \<Longrightarrow> item_key it < k"
proof -
  have d: "d < 64" using wf by simp
  have at: "it \<in> item_set (Inner_node cs)" "select_branch d (item_key it) = b" "key_ok (item_key it)"
    if "child_at cs b = Some n" "it \<in> item_set n" for b n it
  proof -
    show i: "it \<in> item_set (Inner_node cs)" using that unfolding item_set_inner_iff by blast
    show "select_branch d (item_key it) = b" by (rule sha_wf_branch [OF wf that])
    show "key_ok (item_key it)" by (rule sha_wf_items [OF wf i])
  qed
  show "k < item_key it" if m: "it \<in> set (item_span cs (Suc (select_branch d k)) 16)"
  proof -
    obtain b n where n: "select_branch d k < b" "child_at cs b = Some n" "it \<in> item_set n"
      using m by (auto simp: set_span Suc_le_eq)
    note a = at [OF n(2,3)]
    show ?thesis
      by (rule branch_less [OF d k a(3) same_prefix_sym [OF pre [OF a(1)]]]) (use n(1) a(2) in simp)
  qed
  show "item_key it < k" if m: "it \<in> set (item_span cs 0 (select_branch d k))"
  proof -
    obtain b n where n: "b < select_branch d k" "child_at cs b = Some n" "it \<in> item_set n"
      using m by (auto simp: set_span)
    note a = at [OF n(2,3)]
    show ?thesis by (rule branch_less [OF d a(3) k pre [OF a(1)]]) (use n(1) a(2) in simp)
  qed
qed

lemma filter_inner:
  assumes wf: "sha_wf ty d (Inner_node cs)" and k: "key_ok k"
    and pre: "\<And>it. it \<in> item_set (Inner_node cs) \<Longrightarrow> same_prefix d (item_key it) k"
  shows "filter (\<lambda>it. k < item_key it) (items (Inner_node cs))
      = filter (\<lambda>it. k < item_key it) (opt_items (child_at cs (select_branch d k)))
        @ item_span cs (Suc (select_branch d k)) 16"
    and "filter (\<lambda>it. item_key it < k) (items (Inner_node cs))
      = item_span cs 0 (select_branch d k)
        @ filter (\<lambda>it. item_key it < k) (opt_items (child_at cs (select_branch d k)))"
proof -
  let ?b = "select_branch d k"
  have len: "length cs = 16" and b: "?b < 16" using wf select_branch_bound by simp_all
  have split: "items (Inner_node cs) = item_span cs 0 ?b @ opt_items (child_at cs ?b) @ item_span cs (Suc ?b) 16"
    using span_split [of 0 ?b 16 cs] span_first [of ?b 16 cs] b by (simp add: items_span [OF len])
  note side = span_side [OF wf k pre]
  have lo: "filter (\<lambda>it. k < item_key it) (item_span cs 0 ?b) = []"
      "filter (\<lambda>it. item_key it < k) (item_span cs 0 ?b) = item_span cs 0 ?b"
    using side(2) by (force simp: filter_empty_conv filter_id_conv)+
  have hi: "filter (\<lambda>it. item_key it < k) (item_span cs (Suc ?b) 16) = []"
      "filter (\<lambda>it. k < item_key it) (item_span cs (Suc ?b) 16) = item_span cs (Suc ?b) 16"
    using side(1) by (force simp: filter_empty_conv filter_id_conv)+
  show "filter (\<lambda>it. k < item_key it) (items (Inner_node cs))
      = filter (\<lambda>it. k < item_key it) (opt_items (child_at cs ?b)) @ item_span cs (Suc ?b) 16"
    using split lo hi by simp
  show "filter (\<lambda>it. item_key it < k) (items (Inner_node cs))
      = item_span cs 0 ?b @ filter (\<lambda>it. item_key it < k) (opt_items (child_at cs ?b))"
    using split lo hi by simp
qed

lemma walk_stack:
  assumes "stack_ok ty k ((n, d) # st)" "key_ok k"
    and "\<And>it. it \<in> item_set n \<Longrightarrow> same_prefix d (item_key it) k"
  shows "\<exists>t p. walk_towards_key d k n = Some (t, p) \<and> stack_ok ty k (rev p @ st)
    \<and> items_above k (rev p @ st) = filter (\<lambda>it. k < item_key it) (items n) @ items_above k st
    \<and> items_below k (rev p @ st) = items_below k st @ filter (\<lambda>it. item_key it < k) (items n)"
  using assms
proof (induction d k n arbitrary: st rule: walk_towards_key.induct)
  case (2 d k cs)
  note wf = stack_ok_wf [OF "2.prems"(1)]
  note depth = stack_inner_depth [OF "2.prems"(1)]
  note fil = filter_inner [OF wf "2.prems"(2,3)]
  show ?case
  proof (cases "child_at cs (select_branch d k)")
    case None
    then show ?thesis using depth fil "2.prems"(1) by simp
  next
    case (Some n)
    have ok: "stack_ok ty k ((n, Suc d) # (Inner_node cs, d) # st)"
      using Some "2.prems"(1) sha_wf_child [OF wf Some] by simp
    have "same_prefix (Suc d) (item_key it) k" if i: "it \<in> item_set n" for it
    proof -
      have "it \<in> item_set (Inner_node cs)" using Some i unfolding item_set_inner_iff by blast
      then show ?thesis
        using "2.prems"(3) sha_wf_branch [OF wf Some i] by (simp add: same_prefix_Suc)
    qed
    then show ?thesis using "2.IH" [OF depth Some ok "2.prems"(2)] depth Some fil by fastforce
  qed
qed simp

section \<open>Bounds and ranges\<close>

lemma walk_root_stack:
  assumes "sha_wf ty 0 root" "key_ok k"
  obtains t p where "walk_towards_key 0 k root = Some (t, p)" "stack_ok ty k (rev p)"
    "items_above k (rev p) = filter (\<lambda>it. k < item_key it) (items root)"
    "items_below k (rev p) = filter (\<lambda>it. item_key it < k) (items root)"
proof -
  have "stack_ok ty k [(root, 0)]" using assms(1) by simp
  from walk_stack [OF this assms(2) same_prefix_0] that show thesis by auto
qed

lemma upper_bound_items:
  assumes "sha_wf ty 0 root" "key_ok k"
  shows "upper_bound k root
    = Some (map_option (Leaf_node ty) (hd_opt (filter (\<lambda>it. k < item_key it) (items root))))"
  using walk_root_stack [OF assms] upper_loop_spec by (fastforce simp: upper_bound_def)

lemma lower_bound_items:
  assumes "sha_wf ty 0 root" "key_ok k"
  shows "lower_bound k root
    = Some (map_option (Leaf_node ty) (last_opt (filter (\<lambda>it. item_key it < k) (items root))))"
  using walk_root_stack [OF assms] lower_loop_spec by (fastforce simp: lower_bound_def)

lemma stack_below_inner:
  "stack_ok ty k (e # st) \<Longrightarrow> \<forall>(n, d) \<in> set st. \<exists>cs. n = Inner_node cs"
proof (induction st arbitrary: e)
  case (Cons f st)
  obtain n d m j where "e = (n, d)" "f = (m, j)" by fastforce
  then show ?case using Cons.IH [of f] Cons.prems by auto
qed simp

lemma peek_next_item_spec:
  assumes "stack_ok ty k ((Leaf_node t it, d) # st)"
  shows "stands_on ty (items_above k st) (peek_next_item k ((Leaf_node t it, d) # st))"
  using next_loop_spec [OF stack_ok_tl [OF assms] stack_below_inner [OF assms]] by simp

lemma peek_first_item_spec:
  assumes "sha_wf ty 0 root"
  shows "stands_on ty (items root) (peek_first_item root)"
proof (cases "items root")
  case Nil
  then obtain cs where cs: "root = Inner_node cs" by (cases root) simp_all
  then have "next_child cs 0 = None"
  proof (cases "next_child cs 0")
    case (Some n)
    obtain i where i: "child_at cs i = Some n" using next_child_Some [OF Some] by blast
    have "\<exists>it. it \<in> item_set n" using sha_wf_nonempty [OF sha_wf_child [OF assms [unfolded cs] i]] by (simp add: ex_in_conv)
    then show ?thesis using i Nil cs item_set_inner_iff [of _ cs] by fastforce
  qed
  then show ?thesis using Nil cs by (simp add: stands_on_def peek_first_item_def first_below_def)
next
  case (Cons x xs)
  have "stack_ok ty (item_key x) [(root, 0)]" using assms by simp
  then show ?thesis
    using first_below_spec [OF _ Cons, of ty 0 "[]"] Cons by (auto simp: stands_on_def peek_first_item_def)
qed

lemma collect_loop_spec:
  "stack_ok ty k ((Leaf_node t it, d) # st)
     \<Longrightarrow> collect_loop m k ((Leaf_node t it, d) # st) = Some (map (Leaf_node ty) (take m (items_above k st)))"
proof (induction m arbitrary: k t it d st)
  case (Suc m)
  show ?case
  proof (cases "items_above k st")
    case Nil
    then show ?thesis using peek_next_item_spec [OF Suc.prems] by (simp add: stands_on_def)
  next
    case (Cons x xs)
    obtain j st' where "peek_next_item k ((Leaf_node t it, d) # st) = Some (Some (Leaf_node ty x), (Leaf_node ty x, j) # st')"
        "stack_ok ty (item_key x) ((Leaf_node ty x, j) # st')" "items_above (item_key x) st' = xs"
      using peek_next_item_spec [OF Suc.prems] Cons by (auto simp: stands_on_def)
    then show ?thesis using Suc.IH Cons by (simp add: leaf_key_def)
  qed
qed simp

lemma iterate_from_items:
  assumes "sha_wf ty 0 root" "key_ok k"
  shows "iterate_from k limit root
    = Some (map (Leaf_node ty) (take limit (filter (\<lambda>it. k < item_key it) (items root))))"
proof (cases limit)
  case (Suc m)
  let ?its = "filter (\<lambda>it. k < item_key it) (items root)"
  obtain t p where p: "walk_towards_key 0 k root = Some (t, p)" "stack_ok ty k (rev p)" "items_above k (rev p) = ?its"
    by (rule walk_root_stack [OF assms])
  have st: "stands_on ty ?its (seek_loop k (rev p))" using seek_loop_spec [OF p(2)] p(3) by simp
  show ?thesis
  proof (cases ?its)
    case Nil
    then show ?thesis
      using st p(1) Suc by (simp add: stands_on_def iterate_from_def iterate_from_inner_def)
  next
    case (Cons x xs)
    obtain j st' where "seek_loop k (rev p) = Some (Some (Leaf_node ty x), (Leaf_node ty x, j) # st')"
        "stack_ok ty (item_key x) ((Leaf_node ty x, j) # st')" "items_above (item_key x) st' = xs"
      using st Cons by (auto simp: stands_on_def)
    then show ?thesis
      using p(1) Suc Cons collect_loop_spec by (simp add: iterate_from_def iterate_from_inner_def leaf_key_def)
  qed
qed (simp add: iterate_from_def)

text \<open>The items after a key are those of the map, in key order.\<close>

lemma sorted_keys_eq:
  assumes "sorted_wrt (\<lambda>a b. item_key a < item_key b) its"
  shows "map item_key its = sorted_list_of_set (item_key ` set its)"
proof -
  have "sorted_wrt (<) (map item_key its)" using assms by (simp add: sorted_wrt_map)
  then have "sorted (map item_key its)" "distinct (map item_key its)"
    by (simp_all add: strict_sorted_iff)
  then show ?thesis using sorted_list_of_set.idem_if_sorted_distinct [of "map item_key its"] by simp
qed

lemma items_after:
  assumes "sha_wf ty 0 root"
  shows "filter (\<lambda>it. P (item_key it)) (items root)
    = map (\<lambda>k. the (contents root k)) (sorted_list_of_set {k \<in> dom (contents root). P k})"
proof -
  let ?its = "filter (\<lambda>it. P (item_key it)) (items root)"
  have keys: "map item_key ?its = sorted_list_of_set (item_key ` set ?its)"
    by (intro sorted_keys_eq sorted_wrt_filter root_items_sorted [OF assms])
  have "item_key ` set ?its = {k \<in> dom (contents root). P k}"
    using contents_Some [OF assms] by (auto simp: image_iff)
  then have keys': "map item_key ?its = sorted_list_of_set {k \<in> dom (contents root). P k}"
    using keys by simp
  have "map (\<lambda>it. the (contents root (item_key it))) ?its = ?its"
  proof (rule map_idI)
    fix it assume "it \<in> set ?its"
    then have "contents root (item_key it) = Some it" by (simp add: contents_Some [OF assms])
    then show "the (contents root (item_key it)) = it" by simp
  qed
  then have "?its = map (\<lambda>k. the (contents root k)) (map item_key ?its)" by (simp add: comp_def)
  then show ?thesis unfolding keys' .
qed

lemma finite_dom_contents: "finite (dom (contents root))"
  using finite_dom_map_of [of "map (\<lambda>it. (item_key it, it)) (items root)"]
  by (simp add: contents_def [abs_def])

lemma upper_bound_least:
  assumes "sha_wf ty 0 root" "key_ok k"
  shows "upper_bound k root
    = Some (let after = {j \<in> dom (contents root). k < j}
            in if after = {} then None else Some (Leaf_node ty (the (contents root (Min after)))))"
proof -
  let ?S = "{j \<in> dom (contents root). k < j}"
  have "finite ?S" using finite_dom_contents [of root] by simp
  then have "hd_opt (map (\<lambda>k. the (contents root k)) (sorted_list_of_set ?S))
      = (if ?S = {} then None else Some (the (contents root (Min ?S))))"
    using sorted_list_of_set_nonempty [of ?S] by (cases "?S = {}") (simp_all only: hd_opt_simps, simp_all)
  then show ?thesis
    unfolding upper_bound_items [OF assms] items_after [OF assms(1), of "(<) k"] Let_def by simp
qed

end
