(* ===== verification/SHAMap_Ops.thy ===== *)
theory SHAMap_Ops
  imports SHAMap_Map
begin

text \<open>
  The mutating operations of a SHAMap as steps, the same steps on a partial map, and that the former
  refine the latter.
\<close>

section \<open>Runs of operations\<close>

text \<open>
  The mutating operations as a client issues them. The answer is the error or the flag that is
  returned; a failed operation leaves the tree as it was.
\<close>

datatype sha_op = Add_item sha_item | Update_item sha_item | Delete_item nat

definition sha_answer ::
  "sha_node \<Rightarrow> mutation_error + bool \<times> sha_node \<Rightarrow> (mutation_error + bool) \<times> sha_node" where
  "sha_answer n res = (case res of Inl e \<Rightarrow> (Inl e, n) | Inr (b, n') \<Rightarrow> (Inr b, n'))"

fun sha_step :: "node_type \<Rightarrow> sha_op \<Rightarrow> sha_node \<Rightarrow> ((mutation_error + bool) \<times> sha_node) option" where
  "sha_step ty (Add_item it) n = map_option (sha_answer n) (add_item ty it n)"
| "sha_step ty (Update_item it) n = map_option (sha_answer n) (update_item ty it n)"
| "sha_step ty (Delete_item k) n = map_option (\<lambda>(b, n'). (Inr b, n')) (delete_item k n)"

fun sha_run :: "node_type \<Rightarrow> sha_op list \<Rightarrow> sha_node \<Rightarrow> ((mutation_error + bool) list \<times> sha_node) option" where
  "sha_run ty [] n = Some ([], n)"
| "sha_run ty (op # ops) n =
     do { (a, n1) \<leftarrow> sha_step ty op n; (as, n2) \<leftarrow> sha_run ty ops n1; Some (a # as, n2) }"

text \<open>The same operations on a partial map.\<close>

fun map_step :: "sha_op \<Rightarrow> (nat \<rightharpoonup> sha_item) \<Rightarrow> (mutation_error + bool) \<times> (nat \<rightharpoonup> sha_item)" where
  "map_step (Add_item it) m =
     (if m (item_key it) = None then (Inr True, m(item_key it \<mapsto> it)) else (Inr False, m))"
| "map_step (Update_item it) m =
     (if m (item_key it) = None then (Inl (MissingExactLeaf (item_key it)), m)
      else (Inr True, m(item_key it \<mapsto> it)))"
| "map_step (Delete_item k) m = (Inr (m k \<noteq> None), m(k := None))"

fun map_run :: "sha_op list \<Rightarrow> (nat \<rightharpoonup> sha_item) \<Rightarrow> (mutation_error + bool) list \<times> (nat \<rightharpoonup> sha_item)" where
  "map_run [] m = ([], m)"
| "map_run (op # ops) m =
     (let (a, m1) = map_step op m; (as, m2) = map_run ops m1 in (a # as, m2))"

fun sha_op_ok :: "sha_op \<Rightarrow> bool" where
  "sha_op_ok (Add_item it) = key_ok (item_key it)"
| "sha_op_ok (Update_item it) = key_ok (item_key it)"
| "sha_op_ok (Delete_item k) = True"

lemma contents_by_items:
  assumes "sha_root ty n" "\<And>it. it \<in> item_set n \<longleftrightarrow> m (item_key it) = Some it" "\<And>k it. m k = Some it \<Longrightarrow> item_key it = k"
  shows "contents n = m"
proof
  fix k
  have wf: "sha_wf ty 0 n" using assms(1) by (simp add: sha_root_def)
  show "contents n k = m k"
  proof (cases "m k")
    case None
    then show ?thesis using assms(2) by (auto simp: contents_None)
  next
    case (Some it)
    then have "item_key it = k" by (rule assms(3))
    then show ?thesis using Some assms(2) contents_Some [OF wf] by simp
  qed
qed

lemma contents_items: "sha_root ty n \<Longrightarrow> it \<in> item_set n \<longleftrightarrow> contents n (item_key it) = Some it"
  using contents_Some [of ty 0 n "item_key it" it] by (simp add: sha_root_def)

lemma contents_key: "sha_root ty n \<Longrightarrow> contents n k = Some it \<Longrightarrow> item_key it = k"
  using contents_Some [of ty 0 n k it] by (simp add: sha_root_def)

lemma sha_step_refines:
  assumes "sha_root ty n" "sha_op_ok op"
  shows "\<exists>n'. sha_step ty op n = Some (fst (map_step op (contents n)), n') \<and> sha_root ty n'
    \<and> contents n' = snd (map_step op (contents n))"
proof -
  have ty: "ty \<noteq> Inner_type" using assms(1) by (simp add: sha_root_def)
  note ci = contents_items [OF assms(1)] and ck = contents_key [OF assms(1)]
  show ?thesis
  proof (cases op)
    case (Add_item it)
    show ?thesis
    proof (cases "contents n (item_key it)")
      case None
      obtain n' where n': "add_item ty it n = Some (Inr (True, n'))" "sha_root ty n'"
          "item_set n' = insert it (item_set n)"
        using add_item_new [OF assms(1) _ None] assms(2) Add_item by auto
      have "contents n' = (contents n)(item_key it \<mapsto> it)"
        by (rule contents_by_items [OF n'(2)]) (use n'(3) None ci ck in \<open>auto split: if_splits\<close>)
      then show ?thesis using n' Add_item None by (simp add: sha_answer_def)
    qed (use Add_item assms(1) ty add_item_old in \<open>force simp: sha_answer_def\<close>)
  next
    case (Update_item it)
    show ?thesis
    proof (cases "contents n (item_key it)")
      case None
      then show ?thesis using Update_item assms(1) update_item_new [OF assms(1) None ty] by (simp add: sha_answer_def)
    next
      case (Some old)
      obtain n' where n': "update_item ty it n = Some (Inr (True, n'))" "sha_root ty n'"
          "item_set n' = insert it (item_set n - {old})"
        using update_item_old [OF assms(1) _ Some] assms(2) Update_item by auto
      have "contents n' = (contents n)(item_key it \<mapsto> it)"
        by (rule contents_by_items [OF n'(2)]) (use n'(3) Some ci ck in \<open>auto split: if_splits\<close>)
      then show ?thesis using n' Update_item Some by (simp add: sha_answer_def)
    qed
  next
    case (Delete_item k)
    show ?thesis
    proof (cases "contents n k")
      case None
      then show ?thesis using Delete_item assms(1) delete_item_new [OF assms(1) None]
        by (simp add: fun_upd_idem)
    next
      case (Some old)
      obtain n' where n': "delete_item k n = Some (True, n')" "sha_root ty n'" "item_set n' = item_set n - {old}"
        using delete_item_old [OF assms(1) Some] by auto
      have "contents n' = (contents n)(k := None)"
        by (rule contents_by_items [OF n'(2)]) (use n'(3) Some ci ck in \<open>auto split: if_splits\<close>)
      then show ?thesis using n' Delete_item Some by simp
    qed
  qed
qed

lemma sha_run_refines:
  assumes "sha_root ty n" "\<And>op. op \<in> set ops \<Longrightarrow> sha_op_ok op"
  shows "\<exists>n'. sha_run ty ops n = Some (fst (map_run ops (contents n)), n') \<and> sha_root ty n'
    \<and> contents n' = snd (map_run ops (contents n))"
  using assms
proof (induction ops arbitrary: n)
  case (Cons op ops)
  obtain n1 where n1: "sha_step ty op n = Some (fst (map_step op (contents n)), n1)" "sha_root ty n1"
      "contents n1 = snd (map_step op (contents n))"
    using sha_step_refines [OF Cons.prems(1), of op] Cons.prems(2) by auto
  obtain n2 where "sha_run ty ops n1 = Some (fst (map_run ops (contents n1)), n2)" "sha_root ty n2"
      "contents n2 = snd (map_run ops (contents n1))"
    using Cons.IH [OF n1(2)] Cons.prems(2) by auto
  then show ?case using n1 by (simp add: split_beta Let_def)
qed simp

lemma new_inner_root: "ty \<noteq> Inner_type \<Longrightarrow> sha_root ty new_inner"
  by (auto simp: sha_root_def new_inner_def BRANCH_FACTOR_def child_at_def)

lemma new_inner_contents: "contents new_inner = Map.empty"
  by (rule ext) (auto simp: contents_None new_inner_def items.simps(2))

end
