(* ===== verification/SHAMap_Properties.thy ===== *)
theory SHAMap_Properties
  imports Rcl_Sample SHAMap_Iterate SHAMap_Ops
begin

text \<open>
  The promises of the SHAMap to its clients: it is a partial map from keys to items, its shape and
  root hash depend on that map only, and comparing two maps finds the keys on which they differ.
\<close>

section \<open>The map\<close>

text \<open>
  C3. A SHAMap that starts empty is a map from keys to items: any sequence of additions, updates and
  deletions over 256-bit keys runs without panic, answers exactly what the same operations on a
  partial map answer (the flags and the error of an update of a missing key included), and leaves a
  well-formed tree in which searching for a key finds the item the partial map has.
\<close>

theorem sha_run_is_map:
  assumes "ty \<noteq> Inner_type" "\<forall>op \<in> set ops. sha_op_ok op"
  shows "\<exists>n. sha_run ty ops new_inner = Some (fst (map_run ops Map.empty), n) \<and> sha_root ty n
    \<and> (\<forall>k. peek_item k n = Some (snd (map_run ops Map.empty) k)
           \<and> has_item k n = Some (snd (map_run ops Map.empty) k \<noteq> None))"
proof -
  obtain n where n: "sha_run ty ops new_inner = Some (fst (map_run ops Map.empty), n)" "sha_root ty n"
      "contents n = snd (map_run ops Map.empty)"
    using sha_run_refines [OF new_inner_root [OF assms(1)], of ops] assms(2) unfolding new_inner_contents by auto
  then have "sha_wf ty 0 n" by (simp add: sha_root_def)
  then show ?thesis using n peek_item_contents has_item_contents by auto
qed

definition sample_sha_ops :: "sha_op list" where
  "sample_sha_ops =
     [Add_item \<lparr>item_key = 5, item_data = [1]\<rparr>, Add_item \<lparr>item_key = 6, item_data = [2]\<rparr>,
      Add_item \<lparr>item_key = 5, item_data = [3]\<rparr>, Update_item \<lparr>item_key = 6, item_data = [4]\<rparr>,
      Update_item \<lparr>item_key = 7, item_data = [5]\<rparr>, Delete_item 5, Delete_item 5]"

lemma sample_sha_ops_ok: "\<forall>op \<in> set sample_sha_ops. sha_op_ok op"
  by (simp add: sample_sha_ops_def key_ok_def)

theorem sha_run_is_map_witness:
  "\<exists>n. sha_run AccountState sample_sha_ops new_inner =
      Some ([Inr True, Inr True, Inr False, Inr True, Inl (MissingExactLeaf 7), Inr True, Inr False], n)
    \<and> peek_item 6 n = Some (Some \<lparr>item_key = 6, item_data = [4]\<rparr>) \<and> peek_item 5 n = Some None"
  using sha_run_is_map [OF _ sample_sha_ops_ok, of AccountState] by (fastforce simp: sample_sha_ops_def)

text \<open>
  C21. The tree, and with it the root hash, depends on the contents only and not on the history: two
  sequences of operations from the empty tree that leave the same partial map leave the same tree.
\<close>

theorem sha_run_canonical:
  assumes "ty \<noteq> Inner_type" "\<forall>op \<in> set (ops @ ops'). sha_op_ok op"
    and "snd (map_run ops Map.empty) = snd (map_run ops' Map.empty)"
    and "sha_run ty ops new_inner = Some (as, n)" "sha_run ty ops' new_inner = Some (as', n')"
  shows "n = n' \<and> node_hash H n = node_hash H n'"
proof -
  note r = sha_run_refines [OF new_inner_root [OF assms(1)], unfolded new_inner_contents]
  have "sha_root ty n \<and> contents n = snd (map_run ops Map.empty)" using r [of ops] assms(2,4) by auto
  moreover have "sha_root ty n' \<and> contents n' = snd (map_run ops Map.empty)" using r [of ops'] assms(2,3,5) by auto
  ultimately have "n = n'" using sha_root_canonical [of ty n n'] by simp
  then show ?thesis by simp
qed

theorem sha_run_canonical_witness:
  "\<exists>n as. sha_run AccountState sample_sha_ops new_inner = Some (as, n)
    \<and> sha_run AccountState [Add_item \<lparr>item_key = 6, item_data = [4]\<rparr>] new_inner = Some ([Inr True], n)"
proof -
  let ?o = "[Add_item \<lparr>item_key = 6, item_data = [4]\<rparr>]"
  have ok: "\<forall>op \<in> set (sample_sha_ops @ ?o). sha_op_ok op" using sample_sha_ops_ok by (auto simp: key_ok_def)
  have eq: "snd (map_run sample_sha_ops Map.empty) = snd (map_run ?o Map.empty)"
    by (auto simp: sample_sha_ops_def)
  note r = sha_run_refines [OF new_inner_root, of AccountState, unfolded new_inner_contents]
  obtain n as where n: "sha_run AccountState sample_sha_ops new_inner = Some (as, n)"
    using r [of sample_sha_ops] sample_sha_ops_ok by auto
  obtain n' where n': "sha_run AccountState ?o new_inner = Some ([Inr True], n')"
    using r [of ?o] by (auto simp: key_ok_def)
  have "n = n'" using sha_run_canonical [OF _ ok eq n n', of sample_hash] by simp
  then show ?thesis using n n' by blast
qed

text \<open>
  C23. Deleting what was added restores the tree: adding an item under a new key answers true, the
  search then finds that item, and deleting the key answers true and gives back the tree from
  before, splits and collapses of inner nodes included.
\<close>

theorem add_delete_round_trip:
  assumes "sha_root ty n" "key_ok (item_key it)" "contents n (item_key it) = None"
  shows "\<exists>n'. add_item ty it n = Some (Inr (True, n')) \<and> peek_item (item_key it) n' = Some (Some it)
    \<and> delete_item (item_key it) n' = Some (True, n)"
proof -
  obtain n' where n': "add_item ty it n = Some (Inr (True, n'))" "sha_root ty n'" "item_set n' = insert it (item_set n)"
    using add_item_new [OF assms] by blast
  have c: "contents n' (item_key it) = Some it" using contents_items [OF n'(2), of it] n'(3) by simp
  then have f: "peek_item (item_key it) n' = Some (Some it)"
    using peek_item_contents [of ty n'] n'(2) by (simp add: sha_root_def)
  obtain m where m: "delete_item (item_key it) n' = Some (True, m)" "sha_root ty m" "item_set m = item_set n' - {it}"
    using delete_item_old [OF n'(2) c] by blast
  have "it \<notin> item_set n" using assms(3) by (auto simp: contents_None)
  then have "item_set m = item_set n" using m(3) n'(3) by auto
  then have "m = n" using sha_wf_canonical [of ty 0 m n] assms(1) m(2) by (simp add: sha_root_def)
  then show ?thesis using n'(1) f m(1) by blast
qed

theorem add_delete_round_trip_witness:
  "\<exists>n n'. sha_run AccountState [Add_item \<lparr>item_key = 5, item_data = [1]\<rparr>] new_inner = Some ([Inr True], n)
    \<and> add_item AccountState \<lparr>item_key = 6, item_data = [2]\<rparr> n = Some (Inr (True, n'))
    \<and> delete_item 6 n' = Some (True, n)"
proof -
  let ?o = "[Add_item \<lparr>item_key = 5, item_data = [1]\<rparr>]"
  obtain n where n: "sha_run AccountState ?o new_inner = Some ([Inr True], n)" "sha_root AccountState n"
      "contents n = [5 \<mapsto> \<lparr>item_key = 5, item_data = [1]\<rparr>]"
    using sha_run_refines [OF new_inner_root, of AccountState ?o, unfolded new_inner_contents] by (auto simp: key_ok_def)
  show ?thesis
    using add_delete_round_trip [OF n(2), of "\<lparr>item_key = 6, item_data = [2]\<rparr>"] n by (auto simp: key_ok_def)
qed

text \<open>
  The error paths of an update: a missing key is reported as missing, and a leaf of one type is
  never turned into another, the existing type being reported.
\<close>

theorem update_item_errors:
  assumes "sha_root ty n" "t \<noteq> Inner_type"
  shows "(contents n (item_key it) = None \<longrightarrow> update_item t it n = Some (Inl (MissingExactLeaf (item_key it))))
    \<and> (\<forall>old. contents n (item_key it) = Some old \<longrightarrow> t \<noteq> ty \<longrightarrow> update_item t it n = Some (Inl (CrossTypeChange t ty)))"
proof (intro conjI impI allI)
  show "update_item t it n = Some (Inl (MissingExactLeaf (item_key it)))" if "contents n (item_key it) = None"
    by (rule update_item_new [OF assms(1) that assms(2)])
  fix old
  assume o: "contents n (item_key it) = Some old" and t: "t \<noteq> ty"
  have wf: "sha_wf ty 0 n" using assms(1) by (simp add: sha_root_def)
  have "old \<in> item_set n" "item_key old = item_key it" using o contents_Some [OF wf] by auto
  then obtain p where "walk_towards_key 0 (item_key it) n = Some (Some (Leaf_node ty old), p)"
    using walk_spec [OF wf, of "item_key it"] by auto
  then show "update_item t it n = Some (Inl (CrossTypeChange t ty))"
    using assms(2) t \<open>item_key old = item_key it\<close> by (simp add: update_item_def)
qed

theorem update_item_errors_witness:
  "\<exists>n. sha_run AccountState [Add_item \<lparr>item_key = 5, item_data = [1]\<rparr>] new_inner = Some ([Inr True], n)
    \<and> update_item TransactionMd \<lparr>item_key = 5, item_data = [2]\<rparr> n = Some (Inl (CrossTypeChange TransactionMd AccountState))
    \<and> update_item AccountState \<lparr>item_key = 6, item_data = [2]\<rparr> n = Some (Inl (MissingExactLeaf 6))"
proof -
  let ?o = "[Add_item \<lparr>item_key = 5, item_data = [1]\<rparr>]"
  obtain n where n: "sha_run AccountState ?o new_inner = Some ([Inr True], n)" "sha_root AccountState n"
      "contents n = [5 \<mapsto> \<lparr>item_key = 5, item_data = [1]\<rparr>]"
    using sha_run_refines [OF new_inner_root, of AccountState ?o, unfolded new_inner_contents] by (auto simp: key_ok_def)
  show ?thesis
    using update_item_errors [OF n(2), of AccountState "\<lparr>item_key = 6, item_data = [2]\<rparr>"]
      update_item_errors [OF n(2), of TransactionMd "\<lparr>item_key = 5, item_data = [2]\<rparr>"] n by simp
qed

section \<open>Hashes and comparison\<close>

text \<open>
  C22. The root hash identifies the contents, up to collisions of the hash function: if two
  well-formed maps with different contents have the same root hash, then among the preimages hashed
  in the two trees there are two different ones with the same hash, or one whose hash is the zero
  that marks an empty branch. In maps of transactions every key is the hash of its transaction.
\<close>

theorem root_hash_collision:
  assumes "sha_root ty n" "sha_root ty m" "\<forall>it \<in> item_set n \<union> item_set m. addressed H ty it"
    and "node_hash H n = node_hash H m" "contents n k \<noteq> contents m k"
  shows "\<exists>x \<in> preimages H n \<union> preimages H m. H x = 0 \<or> (\<exists>y \<in> preimages H n \<union> preimages H m. x \<noteq> y \<and> H x = H y)"
proof (rule ccontr)
  assume "\<not> ?thesis"
  then have "collision_free H (preimages H n \<union> preimages H m)"
    unfolding collision_free_def inj_on_def by (metis imageE)
  then have "n = m"
    using node_hash_inj [of ty 0 n m H] assms by (auto simp: sha_root_def)
  then show False using assms(5) by simp
qed

theorem root_hash_collision_witness:
  "\<exists>n m. contents n 5 \<noteq> contents m 5 \<and> node_hash (\<lambda>_. 1) n = node_hash (\<lambda>_. 1) m
    \<and> (\<exists>x \<in> preimages (\<lambda>_. 1) n \<union> preimages (\<lambda>_. 1) m. \<exists>y \<in> preimages (\<lambda>_. 1) n \<union> preimages (\<lambda>_. 1) m. x \<noteq> y)"
proof -
  let ?o = "\<lambda>k. [Add_item \<lparr>item_key = k, item_data = [1]\<rparr>]"
  note r = sha_run_refines [OF new_inner_root, of AccountState, unfolded new_inner_contents]
  obtain n where n: "sha_root AccountState n" "contents n = [5 \<mapsto> \<lparr>item_key = 5, item_data = [1]\<rparr>]"
    using r [of "?o 5"] by (auto simp: key_ok_def)
  obtain m where m: "sha_root AccountState m" "contents m = [6 \<mapsto> \<lparr>item_key = 6, item_data = [1]\<rparr>]"
    using r [of "?o 6"] by (auto simp: key_ok_def)
  have one: "node_hash (\<lambda>_. 1) x = 1" if x: "sha_root AccountState x" "contents x k = Some it" for x k it
  proof -
    obtain cs where cs: "x = Inner_node cs" using x(1) by (auto simp: sha_root_def)
    have "it \<in> item_set (Inner_node cs)" using contents_Some [of AccountState 0 x k it] x cs by (simp add: sha_root_def)
    then show ?thesis unfolding cs item_set_inner_iff using child_at_set by fastforce
  qed
  have h: "node_hash (\<lambda>_. 1) n = 1" "node_hash (\<lambda>_. 1) m = 1" using one [OF n(1), of 5] one [OF m(1), of 6] n(2) m(2) by auto
  have c: "contents n 5 \<noteq> contents m 5" using n(2) m(2) by simp
  have "\<forall>it \<in> item_set n \<union> item_set m. addressed (\<lambda>_. 1) AccountState it" by (simp add: addressed_def)
  from root_hash_collision [OF n(1) m(1) this _ c] h
  have "\<exists>x \<in> preimages (\<lambda>_. 1) n \<union> preimages (\<lambda>_. 1) m. \<exists>y \<in> preimages (\<lambda>_. 1) n \<union> preimages (\<lambda>_. 1) m. x \<noteq> y"
    by (metis one_neq_zero)
  with c h show ?thesis by metis
qed

text \<open>
  C14. Comparing two maps of the same kind whose preimages do not collide finds the keys on which
  they differ: with a limit of \<open>m\<close> the comparison answers whether there are fewer than \<open>m\<close> of them,
  records as many as the limit allows, each with the items of both sides, and all of them when there
  are fewer.
\<close>

theorem compare_finds_differences:
  assumes "sha_root ty l" "sha_root ty r" "collision_free H (preimages H l \<union> preimages H r)"
    and "\<forall>it \<in> item_set l \<union> item_set r. addressed H ty it" "0 < m"
  shows "\<exists>ds m'. compare H l r ([], m) = Some (int (card {k. contents l k \<noteq> contents r k}) < m, (ds, m'))
    \<and> int (length ds) = min m (int (card {k. contents l k \<noteq> contents r k}))
    \<and> (\<forall>(k, a, b) \<in> set ds. a = contents l k \<and> b = contents r k \<and> a \<noteq> b)
    \<and> (int (card {k. contents l k \<noteq> contents r k}) < m \<longrightarrow> fst ` set ds = {k. contents l k \<noteq> contents r k})"
proof -
  let ?D = "diff True (contents l) (contents r)"
  obtain ds m' where ds: "compare H l r ([], m) = Some (int (card {k. contents l k \<noteq> contents r k}) < m, (ds, m'))"
      "btree_wf ds" "map_of ds \<subseteq>\<^sub>m ?D" "int (length ds) = min m (int (card {k. contents l k \<noteq> contents r k}))"
      "int (card {k. contents l k \<noteq> contents r k}) < m \<longrightarrow> map_of ds = ?D"
    using compare_all [OF assms(1-3) _ assms(5)] assms(4) by blast
  have D: "?D k = (if contents l k = contents r k then None else Some (contents l k, contents r k))" for k
    by (simp add: diff_def side_def)
  have "a = contents l k \<and> b = contents r k \<and> a \<noteq> b" if x: "(k, a, b) \<in> set ds" for k a b
  proof -
    have "?D k = Some (a, b)"
      using x ds(2,3) by (force simp: map_le_def btree_wf_def strict_sorted_iff dest: map_of_is_SomeI)
    then show ?thesis unfolding D by (auto split: if_splits)
  qed
  then have "\<forall>(k, a, b) \<in> set ds. a = contents l k \<and> b = contents r k \<and> a \<noteq> b" by blast
  moreover have "fst ` set ds = {k. contents l k \<noteq> contents r k}" if "map_of ds = ?D"
    using dom_map_of_conv_image_fst [of ds] that D by (auto simp: dom_def split: if_splits)
  ultimately show ?thesis using ds by blast
qed

theorem compare_finds_differences_witness:
  "\<exists>s ds m'. rcl_insert (sample_tx 1) (rcl_new 11) = Some (True, s)
    \<and> compare sample_hash (ts_root s) (ts_root (rcl_new 11)) ([], 10) = Some (True, (ds, m'))
    \<and> fst ` set ds = {item_key (sample_tx 1)}"
proof -
  let ?e = "rcl_new 11"
  have e: "rcl_ok sample_pool ?e" "contents (ts_root ?e) = Map.empty"
    using rcl_new_ok new_inner_contents by (auto simp: rcl_new_def)
  obtain s where s: "rcl_insert (sample_tx 1) ?e = Some (True, s)" "rcl_ok sample_pool s"
      "contents (ts_root s) = [item_key (sample_tx 1) \<mapsto> sample_tx 1]"
    using rcl_insert_spec [OF e(1), of "sample_tx 1"] e(2)
    by (auto simp: sample_pool_def sample_tx_def key_ok_def)
  have d: "{k. contents (ts_root s) k \<noteq> contents (ts_root ?e) k} = {item_key (sample_tx 1)}"
    unfolding s(3) e(2) by auto
  have "sha_root TransactionNm (ts_root s)" "sha_root TransactionNm (ts_root ?e)"
    using s(2) e(1) by (simp_all add: rcl_ok_def)
  from compare_finds_differences [OF this sample.pool_pair(1) [OF s(2) e(1)], of 10]
  show ?thesis using s(1) sample.pool_pair(2) [OF s(2) e(1)] unfolding d by auto
qed

section \<open>Ordered iteration\<close>

text \<open>
  C20. Iteration from a key returns, without panic and without running on, exactly the leaves with
  the smallest keys greater than the key, in increasing order of their keys and up to the limit;
  the upper bound of the key is the first of them.
\<close>

theorem iterate_from_exact:
  assumes "sha_root ty n" "key_ok start"
  shows "iterate_from start limit n
      = Some (map (\<lambda>k. Leaf_node ty (the (contents n k)))
          (take limit (sorted_list_of_set {k \<in> dom (contents n). start < k})))
    \<and> upper_bound start n = map_option hd_opt (iterate_from start 1 n)"
proof -
  have wf: "sha_wf ty 0 n" using assms(1) by (simp add: sha_root_def)
  note its = items_after [OF wf, of "(<) start"]
  have one: "hd_opt (take (Suc 0) xs) = hd_opt xs" for xs :: "'a list" by (cases xs) simp_all
  have map: "map_option f (hd_opt xs) = hd_opt (map f xs)" for f :: "'a \<Rightarrow> 'b" and xs by (cases xs) simp_all
  show ?thesis
    unfolding iterate_from_items [OF wf assms(2)] upper_bound_items [OF wf assms(2)] its
    by (simp add: one map take_map comp_def flip: take_map)
qed

theorem iterate_from_exact_witness:
  "\<exists>n. sha_run AccountState [Add_item \<lparr>item_key = 9, item_data = [1]\<rparr>, Add_item \<lparr>item_key = 5, item_data = [2]\<rparr>,
        Add_item \<lparr>item_key = 7, item_data = [3]\<rparr>] new_inner = Some ([Inr True, Inr True, Inr True], n)
    \<and> iterate_from 5 2 n = Some [Leaf_node AccountState \<lparr>item_key = 7, item_data = [3]\<rparr>,
        Leaf_node AccountState \<lparr>item_key = 9, item_data = [1]\<rparr>]"
proof -
  let ?o = "[Add_item \<lparr>item_key = 9, item_data = [1]\<rparr>, Add_item \<lparr>item_key = 5, item_data = [2]\<rparr>,
    Add_item \<lparr>item_key = 7, item_data = [3]\<rparr>]"
  have ok: "\<forall>op \<in> set ?o. sha_op_ok op" by (simp add: key_ok_def)
  obtain n where run: "sha_run AccountState ?o new_inner = Some (fst (map_run ?o Map.empty), n)" "sha_root AccountState n"
      "contents n = snd (map_run ?o Map.empty)"
    using sha_run_refines [OF new_inner_root, of AccountState ?o, unfolded new_inner_contents] ok by blast
  have n: "sha_run AccountState ?o new_inner = Some ([Inr True, Inr True, Inr True], n)"
      "contents n = [9 \<mapsto> \<lparr>item_key = 9, item_data = [1]\<rparr>, 5 \<mapsto> \<lparr>item_key = 5, item_data = [2]\<rparr>,
        7 \<mapsto> \<lparr>item_key = 7, item_data = [3]\<rparr>]"
    unfolding run(1,3) by simp_all
  have "{k \<in> dom (contents n). 5 < k} = {7, 9}" using n(2) by auto
  then show ?thesis using iterate_from_exact [OF run(2), of 5 2] n by (simp add: key_ok_def)
qed

end
