(* ===== verification/Ledger_Trie.thy ===== *)
theory Ledger_Trie
  imports Prelude "HOL-Library.Product_Lexorder"
begin

text \<open>
  The ancestry trie of validated ledgers, \<^verbatim>\<open>xrpld/consensus/src/model/ledger_trie.rs\<close>: a compressed
  trie in an arena of nodes that counts the support of recent ledgers and computes the preferred
  one.

  \<^item> The trait \<^verbatim>\<open>TrieLedger\<close> is the record \<open>ledger_ops\<close>; sequence numbers and identifiers are
    naturals, support counts as well (the code has 32-bit counters of validators).
  \<^item> \<^verbatim>\<open>nodes[i]\<close> out of bounds, a failed \<^verbatim>\<open>expect\<close> and a subtraction below zero panic: \<^term>\<open>None\<close>.
  \<^item> The loops along parent and child indices end when the indices form a tree; they carry fuel,
    the number of nodes, and \<^term>\<open>None\<close> is also that it runs out. \<open>Ledger_Trie_Inv\<close> shows that it
    never does.
\<close>

section \<open>Ledgers and spans\<close>

record 'l ledger_ops =
  g_genesis :: 'l
  g_seq :: "'l \<Rightarrow> nat"
  g_ancestor :: "'l \<Rightarrow> nat \<Rightarrow> nat"
  g_mismatch :: "'l \<Rightarrow> 'l \<Rightarrow> nat"

record 'l span_tip =
  tip_seq :: nat
  tip_id :: nat
  tip_ledger :: 'l

record 'l span =
  s_start :: nat
  s_end :: nat
  s_ledger :: 'l

definition span_genesis :: "'l ledger_ops \<Rightarrow> 'l span" where
  "span_genesis L =
     (let start = g_seq L (g_genesis L)
      in \<lparr>s_start = start, s_end = start + 1, s_ledger = g_genesis L\<rparr>)"

definition span_from_ledger :: "'l ledger_ops \<Rightarrow> 'l \<Rightarrow> nat \<Rightarrow> 'l span" where
  "span_from_ledger L ledger zero = \<lparr>s_start = zero, s_end = g_seq L ledger + 1, s_ledger = ledger\<rparr>"

definition span_clamp :: "'l span \<Rightarrow> nat \<Rightarrow> nat" where
  "span_clamp s v = min (max v (s_start s)) (s_end s)"

definition span_sub :: "'l span \<Rightarrow> nat \<Rightarrow> nat \<Rightarrow> 'l span option" where
  "span_sub s from to =
     (let new_from = span_clamp s from; new_to = span_clamp s to
      in if new_from < new_to then Some (s\<lparr>s_start := new_from, s_end := new_to\<rparr>) else None)"

definition span_from :: "'l span \<Rightarrow> nat \<Rightarrow> 'l span option" where
  "span_from s spot = span_sub s spot (s_end s)"

definition span_before :: "'l span \<Rightarrow> nat \<Rightarrow> 'l span option" where
  "span_before s spot = span_sub s (s_start s) spot"

definition start_id :: "'l ledger_ops \<Rightarrow> 'l span \<Rightarrow> nat" where
  "start_id L s = g_ancestor L (s_ledger s) (s_start s)"

definition span_diff :: "'l ledger_ops \<Rightarrow> 'l span \<Rightarrow> 'l \<Rightarrow> nat" where
  "span_diff L s other = span_clamp s (g_mismatch L (s_ledger s) other)"

definition tip_of :: "'l ledger_ops \<Rightarrow> 'l span \<Rightarrow> 'l span_tip" where
  "tip_of L s =
     (let seq = s_end s - 1
      in \<lparr>tip_seq = seq, tip_id = g_ancestor L (s_ledger s) seq, tip_ledger = s_ledger s\<rparr>)"

definition span_merge :: "'l span \<Rightarrow> 'l span \<Rightarrow> 'l span" where
  "span_merge a b =
     (if s_end a < s_end b
      then \<lparr>s_start = min (s_start a) (s_start b), s_end = s_end b, s_ledger = s_ledger b\<rparr>
      else \<lparr>s_start = min (s_start a) (s_start b), s_end = s_end a, s_ledger = s_ledger a\<rparr>)"

section \<open>The arena\<close>

record 'l tnode =
  n_span :: "'l span"
  n_tip :: nat
  n_branch :: nat
  n_children :: "nat list"
  n_parent :: "nat option"
  n_live :: bool

record 'l trie =
  t_nodes :: "'l tnode list"
  t_seqs :: "(nat, nat) btree"

definition node_from_span :: "'l span \<Rightarrow> 'l tnode" where
  "node_from_span s =
     \<lparr>n_span = s, n_tip = 0, n_branch = 0, n_children = [], n_parent = None, n_live = True\<rparr>"

definition node_root :: "'l ledger_ops \<Rightarrow> 'l tnode" where
  "node_root L = node_from_span (span_genesis L)"

definition trie_new :: "'l ledger_ops \<Rightarrow> 'l trie" where
  "trie_new L = \<lparr>t_nodes = [node_root L], t_seqs = []\<rparr>"

definition node_at :: "'l trie \<Rightarrow> nat \<Rightarrow> 'l tnode option" where
  "node_at t i = (if i < length (t_nodes t) then Some (t_nodes t ! i) else None)"

definition set_node :: "nat \<Rightarrow> ('l tnode \<Rightarrow> 'l tnode) \<Rightarrow> 'l trie \<Rightarrow> 'l trie option" where
  "set_node i f t =
     (if i < length (t_nodes t) then Some (t\<lparr>t_nodes := (t_nodes t)[i := f (t_nodes t ! i)]\<rparr>) else None)"

definition alloc :: "'l tnode \<Rightarrow> 'l trie \<Rightarrow> nat \<times> 'l trie" where
  "alloc n t = (length (t_nodes t), t\<lparr>t_nodes := t_nodes t @ [n]\<rparr>)"

definition erase_child :: "nat \<Rightarrow> nat \<Rightarrow> 'l trie \<Rightarrow> 'l trie option" where
  "erase_child parent child t =
     do {
       t1 \<leftarrow> set_node parent (\<lambda>n. n\<lparr>n_children := filter (\<lambda>c. c \<noteq> child) (n_children n)\<rparr>) t;
       set_node child (\<lambda>n. n\<lparr>n_live := False\<rparr>) t1
     }"

section \<open>Search\<close>

text \<open>The scan of the children in \<^verbatim>\<open>find\<close>: the first one that agrees further than \<open>pos\<close>.\<close>

fun find_child ::
  "'l ledger_ops \<Rightarrow> 'l \<Rightarrow> 'l trie \<Rightarrow> nat \<Rightarrow> nat list \<Rightarrow> (nat \<times> nat) option option" where
  "find_child L ledger t pos [] = Some None"
| "find_child L ledger t pos (c # cs) =
     do {
       n \<leftarrow> node_at t c;
       if \<not> n_live n then find_child L ledger t pos cs
       else
         let child_pos = span_diff L (n_span n) ledger
         in if child_pos > pos then Some (Some (c, child_pos)) else find_child L ledger t pos cs
     }"

definition ends_total :: "'l trie \<Rightarrow> nat" where
  "ends_total t = sum_list (map (\<lambda>n. s_end (n_span n)) (t_nodes t))"

lemma find_child_bound:
  "find_child L ledger t pos cs = Some (Some (c, p)) \<Longrightarrow> pos < p \<and> p \<le> ends_total t"
proof (induction L ledger t pos cs rule: find_child.induct)
  case (2 L ledger t pos c' cs)
  have le: "span_diff L (n_span n) ledger \<le> ends_total t" if n: "node_at t c' = Some n" for n
  proof -
    have "n \<in> set (t_nodes t)" using n by (auto simp: node_at_def split: if_splits)
    then have "s_end (n_span n) \<le> ends_total t"
      unfolding ends_total_def by (intro member_le_sum_list) auto
    then show ?thesis by (simp add: span_diff_def span_clamp_def)
  qed
  show ?case
  proof (cases "node_at t c'")
    case (Some n)
    show ?thesis
      using 2 Some le [OF Some] by (auto simp: Let_def split: if_splits)
  qed (use "2.prems" in simp)
qed simp

function find_loop :: "'l ledger_ops \<Rightarrow> 'l \<Rightarrow> 'l trie \<Rightarrow> nat \<Rightarrow> nat \<Rightarrow> (nat \<times> nat) option" where
  "find_loop L ledger t cur pos =
     do {
       n \<leftarrow> node_at t cur;
       if pos = s_end (n_span n) then
         do {
           next \<leftarrow> find_child L ledger t pos (n_children n);
           (case next of
              None \<Rightarrow> Some (cur, pos)
            | Some (child, child_pos) \<Rightarrow> find_loop L ledger t child child_pos)
         }
       else Some (cur, pos)
     }"
  by pat_completeness auto
termination
  by (relation "measure (\<lambda>(L, ledger, t, cur, pos). ends_total t - pos)")
    (auto dest: find_child_bound)

definition find_node :: "'l ledger_ops \<Rightarrow> 'l \<Rightarrow> 'l trie \<Rightarrow> (nat \<times> nat) option" where
  "find_node L ledger t =
     do { n \<leftarrow> node_at t 0; find_loop L ledger t 0 (span_diff L (n_span n) ledger) }"

fun find_tip :: "'l ledger_ops \<Rightarrow> nat \<Rightarrow> nat \<Rightarrow> 'l tnode list \<Rightarrow> nat option" where
  "find_tip L ledger_id i [] = None"
| "find_tip L ledger_id i (n # ns) =
     (if n_live n \<and> tip_id (tip_of L (n_span n)) = ledger_id then Some i
      else find_tip L ledger_id (Suc i) ns)"

definition find_by_ledger_id :: "'l ledger_ops \<Rightarrow> nat \<Rightarrow> 'l trie \<Rightarrow> nat option" where
  "find_by_ledger_id L ledger_id t = find_tip L ledger_id 0 (t_nodes t)"

section \<open>Insertion\<close>

text \<open>The loop that adds support to a node and its ancestors.\<close>

fun add_support :: "nat \<Rightarrow> nat option \<Rightarrow> nat \<Rightarrow> 'l trie \<Rightarrow> 'l trie option" where
  "add_support fuel None count t = Some t"
| "add_support 0 (Some i) count t = None"
| "add_support (Suc fuel) (Some i) count t =
     do {
       t1 \<leftarrow> set_node i (\<lambda>n. n\<lparr>n_branch := n_branch n + count\<rparr>) t;
       n \<leftarrow> node_at t1 i;
       add_support fuel (n_parent n) count t1
     }"

fun set_parents :: "nat \<Rightarrow> nat list \<Rightarrow> 'l trie \<Rightarrow> 'l trie option" where
  "set_parents p [] t = Some t"
| "set_parents p (c # cs) t =
     do { t1 \<leftarrow> set_node c (\<lambda>n. n\<lparr>n_parent := Some p\<rparr>) t; set_parents p cs t1 }"

text \<open>The node at \<open>loc\<close> keeps the prefix of its span; a new child takes the rest.\<close>

definition split_node :: "nat \<Rightarrow> 'l span option \<Rightarrow> 'l span \<Rightarrow> 'l trie \<Rightarrow> 'l trie option" where
  "split_node loc prefix old_suffix t =
     do {
       n \<leftarrow> node_at t loc;
       let new_node = (node_from_span old_suffix)
             \<lparr>n_tip := n_tip n, n_branch := n_branch n, n_children := n_children n\<rparr>;
       t1 \<leftarrow> set_node loc (\<lambda>m. m\<lparr>n_children := []\<rparr>) t;
       let (new_idx, t2) = alloc new_node t1;
       t3 \<leftarrow> set_parents new_idx (n_children n) t2;
       pre \<leftarrow> prefix;
       t4 \<leftarrow> set_node loc (\<lambda>m. m\<lparr>n_span := pre\<rparr>) t3;
       t5 \<leftarrow> set_node new_idx (\<lambda>m. m\<lparr>n_parent := Some loc\<rparr>) t4;
       set_node loc (\<lambda>m. m\<lparr>n_children := n_children m @ [new_idx], n_tip := 0\<rparr>) t5
     }"

definition attach_node :: "nat \<Rightarrow> 'l span \<Rightarrow> 'l trie \<Rightarrow> (nat \<times> 'l trie) option" where
  "attach_node loc new_suffix t =
     do {
       let (new_idx, t1) = alloc ((node_from_span new_suffix)\<lparr>n_parent := Some loc\<rparr>) t;
       t2 \<leftarrow> set_node loc (\<lambda>m. m\<lparr>n_children := n_children m @ [new_idx]\<rparr>) t1;
       Some (new_idx, t2)
     }"

definition trie_insert :: "'l ledger_ops \<Rightarrow> 'l \<Rightarrow> nat \<Rightarrow> 'l trie \<Rightarrow> 'l trie option" where
  "trie_insert L ledger count t =
     do {
       (loc, diff_seq) \<leftarrow> find_node L ledger t;
       n \<leftarrow> node_at t loc;
       let prefix = span_before (n_span n) diff_seq;
       let old_suffix = span_from (n_span n) diff_seq;
       let new_suffix = span_from (span_from_ledger L ledger 0) diff_seq;
       t1 \<leftarrow> (case old_suffix of None \<Rightarrow> Some t | Some s \<Rightarrow> split_node loc prefix s t);
       (inc_node, t2) \<leftarrow>
         (case new_suffix of None \<Rightarrow> Some (loc, t1) | Some s \<Rightarrow> attach_node loc s t1);
       t3 \<leftarrow> set_node inc_node (\<lambda>m. m\<lparr>n_tip := n_tip m + count\<rparr>) t2;
       t4 \<leftarrow> add_support (length (t_nodes t3)) (Some inc_node) count t3;
       let seq = g_seq L ledger;
       Some (t4\<lparr>t_seqs := btree_insert seq (case_option 0 id (map_of (t_seqs t4) seq) + count) (t_seqs t4)\<rparr>)
     }"

section \<open>Removal\<close>

definition checked_sub :: "nat \<Rightarrow> nat \<Rightarrow> nat option" where
  "checked_sub a b = (if b \<le> a then Some (a - b) else None)"

fun sub_support :: "nat \<Rightarrow> nat option \<Rightarrow> nat \<Rightarrow> 'l trie \<Rightarrow> 'l trie option" where
  "sub_support fuel None count t = Some t"
| "sub_support 0 (Some i) count t = None"
| "sub_support (Suc fuel) (Some i) count t =
     do {
       n \<leftarrow> node_at t i;
       b \<leftarrow> checked_sub (n_branch n) count;
       t1 \<leftarrow> set_node i (\<lambda>m. m\<lparr>n_branch := b\<rparr>) t;
       sub_support fuel (n_parent n) count t1
     }"

fun live_children :: "'l trie \<Rightarrow> nat list \<Rightarrow> nat list option" where
  "live_children t [] = Some []"
| "live_children t (c # cs) =
     do {
       n \<leftarrow> node_at t c;
       rest \<leftarrow> live_children t cs;
       Some (if n_live n then c # rest else rest)
     }"

text \<open>The loop that erases or merges unsupported nodes, upwards from \<open>loc\<close>.\<close>

fun compress :: "nat \<Rightarrow> nat \<Rightarrow> 'l trie \<Rightarrow> 'l trie option" where
  "compress 0 loc t = None"
| "compress (Suc fuel) loc t =
     do {
       n \<leftarrow> node_at t loc;
       if n_tip n = 0 \<and> loc \<noteq> 0 then
         do {
           parent \<leftarrow> n_parent n;
           children \<leftarrow> live_children t (n_children n);
           (case children of
              [] \<Rightarrow> do { t1 \<leftarrow> erase_child parent loc t; compress fuel parent t1 }
            | [child] \<Rightarrow>
                do {
                  c \<leftarrow> node_at t child;
                  t1 \<leftarrow> set_node child
                    (\<lambda>m. m\<lparr>n_span := span_merge (n_span n) (n_span c), n_parent := Some parent\<rparr>) t;
                  t2 \<leftarrow> set_node parent (\<lambda>m. m\<lparr>n_children := n_children m @ [child]\<rparr>) t1;
                  t3 \<leftarrow> erase_child parent loc t2;
                  compress fuel parent t3
                }
            | _ \<Rightarrow> Some t)
         }
       else Some t
     }"

definition sub_seq :: "nat \<Rightarrow> nat \<Rightarrow> (nat, nat) btree \<Rightarrow> (nat, nat) btree option" where
  "sub_seq seq count m =
     (case map_of m seq of
        None \<Rightarrow> Some m
      | Some support \<Rightarrow>
          do {
            s \<leftarrow> checked_sub support count;
            Some (if s = 0 then btree_remove seq m else btree_insert seq s m)
          })"

definition trie_remove ::
  "'l ledger_ops \<Rightarrow> nat \<Rightarrow> nat \<Rightarrow> nat \<Rightarrow> 'l trie \<Rightarrow> (bool \<times> 'l trie) option" where
  "trie_remove L ledger_id ledger_seq count t =
     (case find_by_ledger_id L ledger_id t of
        None \<Rightarrow> Some (False, t)
      | Some loc \<Rightarrow>
          do {
            n \<leftarrow> node_at t loc;
            if n_tip n = 0 then Some (False, t)
            else do {
              let count = min count (n_tip n);
              t1 \<leftarrow> set_node loc (\<lambda>m. m\<lparr>n_tip := n_tip m - count\<rparr>) t;
              seqs \<leftarrow> sub_seq ledger_seq count (t_seqs t1);
              let t2 = t1\<lparr>t_seqs := seqs\<rparr>;
              t3 \<leftarrow> sub_support (length (t_nodes t2)) (Some loc) count t2;
              t4 \<leftarrow> compress (length (t_nodes t3)) loc t3;
              Some (True, t4)
            }
          })"

section \<open>Queries\<close>

definition tip_support :: "'l ledger_ops \<Rightarrow> nat \<Rightarrow> 'l trie \<Rightarrow> nat option" where
  "tip_support L ledger_id t =
     (case find_by_ledger_id L ledger_id t of
        None \<Rightarrow> Some 0
      | Some i \<Rightarrow> map_option n_tip (node_at t i))"

definition branch_support :: "'l ledger_ops \<Rightarrow> 'l \<Rightarrow> 'l trie \<Rightarrow> nat option" where
  "branch_support L ledger t =
     (case find_by_ledger_id L (g_ancestor L ledger (g_seq L ledger)) t of
        Some i \<Rightarrow> map_option n_branch (node_at t i)
      | None \<Rightarrow>
          do {
            (loc, diff_seq) \<leftarrow> find_node L ledger t;
            n \<leftarrow> node_at t loc;
            Some (if diff_seq > g_seq L ledger \<and> g_seq L ledger < s_end (n_span n)
                  then n_branch n else 0)
          })"

definition trie_is_empty :: "'l trie \<Rightarrow> bool option" where
  "trie_is_empty t = map_option (\<lambda>n. n_branch n = 0) (node_at t 0)"

text \<open>
  \<^verbatim>\<open>get_preferred\<close> keeps an index into the support by sequence; here the list that is left. The
  first inner loop takes the support below a sequence number as uncommitted.
\<close>

fun take_uncommitted :: "nat \<Rightarrow> (nat \<times> nat) list \<Rightarrow> nat \<Rightarrow> (nat \<times> nat) list \<times> nat" where
  "take_uncommitted limit [] unc = ([], unc)"
| "take_uncommitted limit ((s, v) # rest) unc =
     (if s < limit then take_uncommitted limit rest (unc + v) else ((s, v) # rest, unc))"

text \<open>The second inner loop: how far along the span the branch keeps enough support.\<close>

fun advance_span ::
  "nat \<Rightarrow> nat \<Rightarrow> nat \<Rightarrow> (nat \<times> nat) list \<Rightarrow> nat \<Rightarrow> nat \<times> (nat \<times> nat) list \<times> nat" where
  "advance_span stop branch next [] unc =
     (if next < stop \<and> branch > unc then (stop, [], unc) else (next, [], unc))"
| "advance_span stop branch next ((s, v) # rest) unc =
     (if next < stop \<and> branch > unc then
        (if s < stop then advance_span stop branch (s + 1) rest (unc + v)
         else (stop, (s, v) # rest, unc))
      else (next, (s, v) # rest, unc))"

text \<open>The best child and its margin over the second best.\<close>

definition best_child :: "'l ledger_ops \<Rightarrow> 'l trie \<Rightarrow> nat list \<Rightarrow> (nat \<times> nat) option option" where
  "best_child L t live =
     (case live of
        [] \<Rightarrow> Some None
      | [c] \<Rightarrow> map_option (\<lambda>n. Some (c, n_branch n)) (node_at t c)
      | _ \<Rightarrow>
          (case sort_key (\<lambda>c. (- int (n_branch (t_nodes t ! c)), - int (start_id L (n_span (t_nodes t ! c))))) live of
             first # second # _ \<Rightarrow>
               do {
                 f \<leftarrow> node_at t first;
                 s \<leftarrow> node_at t second;
                 margin \<leftarrow> checked_sub (n_branch f) (n_branch s);
                 Some (Some (first, if start_id L (n_span f) > start_id L (n_span s) then margin + 1 else margin))
               }
           | _ \<Rightarrow> None))"

fun preferred_loop ::
  "'l ledger_ops \<Rightarrow> 'l trie \<Rightarrow> nat \<Rightarrow> nat \<Rightarrow> nat \<Rightarrow> (nat \<times> nat) list \<Rightarrow> nat \<Rightarrow> 'l span_tip option option" where
  "preferred_loop L t largest_issued 0 cur rest unc = None"
| "preferred_loop L t largest_issued (Suc fuel) cur rest unc =
     do {
       n \<leftarrow> node_at t cur;
       let span = n_span n;
       let next_seq = s_start span + 1;
       let (rest1, unc1) = take_uncommitted (max next_seq largest_issued) rest unc;
       let (next_seq', rest2, unc2) = advance_span (s_end span) (n_branch n) next_seq rest1 unc1;
       if next_seq' < s_end span then Some (map_option (tip_of L) (span_before span next_seq'))
       else do {
         live \<leftarrow> live_children t (n_children n);
         best \<leftarrow> best_child L t live;
         (case best of
            None \<Rightarrow> Some (Some (tip_of L span))
          | Some (c, margin) \<Rightarrow>
              if margin > unc2 \<or> unc2 = 0 then preferred_loop L t largest_issued fuel c rest2 unc2
              else Some (Some (tip_of L span)))
       }
     }"

definition trie_get_preferred :: "'l ledger_ops \<Rightarrow> nat \<Rightarrow> 'l trie \<Rightarrow> 'l span_tip option option" where
  "trie_get_preferred L largest_issued t =
     do {
       empty \<leftarrow> trie_is_empty t;
       if empty then Some None
       else preferred_loop L t largest_issued (length (t_nodes t)) 0 (t_seqs t) 0
     }"

end
