(* ===== verification/Validations.thy ===== *)
theory Validations
  imports Ledger_Trie Ledger_Timing
begin

text \<open>
  The tracker of current and recent validations,
  \<^verbatim>\<open>xrpld/consensus/src/rcl_support/validations.rs\<close>. It decides which validations are current, checks
  that the validations of a node have increasing sequence numbers and feeds the ancestry trie with
  one vote per node for the last ledger of it that could be acquired.

  \<^item> The record \<open>inner\<close> is the state behind the lock; each public operation is a function on it.
  \<^item> The adaptor is the record \<open>val_env\<close> of one call: the network time, the steady clock and the
    ledgers that can be acquired.
  \<^item> A hash set is a list without duplicates; the order of iteration over hash maps and sets is that
    of the list.
  \<^item> A panic is \<^term>\<open>None\<close>.
\<close>

section \<open>Parameters, clocks and validations\<close>

record val_parms =
  validation_current_wall :: duration
  validation_current_local :: duration
  validation_current_early :: duration
  validation_set_expires :: duration
  validation_freshness :: duration

definition default_val_parms :: val_parms where
  "default_val_parms =
     \<lparr>validation_current_wall = from_secs (5 * 60), validation_current_local = from_secs (3 * 60),
      validation_current_early = from_secs (3 * 60), validation_set_expires = from_secs (10 * 60),
      validation_freshness = from_secs 20\<rparr>"

record seq_enforcer =
  se_seq :: nat
  se_when :: "nat option"

definition enforcer_default :: seq_enforcer where
  "enforcer_default = \<lparr>se_seq = 0, se_when = None\<rparr>"

definition try_advance :: "nat \<Rightarrow> nat \<Rightarrow> val_parms \<Rightarrow> seq_enforcer \<Rightarrow> bool \<times> seq_enforcer" where
  "try_advance now s p e =
     (let e1 = (case se_when e of
                  Some when \<Rightarrow> if now > when + validation_set_expires p then e\<lparr>se_seq := 0\<rparr> else e
                | None \<Rightarrow> e)
      in if s \<le> se_seq e1 then (False, e1)
         else (True, e1\<lparr>se_seq := s, se_when := Some now\<rparr>))"

definition is_current :: "val_parms \<Rightarrow> net_time \<Rightarrow> net_time \<Rightarrow> net_time \<Rightarrow> bool" where
  "is_current p now sign_time seen_time \<longleftrightarrow>
     int sign_time > int now - int (as_secs (validation_current_early p))
     \<and> int sign_time < int now + int (as_secs (validation_current_wall p))
     \<and> (seen_time = 0 \<or> int seen_time < int now + int (as_secs (validation_current_local p)))"

datatype val_status = Current | Stale | BadSeq | Multiple | Conflicting

record validation =
  v_ledger_id :: nat
  v_seq :: nat
  v_sign_time :: net_time
  v_seen_time :: net_time
  v_key :: nat
  v_trusted :: bool
  v_full :: bool
  v_node_id :: nat
  v_load_fee :: "nat option"
  v_cookie :: nat

definition v_id :: "validation \<Rightarrow> nat \<times> nat" where
  "v_id v = (v_seq v, v_ledger_id v)"

record 'l val_env =
  ve_now :: net_time
  ve_instant :: nat
  ve_acquire :: "nat \<Rightarrow> 'l option"

definition ledger_ident :: "'l ledger_ops \<Rightarrow> 'l \<Rightarrow> nat" where
  "ledger_ident L l = g_ancestor L l (g_seq L l)"

section \<open>Sets and aged maps\<close>

type_synonym hset = "nat list"

definition hs_insert :: "nat \<Rightarrow> hset \<Rightarrow> hset" where
  "hs_insert x s = List.insert x s"

definition hs_remove :: "nat \<Rightarrow> hset \<Rightarrow> hset" where
  "hs_remove x s = filter (\<lambda>y. y \<noteq> x) s"

definition hs_extend :: "hset \<Rightarrow> hset \<Rightarrow> hset" where
  "hs_extend s t = fold hs_insert t s"

record ('k, 'v) aged_map =
  am_entries :: "('k, 'v) hashm"
  am_touched :: "('k, nat) hashm"

definition aged_new :: "('k, 'v) aged_map" where
  "aged_new = \<lparr>am_entries = [], am_touched = []\<rparr>"

definition aged_touch :: "'k \<Rightarrow> nat \<Rightarrow> ('k, 'v) aged_map \<Rightarrow> ('k, 'v) aged_map" where
  "aged_touch k now m = m\<lparr>am_touched := hm_insert k now (am_touched m)\<rparr>"

definition aged_get_or_insert :: "'k \<Rightarrow> nat \<Rightarrow> 'v \<Rightarrow> ('k, 'v) aged_map \<Rightarrow> 'v \<times> ('k, 'v) aged_map" where
  "aged_get_or_insert k now dflt m =
     (let m1 = aged_touch k now m
      in case map_of (am_entries m1) k of
           Some v \<Rightarrow> (v, m1)
         | None \<Rightarrow> (dflt, m1\<lparr>am_entries := hm_insert k dflt (am_entries m1)\<rparr>))"

definition aged_get :: "'k \<Rightarrow> ('k, 'v) aged_map \<Rightarrow> 'v option" where
  "aged_get k m = map_of (am_entries m) k"

text \<open>Writing through the reference that \<^verbatim>\<open>get_or_insert_with\<close> returns.\<close>

definition aged_put :: "'k \<Rightarrow> 'v \<Rightarrow> ('k, 'v) aged_map \<Rightarrow> ('k, 'v) aged_map" where
  "aged_put k v m = m\<lparr>am_entries := hm_insert k v (am_entries m)\<rparr>"

text \<open>\<^verbatim>\<open>expire\<close> without a range to keep, the only way it is called.\<close>

definition aged_expire :: "nat \<Rightarrow> duration \<Rightarrow> ('k, 'v) aged_map \<Rightarrow> ('k, 'v) aged_map" where
  "aged_expire now expires_after m =
     (let expired = map fst (filter (\<lambda>(k, touched). now - touched \<ge> expires_after) (am_touched m))
      in fold (\<lambda>k m. m\<lparr>am_entries := hm_remove k (am_entries m), am_touched := hm_remove k (am_touched m)\<rparr>) expired m)"

section \<open>The state\<close>

record recovery_proof =
  rp_key :: "nat \<times> nat"
  rp_nodes :: hset

record 'l inner =
  i_current :: "(nat, validation) hashm"
  i_local_enforcer :: seq_enforcer
  i_enforcers :: "(nat, seq_enforcer) hashm"
  i_by_ledger :: "(nat, (nat, validation) hashm) aged_map"
  i_by_sequence :: "(nat, (nat, validation) hashm) aged_map"
  i_keep :: "(nat \<times> nat) option"
  i_next_keep_refresh :: "nat option"
  i_trie :: "'l trie"
  i_last_ledger :: "(nat, 'l) hashm"
  i_acquiring :: "(nat \<times> nat, hset) btree"
  i_anchor :: "recovery_proof option"
  i_candidate :: "recovery_proof option"

definition inner_new :: "'l ledger_ops \<Rightarrow> 'l inner" where
  "inner_new L =
     \<lparr>i_current = [], i_local_enforcer = enforcer_default, i_enforcers = [], i_by_ledger = aged_new,
      i_by_sequence = aged_new, i_keep = None, i_next_keep_refresh = None, i_trie = trie_new L,
      i_last_ledger = [], i_acquiring = [], i_anchor = None, i_candidate = None\<rparr>"

section \<open>Recovery targets\<close>

text \<open>The first target observed stays, a later one takes the second place.\<close>

definition observe_validation_recovery :: "recovery_proof option \<Rightarrow> 'l inner \<Rightarrow> 'l inner" where
  "observe_validation_recovery observed s =
     (case observed of
        None \<Rightarrow> s\<lparr>i_candidate := None\<rparr>
      | Some ob \<Rightarrow>
          (case i_anchor s of
             None \<Rightarrow> s\<lparr>i_anchor := Some ob\<rparr>
           | Some anchor \<Rightarrow>
               if rp_key anchor = rp_key ob
               then s\<lparr>i_anchor := Some (anchor\<lparr>rp_nodes := hs_extend (rp_nodes anchor) (rp_nodes ob)\<rparr>)\<rparr>
               else
                 (case i_candidate s of
                    Some cand \<Rightarrow>
                      if rp_key cand = rp_key ob
                      then s\<lparr>i_candidate := Some (cand\<lparr>rp_nodes := hs_extend (rp_nodes cand) (rp_nodes ob)\<rparr>)\<rparr>
                      else s\<lparr>i_candidate := Some ob\<rparr>
                  | None \<Rightarrow> s\<lparr>i_candidate := Some ob\<rparr>)))"

definition proof_is :: "nat \<times> nat \<Rightarrow> recovery_proof option \<Rightarrow> bool" where
  "proof_is key p = (case p of None \<Rightarrow> False | Some r \<Rightarrow> rp_key r = key)"

definition take_validation_recovery_nodes :: "nat \<times> nat \<Rightarrow> 'l inner \<Rightarrow> hset \<times> 'l inner" where
  "take_validation_recovery_nodes key s =
     (if proof_is key (i_anchor s)
      then (rp_nodes (the (i_anchor s)), s\<lparr>i_anchor := i_candidate s, i_candidate := None\<rparr>)
      else if proof_is key (i_candidate s)
      then (rp_nodes (the (i_candidate s)), s\<lparr>i_candidate := None\<rparr>)
      else ([], s))"

definition prune_validation_recovery_signer :: "nat \<times> nat \<Rightarrow> nat \<Rightarrow> 'l inner \<Rightarrow> 'l inner" where
  "prune_validation_recovery_signer key node_id s =
     (if proof_is key (i_anchor s)
      then s\<lparr>i_anchor := map_option (\<lambda>r. r\<lparr>rp_nodes := hs_remove node_id (rp_nodes r)\<rparr>) (i_anchor s)\<rparr>
      else if proof_is key (i_candidate s)
      then s\<lparr>i_candidate := map_option (\<lambda>r. r\<lparr>rp_nodes := hs_remove node_id (rp_nodes r)\<rparr>) (i_candidate s)\<rparr>
      else s)"

text \<open>\<^verbatim>\<open>position\<close> and \<^verbatim>\<open>swap_remove\<close> on the vector of proofs.\<close>

definition take_exact :: "nat \<times> nat \<Rightarrow> recovery_proof list \<Rightarrow> recovery_proof option \<times> recovery_proof list" where
  "take_exact key proofs =
     (case List.extract (\<lambda>r. rp_key r = key) proofs of
        None \<Rightarrow> (None, proofs)
      | Some (xs, r, ys) \<Rightarrow> (Some r, if ys = [] then xs else xs @ last ys # butlast ys))"

definition reconcile_validation_recovery_latch ::
  "(nat \<times> nat) option \<Rightarrow> (nat \<times> nat) option \<Rightarrow> 'l inner \<Rightarrow> 'l inner" where
  "reconcile_validation_recovery_latch actual_anchor actual_candidate s =
     (let proofs = (case i_anchor s of None \<Rightarrow> [] | Some r \<Rightarrow> [r]) @ (case i_candidate s of None \<Rightarrow> [] | Some r \<Rightarrow> [r]);
          (anchor, proofs1) = (case actual_anchor of None \<Rightarrow> (None, proofs) | Some k \<Rightarrow> take_exact k proofs);
          distinct_candidate = (if actual_candidate = actual_anchor then None else actual_candidate);
          (cand, proofs2) = (case distinct_candidate of None \<Rightarrow> (None, proofs1) | Some k \<Rightarrow> take_exact k proofs1)
      in s\<lparr>i_anchor := anchor, i_candidate := cand\<rparr>)"

section \<open>Votes\<close>

text \<open>Taking a node off the waiters of a ledger; a ledger nobody waits for is dropped.\<close>

definition drop_waiter :: "nat \<Rightarrow> nat \<times> nat \<Rightarrow> 'l inner \<Rightarrow> 'l inner" where
  "drop_waiter node_id key s =
     (case map_of (i_acquiring s) key of
        None \<Rightarrow> s
      | Some waiters \<Rightarrow>
          let waiters1 = hs_remove node_id waiters
          in s\<lparr>i_acquiring := (if waiters1 = [] then btree_remove key (i_acquiring s)
                               else btree_insert key waiters1 (i_acquiring s))\<rparr>)"

definition remove_trie :: "'l ledger_ops \<Rightarrow> nat \<Rightarrow> validation \<Rightarrow> 'l inner \<Rightarrow> 'l inner option" where
  "remove_trie L node_id val s =
     (let key = v_id val;
          s1 = prune_validation_recovery_signer key node_id s;
          s2 = drop_waiter node_id key s1
      in case map_of (i_last_ledger s2) node_id of
           Some resident \<Rightarrow>
             if ledger_ident L resident = v_ledger_id val then
               do {
                 (_, t) \<leftarrow> trie_remove L (ledger_ident L resident) (g_seq L resident) 1 (i_trie s2);
                 Some (s2\<lparr>i_last_ledger := hm_remove node_id (i_last_ledger s2), i_trie := t\<rparr>)
               }
             else Some s2
         | None \<Rightarrow> Some s2)"

definition update_trie_ledger :: "'l ledger_ops \<Rightarrow> nat \<Rightarrow> 'l \<Rightarrow> 'l inner \<Rightarrow> 'l inner option" where
  "update_trie_ledger L node_id ledger s =
     do {
       t1 \<leftarrow> (case map_of (i_last_ledger s) node_id of
                 Some prior \<Rightarrow> map_option snd (trie_remove L (ledger_ident L prior) (g_seq L prior) 1 (i_trie s))
               | None \<Rightarrow> Some (i_trie s));
       t2 \<leftarrow> trie_insert L ledger 1 t1;
       Some (s\<lparr>i_last_ledger := hm_insert node_id ledger (i_last_ledger s), i_trie := t2\<rparr>)
     }"

fun update_nodes :: "'l ledger_ops \<Rightarrow> 'l \<Rightarrow> nat list \<Rightarrow> 'l inner \<Rightarrow> 'l inner option" where
  "update_nodes L ledger [] s = Some s"
| "update_nodes L ledger (n # ns) s = do { s1 \<leftarrow> update_trie_ledger L n ledger s; update_nodes L ledger ns s1 }"

fun check_pending :: "'l ledger_ops \<Rightarrow> 'l val_env \<Rightarrow> (nat \<times> nat) list \<Rightarrow> 'l inner \<Rightarrow> 'l inner option" where
  "check_pending L E [] s = Some s"
| "check_pending L E (key # keys) s =
     (case ve_acquire E (snd key) of
        None \<Rightarrow> check_pending L E keys s
      | Some ledger \<Rightarrow>
          do {
            s1 \<leftarrow> update_nodes L ledger (case map_of (i_acquiring s) key of None \<Rightarrow> [] | Some waiters \<Rightarrow> waiters) s;
            check_pending L E keys (s1\<lparr>i_acquiring := btree_remove key (i_acquiring s1)\<rparr>)
          })"

definition check_acquired :: "'l ledger_ops \<Rightarrow> 'l val_env \<Rightarrow> 'l inner \<Rightarrow> 'l inner option" where
  "check_acquired L E s = check_pending L E (map fst (i_acquiring s)) s"

text \<open>
  The part that \<^verbatim>\<open>update_trie_validation\<close> and \<^verbatim>\<open>on_ledger_unacquired\<close> share: wait for the ledger of a
  validation, or count it at once.
\<close>

definition resolve_vote :: "'l ledger_ops \<Rightarrow> 'l val_env \<Rightarrow> nat \<Rightarrow> validation \<Rightarrow> 'l inner \<Rightarrow> 'l inner option" where
  "resolve_vote L E node_id val s =
     (case map_of (i_acquiring s) (v_id val) of
        Some waiters \<Rightarrow> Some (s\<lparr>i_acquiring := btree_insert (v_id val) (hs_insert node_id waiters) (i_acquiring s)\<rparr>)
      | None \<Rightarrow>
          (case ve_acquire E (v_ledger_id val) of
             Some ledger \<Rightarrow> update_trie_ledger L node_id ledger s
           | None \<Rightarrow> Some (s\<lparr>i_acquiring := btree_insert (v_id val) [node_id] (i_acquiring s)\<rparr>)))"

definition update_trie_validation ::
  "'l ledger_ops \<Rightarrow> 'l val_env \<Rightarrow> nat \<Rightarrow> validation \<Rightarrow> (nat \<times> nat) option \<Rightarrow> 'l inner \<Rightarrow> 'l inner option" where
  "update_trie_validation L E node_id val prior s =
     (let s1 = (case prior of None \<Rightarrow> s | Some key \<Rightarrow> drop_waiter node_id key s)
      in do { s2 \<leftarrow> check_acquired L E s1; resolve_vote L E node_id val s2 })"

fun evict :: "'l ledger_ops \<Rightarrow> nat list \<Rightarrow> 'l inner \<Rightarrow> 'l inner option" where
  "evict L [] s = Some s"
| "evict L (n # ns) s =
     do {
       s1 \<leftarrow> (case map_of (i_current s) n of Some v \<Rightarrow> remove_trie L n v s | None \<Rightarrow> Some s);
       evict L ns (s1\<lparr>i_current := hm_remove n (i_current s1)\<rparr>)
     }"

definition current_live :: "'l ledger_ops \<Rightarrow> val_parms \<Rightarrow> 'l val_env \<Rightarrow> 'l inner \<Rightarrow> 'l inner option" where
  "current_live L p E s =
     evict L (map fst (filter (\<lambda>(n, v). \<not> is_current p (ve_now E) (v_sign_time v) (v_seen_time v)) (i_current s))) s"

definition with_trie :: "'l ledger_ops \<Rightarrow> val_parms \<Rightarrow> 'l val_env \<Rightarrow> 'l inner \<Rightarrow> 'l inner option" where
  "with_trie L p E s = do { s1 \<leftarrow> current_live L p E s; check_acquired L E s1 }"

section \<open>Acquired and lost ledgers\<close>

text \<open>
  A node that waited for the ledger gets its vote; one that is known from a recovery target only if
  its current validation is trusted and full, not older, and the vote does not go back.
\<close>

definition acquired_vote_ok :: "'l ledger_ops \<Rightarrow> hset \<Rightarrow> nat \<Rightarrow> nat \<Rightarrow> 'l inner \<Rightarrow> bool" where
  "acquired_vote_ok L recovery_nodes ledger_seq node_id s \<longleftrightarrow>
     (case map_of (i_current s) node_id of
        None \<Rightarrow> False
      | Some cur \<Rightarrow> v_trusted cur \<and> (node_id \<notin> set recovery_nodes \<or> (v_full cur \<and> v_seq cur \<ge> ledger_seq)))
     \<and> (node_id \<notin> set recovery_nodes
        \<or> (case map_of (i_last_ledger s) node_id of None \<Rightarrow> True | Some resident \<Rightarrow> g_seq L resident < ledger_seq))"

fun acquired_votes :: "'l ledger_ops \<Rightarrow> 'l \<Rightarrow> hset \<Rightarrow> nat list \<Rightarrow> 'l inner \<Rightarrow> 'l inner option" where
  "acquired_votes L ledger recovery_nodes [] s = Some s"
| "acquired_votes L ledger recovery_nodes (n # ns) s =
     do {
       s1 \<leftarrow> (if acquired_vote_ok L recovery_nodes (g_seq L ledger) n s then update_trie_ledger L n ledger s else Some s);
       acquired_votes L ledger recovery_nodes ns s1
     }"

definition on_ledger_acquired :: "'l ledger_ops \<Rightarrow> val_parms \<Rightarrow> 'l val_env \<Rightarrow> 'l \<Rightarrow> 'l inner \<Rightarrow> 'l inner option" where
  "on_ledger_acquired L p E ledger s =
     do {
       s1 \<leftarrow> current_live L p E s;
       let key = (g_seq L ledger, ledger_ident L ledger);
       let waiters = (case map_of (i_acquiring s1) key of None \<Rightarrow> [] | Some w \<Rightarrow> w);
       let s2 = s1\<lparr>i_acquiring := btree_remove key (i_acquiring s1)\<rparr>;
       let (recovery_nodes, s3) = take_validation_recovery_nodes key s2;
       acquired_votes L ledger recovery_nodes (hs_extend waiters recovery_nodes) s3
     }"

fun retract_votes :: "'l ledger_ops \<Rightarrow> 'l val_env \<Rightarrow> nat list \<Rightarrow> 'l inner \<Rightarrow> 'l inner option" where
  "retract_votes L E [] s = Some s"
| "retract_votes L E (n # ns) s =
     do {
       s1 \<leftarrow> (case map_of (i_last_ledger s) n of
                 Some resident \<Rightarrow>
                   do {
                     (_, t) \<leftarrow> trie_remove L (ledger_ident L resident) (g_seq L resident) 1 (i_trie s);
                     Some (s\<lparr>i_last_ledger := hm_remove n (i_last_ledger s), i_trie := t\<rparr>)
                   }
               | None \<Rightarrow> Some s);
       s2 \<leftarrow> (case map_of (i_current s1) n of
                 Some cur \<Rightarrow> if v_trusted cur then resolve_vote L E n cur s1 else Some s1
               | None \<Rightarrow> Some s1);
       retract_votes L E ns s2
     }"

definition on_ledger_unacquired ::
  "'l ledger_ops \<Rightarrow> val_parms \<Rightarrow> 'l val_env \<Rightarrow> nat \<Rightarrow> 'l inner \<Rightarrow> (nat \<times> 'l inner) option" where
  "on_ledger_unacquired L p E ledger_id s =
     do {
       s1 \<leftarrow> current_live L p E s;
       let affected = map fst (filter (\<lambda>(n, l). ledger_ident L l = ledger_id) (i_last_ledger s1));
       s2 \<leftarrow> retract_votes L E affected s1;
       Some (length affected, s2)
     }"

section \<open>Validations\<close>

definition can_validate_seq :: "val_parms \<Rightarrow> 'l val_env \<Rightarrow> nat \<Rightarrow> 'l inner \<Rightarrow> bool \<times> 'l inner" where
  "can_validate_seq p E sq s =
     (let (ok, e) = try_advance (ve_instant E) sq p (i_local_enforcer s)
      in (ok, s\<lparr>i_local_enforcer := e\<rparr>))"

text \<open>The entry of the sequence number that \<^verbatim>\<open>add\<close> leaves behind.\<close>

definition note_sequence :: "val_parms \<Rightarrow> nat \<Rightarrow> nat \<Rightarrow> validation \<Rightarrow> 'l inner \<Rightarrow> 'l inner" where
  "note_sequence p now node_id val s =
     (let (entry, m) = aged_get_or_insert (v_seq val) now [] (i_by_sequence s);
          entry1 = (case map_of entry node_id of
                      Some existing \<Rightarrow>
                        if from_secs (nat \<bar>int (v_sign_time existing) - int (v_sign_time val)\<bar>) > validation_current_wall p
                           \<and> v_sign_time val > v_sign_time existing
                        then hm_insert node_id val entry else entry
                    | None \<Rightarrow> hm_insert node_id val entry)
      in s\<lparr>i_by_sequence := aged_put (v_seq val) entry1 m\<rparr>)"

text \<open>What \<^verbatim>\<open>add\<close> answers when the sequence number is not larger than the last one.\<close>

definition refused_status :: "nat \<Rightarrow> validation \<Rightarrow> 'l inner \<Rightarrow> val_status option" where
  "refused_status node_id val s =
     (case aged_get (v_seq val) (i_by_sequence s) of
        None \<Rightarrow> None
      | Some entry \<Rightarrow>
          Some (case map_of entry node_id of
                  None \<Rightarrow> BadSeq
                | Some existing \<Rightarrow>
                    if v_seq existing = v_seq val then
                      (if v_ledger_id existing \<noteq> v_ledger_id val then Conflicting
                       else if v_sign_time existing \<noteq> v_sign_time val then Conflicting
                       else if v_cookie existing \<noteq> v_cookie val then Multiple
                       else BadSeq)
                    else BadSeq))"

definition validations_add ::
  "'l ledger_ops \<Rightarrow> val_parms \<Rightarrow> 'l val_env \<Rightarrow> nat \<Rightarrow> validation \<Rightarrow> 'l inner \<Rightarrow> (val_status \<times> 'l inner) option" where
  "validations_add L p E node_id val s =
     (if \<not> is_current p (ve_now E) (v_sign_time val) (v_seen_time val) then Some (Stale, s)
      else
        let now = ve_instant E;
            s1 = note_sequence p now node_id val s;
            enforcer = (case map_of (i_enforcers s1) node_id of None \<Rightarrow> enforcer_default | Some e \<Rightarrow> e);
            (ok, enforcer1) = try_advance now (v_seq val) p enforcer;
            s2 = s1\<lparr>i_enforcers := hm_insert node_id enforcer1 (i_enforcers s1)\<rparr>
        in if \<not> ok then do { st \<leftarrow> refused_status node_id val s2; Some (st, s2) }
           else
             let (entry, m) = aged_get_or_insert (v_ledger_id val) now [] (i_by_ledger s2);
                 s3 = s2\<lparr>i_by_ledger := aged_put (v_ledger_id val) (hm_insert node_id val entry) m\<rparr>
             in (case map_of (i_current s3) node_id of
                   None \<Rightarrow>
                     do {
                       s4 \<leftarrow> (if v_trusted val then update_trie_validation L E node_id val None s3 else Some s3);
                       Some (Current, s4\<lparr>i_current := hm_insert node_id val (i_current s4)\<rparr>)
                     }
                 | Some old_val \<Rightarrow>
                     if v_sign_time val > v_sign_time old_val then
                       do {
                         let s4 = s3\<lparr>i_current := hm_insert node_id val (i_current s3)\<rparr>;
                         s5 \<leftarrow> (if v_trusted val then update_trie_validation L E node_id val (Some (v_id old_val)) s4
                                 else Some s4);
                         Some (Current, s5)
                       }
                     else Some (Stale, s3)))"

definition set_seq_to_keep :: "nat \<Rightarrow> nat \<Rightarrow> 'l inner \<Rightarrow> 'l inner" where
  "set_seq_to_keep low high s = s\<lparr>i_keep := Some (low, high)\<rparr>"

text \<open>Touching the entries of the protected range, shortly before they would expire.\<close>

definition refresh_kept :: "val_parms \<Rightarrow> nat \<Rightarrow> nat \<Rightarrow> nat \<Rightarrow> 'l inner \<Rightarrow> 'l inner" where
  "refresh_kept p now low high s =
     (let s1 = s\<lparr>i_next_keep_refresh := Some (now + (validation_set_expires p - validation_freshness p))\<rparr>;
          kept = (\<lambda>sq. low \<le> sq \<and> sq < high);
          ids = map fst (filter (\<lambda>(i, vs). case vs of [] \<Rightarrow> False | (_, v) # _ \<Rightarrow> kept (v_seq v)) (am_entries (i_by_ledger s1)));
          seqs = filter kept (map fst (am_entries (i_by_sequence s1)))
      in s1\<lparr>i_by_ledger := fold (\<lambda>i. aged_touch i now) ids (i_by_ledger s1),
            i_by_sequence := fold (\<lambda>sq. aged_touch sq now) seqs (i_by_sequence s1)\<rparr>)"

definition validations_expire :: "val_parms \<Rightarrow> 'l val_env \<Rightarrow> 'l inner \<Rightarrow> 'l inner" where
  "validations_expire p E s =
     (let now = ve_instant E;
          s1 = (case i_keep s of
                  None \<Rightarrow> s
                | Some (low, high) \<Rightarrow>
                    if (case i_next_keep_refresh s of None \<Rightarrow> True | Some refresh \<Rightarrow> refresh \<le> now)
                    then refresh_kept p now low high s else s)
      in s1\<lparr>i_by_ledger := aged_expire now (validation_set_expires p) (i_by_ledger s1),
            i_by_sequence := aged_expire now (validation_set_expires p) (i_by_sequence s1)\<rparr>)"

fun change_trust :: "'l ledger_ops \<Rightarrow> 'l val_env \<Rightarrow> hset \<Rightarrow> hset \<Rightarrow> nat list \<Rightarrow> 'l inner \<Rightarrow> 'l inner option" where
  "change_trust L E added removed [] s = Some s"
| "change_trust L E added removed (n # ns) s =
     do {
       s1 \<leftarrow> (if n \<in> set added then
                  do {
                    v \<leftarrow> map_of (i_current s) n;
                    let v1 = v\<lparr>v_trusted := True\<rparr>;
                    update_trie_validation L E n v1 None (s\<lparr>i_current := hm_insert n v1 (i_current s)\<rparr>)
                  }
                else if n \<in> set removed then
                  do {
                    v \<leftarrow> map_of (i_current s) n;
                    let v1 = v\<lparr>v_trusted := False\<rparr>;
                    remove_trie L n v1 (s\<lparr>i_current := hm_insert n v1 (i_current s)\<rparr>)
                  }
                else Some s);
       change_trust L E added removed ns s1
     }"

definition mark_trust :: "hset \<Rightarrow> hset \<Rightarrow> (nat, validation) hashm \<Rightarrow> (nat, validation) hashm" where
  "mark_trust added removed m =
     map (\<lambda>(n, v). (n, if n \<in> set added then v\<lparr>v_trusted := True\<rparr>
                       else if n \<in> set removed then v\<lparr>v_trusted := False\<rparr> else v)) m"

definition trust_changed :: "'l ledger_ops \<Rightarrow> 'l val_env \<Rightarrow> hset \<Rightarrow> hset \<Rightarrow> 'l inner \<Rightarrow> 'l inner option" where
  "trust_changed L E added removed s =
     do {
       s1 \<leftarrow> change_trust L E added removed (map fst (i_current s)) s;
       Some (s1\<lparr>i_by_ledger := (i_by_ledger s1)\<lparr>am_entries :=
         map_values (mark_trust added removed) (am_entries (i_by_ledger s1))\<rparr>\<rparr>)
     }"

definition flush :: "'l inner \<Rightarrow> 'l inner" where
  "flush s = s\<lparr>i_current := [], i_anchor := None, i_candidate := None\<rparr>"

section \<open>The preferred ledger\<close>

text \<open>\<^verbatim>\<open>max_by\<close>: the last of the greatest elements.\<close>

definition max_by :: "('a \<Rightarrow> 'b::linorder) \<Rightarrow> 'a list \<Rightarrow> 'a option" where
  "max_by key xs = fold (\<lambda>x best. case best of None \<Rightarrow> Some x | Some b \<Rightarrow> if key x < key b then best else Some x) xs None"

definition acquiring_majority :: "'l inner \<Rightarrow> (nat \<times> nat) option" where
  "acquiring_majority s = map_option fst (max_by (\<lambda>(key, waiters). (length waiters, snd key)) (i_acquiring s))"

definition tip_ancestor :: "'l ledger_ops \<Rightarrow> 'l span_tip \<Rightarrow> nat \<Rightarrow> nat" where
  "tip_ancestor L p s = g_ancestor L (tip_ledger p) s"

text \<open>
  The choice between the current ledger and the one the trie prefers: stay when the preferred one is
  a child of ours, or an ancestor.
\<close>

definition working_ledger :: "'l ledger_ops \<Rightarrow> 'l \<Rightarrow> 'l span_tip \<Rightarrow> nat \<times> nat" where
  "working_ledger L cur preferred =
     (if tip_seq preferred = g_seq L cur + 1 \<and> tip_ancestor L preferred (g_seq L cur) = ledger_ident L cur
      then (g_seq L cur, ledger_ident L cur)
      else if tip_seq preferred > g_seq L cur then (tip_seq preferred, tip_id preferred)
      else if g_ancestor L cur (tip_seq preferred) \<noteq> tip_id preferred then (tip_seq preferred, tip_id preferred)
      else (g_seq L cur, ledger_ident L cur))"

definition get_preferred ::
  "'l ledger_ops \<Rightarrow> val_parms \<Rightarrow> 'l val_env \<Rightarrow> 'l \<Rightarrow> 'l inner \<Rightarrow> ((nat \<times> nat) option \<times> 'l inner) option" where
  "get_preferred L p E cur s =
     do {
       let largest = se_seq (i_local_enforcer s);
       s1 \<leftarrow> with_trie L p E s;
       preferred \<leftarrow> trie_get_preferred L largest (i_trie s1);
       Some (case preferred of
               None \<Rightarrow> acquiring_majority s1
             | Some tip \<Rightarrow> Some (working_ledger L cur tip), s1)
     }"

definition get_preferred_min_seq ::
  "'l ledger_ops \<Rightarrow> val_parms \<Rightarrow> 'l val_env \<Rightarrow> 'l \<Rightarrow> nat \<Rightarrow> 'l inner \<Rightarrow> (nat \<times> 'l inner) option" where
  "get_preferred_min_seq L p E cur min_valid_seq s =
     do {
       (r, s1) \<leftarrow> get_preferred L p E cur s;
       Some (case r of
               Some (sq, i) \<Rightarrow> if sq \<ge> min_valid_seq then i else ledger_ident L cur
             | None \<Rightarrow> ledger_ident L cur, s1)
     }"

datatype working_source = Trie | AcquiringFallback | NoPreference

datatype selection_source = WorkingPreferred | LocalBelowMinSeq | PeerFallback | LocalNoPreference

record lcl_diagnostic =
  d_trie_preferred :: "(nat \<times> nat) option"
  d_acquiring_preferred :: "(nat \<times> nat) option"
  d_working_preferred :: "(nat \<times> nat) option"
  d_acquired_recovery_candidate :: "(nat \<times> nat) option"
  d_acquired_recovery_peer_support :: "nat option"
  d_validation_recovery_candidate :: "(nat \<times> nat) option"
  d_validation_recovery_support :: "nat option"
  d_validation_recovery_peer_support :: "nat option"
  d_working_source :: working_source
  d_selection_source :: selection_source
  d_selected :: nat
  d_peer_preferred :: "(nat \<times> nat) option"
  d_peer_lcl_entry_count :: nat
  d_current_validation_count :: nat
  d_current_trusted_count :: nat
  d_current_trusted_full_count :: nat
  d_trie_ledger_count :: nat
  d_acquiring_entry_count :: nat
  d_acquiring_waiter_count :: nat

text \<open>The waiters of a ledger whose current validation is trusted, full and for that ledger.\<close>

definition exact_signers :: "nat \<times> nat \<Rightarrow> hset \<Rightarrow> 'l inner \<Rightarrow> hset" where
  "exact_signers key waiters s =
     filter (\<lambda>n. case map_of (i_current s) n of
                   None \<Rightarrow> False
                 | Some v \<Rightarrow> v_trusted v \<and> v_full v \<and> v_seq v = fst key \<and> v_ledger_id v = snd key) waiters"

definition quorum_candidate :: "'l inner \<Rightarrow> (nat \<times> nat \<times> nat) option" where
  "quorum_candidate s =
     (let full = length (filter (\<lambda>(n, v). v_trusted v \<and> v_full v) (i_current s));
          supported = map (\<lambda>(key, waiters). (fst key, snd key, length (exact_signers key waiters s))) (i_acquiring s)
      in max_by (\<lambda>(sq, i, support). (support, sq, i)) (filter (\<lambda>(sq, i, support). support > full div 2) supported))"

definition recovery_advice ::
  "'l ledger_ops \<Rightarrow> 'l \<Rightarrow> nat \<Rightarrow> (nat, nat) btree \<Rightarrow> (nat \<times> nat \<times> nat) option \<Rightarrow> (nat \<times> nat \<times> nat \<times> nat) option" where
  "recovery_advice L lcl min_seq peer_counts candidate =
     (case candidate of
        None \<Rightarrow> None
      | Some (sq, i, support) \<Rightarrow>
          if sq \<ge> min_seq \<and> sq > g_seq L lcl \<and> sq - 1 > g_seq L lcl \<and> i \<noteq> ledger_ident L lcl
          then Some (sq, i, support, case map_of peer_counts i of None \<Rightarrow> 0 | Some c \<Rightarrow> c)
          else None)"

definition select_lcl ::
  "nat \<Rightarrow> nat \<Rightarrow> (nat \<times> nat) option \<Rightarrow> (nat \<times> nat) option \<Rightarrow> nat \<times> selection_source" where
  "select_lcl lcl_id min_seq working_preferred peer_preferred =
     (case working_preferred of
        Some (sq, i) \<Rightarrow> if sq \<ge> min_seq then (i, WorkingPreferred) else (lcl_id, LocalBelowMinSeq)
      | None \<Rightarrow> (case peer_preferred of Some (i, _) \<Rightarrow> (i, PeerFallback) | None \<Rightarrow> (lcl_id, LocalNoPreference)))"

definition get_preferred_lcl_diagnostic ::
  "'l ledger_ops \<Rightarrow> val_parms \<Rightarrow> 'l val_env \<Rightarrow> 'l \<Rightarrow> nat \<Rightarrow> (nat, nat) btree \<Rightarrow> 'l inner \<Rightarrow>
     (lcl_diagnostic \<times> 'l inner) option" where
  "get_preferred_lcl_diagnostic L p E lcl min_seq peer_counts s =
     do {
       let largest = se_seq (i_local_enforcer s);
       s1 \<leftarrow> with_trie L p E s;
       trie_preferred \<leftarrow> trie_get_preferred L largest (i_trie s1);
       let acquiring_preferred = acquiring_majority s1;
       let (working_preferred, working_source) =
         (case trie_preferred of
            Some tip \<Rightarrow> (Some (working_ledger L lcl tip), Trie)
          | None \<Rightarrow> (case acquiring_preferred of
                       Some preferred \<Rightarrow> (Some preferred, AcquiringFallback)
                     | None \<Rightarrow> (None, NoPreference)));
       let peer_preferred = max_by (\<lambda>(i, count). (count, i)) peer_counts;
       let advice = recovery_advice L lcl min_seq peer_counts (quorum_candidate s1);
       let (selected, selection_source) = select_lcl (ledger_ident L lcl) min_seq working_preferred peer_preferred;
       let validation_recovery = (if working_source = Trie \<and> selected = ledger_ident L lcl then advice else None);
       let provenance = map_option (\<lambda>(sq, i, _, _). \<lparr>rp_key = (sq, i),
             rp_nodes = exact_signers (sq, i) (case map_of (i_acquiring s1) (sq, i) of None \<Rightarrow> [] | Some w \<Rightarrow> w) s1\<rparr>)
           validation_recovery;
       let s2 = observe_validation_recovery provenance s1;
       Some (\<lparr>d_trie_preferred = map_option (\<lambda>tip. (tip_seq tip, tip_id tip)) trie_preferred,
              d_acquiring_preferred = acquiring_preferred,
              d_working_preferred = working_preferred,
              d_acquired_recovery_candidate = None,
              d_acquired_recovery_peer_support = None,
              d_validation_recovery_candidate = map_option (\<lambda>(sq, i, _, _). (sq, i)) validation_recovery,
              d_validation_recovery_support = map_option (\<lambda>(_, _, support, _). support) validation_recovery,
              d_validation_recovery_peer_support = map_option (\<lambda>(_, _, _, peers). peers) validation_recovery,
              d_working_source = working_source,
              d_selection_source = selection_source,
              d_selected = selected,
              d_peer_preferred = peer_preferred,
              d_peer_lcl_entry_count = length peer_counts,
              d_current_validation_count = length (i_current s2),
              d_current_trusted_count = length (filter (\<lambda>(n, v). v_trusted v) (i_current s2)),
              d_current_trusted_full_count = length (filter (\<lambda>(n, v). v_trusted v \<and> v_full v) (i_current s2)),
              d_trie_ledger_count = length (i_last_ledger s2),
              d_acquiring_entry_count = length (i_acquiring s2),
              d_acquiring_waiter_count = sum_list (map (\<lambda>(k, w). length w) (i_acquiring s2))\<rparr>, s2)
     }"

definition get_preferred_lcl ::
  "'l ledger_ops \<Rightarrow> val_parms \<Rightarrow> 'l val_env \<Rightarrow> 'l \<Rightarrow> nat \<Rightarrow> (nat, nat) btree \<Rightarrow> 'l inner \<Rightarrow> (nat \<times> 'l inner) option" where
  "get_preferred_lcl L p E lcl min_seq peer_counts s =
     map_option (\<lambda>(d, s1). (d_selected d, s1)) (get_preferred_lcl_diagnostic L p E lcl min_seq peer_counts s)"

section \<open>Queries\<close>

definition get_nodes_after ::
  "'l ledger_ops \<Rightarrow> val_parms \<Rightarrow> 'l val_env \<Rightarrow> 'l \<Rightarrow> nat \<Rightarrow> 'l inner \<Rightarrow> (nat \<times> 'l inner) option" where
  "get_nodes_after L p E ledger ledger_id s =
     (if ledger_ident L ledger = ledger_id then
        do {
          s1 \<leftarrow> with_trie L p E s;
          branch \<leftarrow> branch_support L ledger (i_trie s1);
          tip \<leftarrow> tip_support L (ledger_ident L ledger) (i_trie s1);
          n \<leftarrow> checked_sub branch tip;
          Some (n, s1)
        }
      else Some (length (filter (\<lambda>(n, l). g_seq L l > 0 \<and> g_ancestor L l (g_seq L l - 1) = ledger_id) (i_last_ledger s)), s))"

definition current_trusted :: "'l ledger_ops \<Rightarrow> val_parms \<Rightarrow> 'l val_env \<Rightarrow> 'l inner \<Rightarrow> (validation list \<times> 'l inner) option" where
  "current_trusted L p E s =
     do {
       s1 \<leftarrow> current_live L p E s;
       Some (map snd (filter (\<lambda>(n, v). v_trusted v \<and> v_full v) (i_current s1)), s1)
     }"

definition get_current_node_ids :: "'l ledger_ops \<Rightarrow> val_parms \<Rightarrow> 'l val_env \<Rightarrow> 'l inner \<Rightarrow> (hset \<times> 'l inner) option" where
  "get_current_node_ids L p E s = do { s1 \<leftarrow> current_live L p E s; Some (map fst (i_current s1), s1) }"

text \<open>The validations for a ledger; asking for them keeps them from expiring.\<close>

definition validations_for :: "'l val_env \<Rightarrow> nat \<Rightarrow> 'l inner \<Rightarrow> validation list \<times> 'l inner" where
  "validations_for E ledger_id s =
     (let s1 = s\<lparr>i_by_ledger := aged_touch ledger_id (ve_instant E) (i_by_ledger s)\<rparr>
      in (case aged_get ledger_id (i_by_ledger s1) of
            None \<Rightarrow> []
          | Some m \<Rightarrow> filter (\<lambda>v. v_trusted v \<and> v_full v) (map snd m), s1))"

definition num_trusted_for_ledger :: "'l val_env \<Rightarrow> nat \<Rightarrow> 'l inner \<Rightarrow> nat \<times> 'l inner" where
  "num_trusted_for_ledger E ledger_id s = (let (vs, s1) = validations_for E ledger_id s in (length vs, s1))"

definition get_trusted_for_ledger :: "'l val_env \<Rightarrow> nat \<Rightarrow> nat \<Rightarrow> 'l inner \<Rightarrow> validation list \<times> 'l inner" where
  "get_trusted_for_ledger E ledger_id sq s =
     (let (vs, s1) = validations_for E ledger_id s in (filter (\<lambda>v. v_seq v = sq) vs, s1))"

definition validation_fees :: "'l val_env \<Rightarrow> nat \<Rightarrow> nat \<Rightarrow> 'l inner \<Rightarrow> nat list \<times> 'l inner" where
  "validation_fees E ledger_id base_fee s =
     (let (vs, s1) = validations_for E ledger_id s
      in (map (\<lambda>v. case v_load_fee v of None \<Rightarrow> base_fee | Some f \<Rightarrow> f) vs, s1))"

fun count_laggards :: "val_parms \<Rightarrow> net_time \<Rightarrow> nat \<Rightarrow> validation list \<Rightarrow> hset \<Rightarrow> nat \<times> hset" where
  "count_laggards p now sq [] keys = (0, keys)"
| "count_laggards p now sq (v # vs) keys =
     (let seen_plus_freshness = min (v_seen_time v + as_secs (validation_freshness p) mod 2 ^ 32) u32_max
      in if now < seen_plus_freshness \<and> v_key v \<in> set keys
         then let (n, keys1) = count_laggards p now sq vs (hs_remove (v_key v) keys)
              in (if sq > v_seq v then n + 1 else n, keys1)
         else count_laggards p now sq vs keys)"

definition laggards ::
  "'l ledger_ops \<Rightarrow> val_parms \<Rightarrow> 'l val_env \<Rightarrow> nat \<Rightarrow> hset \<Rightarrow> 'l inner \<Rightarrow> (nat \<times> hset \<times> 'l inner) option" where
  "laggards L p E sq trusted_keys s =
     do {
       s1 \<leftarrow> current_live L p E s;
       let (n, keys) = count_laggards p (ve_now E) sq (map snd (i_current s1)) trusted_keys;
       Some (n, keys, s1)
     }"

end
