(* ===== verification/Ledger_Trie_Inv.thy ===== *)
theory Ledger_Trie_Inv
  imports Ledger_Trie "HOL-Library.Multiset"
begin

text \<open>
  The invariant of the ancestry trie. The locale \<open>ledger_history\<close> is the contract of \<^verbatim>\<open>TrieLedger\<close>:
  how far two ledgers agree is symmetric, transitive and consistent with their identifiers. Under it
  the live nodes of the arena form a tree in which every position of a ledger's history is in at
  most one node, and the counters are the number of supported ledgers at a tip and below it.
\<close>

section \<open>Nodes of the arena\<close>

abbreviation nd :: "'l trie \<Rightarrow> nat \<Rightarrow> 'l tnode" where
  "nd t i \<equiv> t_nodes t ! i"

abbreviation nstart :: "'l trie \<Rightarrow> nat \<Rightarrow> nat" where
  "nstart t i \<equiv> s_start (n_span (nd t i))"

abbreviation nend :: "'l trie \<Rightarrow> nat \<Rightarrow> nat" where
  "nend t i \<equiv> s_end (n_span (nd t i))"

abbreviation nled :: "'l trie \<Rightarrow> nat \<Rightarrow> 'l" where
  "nled t i \<equiv> s_ledger (n_span (nd t i))"

definition alive :: "'l trie \<Rightarrow> nat \<Rightarrow> bool" where
  "alive t i \<longleftrightarrow> i < length (t_nodes t) \<and> n_live (nd t i)"

text \<open>Changing the nodes of a set of indices.\<close>

definition shift :: "nat set \<Rightarrow> ('l tnode \<Rightarrow> 'l tnode) \<Rightarrow> 'l trie \<Rightarrow> 'l trie" where
  "shift S f t = t\<lparr>t_nodes := map (\<lambda>k. if k \<in> S then f (nd t k) else nd t k) [0..<length (t_nodes t)]\<rparr>"

lemma length_shift [simp]: "length (t_nodes (shift S f t)) = length (t_nodes t)"
  by (simp add: shift_def)

lemma seqs_shift [simp]: "t_seqs (shift S f t) = t_seqs t"
  by (simp add: shift_def)

lemma nd_shift: "k < length (t_nodes t) \<Longrightarrow> nd (shift S f t) k = (if k \<in> S then f (nd t k) else nd t k)"
  by (simp add: shift_def)

lemma trie_eqI:
  assumes "length (t_nodes t) = length (t_nodes t')" "\<And>k. k < length (t_nodes t) \<Longrightarrow> nd t k = nd t' k"
    and "t_seqs t = t_seqs t'"
  shows "t = t'"
  using assms nth_equalityI [of "t_nodes t" "t_nodes t'"] by (cases t, cases t') simp

lemma set_node_shift: "i < length (t_nodes t) \<Longrightarrow> set_node i f t = Some (shift {i} f t)"
  unfolding set_node_def by (simp, rule trie_eqI) (simp_all add: nd_shift nth_list_update)

lemma shift_shift:
  "A \<inter> B = {} \<Longrightarrow> shift A f (shift B f t) = shift (A \<union> B) f t"
  by (rule trie_eqI) (auto simp: nd_shift)

lemma node_at_eq: "i < length (t_nodes t) \<Longrightarrow> node_at t i = Some (nd t i)"
  by (simp add: node_at_def)

section \<open>The contract of the ledgers\<close>

text \<open>The positions at which a span of a ledger may end: its own, or where another one leaves it.\<close>

definition junction :: "'l ledger_ops \<Rightarrow> ('l \<Rightarrow> bool) \<Rightarrow> 'l \<Rightarrow> nat \<Rightarrow> bool" where
  "junction L valid a s \<longleftrightarrow> s = g_seq L a \<or> (\<exists>b. valid b \<and> g_mismatch L a b = Suc s)"

locale ledger_history =
  fixes L :: "'l ledger_ops" and valid :: "'l \<Rightarrow> bool"
  assumes valid_genesis: "valid (g_genesis L)"
    and genesis_seq: "g_seq L (g_genesis L) = 0"
    and mm_refl: "valid a \<Longrightarrow> g_mismatch L a a = Suc (g_seq L a)"
    and mm_sym: "valid a \<Longrightarrow> valid b \<Longrightarrow> g_mismatch L a b = g_mismatch L b a"
    and mm_pos: "valid a \<Longrightarrow> valid b \<Longrightarrow> 0 < g_mismatch L a b"
    and mm_le: "valid a \<Longrightarrow> valid b \<Longrightarrow> g_mismatch L a b \<le> Suc (g_seq L a)"
    and mm_ultra: "valid a \<Longrightarrow> valid b \<Longrightarrow> valid c \<Longrightarrow>
      min (g_mismatch L a b) (g_mismatch L b c) \<le> g_mismatch L a c"
    and ids: "valid a \<Longrightarrow> valid b \<Longrightarrow> junction L valid a s \<Longrightarrow>
      g_ancestor L a s = g_ancestor L b (g_seq L b) \<longleftrightarrow> s = g_seq L b \<and> s < g_mismatch L a b"
begin

lemma mm_trans:
  "valid a \<Longrightarrow> valid b \<Longrightarrow> valid c \<Longrightarrow> x \<le> g_mismatch L a b \<Longrightarrow> x \<le> g_mismatch L b c \<Longrightarrow> x \<le> g_mismatch L a c"
  using mm_ultra [of a b c] by simp

end

section \<open>The tree\<close>

definition node_ok :: "'l ledger_ops \<Rightarrow> ('l \<Rightarrow> bool) \<Rightarrow> 'l trie \<Rightarrow> nat \<Rightarrow> bool" where
  "node_ok L valid t i \<longleftrightarrow>
     valid (nled t i) \<and> nstart t i < nend t i \<and> nend t i \<le> Suc (g_seq L (nled t i))
     \<and> junction L valid (nled t i) (nend t i - 1)
     \<and> distinct (n_children (nd t i))
     \<and> (\<forall>c \<in> set (n_children (nd t i)). alive t c \<and> n_parent (nd t c) = Some i
          \<and> nstart t c = nend t i \<and> nend t i \<le> g_mismatch L (nled t c) (nled t i))
     \<and> (\<forall>c \<in> set (n_children (nd t i)). \<forall>c' \<in> set (n_children (nd t i)).
          c \<noteq> c' \<longrightarrow> g_mismatch L (nled t c) (nled t c') \<le> nend t i)
     \<and> (if i = 0 then n_parent (nd t i) = None \<and> n_span (nd t i) = span_genesis L
        else \<exists>p. n_parent (nd t i) = Some p \<and> alive t p \<and> i \<in> set (n_children (nd t p)))"

definition tree_ok :: "'l ledger_ops \<Rightarrow> ('l \<Rightarrow> bool) \<Rightarrow> 'l trie \<Rightarrow> bool" where
  "tree_ok L valid t \<longleftrightarrow> alive t 0 \<and> (\<forall>i. alive t i \<longrightarrow> node_ok L valid t i)"

lemma tree_node_ok: "tree_ok L valid t \<Longrightarrow> alive t i \<Longrightarrow> node_ok L valid t i"
  by (simp add: tree_ok_def)

lemma tree_nodeD:
  assumes "tree_ok L valid t" "alive t i"
  shows "valid (nled t i)" "nstart t i < nend t i" "nend t i \<le> Suc (g_seq L (nled t i))"
    "junction L valid (nled t i) (nend t i - 1)" "distinct (n_children (nd t i))"
    "i < length (t_nodes t)"
  using tree_node_ok [OF assms] assms(2) unfolding node_ok_def alive_def by blast+

lemma tree_childD:
  assumes "tree_ok L valid t" "alive t i" "c \<in> set (n_children (nd t i))"
  shows "alive t c" "n_parent (nd t c) = Some i" "nstart t c = nend t i"
    "nend t i \<le> g_mismatch L (nled t c) (nled t i)"
  using tree_node_ok [OF assms(1,2)] assms(3) unfolding node_ok_def by blast+

lemma tree_siblings:
  assumes "tree_ok L valid t" "alive t i" "c \<in> set (n_children (nd t i))" "c' \<in> set (n_children (nd t i))" "c \<noteq> c'"
  shows "g_mismatch L (nled t c) (nled t c') \<le> nend t i"
  using tree_node_ok [OF assms(1,2)] assms(3-5) unfolding node_ok_def by blast

lemma tree_parentD:
  assumes "tree_ok L valid t" "alive t i" "i \<noteq> 0"
  obtains p where "n_parent (nd t i) = Some p" "alive t p" "i \<in> set (n_children (nd t p))"
proof -
  have "\<exists>p. n_parent (nd t i) = Some p \<and> alive t p \<and> i \<in> set (n_children (nd t p))"
    using tree_node_ok [OF assms(1,2)] assms(3) unfolding node_ok_def by simp
  then show ?thesis using that by blast
qed

lemma tree_root:
  assumes "tree_ok L valid t"
  shows "alive t 0" "n_parent (nd t 0) = None" "n_span (nd t 0) = span_genesis L"
  using tree_node_ok [OF assms, of 0] assms by (simp_all add: tree_ok_def node_ok_def)

text \<open>The live ancestors of a node, itself included, seen through the histories.\<close>

definition chain :: "'l ledger_ops \<Rightarrow> 'l trie \<Rightarrow> nat \<Rightarrow> nat set" where
  "chain L t i = {k. alive t k \<and> nend t k \<le> nend t i \<and> nend t k \<le> g_mismatch L (nled t i) (nled t k)}"

context ledger_history begin

lemma root_bounds:
  assumes "tree_ok L valid t"
  shows "nstart t 0 = 0" "nend t 0 = 1" "nled t 0 = g_genesis L"
  using tree_root(3) [OF assms] genesis_seq by (simp_all add: span_genesis_def)

lemma parent_start:
  assumes "tree_ok L valid t" "alive t i" "i \<noteq> 0"
  obtains p where "n_parent (nd t i) = Some p" "alive t p" "i \<in> set (n_children (nd t p))" "nend t p = nstart t i"
    "nend t p \<le> g_mismatch L (nled t i) (nled t p)" "nend t p < nend t i" "nstart t p < nstart t i"
proof -
  obtain p where p: "n_parent (nd t i) = Some p" "alive t p" "i \<in> set (n_children (nd t p))"
    using assms by (rule tree_parentD)
  have "nstart t i = nend t p" "nend t p \<le> g_mismatch L (nled t i) (nled t p)" "nstart t i < nend t i" "nstart t p < nend t p"
    using tree_childD(3,4) [OF assms(1) p(2,3)] tree_nodeD(2) [OF assms(1,2)] tree_nodeD(2) [OF assms(1) p(2)] by auto
  then show ?thesis using that [OF p] by simp
qed

lemma start_pos: "tree_ok L valid t \<Longrightarrow> alive t i \<Longrightarrow> i \<noteq> 0 \<Longrightarrow> 0 < nstart t i"
  using parent_start by (metis gr0I less_nat_zero_code)

text \<open>A position of a history is in one node at most.\<close>

lemma node_unique:
  assumes t: "tree_ok L valid t"
  shows "alive t i \<Longrightarrow> alive t j \<Longrightarrow> nstart t i \<le> x \<Longrightarrow> x < nend t i \<Longrightarrow> nstart t j \<le> x \<Longrightarrow> x < nend t j
    \<Longrightarrow> x < g_mismatch L (nled t i) (nled t j) \<Longrightarrow> i = j"
proof (induction x arbitrary: i j rule: less_induct)
  case (less x)
  note v = tree_nodeD(1) [OF t]
  have one: "i = j" if ij: "alive t i" "alive t j" "nstart t i \<le> x" "x < nend t i" "nstart t j \<le> x" "x < nend t j"
      "x < g_mismatch L (nled t i) (nled t j)" "nstart t i \<le> nstart t j" for i j
  proof (cases "j = 0")
    case True
    then have "nstart t i = 0" using ij(8) root_bounds(1) [OF t] by simp
    then show ?thesis using True start_pos [OF t ij(1)] by force
  next
    case False
    then obtain q where q: "alive t q" "j \<in> set (n_children (nd t q))" "nend t q = nstart t j"
        "nend t q \<le> g_mismatch L (nled t j) (nled t q)" "nstart t q < nstart t j"
      using parent_start [OF t ij(2)] by metis
    show ?thesis
    proof (cases "nstart t i < nstart t j")
      case True
      let ?y = "nstart t j - 1"
      have "Suc ?y \<le> g_mismatch L (nled t i) (nled t q)"
        by (rule mm_trans [of _ "nled t j"]) (use v ij q True in auto)
      then have "i = q" using less.IH [of ?y i q] ij q True by auto
      then show ?thesis using q ij by simp
    next
      case eq: False
      then have s: "nstart t i = nstart t j" using ij by simp
      then have "i \<noteq> 0" using start_pos [OF t ij(2) False] root_bounds(1) [OF t] by (cases "i = 0") auto
      then obtain p where p: "alive t p" "i \<in> set (n_children (nd t p))" "nend t p = nstart t i"
          "nend t p \<le> g_mismatch L (nled t i) (nled t p)" "nstart t p < nstart t i"
        using parent_start [OF t ij(1)] by metis
      let ?y = "nstart t j - 1"
      have "Suc ?y \<le> g_mismatch L (nled t p) (nled t j)"
        by (rule mm_trans [of _ "nled t i"]) (use v ij p s mm_sym [of "nled t i" "nled t p"] in auto)
      then have "Suc ?y \<le> g_mismatch L (nled t p) (nled t q)"
        by (rule mm_trans [of _ "nled t j", rotated 3]) (use v ij p q s in auto)
      then have "p = q" using less.IH [of ?y p q] ij p q s by auto
      then show ?thesis using tree_siblings [OF t p(1,2), of j] q p s ij by force
    qed
  qed
  show ?case
  proof (cases "nstart t i \<le> nstart t j")
    case True
    then show ?thesis using one less.prems by blast
  next
    case False
    then show ?thesis using one [of j i] less.prems mm_sym [OF v v] by force
  qed
qed

text \<open>Every earlier position of a node's history is in one of its ancestors.\<close>

lemma node_cover:
  assumes t: "tree_ok L valid t"
  shows "alive t i \<Longrightarrow> x < nend t i \<Longrightarrow> \<exists>k \<in> chain L t i. nstart t k \<le> x \<and> x < nend t k"
proof (induction "nstart t i" arbitrary: i rule: less_induct)
  case less
  note v = tree_nodeD(1) [OF t]
  have self: "nend t i \<le> g_mismatch L (nled t i) (nled t i)" using mm_refl v less.prems tree_nodeD(3) [OF t] by simp
  show ?case
  proof (cases "nstart t i \<le> x")
    case True
    then show ?thesis using less.prems self by (auto simp: chain_def)
  next
    case False
    then have "i \<noteq> 0" using root_bounds(1) [OF t] by (cases "i = 0") auto
    then obtain p where p: "alive t p" "nend t p = nstart t i" "nend t p \<le> g_mismatch L (nled t i) (nled t p)"
        "nstart t p < nstart t i" "nend t p < nend t i"
      using parent_start [OF t less.prems(1)] by metis
    then obtain k where k: "k \<in> chain L t p" "nstart t k \<le> x" "x < nend t k"
      using less.hyps [of p] False by auto
    have "nend t k \<le> g_mismatch L (nled t i) (nled t k)"
      by (rule mm_trans [of _ "nled t p"]) (use k v p less.prems in \<open>auto simp: chain_def\<close>)
    then show ?thesis using k p(5) by (auto simp: chain_def)
  qed
qed

lemma chain_root: "tree_ok L valid t \<Longrightarrow> chain L t 0 = {0}"
proof -
  assume t: "tree_ok L valid t"
  have "k = 0" if k: "alive t k" "nend t k \<le> 1" for k
    using start_pos [OF t k(1)] tree_nodeD(2) [OF t k(1)] k(2) by force
  moreover have "1 \<le> g_mismatch L (g_genesis L) (g_genesis L)" using mm_refl valid_genesis by simp
  ultimately show ?thesis using root_bounds [OF t] tree_root(1) [OF t] by (auto simp: chain_def)
qed

lemma chain_parent:
  assumes t: "tree_ok L valid t" and i: "alive t i" "n_parent (nd t i) = Some p" "i \<noteq> 0"
  shows "chain L t i = insert i (chain L t p)" "i \<notin> chain L t p"
proof -
  note v = tree_nodeD(1) [OF t]
  have p: "alive t p" "nend t p = nstart t i" "nend t p \<le> g_mismatch L (nled t i) (nled t p)" "nend t p < nend t i"
    using parent_start [OF t i(1) i(3)] i(2) by (metis option.inject)+
  show "i \<notin> chain L t p" using p(4) by (simp add: chain_def)
  have self: "i \<in> chain L t i"
    using i mm_refl [OF v [OF i(1)]] tree_nodeD(3) [OF t i(1)] by (simp add: chain_def)
  have up: "k \<in> chain L t i" if k: "k \<in> chain L t p" for k
  proof -
    have "nend t k \<le> g_mismatch L (nled t i) (nled t k)"
      by (rule mm_trans [of _ "nled t p"]) (use k v p i in \<open>auto simp: chain_def\<close>)
    then show ?thesis using k p by (auto simp: chain_def)
  qed
  have down: "k \<in> chain L t p" if k: "k \<in> chain L t i" "k \<noteq> i" for k
  proof (cases "nend t k \<le> nend t p")
    case True
    have "nend t k \<le> g_mismatch L (nled t p) (nled t k)"
      by (rule mm_trans [of _ "nled t i"]) (use k v p i True mm_sym [of "nled t i" "nled t p"] in \<open>auto simp: chain_def\<close>)
    then show ?thesis using k True by (auto simp: chain_def)
  next
    case False
    have "alive t k" "nend t k \<le> nend t i" "nend t k \<le> g_mismatch L (nled t i) (nled t k)" using k(1) by (auto simp: chain_def)
    then show ?thesis
      using node_unique [OF t i(1), of k "nend t k - 1"] tree_nodeD(2) [OF t, of k] False p k(2) by force
  qed
  show "chain L t i = insert i (chain L t p)" using self up down by blast
qed

end

section \<open>Changing the counters\<close>

definition same_shape :: "'l trie \<Rightarrow> 'l trie \<Rightarrow> bool" where
  "same_shape t t' \<longleftrightarrow> length (t_nodes t') = length (t_nodes t)
     \<and> (\<forall>k < length (t_nodes t). n_span (nd t' k) = n_span (nd t k) \<and> n_children (nd t' k) = n_children (nd t k)
          \<and> n_parent (nd t' k) = n_parent (nd t k) \<and> n_live (nd t' k) = n_live (nd t k))"

lemma same_shapeD:
  assumes "same_shape t t'"
  shows "alive t' k \<longleftrightarrow> alive t k" "alive t k \<Longrightarrow> n_span (nd t' k) = n_span (nd t k)"
    "alive t k \<Longrightarrow> n_children (nd t' k) = n_children (nd t k)" "alive t k \<Longrightarrow> n_parent (nd t' k) = n_parent (nd t k)"
  using assms by (auto simp: same_shape_def alive_def)

lemma same_shape_tree_ok:
  assumes s: "same_shape t t'" and t: "tree_ok L valid t"
  shows "tree_ok L valid t'"
proof -
  note d = same_shapeD [OF s]
  have "node_ok L valid t' i" if i: "alive t i" for i
  proof -
    note ch = tree_childD [OF t i]
    have c: "n_span (nd t' c) = n_span (nd t c) \<and> n_parent (nd t' c) = n_parent (nd t c)" if "c \<in> set (n_children (nd t i))" for c
      using d(2,4) ch(1) that by blast
    have p: "n_children (nd t' p) = n_children (nd t p)" if "alive t p" for p using d(3) that by blast
    show ?thesis
      using tree_node_ok [OF t i] unfolding node_ok_def d(1) d(2) [OF i] d(3) [OF i] d(4) [OF i]
      by (simp add: c p cong: conj_cong if_cong split del: if_split)
  qed
  then show ?thesis using t d(1) by (simp add: tree_ok_def)
qed

lemma same_shape_chain: "same_shape t t' \<Longrightarrow> alive t i \<Longrightarrow> chain L t' i = chain L t i"
  using same_shapeD by (fastforce simp: chain_def)

definition keeps_shape :: "('l tnode \<Rightarrow> 'l tnode) \<Rightarrow> bool" where
  "keeps_shape f \<longleftrightarrow> (\<forall>n. n_span (f n) = n_span n \<and> n_children (f n) = n_children n
     \<and> n_parent (f n) = n_parent n \<and> n_live (f n) = n_live n)"

lemma same_shape_shift: "keeps_shape f \<Longrightarrow> same_shape t (shift S f t)"
  by (simp add: same_shape_def keeps_shape_def nd_shift)

lemma same_shape_refl: "same_shape t t" and same_shape_trans: "same_shape t u \<Longrightarrow> same_shape u v \<Longrightarrow> same_shape t v"
  by (auto simp: same_shape_def)

lemma chain_finite: "finite (chain L t i)" "card (chain L t i) \<le> length (t_nodes t)"
proof -
  have sub: "chain L t i \<subseteq> {..<length (t_nodes t)}" by (auto simp: chain_def alive_def)
  then show "finite (chain L t i)" by (rule finite_subset) simp
  show "card (chain L t i) \<le> length (t_nodes t)" using card_mono [OF _ sub] by simp
qed

definition add_branch :: "nat \<Rightarrow> 'l tnode \<Rightarrow> 'l tnode" where
  "add_branch c n = n\<lparr>n_branch := n_branch n + c\<rparr>"

definition sub_branch :: "nat \<Rightarrow> 'l tnode \<Rightarrow> 'l tnode" where
  "sub_branch c n = n\<lparr>n_branch := n_branch n - c\<rparr>"

lemma keeps_shape_branch [simp]: "keeps_shape (add_branch c)" "keeps_shape (sub_branch c)"
  by (simp_all add: keeps_shape_def add_branch_def sub_branch_def)

context ledger_history begin

lemma chain_nonempty: "tree_ok L valid t \<Longrightarrow> alive t i \<Longrightarrow> i \<in> chain L t i"
  using tree_nodeD(1,3) [of L valid t i] mm_refl by (simp add: chain_def)

lemma chain_next:
  assumes t: "tree_ok L valid t" and i: "alive t i"
  shows "case n_parent (nd t i) of None \<Rightarrow> i = 0 \<and> chain L t i = {i}
    | Some p \<Rightarrow> alive t p \<and> chain L t i = insert i (chain L t p) \<and> i \<notin> chain L t p"
proof (cases "i = 0")
  case True
  then show ?thesis using tree_root(2) [OF t] chain_root [OF t] by simp
next
  case False
  obtain p where "n_parent (nd t i) = Some p" "alive t p" using parent_start [OF t i False] by blast
  then show ?thesis using chain_parent [OF t i _ False, of p] by simp
qed

lemma add_support_chain:
  assumes "tree_ok L valid t" "alive t i" "card (chain L t i) \<le> fuel"
  shows "add_support fuel (Some i) c t = Some (shift (chain L t i) (add_branch c) t)"
  using assms
proof (induction fuel arbitrary: i t)
  case 0
  then show ?case using chain_nonempty [of t i] chain_finite(1) [of L t i] by auto
next
  case (Suc fuel)
  let ?t1 = "shift {i} (add_branch c) t"
  have i: "i < length (t_nodes t)" using Suc.prems(2) by (simp add: alive_def)
  have sh: "same_shape t ?t1" by (rule same_shape_shift) simp
  note t1 = same_shape_tree_ok [OF sh Suc.prems(1)]
  have step: "add_support (Suc fuel) (Some i) c t = add_support fuel (n_parent (nd t i)) c ?t1"
    using i set_node_shift [OF i, of "add_branch c"] by (simp add: add_branch_def [abs_def] node_at_eq nd_shift)
  show ?case
  proof (cases "n_parent (nd t i)")
    case None
    then have "chain L t i = {i}" using chain_next [OF Suc.prems(1,2)] by auto
    then show ?thesis unfolding step None by simp
  next
    case (Some p)
    then have p: "alive t p" "chain L t i = insert i (chain L t p)" "i \<notin> chain L t p"
      using chain_next [OF Suc.prems(1,2)] by simp_all
    have p1: "alive ?t1 p" "chain L ?t1 p = chain L t p"
      using same_shapeD(1) [OF sh] same_shape_chain [OF sh p(1)] p(1) by simp_all
    have "card (chain L ?t1 p) \<le> fuel" using Suc.prems(3) p chain_finite(1) [of L t p] p1(2) by simp
    from Suc.IH [OF t1 p1(1) this] show ?thesis
      using step Some p p1(2) shift_shift [of "chain L t p" "{i}" "add_branch c" t] by simp
  qed
qed

lemma sub_support_chain:
  assumes "tree_ok L valid t" "alive t i" "card (chain L t i) \<le> fuel" "\<forall>k \<in> chain L t i. c \<le> n_branch (nd t k)"
  shows "sub_support fuel (Some i) c t = Some (shift (chain L t i) (sub_branch c) t)"
  using assms
proof (induction fuel arbitrary: i t)
  case 0
  then show ?case using chain_nonempty [of t i] chain_finite(1) [of L t i] by auto
next
  case (Suc fuel)
  let ?t1 = "shift {i} (sub_branch c) t"
  have i: "i < length (t_nodes t)" using Suc.prems(2) by (simp add: alive_def)
  have sh: "same_shape t ?t1" by (rule same_shape_shift) simp
  note t1 = same_shape_tree_ok [OF sh Suc.prems(1)]
  have set: "set_node i (\<lambda>m. m\<lparr>n_branch := n_branch (nd t i) - c\<rparr>) t = Some ?t1"
    unfolding set_node_shift [OF i] by (simp, rule trie_eqI) (simp_all add: nd_shift sub_branch_def)
  have "c \<le> n_branch (nd t i)" using Suc.prems(4) chain_nonempty [OF Suc.prems(1,2)] by blast
  then have step: "sub_support (Suc fuel) (Some i) c t = sub_support fuel (n_parent (nd t i)) c ?t1"
    using i set by (simp add: node_at_eq checked_sub_def)
  show ?case
  proof (cases "n_parent (nd t i)")
    case None
    then have "chain L t i = {i}" using chain_next [OF Suc.prems(1,2)] by auto
    then show ?thesis unfolding step None by simp
  next
    case (Some p)
    then have p: "alive t p" "chain L t i = insert i (chain L t p)" "i \<notin> chain L t p"
      using chain_next [OF Suc.prems(1,2)] by simp_all
    have p1: "alive ?t1 p" "chain L ?t1 p = chain L t p"
      using same_shapeD(1) [OF sh] same_shape_chain [OF sh p(1)] p(1) by simp_all
    have le: "card (chain L ?t1 p) \<le> fuel" using Suc.prems(3) p chain_finite(1) [of L t p] p1(2) by simp
    have "c \<le> n_branch (nd ?t1 k)" if "k \<in> chain L t p" for k
      using that Suc.prems(4) p by (auto simp: nd_shift chain_def alive_def)
    then have "\<forall>k \<in> chain L ?t1 p. c \<le> n_branch (nd ?t1 k)" unfolding p1(2) by blast
    from Suc.IH [OF t1 p1(1) le this] show ?thesis
      using step Some p p1(2) shift_shift [of "chain L t p" "{i}" "sub_branch c" t] by simp
  qed
qed

end

end
