(* ===== verification/Ledger_Trie_Insert.thy ===== *)
theory Ledger_Trie_Insert
  imports Ledger_Trie_Inv
begin

text \<open>
  What the ancestry trie represents, and that \<^verbatim>\<open>insert\<close> adds to it. The abstract state is the
  multiset of supported ledgers: the support of a tip is the number of supported ledgers that end
  there, the support of a branch the number of those that pass through its tip.
\<close>

section \<open>The supported ledgers\<close>

definition on_path :: "'l ledger_ops \<Rightarrow> 'l trie \<Rightarrow> 'l \<Rightarrow> nat \<Rightarrow> bool" where
  "on_path L t l i \<longleftrightarrow> nend t i \<le> g_mismatch L l (nled t i)"

definition tip_at :: "'l ledger_ops \<Rightarrow> 'l trie \<Rightarrow> 'l \<Rightarrow> nat \<Rightarrow> bool" where
  "tip_at L t l i \<longleftrightarrow> nend t i = Suc (g_seq L l) \<and> on_path L t l i"

definition counts_ok :: "'l ledger_ops \<Rightarrow> 'l trie \<Rightarrow> 'l multiset \<Rightarrow> bool" where
  "counts_ok L t M \<longleftrightarrow>
     (\<forall>i. alive t i \<longrightarrow> n_tip (nd t i) = size (filter_mset (\<lambda>l. tip_at L t l i) M)
        \<and> n_branch (nd t i) = size (filter_mset (\<lambda>l. on_path L t l i) M))"

definition covered_by :: "'l ledger_ops \<Rightarrow> 'l trie \<Rightarrow> 'l multiset \<Rightarrow> bool" where
  "covered_by L t M \<longleftrightarrow> (\<forall>l \<in># M. \<exists>i. alive t i \<and> tip_at L t l i)"

definition compact_ok :: "'l trie \<Rightarrow> bool" where
  "compact_ok t \<longleftrightarrow> (\<forall>i. alive t i \<longrightarrow> i \<noteq> 0 \<longrightarrow> n_tip (nd t i) = 0 \<longrightarrow> 2 \<le> length (n_children (nd t i)))"

definition seqs_ok :: "'l ledger_ops \<Rightarrow> (nat, nat) btree \<Rightarrow> 'l multiset \<Rightarrow> bool" where
  "seqs_ok L m M \<longleftrightarrow> btree_wf m \<and>
     (\<forall>s. map_of m s = (if \<exists>l \<in># M. g_seq L l = s then Some (size (filter_mset (\<lambda>l. g_seq L l = s) M)) else None))"

definition trie_core :: "'l ledger_ops \<Rightarrow> ('l \<Rightarrow> bool) \<Rightarrow> 'l trie \<Rightarrow> 'l multiset \<Rightarrow> bool" where
  "trie_core L valid t M \<longleftrightarrow> (\<forall>l \<in># M. valid l) \<and> tree_ok L valid t \<and> counts_ok L t M \<and> covered_by L t M"

definition trie_rep :: "'l ledger_ops \<Rightarrow> ('l \<Rightarrow> bool) \<Rightarrow> 'l trie \<Rightarrow> 'l multiset \<Rightarrow> bool" where
  "trie_rep L valid t M \<longleftrightarrow> trie_core L valid t M \<and> compact_ok t \<and> seqs_ok L (t_seqs t) M"

lemma trie_coreD:
  assumes "trie_core L valid t M"
  shows "l \<in># M \<Longrightarrow> valid l" "tree_ok L valid t" "counts_ok L t M" "covered_by L t M"
  using assms by (auto simp: trie_core_def)

lemma countsD:
  assumes "counts_ok L t M" "alive t i"
  shows "n_tip (nd t i) = size (filter_mset (\<lambda>l. tip_at L t l i) M)"
    "n_branch (nd t i) = size (filter_mset (\<lambda>l. on_path L t l i) M)"
  using assms by (auto simp: counts_ok_def)

text \<open>Where \<^verbatim>\<open>find\<close> ends: the node with the longest common ancestry and the first difference.\<close>

definition found :: "'l ledger_ops \<Rightarrow> 'l trie \<Rightarrow> 'l \<Rightarrow> nat \<Rightarrow> nat \<Rightarrow> bool" where
  "found L t l loc d \<longleftrightarrow> alive t loc \<and> nstart t loc < d \<and> d = min (g_mismatch L l (nled t loc)) (nend t loc)
     \<and> (d = nend t loc \<longrightarrow> (\<forall>c \<in> set (n_children (nd t loc)). g_mismatch L l (nled t c) \<le> nend t loc))"

context ledger_history begin

lemma on_path_parent:
  assumes t: "tree_ok L valid t" and c: "alive t i" "c \<in> set (n_children (nd t i))" and l: "valid l" "on_path L t l c"
  shows "on_path L t l i"
proof -
  note ch = tree_childD [OF t c]
  have "nend t i \<le> g_mismatch L l (nled t i)"
    by (rule mm_trans [of _ "nled t c"])
      (use l ch tree_nodeD(1,2) [OF t ch(1)] tree_nodeD(1) [OF t c(1)] in \<open>auto simp: on_path_def\<close>)
  then show ?thesis by (simp add: on_path_def)
qed

text \<open>A supported ledger does not leave the trie inside a span.\<close>

lemma path_through:
  assumes k: "trie_core L valid t M" and l: "l \<in># M" and i: "alive t i" "nstart t i < g_mismatch L l (nled t i)"
  shows "on_path L t l i"
proof -
  note t = trie_coreD(2) [OF k] and v = trie_coreD(1) [OF k l]
  note vi = tree_nodeD(1) [OF t]
  obtain j where j: "alive t j" "nend t j = Suc (g_seq L l)" "nend t j \<le> g_mismatch L l (nled t j)"
    using trie_coreD(4) [OF k] l by (auto simp: covered_by_def tip_at_def on_path_def)
  have "nstart t i < nend t j" using i(2) j(2) mm_le [OF v vi [OF i(1)]] by simp
  then obtain m where m: "m \<in> chain L t j" "nstart t m \<le> nstart t i" "nstart t i < nend t m"
    using node_cover [OF t j(1)] by blast
  have am: "alive t m" "nend t m \<le> nend t j" "nend t m \<le> g_mismatch L (nled t j) (nled t m)"
    using m(1) by (auto simp: chain_def)
  have lm: "nend t m \<le> g_mismatch L l (nled t m)"
    by (rule mm_trans [of _ "nled t j"]) (use v vi j am in auto)
  have "Suc (nstart t i) \<le> g_mismatch L (nled t m) (nled t i)"
    by (rule mm_trans [of _ l]) (use v vi i am m lm mm_sym [of l "nled t m"] in auto)
  then have "m = i" using node_unique [OF t am(1) i(1) m(2,3)] tree_nodeD(2) [OF t i(1)] by simp
  then show ?thesis using lm by (simp add: on_path_def)
qed

text \<open>The next node on the path of a supported ledger that goes beyond a node.\<close>

lemma path_child:
  assumes k: "trie_core L valid t M" and l: "l \<in># M" and i: "alive t i" "on_path L t l i" "nend t i \<le> g_seq L l"
  obtains c where "c \<in> set (n_children (nd t i))" "on_path L t l c"
proof -
  note t = trie_coreD(2) [OF k] and v = trie_coreD(1) [OF k l]
  note vi = tree_nodeD(1) [OF t]
  obtain j where j: "alive t j" "nend t j = Suc (g_seq L l)" "nend t j \<le> g_mismatch L l (nled t j)"
    using trie_coreD(4) [OF k] l by (auto simp: covered_by_def tip_at_def on_path_def)
  obtain m where m: "m \<in> chain L t j" "nstart t m \<le> nend t i" "nend t i < nend t m"
    using node_cover [OF t j(1), of "nend t i"] i(3) j(2) by auto
  have am: "alive t m" "nend t m \<le> nend t j" "nend t m \<le> g_mismatch L (nled t j) (nled t m)"
    using m(1) by (auto simp: chain_def)
  have lm: "nend t m \<le> g_mismatch L l (nled t m)"
    by (rule mm_trans [of _ "nled t j"]) (use v vi j am in auto)
  have im: "nend t i \<le> g_mismatch L (nled t m) (nled t i)"
    by (rule mm_trans [of _ l]) (use v vi i am m lm mm_sym [of l "nled t m"] in \<open>auto simp: on_path_def\<close>)
  have ne: "m \<noteq> 0" using m(3) root_bounds(2) [OF t] tree_nodeD(2) [OF t i(1)] by (cases "m = 0") auto
  obtain p where p: "alive t p" "m \<in> set (n_children (nd t p))" "nend t p = nstart t m"
      "nend t p \<le> g_mismatch L (nled t m) (nled t p)"
    using parent_start [OF t am(1) ne] by metis
  have "m \<noteq> i" using m(3) by auto
  have pi: "i = p"
  proof (cases "nstart t m = nend t i")
    case True
    let ?x = "nend t i - 1"
    have b: "nstart t i < nend t i" "nstart t p < nend t p" using tree_nodeD(2) [OF t] i(1) p(1) by auto
    have "Suc ?x \<le> g_mismatch L (nled t i) (nled t p)"
      by (rule mm_trans [of _ "nled t m"]) (use vi i p am im True b mm_sym [of "nled t m" "nled t i"] in auto)
    then show ?thesis using node_unique [OF t i(1) p(1), of ?x] b p(3) True by auto
  next
    case False
    let ?x = "nend t i - 1"
    have b: "nstart t i < nend t i" using tree_nodeD(2) [OF t] i(1) by auto
    have "m = i" using node_unique [OF t am(1) i(1), of ?x] m(2,3) False b im by auto
    then show ?thesis using \<open>m \<noteq> i\<close> by simp
  qed
  show ?thesis using that [of m] p(2) pi lm by (simp add: on_path_def)
qed

section \<open>Search\<close>

lemma find_child_spec:
  assumes t: "tree_ok L valid t" and cs: "\<forall>c \<in> set cs. alive t c"
  shows "\<exists>r. find_child L l t pos cs = Some r
    \<and> (case r of None \<Rightarrow> \<forall>c \<in> set cs. span_diff L (n_span (nd t c)) l \<le> pos
       | Some (c, p) \<Rightarrow> c \<in> set cs \<and> p = span_diff L (n_span (nd t c)) l \<and> pos < p)"
  using cs
proof (induction cs)
  case (Cons c cs)
  then have "alive t c" by simp
  then have "node_at t c = Some (nd t c)" "n_live (nd t c)" by (auto simp: alive_def node_at_eq)
  then show ?case using Cons by (auto simp: Let_def split: option.splits)
qed simp

lemma find_loop_spec:
  assumes t: "tree_ok L valid t" and l: "valid l"
  shows "alive t cur \<Longrightarrow> nstart t cur < g_mismatch L l (nled t cur)
    \<Longrightarrow> pos = min (g_mismatch L l (nled t cur)) (nend t cur)
    \<Longrightarrow> \<exists>loc d. find_loop L l t cur pos = Some (loc, d) \<and> alive t loc \<and> nstart t loc < d
      \<and> d = min (g_mismatch L l (nled t loc)) (nend t loc)
      \<and> (d = nend t loc \<longrightarrow> (\<forall>c \<in> set (n_children (nd t loc)). g_mismatch L l (nled t c) \<le> nend t loc))"
proof (induction "ends_total t - pos" arbitrary: cur pos rule: less_induct)
  case less
  have n: "node_at t cur = Some (nd t cur)" using less.prems(1) by (simp add: alive_def node_at_eq)
  have st: "nstart t cur < pos" using less.prems tree_nodeD(2) [OF t less.prems(1)] by simp
  note ch = tree_childD [OF t less.prems(1)]
  have diff: "span_diff L (n_span (nd t c)) l = min (max (g_mismatch L l (nled t c)) (nend t cur)) (nend t c)"
    if "c \<in> set (n_children (nd t cur))" for c
    using that ch mm_sym [OF l tree_nodeD(1) [OF t ch(1)]] by (simp add: span_diff_def span_clamp_def)
  show ?case
  proof (cases "pos = nend t cur")
    case True
    obtain r where r: "find_child L l t pos (n_children (nd t cur)) = Some r"
      "case r of None \<Rightarrow> \<forall>c \<in> set (n_children (nd t cur)). span_diff L (n_span (nd t c)) l \<le> pos
       | Some (c, p) \<Rightarrow> c \<in> set (n_children (nd t cur)) \<and> p = span_diff L (n_span (nd t c)) l \<and> pos < p"
      using find_child_spec [OF t, of "n_children (nd t cur)" l pos] ch(1) by auto
    show ?thesis
    proof (cases r)
      case None
      have "g_mismatch L l (nled t c) \<le> nend t cur" if c: "c \<in> set (n_children (nd t cur))" for c
        using r(2) None c True diff [OF c] ch(3) [OF c] tree_nodeD(2) [OF t ch(1) [OF c]] by fastforce
      then show ?thesis using less.prems True n r(1) None st by (subst find_loop.simps) simp
    next
      case (Some cp)
      obtain c p where cp: "cp = (c, p)" by (cases cp)
      then have c: "c \<in> set (n_children (nd t cur))" "p = span_diff L (n_span (nd t c)) l" "pos < p"
        using r(2) Some by auto
      have "ends_total t - p < ends_total t - pos" using find_child_bound r(1) Some cp c(3) by fastforce
      moreover have "nstart t c < g_mismatch L l (nled t c)" "p = min (g_mismatch L l (nled t c)) (nend t c)"
        using c True diff [OF c(1)] ch(3) [OF c(1)] by auto
      ultimately have "\<exists>loc d. find_loop L l t c p = Some (loc, d) \<and> alive t loc \<and> nstart t loc < d
          \<and> d = min (g_mismatch L l (nled t loc)) (nend t loc)
          \<and> (d = nend t loc \<longrightarrow> (\<forall>c \<in> set (n_children (nd t loc)). g_mismatch L l (nled t c) \<le> nend t loc))"
        using less.hyps ch(1) [OF c(1)] by blast
      moreover have "find_loop L l t cur pos = find_loop L l t c p"
        using True n r(1) Some cp by (subst find_loop.simps) simp
      ultimately show ?thesis by simp
    qed
  next
    case False
    then have "find_loop L l t cur pos = Some (cur, pos)" using n by (subst find_loop.simps) simp
    then show ?thesis using less.prems False st by blast
  qed
qed

lemma find_node_spec:
  assumes t: "tree_ok L valid t" and l: "valid l"
  shows "\<exists>loc d. find_node L l t = Some (loc, d) \<and> found L t l loc d"
proof -
  note r = root_bounds [OF t]
  have p: "0 < g_mismatch L l (nled t 0)" using mm_pos l valid_genesis r(3) by simp
  have "span_diff L (n_span (nd t 0)) l = min (g_mismatch L l (nled t 0)) (nend t 0)"
    using r p mm_sym [OF l valid_genesis] by (simp add: span_diff_def span_clamp_def)
  then show ?thesis
    using find_loop_spec [OF t l tree_root(1) [OF t]] r p tree_root(1) [OF t]
    by (simp add: find_node_def found_def node_at_def alive_def)
qed

end

section \<open>Splitting a node\<close>

lemma shift_idem:
  "(\<And>n. f (f n) = f n) \<Longrightarrow> shift A f (shift B f t) = shift (A \<union> B) f t"
  by (rule trie_eqI) (auto simp: nd_shift)

lemma set_parents_shift:
  "\<forall>c \<in> set cs. c < length (t_nodes t) \<Longrightarrow>
     set_parents p cs t = Some (shift (set cs) (\<lambda>n. n\<lparr>n_parent := Some p\<rparr>) t)"
proof (induction cs arbitrary: t)
  case Nil
  show ?case by (simp, rule trie_eqI) (simp_all add: nd_shift)
next
  case (Cons c cs)
  have "set_parents p cs (shift {c} (\<lambda>n. n\<lparr>n_parent := Some p\<rparr>) t)
      = Some (shift (set cs) (\<lambda>n. n\<lparr>n_parent := Some p\<rparr>) (shift {c} (\<lambda>n. n\<lparr>n_parent := Some p\<rparr>) t))"
    by (rule Cons.IH) (use Cons.prems in simp)
  then show ?case
    using Cons.prems set_node_shift [of c t] shift_idem [of "\<lambda>n. n\<lparr>n_parent := Some p\<rparr>" "set cs" "{c}" t] by simp
qed

lemma alloc_result:
  assumes "alloc n t = (k, t')"
  shows "k = length (t_nodes t)" "length (t_nodes t') = Suc (length (t_nodes t))" "t_seqs t' = t_seqs t"
    "nd t' k = n" "j < length (t_nodes t) \<Longrightarrow> nd t' j = nd t j"
  using assms by (auto simp: alloc_def nth_append)

definition split_at :: "'l trie \<Rightarrow> nat \<Rightarrow> 'l span \<Rightarrow> 'l span \<Rightarrow> 'l trie \<Rightarrow> bool" where
  "split_at t loc pre os t' \<longleftrightarrow>
     (let n = length (t_nodes t); cs = n_children (nd t loc) in
      length (t_nodes t') = Suc n \<and> t_seqs t' = t_seqs t
      \<and> nd t' loc = (nd t loc)\<lparr>n_span := pre, n_children := [n], n_tip := 0\<rparr>
      \<and> nd t' n = \<lparr>n_span = os, n_tip = n_tip (nd t loc), n_branch = n_branch (nd t loc), n_children = cs,
                   n_parent = Some loc, n_live = True\<rparr>
      \<and> (\<forall>k < n. k \<noteq> loc \<longrightarrow> nd t' k = (if k \<in> set cs then (nd t k)\<lparr>n_parent := Some n\<rparr> else nd t k)))"

lemma split_node_split:
  assumes loc: "loc < length (t_nodes t)" and cs: "\<forall>c \<in> set (n_children (nd t loc)). c < length (t_nodes t) \<and> c \<noteq> loc"
  shows "\<exists>t'. split_node loc (Some pre) os t = Some t' \<and> split_at t loc pre os t'"
proof -
  let ?n = "length (t_nodes t)" and ?cs = "n_children (nd t loc)"
  let ?new = "(node_from_span os)\<lparr>n_tip := n_tip (nd t loc), n_branch := n_branch (nd t loc), n_children := ?cs\<rparr>"
  define t1 where "t1 = shift {loc} (\<lambda>m. m\<lparr>n_children := []\<rparr>) t"
  define t2 where "t2 = t1\<lparr>t_nodes := t_nodes t1 @ [?new]\<rparr>"
  define t3 where "t3 = shift (set ?cs) (\<lambda>m. m\<lparr>n_parent := Some ?n\<rparr>) t2"
  define t4 where "t4 = shift {loc} (\<lambda>m. m\<lparr>n_span := pre\<rparr>) t3"
  define t5 where "t5 = shift {?n} (\<lambda>m. m\<lparr>n_parent := Some loc\<rparr>) t4"
  define t6 where "t6 = shift {loc} (\<lambda>m. m\<lparr>n_children := n_children m @ [?n], n_tip := 0\<rparr>) t5"
  have len: "length (t_nodes t1) = ?n" "length (t_nodes t2) = Suc ?n" "length (t_nodes t3) = Suc ?n"
    "length (t_nodes t4) = Suc ?n" "length (t_nodes t5) = Suc ?n" "length (t_nodes t6) = Suc ?n"
    by (simp_all add: t1_def t2_def t3_def t4_def t5_def t6_def)
  have sp: "set_parents ?n ?cs t2 = Some t3"
    unfolding t3_def by (rule set_parents_shift) (use cs len in force)
  have "split_node loc (Some pre) os t = Some t6"
    using loc sp len
    by (simp add: split_node_def node_at_eq set_node_shift t1_def [symmetric] alloc_def t2_def [symmetric]
        t3_def [symmetric] t4_def [symmetric] t5_def [symmetric] t6_def)
  moreover have "split_at t loc pre os t6"
  proof -
    have n2: "nd t2 ?n = ?new" "k < ?n \<Longrightarrow> nd t2 k = nd t1 k" for k
      using len(1) by (simp_all add: t2_def nth_append)
    have out: "?n \<notin> set ?cs" "loc \<notin> set ?cs" "?n \<noteq> loc" "loc < Suc ?n" "?n < Suc ?n" using cs loc by auto
    have n3: "k < Suc ?n \<Longrightarrow> nd t3 k = (if k \<in> set ?cs then (nd t2 k)\<lparr>n_parent := Some ?n\<rparr> else nd t2 k)" for k
      using len(2) by (simp add: t3_def nd_shift)
    have "nd t6 loc = (nd t loc)\<lparr>n_span := pre, n_children := [?n], n_tip := 0\<rparr>"
      using out loc len by (simp add: t6_def t5_def t4_def nd_shift n3 n2 t1_def)
    moreover have "nd t6 ?n = \<lparr>n_span = os, n_tip = n_tip (nd t loc), n_branch = n_branch (nd t loc), n_children = ?cs,
        n_parent = Some loc, n_live = True\<rparr>"
      using out len by (simp add: t6_def t5_def t4_def nd_shift n3 n2 node_from_span_def)
    moreover have "nd t6 k = (if k \<in> set ?cs then (nd t k)\<lparr>n_parent := Some ?n\<rparr> else nd t k)" if "k < ?n" "k \<noteq> loc" for k
      using that len by (simp add: t6_def t5_def t4_def nd_shift n3 n2 t1_def)
    moreover have "t_seqs t6 = t_seqs t" by (simp add: t6_def t5_def t4_def t3_def t2_def t1_def)
    ultimately show ?thesis using len(6) by (simp add: split_at_def Let_def)
  qed
  ultimately show ?thesis by blast
qed

lemma split_fields:
  assumes s: "split_at t loc pre os t'" and loc: "alive t loc" and k: "alive t k \<or> k = length (t_nodes t)"
  shows "n_span (nd t' k) = (if k = length (t_nodes t) then os else if k = loc then pre else n_span (nd t k))"
    "n_children (nd t' k) = (if k = length (t_nodes t) then n_children (nd t loc)
        else if k = loc then [length (t_nodes t)] else n_children (nd t k))"
    "n_parent (nd t' k) = (if k = length (t_nodes t) then Some loc
        else if k \<noteq> loc \<and> k \<in> set (n_children (nd t loc)) then Some (length (t_nodes t)) else n_parent (nd t k))"
    "n_tip (nd t' k) = (if k = length (t_nodes t) then n_tip (nd t loc) else if k = loc then 0 else n_tip (nd t k))"
    "n_branch (nd t' k) = (if k = length (t_nodes t) then n_branch (nd t loc) else n_branch (nd t k))"
  using assms unfolding split_at_def Let_def by (auto simp: alive_def)

lemma split_alive:
  assumes "split_at t loc pre os t'" "alive t loc"
  shows "alive t' k \<longleftrightarrow> alive t k \<or> k = length (t_nodes t)"
proof -
  have "n_live (nd t' loc)" using assms by (simp add: split_at_def Let_def alive_def)
  moreover have "n_live (nd t' (length (t_nodes t)))" using assms(1) by (simp add: split_at_def Let_def)
  moreover have "n_live (nd t' k) = n_live (nd t k)" if "k < length (t_nodes t)" "k \<noteq> loc"
    using assms(1) that by (simp add: split_at_def Let_def)
  moreover have "length (t_nodes t') = Suc (length (t_nodes t))" using assms(1) by (simp add: split_at_def Let_def)
  ultimately show ?thesis using assms(2) by (auto simp: alive_def less_Suc_eq)
qed

lemma node_okI:
  assumes "valid (nled t i)" "nstart t i < nend t i" "nend t i \<le> Suc (g_seq L (nled t i))"
    "junction L valid (nled t i) (nend t i - 1)" "distinct (n_children (nd t i))"
    "\<And>c. c \<in> set (n_children (nd t i)) \<Longrightarrow> alive t c" "\<And>c. c \<in> set (n_children (nd t i)) \<Longrightarrow> n_parent (nd t c) = Some i"
    "\<And>c. c \<in> set (n_children (nd t i)) \<Longrightarrow> nstart t c = nend t i"
    "\<And>c. c \<in> set (n_children (nd t i)) \<Longrightarrow> nend t i \<le> g_mismatch L (nled t c) (nled t i)"
    "\<And>c c'. c \<in> set (n_children (nd t i)) \<Longrightarrow> c' \<in> set (n_children (nd t i)) \<Longrightarrow> c \<noteq> c' \<Longrightarrow>
       g_mismatch L (nled t c) (nled t c') \<le> nend t i"
    "i = 0 \<Longrightarrow> n_parent (nd t i) = None \<and> n_span (nd t i) = span_genesis L"
    "i \<noteq> 0 \<Longrightarrow> \<exists>p. n_parent (nd t i) = Some p \<and> alive t p \<and> i \<in> set (n_children (nd t p))"
  shows "node_ok L valid t i"
  using assms unfolding node_ok_def by simp

context ledger_history begin

lemma split_tree:
  assumes t: "tree_ok L valid t" and loc: "alive t loc" "nstart t loc < d" "d < nend t loc"
    and l: "valid l" "g_mismatch L (nled t loc) l = d"
    and s: "split_at t loc ((n_span (nd t loc))\<lparr>s_end := d\<rparr>) ((n_span (nd t loc))\<lparr>s_start := d\<rparr>) t'"
  shows "tree_ok L valid t'"
proof -
  let ?n = "length (t_nodes t)"
  note al = split_alive [OF s loc(1)] and f = split_fields [OF s loc(1)]
  have nn: "\<not> alive t ?n" "?n \<noteq> loc" using loc(1) by (auto simp: alive_def)
  have ne: "loc \<noteq> 0" using root_bounds(2) [OF t] loc(2,3) by (cases "loc = 0") auto
  note ch = tree_childD [OF t] and ok = tree_nodeD [OF t]
  have self: "c \<noteq> k" if "alive t k" "c \<in> set (n_children (nd t k))" for c k
    using ch(3) [OF that] ok(2) [OF ch(1) [OF that]] ok(2) [OF that(1)] by auto
  obtain p where p: "n_parent (nd t loc) = Some p" "alive t p" "loc \<in> set (n_children (nd t p))"
    using tree_parentD [OF t loc(1) ne] by blast
  have one: "k = loc" if "alive t k" "c \<in> set (n_children (nd t k))" "c \<in> set (n_children (nd t loc))" for c k
    using ch(2) [OF that(1,2)] ch(2) [OF loc(1) that(3)] by simp
  have new: "node_ok L valid t' ?n"
  proof (rule node_okI)
    show "alive t' c" "n_parent (nd t' c) = Some ?n" "nstart t' c = nend t' ?n" "nend t' ?n \<le> g_mismatch L (nled t' c) (nled t' ?n)"
      if c: "c \<in> set (n_children (nd t' ?n))" for c
      using c ch [OF loc(1), of c] self [OF loc(1), of c] nn by (auto simp: al f)
    show "g_mismatch L (nled t' c) (nled t' c') \<le> nend t' ?n"
      if c: "c \<in> set (n_children (nd t' ?n))" "c' \<in> set (n_children (nd t' ?n))" "c \<noteq> c'" for c c'
      using c ch(1) [OF loc(1)] self [OF loc(1)] nn tree_siblings [OF t loc(1), of c c'] by (auto simp: al f)
  qed (use ok [OF loc(1)] loc nn ne in \<open>auto simp: al f\<close>)
  have at_loc: "node_ok L valid t' loc"
  proof (rule node_okI)
    show "junction L valid (nled t' loc) (nend t' loc - 1)"
      using l loc(1,2) nn by (auto simp: f junction_def)
    show "alive t' c" "n_parent (nd t' c) = Some loc" "nstart t' c = nend t' loc" "nend t' loc \<le> g_mismatch L (nled t' c) (nled t' loc)"
      if c: "c \<in> set (n_children (nd t' loc))" for c
      using c nn loc mm_refl ok(1,3) [OF loc(1)] by (auto simp: al f)
    show "\<exists>p. n_parent (nd t' loc) = Some p \<and> alive t' p \<and> loc \<in> set (n_children (nd t' p))" if "loc \<noteq> 0"
      using p self [OF p(2,3)] nn by (auto simp: al f loc(1))
  qed (use ok [OF loc(1)] loc nn ne in \<open>auto simp: f\<close>)
  have other: "node_ok L valid t' k" if k: "alive t k" "k \<noteq> loc" for k
  proof (rule node_okI)
    have kn: "k \<noteq> ?n" using k(1) nn by auto
    show "alive t' c" "n_parent (nd t' c) = Some k" "nstart t' c = nend t' k" "nend t' k \<le> g_mismatch L (nled t' c) (nled t' k)"
      if c: "c \<in> set (n_children (nd t' k))" for c
      using c ch [OF k(1), of c] one [OF k(1), of c] k kn nn by (auto simp: al f)
    show "g_mismatch L (nled t' c) (nled t' c') \<le> nend t' k"
      if c: "c \<in> set (n_children (nd t' k))" "c' \<in> set (n_children (nd t' k))" "c \<noteq> c'" for c c'
      using c ch(1) [OF k(1)] k kn nn tree_siblings [OF t k(1), of c c'] by (auto simp: al f)
    show "n_parent (nd t' k) = None \<and> n_span (nd t' k) = span_genesis L" if "k = 0"
      using that k kn nn tree_root(2,3) [OF t] ch(2) [OF loc(1), of 0] by (auto simp: f)
    show "\<exists>p. n_parent (nd t' k) = Some p \<and> alive t' p \<and> k \<in> set (n_children (nd t' p))" if k0: "k \<noteq> 0"
    proof -
      obtain q where q: "n_parent (nd t k) = Some q" "alive t q" "k \<in> set (n_children (nd t q))"
        using tree_parentD [OF t k(1) k0] by blast
      show ?thesis
      proof (cases "q = loc")
        case True
        then show ?thesis using q k kn nn by (auto simp: al f)
      next
        case False
        then have "k \<notin> set (n_children (nd t loc))" using one [OF q(2,3)] by blast
        then have "n_parent (nd t' k) = Some q" using q k kn f(3) [of k] by simp
        moreover have "q \<noteq> ?n" using q(2) nn by auto
        then have "n_children (nd t' q) = n_children (nd t q)" using q False f(2) [of q] by simp
        ultimately show ?thesis using q al by auto
      qed
    qed
  qed (use ok [OF k(1)] k nn in \<open>auto simp: f\<close>)
  have "node_ok L valid t' k" if "alive t' k" for k
    using that new at_loc other [of k] unfolding al by (cases "k = loc") auto
  then show ?thesis using tree_root(1) [OF t] al by (simp add: tree_ok_def)
qed

lemma size_filter_cong: "(\<And>x. x \<in># M \<Longrightarrow> P x = Q x) \<Longrightarrow> size (filter_mset P M) = size (filter_mset Q M)"
  by (rule arg_cong [where f = size]) (rule filter_mset_cong, simp_all)

lemma split_core:
  assumes k: "trie_core L valid t M" and loc: "alive t loc" "nstart t loc < d" "d < nend t loc"
    and l: "valid l" "g_mismatch L (nled t loc) l = d"
    and s: "split_at t loc ((n_span (nd t loc))\<lparr>s_end := d\<rparr>) ((n_span (nd t loc))\<lparr>s_start := d\<rparr>) t'"
  shows "trie_core L valid t' M"
proof -
  let ?n = "length (t_nodes t)"
  note t = trie_coreD(2) [OF k] and v = trie_coreD(1) [OF k]
  note al = split_alive [OF s loc(1)] and f = split_fields [OF s loc(1)]
  have nn: "\<not> alive t ?n" "?n \<noteq> loc" using loc(1) by (auto simp: alive_def)
  have thru: "on_path L t x loc" if "x \<in># M" "d \<le> g_mismatch L x (nled t loc)" for x
    using path_through [OF k that(1) loc(1)] that(2) loc(2) by simp
  have op: "on_path L t' x i = on_path L t x (if i = ?n then loc else i)" if x: "x \<in># M" and i: "alive t' i" for x i
    using i thru [OF x] loc nn al unfolding on_path_def by (auto simp: f)
  have ta: "tip_at L t' x i \<longleftrightarrow> i \<noteq> loc \<and> tip_at L t x (if i = ?n then loc else i)" if x: "x \<in># M" and i: "alive t' i" for x i
  proof (cases "i = loc")
    case True
    have "g_mismatch L x (nled t loc) \<le> Suc (g_seq L x)" using mm_le v x tree_nodeD(1) [OF t loc(1)] by blast
    then have "\<not> tip_at L t' x loc"
      using op [OF x i] True loc nn thru [OF x] by (auto simp: tip_at_def on_path_def f)
    then show ?thesis using True by simp
  next
    case False
    then show ?thesis using op [OF x i] i nn al by (auto simp: tip_at_def f)
  qed
  have "counts_ok L t' M"
    unfolding counts_ok_def
  proof (intro allI impI)
    fix i assume i: "alive t' i"
    let ?i = "if i = ?n then loc else i"
    have a: "alive t ?i" using i al loc(1) by auto
    have c: "size (filter_mset (\<lambda>x. tip_at L t' x i) M) = (if i = loc then 0 else n_tip (nd t ?i))"
    proof (cases "i = loc")
      case True
      then show ?thesis using ta i size_filter_cong [of M "\<lambda>x. tip_at L t' x i" "\<lambda>x. False"] by simp
    next
      case False
      then show ?thesis
        using countsD(1) [OF trie_coreD(3) [OF k] a] size_filter_cong [of M "\<lambda>x. tip_at L t' x i" "\<lambda>x. tip_at L t x ?i"] ta i
        by simp
    qed
    have b: "size (filter_mset (\<lambda>x. on_path L t' x i) M) = n_branch (nd t ?i)"
      using countsD(2) [OF trie_coreD(3) [OF k] a] size_filter_cong [of M "\<lambda>x. on_path L t' x i" "\<lambda>x. on_path L t x ?i"] op i
      by simp
    show "n_tip (nd t' i) = size (filter_mset (\<lambda>l. tip_at L t' l i) M)
        \<and> n_branch (nd t' i) = size (filter_mset (\<lambda>l. on_path L t' l i) M)"
      using i al nn unfolding c b by (auto simp: f)
  qed
  moreover have "covered_by L t' M"
    unfolding covered_by_def
  proof
    fix x assume x: "x \<in># M"
    obtain i where i: "alive t i" "tip_at L t x i" using trie_coreD(4) [OF k] x by (auto simp: covered_by_def)
    then have "i \<noteq> ?n" using nn by auto
    then show "\<exists>i. alive t' i \<and> tip_at L t' x i"
      using i ta [OF x, of i] ta [OF x, of ?n] al nn by (cases "i = loc") auto
  qed
  ultimately show ?thesis using v split_tree [OF t loc l s] by (simp add: trie_core_def)
qed

end

section \<open>Attaching a node\<close>

definition attached :: "'l trie \<Rightarrow> nat \<Rightarrow> 'l span \<Rightarrow> 'l trie \<Rightarrow> bool" where
  "attached t loc ns t' \<longleftrightarrow>
     (let n = length (t_nodes t) in
      length (t_nodes t') = Suc n \<and> t_seqs t' = t_seqs t
      \<and> nd t' n = (node_from_span ns)\<lparr>n_parent := Some loc\<rparr>
      \<and> (\<forall>k < n. nd t' k = (if k = loc then (nd t k)\<lparr>n_children := n_children (nd t k) @ [n]\<rparr> else nd t k)))"

lemma attach_node_attached:
  assumes "loc < length (t_nodes t)"
  shows "\<exists>t'. attach_node loc ns t = Some (length (t_nodes t), t') \<and> attached t loc ns t'"
proof -
  let ?n = "length (t_nodes t)"
  define t1 where "t1 = t\<lparr>t_nodes := t_nodes t @ [(node_from_span ns)\<lparr>n_parent := Some loc\<rparr>]\<rparr>"
  define t2 where "t2 = shift {loc} (\<lambda>m. m\<lparr>n_children := n_children m @ [?n]\<rparr>) t1"
  have len: "length (t_nodes t1) = Suc ?n" by (simp add: t1_def)
  have n1: "nd t1 ?n = (node_from_span ns)\<lparr>n_parent := Some loc\<rparr>" "k < ?n \<Longrightarrow> nd t1 k = nd t k" for k
    by (simp_all add: t1_def nth_append)
  have "attach_node loc ns t = Some (?n, t2)"
    using assms len by (simp add: attach_node_def alloc_def t1_def [symmetric] set_node_shift t2_def)
  moreover have "attached t loc ns t2"
    using assms len n1 by (auto simp: attached_def Let_def t2_def nd_shift t1_def)
  ultimately show ?thesis by blast
qed

lemma attach_fields:
  assumes s: "attached t loc ns t'" and loc: "alive t loc" and k: "alive t k \<or> k = length (t_nodes t)"
  shows "n_span (nd t' k) = (if k = length (t_nodes t) then ns else n_span (nd t k))"
    "n_children (nd t' k) = (if k = length (t_nodes t) then []
        else if k = loc then n_children (nd t k) @ [length (t_nodes t)] else n_children (nd t k))"
    "n_parent (nd t' k) = (if k = length (t_nodes t) then Some loc else n_parent (nd t k))"
    "n_tip (nd t' k) = (if k = length (t_nodes t) then 0 else n_tip (nd t k))"
    "n_branch (nd t' k) = (if k = length (t_nodes t) then 0 else n_branch (nd t k))"
  using assms unfolding attached_def Let_def by (auto simp: alive_def node_from_span_def)

lemma attach_alive:
  assumes "attached t loc ns t'"
  shows "alive t' k \<longleftrightarrow> alive t k \<or> k = length (t_nodes t)"
  using assms by (auto simp: attached_def Let_def alive_def less_Suc_eq node_from_span_def split: if_splits)

context ledger_history begin

lemma attach_tree:
  assumes t: "tree_ok L valid t" and loc: "alive t loc" "nend t loc = d" "d \<le> g_mismatch L l (nled t loc)"
    and l: "valid l" "d \<le> g_seq L l" "\<forall>c \<in> set (n_children (nd t loc)). g_mismatch L l (nled t c) \<le> d"
    and s: "attached t loc \<lparr>s_start = d, s_end = Suc (g_seq L l), s_ledger = l\<rparr> t'"
  shows "tree_ok L valid t'"
proof -
  let ?n = "length (t_nodes t)"
  note al = attach_alive [OF s] and f = attach_fields [OF s loc(1)]
  note ch = tree_childD [OF t] and ok = tree_nodeD [OF t]
  have nn: "\<not> alive t ?n" "?n \<noteq> loc" using loc(1) by (auto simp: alive_def)
  have n0: "?n \<noteq> 0" using tree_root(1) [OF t] by (auto simp: alive_def)
  have new: "node_ok L valid t' ?n"
    by (rule node_okI) (use l loc nn n0 in \<open>auto simp: al f junction_def\<close>)
  have old: "node_ok L valid t' k" if k: "alive t k" for k
  proof (rule node_okI)
    have kn: "k \<noteq> ?n" using k nn by auto
    have c: "(c \<in> set (n_children (nd t k)) \<and> c \<noteq> ?n) \<or> (c = ?n \<and> k = loc)" if "c \<in> set (n_children (nd t' k))" for c
      using that k kn nn ch(1) [OF k] by (auto simp: f split: if_splits)
    show "alive t' c" if "c \<in> set (n_children (nd t' k))" for c
      using c [OF that] ch(1) [OF k] al by auto
    show "n_parent (nd t' c) = Some k" if "c \<in> set (n_children (nd t' k))" for c
      using c [OF that] ch(1,2) [OF k] by (auto simp: f)
    show "nstart t' c = nend t' k" if "c \<in> set (n_children (nd t' k))" for c
      using c [OF that] ch(1,3) [OF k] k kn loc(2) by (auto simp: f)
    show "nend t' k \<le> g_mismatch L (nled t' c) (nled t' k)" if "c \<in> set (n_children (nd t' k))" for c
      using c [OF that] ch(1,4) [OF k] k kn loc by (auto simp: f)
    show "g_mismatch L (nled t' x) (nled t' y) \<le> nend t' k"
      if x: "x \<in> set (n_children (nd t' k))" and y: "y \<in> set (n_children (nd t' k))" and ne: "x \<noteq> y" for x y
    proof -
      have "g_mismatch L l (nled t z) = g_mismatch L (nled t z) l" if "z \<in> set (n_children (nd t k))" for z
        using mm_sym [OF l(1) ok(1)] ch(1) [OF k that] by blast
      then show ?thesis
        using c [OF x] c [OF y] ne ch(1) [OF k] k kn loc(2) l(3) tree_siblings [OF t k, of x y] by (auto simp: f)
    qed
    show "n_parent (nd t' k) = None \<and> n_span (nd t' k) = span_genesis L" if "k = 0"
      using that k kn tree_root(2,3) [OF t] by (simp add: f)
    show "\<exists>p. n_parent (nd t' k) = Some p \<and> alive t' p \<and> k \<in> set (n_children (nd t' p))" if k0: "k \<noteq> 0"
    proof -
      obtain q where q: "n_parent (nd t k) = Some q" "alive t q" "k \<in> set (n_children (nd t q))"
        using tree_parentD [OF t k k0] by blast
      then have "q \<noteq> ?n" using nn by auto
      then show ?thesis using q k kn al f(2) [of q] f(3) [of k] by auto
    qed
    show "distinct (n_children (nd t' k))"
      using ok(5) [OF k] ch(1) [OF k] k kn nn by (auto simp: f)
  qed (use ok [OF k] k nn in \<open>auto simp: f\<close>)
  have "node_ok L valid t' k" if "alive t' k" for k
    using that new old [of k] unfolding al by auto
  then show ?thesis using tree_root(1) [OF t] al by (simp add: tree_ok_def)
qed

lemma attach_core:
  assumes k: "trie_core L valid t M" and loc: "alive t loc" "nend t loc = d" "d \<le> g_mismatch L l (nled t loc)"
    and l: "valid l" "d \<le> g_seq L l" "\<forall>c \<in> set (n_children (nd t loc)). g_mismatch L l (nled t c) \<le> d"
    and s: "attached t loc \<lparr>s_start = d, s_end = Suc (g_seq L l), s_ledger = l\<rparr> t'"
  shows "trie_core L valid t' M"
proof -
  let ?n = "length (t_nodes t)"
  note t = trie_coreD(2) [OF k] and v = trie_coreD(1) [OF k]
  note al = attach_alive [OF s] and f = attach_fields [OF s loc(1)]
  have nn: "\<not> alive t ?n" using loc(1) by (auto simp: alive_def)
  have none: "\<not> on_path L t' x ?n" if x: "x \<in># M" for x
  proof
    assume "on_path L t' x ?n"
    then have xl: "Suc (g_seq L l) \<le> g_mismatch L x l" by (simp add: on_path_def f)
    have vl: "valid (nled t loc)" using tree_nodeD(1) [OF t loc(1)] .
    have "on_path L t x loc"
      unfolding on_path_def loc(2) by (rule mm_trans [of _ l]) (use v x vl loc l xl in auto)
    moreover have "nend t loc \<le> g_seq L x" using xl mm_le [OF v [OF x] l(1)] l(2) loc(2) by simp
    ultimately obtain c where c: "c \<in> set (n_children (nd t loc))" "on_path L t x c"
      using path_child [OF k x loc(1)] by blast
    note ch = tree_childD [OF t loc(1) c(1)]
    have "Suc d \<le> g_mismatch L l (nled t c)"
      by (rule mm_trans [of _ x])
        (use v x l xl c ch tree_nodeD(1,2) [OF t ch(1)] loc(2) mm_sym [of x l] in \<open>auto simp: on_path_def\<close>)
    then show False using l(3) c(1) by force
  qed
  have same: "on_path L t' x i = on_path L t x i" "tip_at L t' x i = tip_at L t x i" if "alive t i" for x i
    using that nn by (auto simp: on_path_def tip_at_def f)
  have "counts_ok L t' M"
    unfolding counts_ok_def
  proof (intro allI impI)
    fix i assume i: "alive t' i"
    show "n_tip (nd t' i) = size (filter_mset (\<lambda>l. tip_at L t' l i) M)
        \<and> n_branch (nd t' i) = size (filter_mset (\<lambda>l. on_path L t' l i) M)"
    proof (cases "i = ?n")
      case True
      have "filter_mset (\<lambda>l. on_path L t' l i) M = {#}" "filter_mset (\<lambda>l. tip_at L t' l i) M = {#}"
        using none True by (auto simp: tip_at_def intro!: multiset_eqI)
      then show ?thesis using True by (simp add: f)
    next
      case False
      then have a: "alive t i" using i al by simp
      show ?thesis using countsD [OF trie_coreD(3) [OF k] a] same [OF a] False a by (simp add: f)
    qed
  qed
  moreover have "covered_by L t' M"
    using trie_coreD(4) [OF k] same al unfolding covered_by_def by metis
  ultimately show ?thesis using v attach_tree [OF t loc l s] by (simp add: trie_core_def)
qed

end

section \<open>Adding support\<close>

definition add_tip :: "nat \<Rightarrow> 'l tnode \<Rightarrow> 'l tnode" where
  "add_tip c n = n\<lparr>n_tip := n_tip n + c\<rparr>"

lemma keeps_shape_add_tip [simp]: "keeps_shape (add_tip c)"
  by (simp add: keeps_shape_def add_tip_def)

definition bump :: "'l ledger_ops \<Rightarrow> nat \<Rightarrow> nat \<Rightarrow> 'l trie \<Rightarrow> 'l trie" where
  "bump L inc c t = shift (chain L t inc) (add_branch c) (shift {inc} (add_tip c) t)"

lemma size_filter_add:
  "size (filter_mset P (M + replicate_mset c l)) = size (filter_mset P M) + (if P l then c else 0)"
proof -
  have "size (filter_mset P (replicate_mset c l)) = (if P l then c else 0)" by (induction c) auto
  then show ?thesis by simp
qed

lemma seqs_ok_add:
  assumes "seqs_ok L m M" "0 < c"
  shows "seqs_ok L (btree_insert (g_seq L l) (case_option 0 id (map_of m (g_seq L l)) + c) m) (M + replicate_mset c l)"
proof -
  have old: "case_option 0 id (map_of m (g_seq L l)) = size (filter_mset (\<lambda>x. g_seq L x = g_seq L l) M)"
    using assms(1) by (auto simp: seqs_ok_def intro!: multiset_eqI)
  show ?thesis
    using assms unfolding seqs_ok_def old size_filter_add by (auto simp: map_of_btree_insert btree_wf_insert)
qed

lemma same_shape_paths:
  assumes "same_shape t t'" "alive t i"
  shows "on_path L t' l i = on_path L t l i" "tip_at L t' l i = tip_at L t l i"
  using same_shapeD(2) [OF assms] by (simp_all add: on_path_def tip_at_def)

context ledger_history begin

lemma tip_chain:
  assumes t: "tree_ok L valid t" and inc: "alive t inc" "tip_at L t l inc" and l: "valid l" and i: "alive t i"
  shows "on_path L t l i \<longleftrightarrow> i \<in> chain L t inc" "tip_at L t l i \<longleftrightarrow> i = inc"
proof -
  note v = tree_nodeD(1) [OF t]
  have e: "nend t inc = Suc (g_seq L l)" "nend t inc \<le> g_mismatch L l (nled t inc)"
    using inc(2) by (auto simp: tip_at_def on_path_def)
  have le: "nend t i \<le> nend t inc" if "on_path L t l i"
    using that mm_le [OF l v [OF i]] e(1) by (simp add: on_path_def)
  have sy: "g_mismatch L (nled t inc) l = g_mismatch L l (nled t inc)" by (rule mm_sym [OF v [OF inc(1)] l])
  have to_chain: "nend t i \<le> g_mismatch L (nled t inc) (nled t i)" if p: "on_path L t l i"
    by (rule mm_trans [OF v [OF inc(1)] l v [OF i]]) (use e(2) le [OF p] p sy in \<open>simp_all add: on_path_def\<close>)
  have from_chain: "nend t i \<le> g_mismatch L l (nled t i)" if "i \<in> chain L t inc"
    by (rule mm_trans [OF l v [OF inc(1)] v [OF i]]) (use that e in \<open>simp_all add: chain_def\<close>)
  show pc: "on_path L t l i \<longleftrightarrow> i \<in> chain L t inc"
  proof
    show "i \<in> chain L t inc" if p: "on_path L t l i" using i le [OF p] to_chain [OF p] by (simp add: chain_def)
    show "on_path L t l i" if p: "i \<in> chain L t inc" using from_chain [OF p] by (simp add: on_path_def)
  qed
  show "tip_at L t l i \<longleftrightarrow> i = inc"
  proof
    assume a: "tip_at L t l i"
    then have c: "i \<in> chain L t inc" "nend t i = nend t inc" using pc e(1) by (auto simp: tip_at_def)
    have "g_seq L l < g_mismatch L (nled t i) (nled t inc)"
      using c e(1) mm_sym [OF v v, OF i inc(1)] by (simp add: chain_def)
    then show "i = inc"
      using node_unique [OF t i inc(1), of "g_seq L l"] tree_nodeD(2) [OF t i] tree_nodeD(2) [OF t inc(1)] c(2) e(1) by simp
  qed (use inc(2) in simp)
qed

lemma bump_core:
  assumes k: "trie_core L valid t M" and inc: "alive t inc" "tip_at L t l inc" and l: "valid l"
    and t'_def: "t' = bump L inc c t"
  shows "trie_core L valid t' (M + replicate_mset c l)"
proof -
  note t = trie_coreD(2) [OF k] and v = trie_coreD(1) [OF k]
  have sh: "same_shape t t'"
    unfolding t'_def bump_def by (rule same_shape_trans [of _ "shift {inc} (add_tip c) t"]) (rule same_shape_shift, simp)+
  note al = same_shapeD(1) [OF sh] and p = same_shape_paths [OF sh] and tc = tip_chain [OF t inc l]
  have nd': "n_tip (nd t' i) = n_tip (nd t i) + (if i = inc then c else 0)"
    "n_branch (nd t' i) = n_branch (nd t i) + (if i \<in> chain L t inc then c else 0)" if "alive t i" for i
    using that by (auto simp: t'_def bump_def alive_def nd_shift add_tip_def add_branch_def)
  have "counts_ok L t' (M + replicate_mset c l)"
    unfolding counts_ok_def al size_filter_add
    using countsD [OF trie_coreD(3) [OF k]] nd' p tc by simp
  moreover have "covered_by L t' (M + replicate_mset c l)"
    unfolding covered_by_def
  proof
    fix x assume "x \<in># M + replicate_mset c l"
    then consider "x \<in># M" | "x = l" by (auto split: if_splits)
    then show "\<exists>i. alive t' i \<and> tip_at L t' x i"
      using trie_coreD(4) [OF k] al p(2) inc unfolding covered_by_def by cases metis+
  qed
  moreover have "valid x" if "x \<in># M + replicate_mset c l" for x
    using that v l by (auto split: if_splits)
  ultimately show ?thesis using same_shape_tree_ok [OF sh t] by (simp add: trie_core_def)
qed

end

section \<open>Insertion\<close>

lemma span_before_eq:
  "s_start s < d \<Longrightarrow> d \<le> s_end s \<Longrightarrow> span_before s d = Some (s\<lparr>s_end := d\<rparr>)"
  by (cases s) (simp add: span_before_def span_sub_def span_clamp_def)

lemma span_from_eq:
  "s_start s \<le> d \<Longrightarrow> d \<le> s_end s \<Longrightarrow> span_from s d = (if d < s_end s then Some (s\<lparr>s_start := d\<rparr>) else None)"
  by (cases s) (simp add: span_from_def span_sub_def span_clamp_def)

lemma new_suffix_eq:
  "d \<le> Suc (g_seq L l) \<Longrightarrow> span_from (span_from_ledger L l 0) d
     = (if d \<le> g_seq L l then Some \<lparr>s_start = d, s_end = Suc (g_seq L l), s_ledger = l\<rparr> else None)"
  by (simp add: span_from_eq span_from_ledger_def)

lemma rep_seqs_update:
  "trie_core L valid (t\<lparr>t_seqs := m\<rparr>) M = trie_core L valid t M" "compact_ok (t\<lparr>t_seqs := m\<rparr>) = compact_ok t"
  by (simp_all add: trie_core_def tree_ok_def node_ok_def alive_def counts_ok_def covered_by_def on_path_def tip_at_def compact_ok_def)

definition compact_but :: "'l trie \<Rightarrow> nat \<Rightarrow> bool" where
  "compact_but t x \<longleftrightarrow>
     (\<forall>i. alive t i \<longrightarrow> i \<noteq> 0 \<longrightarrow> i \<noteq> x \<longrightarrow> n_tip (nd t i) = 0 \<longrightarrow> 2 \<le> length (n_children (nd t i)))"

lemma compact_bump:
  assumes "compact_but t inc" "alive t inc" "0 < c"
  shows "compact_ok (bump L inc c t)"
proof -
  have sh: "same_shape t (bump L inc c t)"
    unfolding bump_def by (rule same_shape_trans [of _ "shift {inc} (add_tip c) t"]) (rule same_shape_shift, simp)+
  have "n_tip (nd (bump L inc c t) i) = n_tip (nd t i) + (if i = inc then c else 0)" if "alive t i" for i
    using that by (auto simp: bump_def alive_def nd_shift add_tip_def add_branch_def)
  then show ?thesis
    using assms same_shapeD [OF sh] by (simp add: compact_ok_def compact_but_def split: if_splits)
qed

context ledger_history begin

text \<open>The part of \<^verbatim>\<open>insert\<close> after the search that splits the node found, if it must be.\<close>

lemma insert_split:
  assumes k: "trie_core L valid t M" and c: "compact_ok t" and l: "valid l" and fd: "found L t l loc d"
  defines "old \<equiv> span_from (n_span (nd t loc)) d"
  shows "\<exists>t1. (case old of None \<Rightarrow> Some t | Some s \<Rightarrow> split_node loc (span_before (n_span (nd t loc)) d) s t) = Some t1
    \<and> trie_core L valid t1 M \<and> compact_but t1 loc \<and> t_seqs t1 = t_seqs t \<and> alive t1 loc \<and> nend t1 loc = d
    \<and> d \<le> g_mismatch L l (nled t1 loc) \<and> (\<forall>c \<in> set (n_children (nd t1 loc)). g_mismatch L l (nled t1 c) \<le> d)
    \<and> (loc \<noteq> 0 \<longrightarrow> n_tip (nd t1 loc) = 0 \<longrightarrow> n_children (nd t1 loc) \<noteq> [])"
proof -
  note t = trie_coreD(2) [OF k]
  have loc: "alive t loc" "nstart t loc < d" "d = min (g_mismatch L l (nled t loc)) (nend t loc)"
    "d = nend t loc \<Longrightarrow> \<forall>c \<in> set (n_children (nd t loc)). g_mismatch L l (nled t c) \<le> d"
    using fd by (auto simp: found_def)
  have old: "old = (if d < nend t loc then Some ((n_span (nd t loc))\<lparr>s_start := d\<rparr>) else None)"
    unfolding old_def using loc by (intro span_from_eq) auto
  show ?thesis
  proof (cases "d < nend t loc")
    case False
    then have "d = nend t loc" using loc(3) by simp
    moreover have "n_children (nd t loc) \<noteq> []" if "loc \<noteq> 0" "n_tip (nd t loc) = 0"
      using c loc(1) that by (auto simp: compact_ok_def)
    ultimately show ?thesis
      using k c loc False old by (auto simp: compact_ok_def compact_but_def)
  next
    case True
    let ?n = "length (t_nodes t)"
    let ?pre = "(n_span (nd t loc))\<lparr>s_end := d\<rparr>" and ?os = "(n_span (nd t loc))\<lparr>s_start := d\<rparr>"
    have m: "g_mismatch L (nled t loc) l = d" "g_mismatch L l (nled t loc) = d"
      using True loc(3) mm_sym [OF tree_nodeD(1) [OF t loc(1)] l] by auto
    have ne: "loc \<noteq> 0" using root_bounds(2) [OF t] loc(2) True by (cases "loc = 0") auto
    have "\<forall>c \<in> set (n_children (nd t loc)). c < ?n \<and> c \<noteq> loc"
      using tree_childD [OF t loc(1)] tree_nodeD(2) [OF t] loc(1) by (metis alive_def order_less_irrefl)
    then obtain t' where t': "split_node loc (Some ?pre) ?os t = Some t'" "split_at t loc ?pre ?os t'"
      using split_node_split [of loc t ?pre ?os] loc(1) by (auto simp: alive_def)
    note al = split_alive [OF t'(2) loc(1)] and f = split_fields [OF t'(2) loc(1)]
    have nn: "\<not> alive t ?n" "?n \<noteq> loc" using loc(1) by (auto simp: alive_def)
    have "compact_but t' loc"
      unfolding compact_but_def
    proof (intro allI impI)
      fix i assume i: "alive t' i" "i \<noteq> 0" "i \<noteq> loc" "n_tip (nd t' i) = 0"
      show "2 \<le> length (n_children (nd t' i))"
        using i c loc(1) ne al by (cases "i = ?n") (auto simp: f compact_ok_def)
    qed
    moreover have "t_seqs t' = t_seqs t" using t'(2) by (simp add: split_at_def Let_def)
    moreover have "trie_core L valid t' M" by (rule split_core [OF k loc(1,2) True l m(1) t'(2)])
    moreover have "span_before (n_span (nd t loc)) d = Some ?pre" using loc True by (intro span_before_eq) auto
    ultimately show ?thesis
      using t'(1) True old loc(1) al nn m(2) by (simp add: f)
  qed
qed

text \<open>The part that attaches the rest of the new ledger, if there is one.\<close>

lemma insert_attach:
  assumes k: "trie_core L valid t M" and c: "compact_but t loc" and l: "valid l"
    and loc: "alive t loc" "nend t loc = d" "d \<le> g_mismatch L l (nled t loc)"
      "\<forall>c \<in> set (n_children (nd t loc)). g_mismatch L l (nled t c) \<le> d"
      "loc \<noteq> 0 \<longrightarrow> n_tip (nd t loc) = 0 \<longrightarrow> n_children (nd t loc) \<noteq> []"
  shows "\<exists>inc t2. (case span_from (span_from_ledger L l 0) d of None \<Rightarrow> Some (loc, t) | Some s \<Rightarrow> attach_node loc s t) = Some (inc, t2)
    \<and> trie_core L valid t2 M \<and> compact_but t2 inc \<and> t_seqs t2 = t_seqs t \<and> alive t2 inc \<and> tip_at L t2 l inc"
proof -
  note t = trie_coreD(2) [OF k]
  have d: "d \<le> Suc (g_seq L l)" using loc(3) mm_le [OF l tree_nodeD(1) [OF t loc(1)]] by simp
  show ?thesis
  proof (cases "d \<le> g_seq L l")
    case False
    then show ?thesis
      using k c loc d new_suffix_eq [OF d] by (auto simp: tip_at_def on_path_def)
  next
    case True
    let ?s = "\<lparr>s_start = d, s_end = Suc (g_seq L l), s_ledger = l\<rparr>" and ?n = "length (t_nodes t)"
    obtain t' where t': "attach_node loc ?s t = Some (?n, t')" "attached t loc ?s t'"
      using attach_node_attached [of loc t ?s] loc(1) by (auto simp: alive_def)
    note al = attach_alive [OF t'(2)] and f = attach_fields [OF t'(2) loc(1)]
    have nn: "\<not> alive t ?n" "?n \<noteq> loc" using loc(1) by (auto simp: alive_def)
    have "compact_but t' ?n"
      unfolding compact_but_def
    proof (intro allI impI)
      fix i assume i: "alive t' i" "i \<noteq> 0" "i \<noteq> ?n" "n_tip (nd t' i) = 0"
      then have a: "alive t i" using al by simp
      show "2 \<le> length (n_children (nd t' i))"
      proof (cases "i = loc")
        case True
        then have "n_children (nd t loc) \<noteq> []" using loc(5) i a by (simp add: f)
        then show ?thesis using True a i(3) by (cases "n_children (nd t loc)") (auto simp: f)
      next
        case False
        then show ?thesis using i a c by (auto simp: f compact_but_def)
      qed
    qed
    moreover have "trie_core L valid t' M" by (rule attach_core [OF k loc(1-3) l True loc(4) t'(2)])
    moreover have "t_seqs t' = t_seqs t" using t'(2) by (simp add: attached_def Let_def)
    moreover have "tip_at L t' l ?n" using mm_refl [OF l] by (simp add: tip_at_def on_path_def f)
    ultimately show ?thesis using t'(1) True new_suffix_eq [OF d] al by auto
  qed
qed

lemma insert_rep:
  assumes r: "trie_rep L valid t M" and l: "valid l" and c: "0 < c"
  shows "\<exists>t'. trie_insert L l c t = Some t' \<and> trie_rep L valid t' (M + replicate_mset c l)"
proof -
  have k: "trie_core L valid t M" "compact_ok t" "seqs_ok L (t_seqs t) M" using r by (auto simp: trie_rep_def)
  obtain loc d where f: "find_node L l t = Some (loc, d)" "found L t l loc d"
    using find_node_spec [OF trie_coreD(2) [OF k(1)] l] by blast
  obtain t1 where t1: "(case span_from (n_span (nd t loc)) d of None \<Rightarrow> Some t
        | Some s \<Rightarrow> split_node loc (span_before (n_span (nd t loc)) d) s t) = Some t1"
      "trie_core L valid t1 M" "compact_but t1 loc" "t_seqs t1 = t_seqs t" "alive t1 loc" "nend t1 loc = d"
      "d \<le> g_mismatch L l (nled t1 loc)" "\<forall>c \<in> set (n_children (nd t1 loc)). g_mismatch L l (nled t1 c) \<le> d"
      "loc \<noteq> 0 \<longrightarrow> n_tip (nd t1 loc) = 0 \<longrightarrow> n_children (nd t1 loc) \<noteq> []"
    using insert_split [OF k(1,2) l f(2)] by (elim exE conjE)
  obtain inc t2 where t2: "(case span_from (span_from_ledger L l 0) d of None \<Rightarrow> Some (loc, t1)
        | Some s \<Rightarrow> attach_node loc s t1) = Some (inc, t2)"
      "trie_core L valid t2 M" "compact_but t2 inc" "t_seqs t2 = t_seqs t1" "alive t2 inc" "tip_at L t2 l inc"
    using insert_attach [OF t1(2,3) l t1(5-9)] by (elim exE conjE)
  let ?t3 = "shift {inc} (add_tip c) t2"
  have sh: "same_shape t2 ?t3" by (rule same_shape_shift) simp
  note t3 = same_shape_tree_ok [OF sh trie_coreD(2) [OF t2(2)]]
  have a3: "alive ?t3 inc" "chain L ?t3 inc = chain L t2 inc"
    using same_shapeD(1) [OF sh] same_shape_chain [OF sh t2(5)] t2(5) by simp_all
  have s3: "set_node inc (\<lambda>m. m\<lparr>n_tip := n_tip m + c\<rparr>) t2 = Some ?t3"
    using set_node_shift [of inc t2 "add_tip c"] t2(5) by (simp add: alive_def add_tip_def [abs_def])
  have s4: "add_support (length (t_nodes ?t3)) (Some inc) c ?t3 = Some (bump L inc c t2)"
    using add_support_chain [OF t3 a3(1) chain_finite(2)] a3(2) by (simp add: bump_def)
  have n: "node_at t loc = Some (nd t loc)" using f(2) by (simp add: found_def alive_def node_at_eq)
  let ?t5 = "(bump L inc c t2)\<lparr>t_seqs := btree_insert (g_seq L l) (case_option 0 id (map_of (t_seqs t) (g_seq L l)) + c) (t_seqs t)\<rparr>"
  have sq: "t_seqs (bump L inc c t2) = t_seqs t" using t2(4) t1(4) by (simp add: bump_def)
  have "trie_insert L l c t = Some ?t5"
    using f(1) n t1(1) t2(1) s3 s4 sq by (simp add: trie_insert_def Let_def)
  moreover have "trie_rep L valid ?t5 (M + replicate_mset c l)"
  proof -
    have "trie_core L valid (bump L inc c t2) (M + replicate_mset c l)" by (rule bump_core [OF t2(2,5,6) l refl])
    moreover have "compact_ok (bump L inc c t2)" by (rule compact_bump [OF t2(3,5) c])
    ultimately show ?thesis
      using seqs_ok_add [OF k(3) c, of l] by (simp add: trie_rep_def rep_seqs_update)
  qed
  ultimately show ?thesis by blast
qed

end

end
