(* ===== verification/Ledger_Trie_Remove.thy ===== *)
theory Ledger_Trie_Remove
  imports Ledger_Trie_Insert
begin

text \<open>
  \<^verbatim>\<open>remove\<close> takes support away from the ancestry trie: the counters go down along the path, and nodes
  that no longer end a supported ledger or branch are erased or merged with their only child.
\<close>

section \<open>Finding a tip\<close>

lemma find_tip_spec:
  "case find_tip L x i ns of
     None \<Rightarrow> \<forall>k < length ns. \<not> (n_live (ns ! k) \<and> tip_id (tip_of L (n_span (ns ! k))) = x)
   | Some j \<Rightarrow> i \<le> j \<and> j - i < length ns \<and> n_live (ns ! (j - i)) \<and> tip_id (tip_of L (n_span (ns ! (j - i)))) = x"
proof (induction L x i ns rule: find_tip.induct)
  case (2 L x i n ns)
  show ?case
  proof (cases "n_live n \<and> tip_id (tip_of L (n_span n)) = x")
    case False
    then show ?thesis
      using 2 by (auto simp: nth_Cons' Suc_diff_le Suc_le_eq split: option.splits)
  qed simp
qed simp

context ledger_history begin

lemma tip_id_iff:
  assumes t: "tree_ok L valid t" and i: "alive t i" and l: "valid l"
  shows "tip_id (tip_of L (n_span (nd t i))) = g_ancestor L l (g_seq L l) \<longleftrightarrow> tip_at L t l i"
proof -
  note n = tree_nodeD [OF t i]
  have e: "nend t i = Suc (nend t i - 1)" using n(2) by simp
  have "tip_id (tip_of L (n_span (nd t i))) = g_ancestor L (nled t i) (nend t i - 1)"
    by (simp add: tip_of_def Let_def)
  then show ?thesis
    using ids [OF n(1) l n(4)] mm_sym [OF n(1) l] e unfolding tip_at_def on_path_def by auto
qed

lemma find_id_spec:
  assumes t: "tree_ok L valid t" and l: "valid l"
  shows "case find_by_ledger_id L (g_ancestor L l (g_seq L l)) t of
      None \<Rightarrow> \<forall>i. alive t i \<longrightarrow> \<not> tip_at L t l i
    | Some i \<Rightarrow> alive t i \<and> tip_at L t l i"
  using find_tip_spec [where L = L and x = "g_ancestor L l (g_seq L l)" and i = 0 and ns = "t_nodes t"] tip_id_iff [OF t _ l]
  by (auto simp: find_by_ledger_id_def alive_def split: option.splits)

end

section \<open>Erasing and merging\<close>

definition erased :: "'l trie \<Rightarrow> nat \<Rightarrow> nat \<Rightarrow> 'l trie \<Rightarrow> bool" where
  "erased t p loc t' \<longleftrightarrow> length (t_nodes t') = length (t_nodes t) \<and> t_seqs t' = t_seqs t
     \<and> (\<forall>k < length (t_nodes t). nd t' k =
          (if k = p then (nd t k)\<lparr>n_children := filter (\<lambda>c. c \<noteq> loc) (n_children (nd t k))\<rparr>
           else if k = loc then (nd t k)\<lparr>n_live := False\<rparr> else nd t k))"

lemma erase_child_erased:
  assumes "p < length (t_nodes t)" "loc < length (t_nodes t)" "p \<noteq> loc"
  shows "\<exists>t'. erase_child p loc t = Some t' \<and> erased t p loc t'"
  using assms by (simp add: erase_child_def set_node_shift erased_def nd_shift)

definition merged :: "'l trie \<Rightarrow> nat \<Rightarrow> nat \<Rightarrow> nat \<Rightarrow> 'l trie \<Rightarrow> bool" where
  "merged t p loc c t' \<longleftrightarrow> length (t_nodes t') = length (t_nodes t) \<and> t_seqs t' = t_seqs t
     \<and> (\<forall>k < length (t_nodes t). nd t' k =
          (if k = p then (nd t k)\<lparr>n_children := filter (\<lambda>c. c \<noteq> loc) (n_children (nd t k)) @ [c]\<rparr>
           else if k = loc then (nd t k)\<lparr>n_live := False\<rparr>
           else if k = c then (nd t k)\<lparr>n_span := span_merge (n_span (nd t loc)) (n_span (nd t c)), n_parent := Some p\<rparr>
           else nd t k))"

lemma merge_merged:
  assumes "p < length (t_nodes t)" "loc < length (t_nodes t)" "c < length (t_nodes t)" "p \<noteq> loc" "c \<noteq> loc" "c \<noteq> p"
  shows "\<exists>t'. do {
      t1 \<leftarrow> set_node c (\<lambda>m. m\<lparr>n_span := span_merge (n_span (nd t loc)) (n_span (nd t c)), n_parent := Some p\<rparr>) t;
      t2 \<leftarrow> set_node p (\<lambda>m. m\<lparr>n_children := n_children m @ [c]\<rparr>) t1;
      erase_child p loc t2 } = Some t' \<and> merged t p loc c t'"
  using assms by (simp add: erase_child_def set_node_shift merged_def nd_shift)

lemma erased_alive:
  assumes "erased t p loc t'" "p \<noteq> loc"
  shows "alive t' i \<longleftrightarrow> alive t i \<and> i \<noteq> loc"
proof (cases "i < length (t_nodes t)")
  case True
  then have "nd t' i = (if i = p then (nd t i)\<lparr>n_children := filter (\<lambda>c. c \<noteq> loc) (n_children (nd t i))\<rparr>
      else if i = loc then (nd t i)\<lparr>n_live := False\<rparr> else nd t i)"
    using assms(1) unfolding erased_def by blast
  then show ?thesis using assms by (simp add: alive_def erased_def)
qed (use assms(1) in \<open>simp add: alive_def erased_def\<close>)

lemma merged_alive:
  assumes "merged t p loc c t'" "p \<noteq> loc" "c \<noteq> loc"
  shows "alive t' i \<longleftrightarrow> alive t i \<and> i \<noteq> loc"
proof (cases "i < length (t_nodes t)")
  case True
  then have "nd t' i = (if i = p then (nd t i)\<lparr>n_children := filter (\<lambda>c. c \<noteq> loc) (n_children (nd t i)) @ [c]\<rparr>
      else if i = loc then (nd t i)\<lparr>n_live := False\<rparr>
      else if i = c then (nd t i)\<lparr>n_span := span_merge (n_span (nd t loc)) (n_span (nd t c)), n_parent := Some p\<rparr>
      else nd t i)"
    using assms(1) unfolding merged_def by blast
  then show ?thesis using assms by (simp add: alive_def merged_def)
qed (use assms(1) in \<open>simp add: alive_def merged_def\<close>)

context ledger_history begin

text \<open>What both have in common: the node at \<open>loc\<close> dies, no tip moves.\<close>

lemma drop_core:
  assumes k: "trie_core L valid t M" and loc: "alive t loc" "n_tip (nd t loc) = 0"
    and al: "\<And>i. alive t' i \<longleftrightarrow> alive t i \<and> i \<noteq> loc"
    and same: "\<And>i. alive t i \<Longrightarrow> i \<noteq> loc \<Longrightarrow> nend t' i = nend t i \<and> nled t' i = nled t i
      \<and> n_tip (nd t' i) = n_tip (nd t i) \<and> n_branch (nd t' i) = n_branch (nd t i)"
    and tree: "tree_ok L valid t'"
  shows "trie_core L valid t' M"
proof -
  have p: "on_path L t' x i = on_path L t x i" "tip_at L t' x i = tip_at L t x i" if "alive t i" "i \<noteq> loc" for x i
    using same [OF that] by (simp_all add: on_path_def tip_at_def)
  have "filter_mset (\<lambda>x. tip_at L t x loc) M = {#}"
    using countsD(1) [OF trie_coreD(3) [OF k] loc(1)] loc(2) by simp
  then have no: "\<not> tip_at L t x loc" if "x \<in># M" for x
  proof -
    have "x \<in># {#}" if "tip_at L t x loc"
      unfolding \<open>filter_mset (\<lambda>x. tip_at L t x loc) M = {#}\<close> [symmetric] using that \<open>x \<in># M\<close> by simp
    then show ?thesis by auto
  qed
  have "counts_ok L t' M"
    unfolding counts_ok_def al
  proof (intro allI impI, elim conjE)
    fix i assume i: "alive t i" "i \<noteq> loc"
    show "n_tip (nd t' i) = size (filter_mset (\<lambda>l. tip_at L t' l i) M)
        \<and> n_branch (nd t' i) = size (filter_mset (\<lambda>l. on_path L t' l i) M)"
      using countsD [OF trie_coreD(3) [OF k] i(1)] same [OF i] p [OF i] by simp
  qed
  moreover have "covered_by L t' M"
    unfolding covered_by_def
  proof
    fix x assume x: "x \<in># M"
    obtain i where i: "alive t i" "tip_at L t x i" using trie_coreD(4) [OF k] x by (auto simp: covered_by_def)
    moreover have "i \<noteq> loc" using no [OF x] i(2) by auto
    ultimately show "\<exists>i. alive t' i \<and> tip_at L t' x i" using al p by blast
  qed
  ultimately show ?thesis using trie_coreD(1) [OF k] tree by (simp add: trie_core_def)
qed

lemma only_parent:
  assumes "tree_ok L valid t" "alive t k" "c \<in> set (n_children (nd t k))" "n_parent (nd t c) = Some p"
  shows "k = p"
  using tree_childD(2) [OF assms(1-3)] assms(4) by simp

lemma parentD:
  assumes t: "tree_ok L valid t" "alive t i" "n_parent (nd t i) = Some p"
  shows "alive t p" "i \<in> set (n_children (nd t p))" "p \<noteq> i" "nend t p = nstart t i" "nend t p < nend t i"
    "nend t p \<le> g_mismatch L (nled t i) (nled t p)"
proof -
  have "i \<noteq> 0" using tree_root(2) [OF t(1)] t(3) by (cases "i = 0") auto
  then obtain q where "n_parent (nd t i) = Some q" "alive t q" "i \<in> set (n_children (nd t q))" "nend t q = nstart t i"
    "nend t q \<le> g_mismatch L (nled t i) (nled t q)" "nend t q < nend t i"
    by (rule parent_start [OF t(1,2)])
  moreover from this t(3) have "q = p" by simp
  ultimately show "alive t p" "i \<in> set (n_children (nd t p))" "p \<noteq> i" "nend t p = nstart t i" "nend t p < nend t i"
    "nend t p \<le> g_mismatch L (nled t i) (nled t p)" by auto
qed

lemma erase_core:
  assumes k: "trie_core L valid t M" and loc: "alive t loc" "loc \<noteq> 0" "n_tip (nd t loc) = 0"
    and p: "n_parent (nd t loc) = Some p" and leaf: "n_children (nd t loc) = []" and e: "erased t p loc t'"
  shows "trie_core L valid t' M" "alive t' i \<longleftrightarrow> alive t i \<and> i \<noteq> loc"
proof -
  note t = trie_coreD(2) [OF k]
  note ch = tree_childD [OF t] and ok = tree_nodeD [OF t]
  note pa = parentD [OF t loc(1) p]
  have f: "n_span (nd t' k) = n_span (nd t k)" "n_parent (nd t' k) = n_parent (nd t k)" "n_tip (nd t' k) = n_tip (nd t k)"
    "n_branch (nd t' k) = n_branch (nd t k)"
    "n_children (nd t' k) = (if k = p then filter (\<lambda>c. c \<noteq> loc) (n_children (nd t k)) else n_children (nd t k))"
    if "alive t k" for k
    using e that by (auto simp: erased_def alive_def)
  show al: "alive t' i \<longleftrightarrow> alive t i \<and> i \<noteq> loc" for i
    using erased_alive [OF e] pa(3) by simp
  have cs: "c \<in> set (n_children (nd t' k)) \<longleftrightarrow> c \<in> set (n_children (nd t k)) \<and> c \<noteq> loc" if "alive t k" for c k
    using only_parent [OF t that _ p] by (auto simp: f(5) [OF that])
  have "node_ok L valid t' k" if k: "alive t k" "k \<noteq> loc" for k
  proof (rule node_okI)
    show "\<exists>q. n_parent (nd t' k) = Some q \<and> alive t' q \<and> k \<in> set (n_children (nd t' q))" if k0: "k \<noteq> 0"
    proof -
      obtain q where q: "n_parent (nd t k) = Some q" "alive t q" "k \<in> set (n_children (nd t q))"
        by (rule tree_parentD [OF t k(1) k0])
      then have "q \<noteq> loc" using leaf by auto
      then show ?thesis using q k al cs [OF q(2)] f(2) [OF k(1)] by auto
    qed
    show "n_parent (nd t' k) = None \<and> n_span (nd t' k) = span_genesis L" if "k = 0"
      using tree_root(2,3) [OF t] f(1,2) [OF k(1)] that by simp
    show "g_mismatch L (nled t' c) (nled t' c') \<le> nend t' k"
      if c: "c \<in> set (n_children (nd t' k))" "c' \<in> set (n_children (nd t' k))" "c \<noteq> c'" for c c'
    proof -
      have m: "c \<in> set (n_children (nd t k))" "c' \<in> set (n_children (nd t k))" using c(1,2) cs [OF k(1)] by simp_all
      then show ?thesis
        using tree_siblings [OF t k(1) m c(3)] ch(1) [OF k(1) m(1)] ch(1) [OF k(1) m(2)] by (simp add: f(1) k(1))
    qed
    show "distinct (n_children (nd t' k))" using ok(5) [OF k(1)] by (auto simp: f(5) [OF k(1)])
  qed (use ok [OF k(1)] ch [OF k(1)] in \<open>simp_all add: f(1,2) k(1) cs [OF k(1)] al\<close>)
  then have "tree_ok L valid t'" using tree_root(1) [OF t] loc(2) by (auto simp: tree_ok_def al)
  then show "trie_core L valid t' M" using drop_core [OF k loc(1,3) al] f by simp
qed

lemma merge_distance:
  assumes t: "tree_ok L valid t" and loc: "alive t loc" and p: "n_parent (nd t loc) = Some p"
    and only: "n_children (nd t loc) = [c]"
  shows "nend t p \<le> g_mismatch L (nled t c) (nled t p)"
proof -
  note pa = parentD [OF t loc p]
  have c: "alive t c" "nend t loc \<le> g_mismatch L (nled t c) (nled t loc)"
    using tree_childD [OF t loc, of c] only by simp_all
  note v = tree_nodeD(1) [OF t]
  show ?thesis by (rule mm_trans [OF v [OF c(1)] v [OF loc] v [OF pa(1)]]) (use pa c in auto)
qed

lemma merge_siblings:
  assumes t: "tree_ok L valid t" and loc: "alive t loc" and p: "n_parent (nd t loc) = Some p"
    and only: "n_children (nd t loc) = [c]" and x: "x \<in> set (n_children (nd t p))" "x \<noteq> loc"
  shows "g_mismatch L (nled t c) (nled t x) \<le> nend t p" "g_mismatch L (nled t x) (nled t c) \<le> nend t p"
proof -
  note pa = parentD [OF t loc p]
  have c: "alive t c" "nend t loc \<le> g_mismatch L (nled t c) (nled t loc)"
    using tree_childD [OF t loc, of c] only by simp_all
  note v = tree_nodeD(1) [OF t]
  note vx = v [OF tree_childD(1) [OF t pa(1) x(1)]]
  show a: "g_mismatch L (nled t c) (nled t x) \<le> nend t p"
  proof (rule ccontr)
    assume "\<not> ?thesis"
    then have "Suc (nend t p) \<le> g_mismatch L (nled t loc) (nled t x)"
      by (intro mm_trans [OF v [OF loc] v [OF c(1)] vx])
        (use pa c mm_sym [OF v [OF loc] v [OF c(1)]] in auto)
    then show False using tree_siblings [OF t pa(1,2) x(1)] x(2) by force
  qed
  then show "g_mismatch L (nled t x) (nled t c) \<le> nend t p" using mm_sym [OF vx v [OF c(1)]] by simp
qed

lemma merge_core:
  assumes k: "trie_core L valid t M" and loc: "alive t loc" "loc \<noteq> 0" "n_tip (nd t loc) = 0"
    and p: "n_parent (nd t loc) = Some p" and only: "n_children (nd t loc) = [c]" and e: "merged t p loc c t'"
  shows "trie_core L valid t' M" "alive t' i \<longleftrightarrow> alive t i \<and> i \<noteq> loc"
proof -
  note t = trie_coreD(2) [OF k]
  note ch = tree_childD [OF t] and ok = tree_nodeD [OF t]
  note pa = parentD [OF t loc(1) p]
  have c: "alive t c" "n_parent (nd t c) = Some loc" "nstart t c = nend t loc" "nend t loc \<le> g_mismatch L (nled t c) (nled t loc)"
    using ch [OF loc(1), of c] only by simp_all
  have ne: "c \<noteq> loc" "c \<noteq> p" using c(2) p ok(2) [OF loc(1)] ok(2) [OF c(1)] c(3) pa(4,5) by auto
  have sp: "span_merge (n_span (nd t loc)) (n_span (nd t c)) = (n_span (nd t c))\<lparr>s_start := nstart t loc\<rparr>"
    using c(3) ok(2) [OF c(1)] ok(2) [OF loc(1)] by (simp add: span_merge_def)
  have f: "n_span (nd t' k) = (if k = c then (n_span (nd t c))\<lparr>s_start := nstart t loc\<rparr> else n_span (nd t k))"
    "n_parent (nd t' k) = (if k = c then Some p else n_parent (nd t k))" "n_tip (nd t' k) = n_tip (nd t k)"
    "n_branch (nd t' k) = n_branch (nd t k)"
    "n_children (nd t' k) = (if k = p then filter (\<lambda>c. c \<noteq> loc) (n_children (nd t k)) @ [c] else n_children (nd t k))"
    if "alive t k" for k
    using e that ne pa(3) sp by (auto simp: merged_def alive_def)
  show al: "alive t' i \<longleftrightarrow> alive t i \<and> i \<noteq> loc" for i
    using merged_alive [OF e] pa(3) ne(1) by simp
  have cs: "x \<in> set (n_children (nd t' k)) \<longleftrightarrow> (x \<in> set (n_children (nd t k)) \<and> x \<noteq> loc) \<or> (k = p \<and> x = c)"
    if "alive t k" for x k
    using only_parent [OF t that _ p] by (auto simp: f(5) [OF that])
  have notc: "c \<notin> set (n_children (nd t k))" if "alive t k" "k \<noteq> loc" for k
    using only_parent [OF t that(1) _ c(2)] that(2) by blast
  note pc = merge_distance [OF t loc(1) p only] and sib = merge_siblings [OF t loc(1) p only]
  have "node_ok L valid t' k" if k: "alive t k" "k \<noteq> loc" for k
  proof (rule node_okI)
    show "\<exists>q. n_parent (nd t' k) = Some q \<and> alive t' q \<and> k \<in> set (n_children (nd t' q))" if k0: "k \<noteq> 0"
    proof (cases "k = c")
      case True
      then show ?thesis using c(1) pa al cs [OF pa(1)] f(2) [OF c(1)] by auto
    next
      case False
      obtain q where q: "n_parent (nd t k) = Some q" "alive t q" "k \<in> set (n_children (nd t q))"
        by (rule tree_parentD [OF t k(1) k0])
      then have "q \<noteq> loc" using only False by auto
      then show ?thesis using q k False al cs [OF q(2)] f(2) [OF k(1)] by auto
    qed
    have "n_parent (nd t 0) = None" using tree_root(2) [OF t] .
    then have "c \<noteq> 0" using c(2) by (metis option.distinct(1))
    then show "n_parent (nd t' k) = None \<and> n_span (nd t' k) = span_genesis L" if "k = 0"
      using tree_root(2,3) [OF t] f(1,2) [OF k(1)] that by simp
    have chd: "alive t x \<and> x \<noteq> loc \<and> (x = c \<longrightarrow> k = p)" if "x \<in> set (n_children (nd t' k))" for x
      using that notc [OF k] ch(1) [OF k(1)] c(1) ne(1) by (auto simp: cs [OF k(1)])
    have endk: "nend t' k = nend t k" "nled t' k = nled t k" by (simp_all add: f(1) [OF k(1)])
    show "g_mismatch L (nled t' x) (nled t' y) \<le> nend t' k"
      if xy: "x \<in> set (n_children (nd t' k))" "y \<in> set (n_children (nd t' k))" "x \<noteq> y" for x y
    proof -
      have xx: "nled t' x = nled t x" "nled t' y = nled t y" using chd [OF xy(1)] chd [OF xy(2)] f(1) by simp_all
      show ?thesis
        using xy sib tree_siblings [OF t k(1), of x y] notc [OF k] unfolding xx endk cs [OF k(1)] by auto
    qed
    show "alive t' x" if "x \<in> set (n_children (nd t' k))" for x using chd [OF that] al by simp
    show "n_parent (nd t' x) = Some k" if "x \<in> set (n_children (nd t' k))" for x
      using chd [OF that] that ch(2) [OF k(1), of x] f(2) [of x] unfolding cs [OF k(1)] by auto
    show "nstart t' x = nend t' k" if "x \<in> set (n_children (nd t' k))" for x
      using chd [OF that] that ch(3) [OF k(1), of x] f(1) [of x] pa(4) unfolding cs [OF k(1)] endk by auto
    show "nend t' k \<le> g_mismatch L (nled t' x) (nled t' k)" if "x \<in> set (n_children (nd t' k))" for x
      using chd [OF that] that ch(4) [OF k(1), of x] f(1) [of x] pc unfolding cs [OF k(1)] endk by auto
    show "distinct (n_children (nd t' k))" using ok(5) [OF k(1)] notc [OF k] by (auto simp: f(5) [OF k(1)])
  qed (use ok [OF k(1)] c(3) ok(2) [OF loc(1)] in \<open>auto simp: f(1) [OF k(1)]\<close>)
  then have "tree_ok L valid t'" using tree_root(1) [OF t] loc(2) by (auto simp: tree_ok_def al)
  then show "trie_core L valid t' M" using drop_core [OF k loc(1,3) al] f by simp
qed

end

section \<open>Compressing the path\<close>

lemma live_children_all:
  assumes "\<forall>c \<in> set cs. alive t c"
  shows "live_children t cs = Some cs"
  using assms by (induction cs) (auto simp: alive_def node_at_eq)

lemma alive_finite: "finite {i. alive t i}" "card {i. alive t i} \<le> length (t_nodes t)"
proof -
  have sub: "{i. alive t i} \<subseteq> {..<length (t_nodes t)}" by (auto simp: alive_def)
  then show "finite {i. alive t i}" by (rule finite_subset) simp
  show "card {i. alive t i} \<le> length (t_nodes t)" using card_mono [OF _ sub] by simp
qed

lemma fewer_alive:
  assumes "\<And>i. alive t' i \<longleftrightarrow> alive t i \<and> i \<noteq> loc" "alive t loc"
  shows "card {i. alive t i} = Suc (card {i. alive t' i})"
proof -
  have "{i. alive t' i} = {i. alive t i} - {loc}" using assms(1) by auto
  then show ?thesis using card_Suc_Diff1 [OF alive_finite(1), of loc t] assms(2) by (metis mem_Collect_eq)
qed

lemma compact_but_drop:
  assumes "compact_but t loc" and al: "\<And>i. alive t' i \<longleftrightarrow> alive t i \<and> i \<noteq> loc"
    and same: "\<And>i. alive t i \<Longrightarrow> i \<noteq> loc \<Longrightarrow> i \<noteq> p \<Longrightarrow>
      n_tip (nd t' i) = n_tip (nd t i) \<and> n_children (nd t' i) = n_children (nd t i)"
  shows "compact_but t' p"
  using assms(1) same unfolding compact_but_def al by metis

context ledger_history begin

lemma compress_step:
  assumes k: "trie_core L valid t M" "compact_but t loc" and loc: "alive t loc" "loc \<noteq> 0" "n_tip (nd t loc) = 0"
    and few: "length (n_children (nd t loc)) < 2"
  shows "\<exists>p t'. (\<forall>fuel. compress (Suc fuel) loc t = compress fuel p t') \<and> trie_core L valid t' M \<and> compact_but t' p
    \<and> alive t' p \<and> t_seqs t' = t_seqs t \<and> (\<forall>i. alive t' i \<longleftrightarrow> alive t i \<and> i \<noteq> loc)"
proof -
  note t = trie_coreD(2) [OF k(1)]
  obtain p where p: "n_parent (nd t loc) = Some p" by (rule tree_parentD [OF t loc(1,2)])
  note pa = parentD [OF t loc(1) p]
  have n: "node_at t loc = Some (nd t loc)" "loc < length (t_nodes t)" "p < length (t_nodes t)"
    using loc(1) pa(1) by (auto simp: alive_def node_at_eq)
  have lc: "live_children t (n_children (nd t loc)) = Some (n_children (nd t loc))"
    using live_children_all tree_childD(1) [OF t loc(1)] by blast
  consider "n_children (nd t loc) = []" | c where "n_children (nd t loc) = [c]"
    using few by (cases "n_children (nd t loc)") auto
  then show ?thesis
  proof cases
    case 1
    obtain t' where t': "erase_child p loc t = Some t'" "erased t p loc t'"
      using erase_child_erased [OF n(3,2) pa(3)] by blast
    note core = erase_core [OF k(1) loc p 1 t'(2)]
    have "compact_but t' p"
      by (rule compact_but_drop [OF k(2) core(2)]) (use t'(2) in \<open>auto simp: erased_def alive_def\<close>)
    moreover have "compress (Suc fuel) loc t = compress fuel p t'" for fuel
      using n(1) loc p lc 1 t'(1) by simp
    ultimately show ?thesis using core pa(1,3) t'(2) by (auto simp: erased_def)
  next
    case 2
    have c: "alive t c" "n_parent (nd t c) = Some loc" using tree_childD [OF t loc(1), of c] 2 by simp_all
    note ca = parentD [OF t c]
    have ne: "c \<noteq> loc" "c \<noteq> p" "c < length (t_nodes t)" using ca(3,5) pa(5) c(1) by (auto simp: alive_def)
    obtain t' where t': "do {
      t1 \<leftarrow> set_node c (\<lambda>m. m\<lparr>n_span := span_merge (n_span (nd t loc)) (n_span (nd t c)), n_parent := Some p\<rparr>) t;
      t2 \<leftarrow> set_node p (\<lambda>m. m\<lparr>n_children := n_children m @ [c]\<rparr>) t1;
      erase_child p loc t2 } = Some t'" "merged t p loc c t'"
      using merge_merged [OF n(3,2) ne(3) pa(3) ne(1,2)] by blast
    note core = merge_core [OF k(1) loc p 2 t'(2)]
    have "compact_but t' p"
      by (rule compact_but_drop [OF k(2) core(2)]) (use t'(2) in \<open>auto simp: merged_def alive_def\<close>)
    moreover have "compress (Suc fuel) loc t = compress fuel p t'" for fuel
      using n(1) loc p lc 2 t'(1) ne(3) by (auto simp: node_at_eq bind_eq_Some_conv)
    ultimately show ?thesis using core pa(1,3) t'(2) by (auto simp: merged_def)
  qed
qed

lemma compress_spec:
  assumes "trie_core L valid t M" "compact_but t loc" "alive t loc" "card {i. alive t i} \<le> fuel"
  shows "\<exists>t'. compress fuel loc t = Some t' \<and> trie_core L valid t' M \<and> compact_ok t' \<and> t_seqs t' = t_seqs t"
  using assms
proof (induction fuel arbitrary: t loc)
  case 0
  then show ?case using alive_finite(1) [of t] by auto
next
  case (Suc fuel)
  have n: "node_at t loc = Some (nd t loc)" using Suc.prems(3) by (auto simp: alive_def node_at_eq)
  show ?case
  proof (cases "n_tip (nd t loc) = 0 \<and> loc \<noteq> 0 \<and> length (n_children (nd t loc)) < 2")
    case True
    then obtain p t' where t': "\<forall>fuel. compress (Suc fuel) loc t = compress fuel p t'" "trie_core L valid t' M"
        "compact_but t' p" "alive t' p" "t_seqs t' = t_seqs t" "\<forall>i. alive t' i \<longleftrightarrow> alive t i \<and> i \<noteq> loc"
      using compress_step [OF Suc.prems(1-3)] by (elim conjE) (fastforce)
    have "card {i. alive t' i} \<le> fuel"
      using fewer_alive [of t' t loc] t'(6) Suc.prems(3,4) by simp
    then show ?thesis using Suc.IH [OF t'(2-4)] t'(1,5) by simp
  next
    case False
    have "compress (Suc fuel) loc t = Some t"
    proof (cases "n_tip (nd t loc) = 0 \<and> loc \<noteq> 0")
      case True
      then obtain p where p: "n_parent (nd t loc) = Some p" using tree_parentD [OF trie_coreD(2) [OF Suc.prems(1)] Suc.prems(3)] by blast
      obtain a b cs where ch: "n_children (nd t loc) = a # b # cs"
        using True False by (cases "n_children (nd t loc)"; cases "tl (n_children (nd t loc))") auto
      have "live_children t (a # b # cs) = Some (a # b # cs)"
        using live_children_all tree_childD(1) [OF trie_coreD(2) [OF Suc.prems(1)] Suc.prems(3)] unfolding ch by blast
      then show ?thesis using n True p by (simp add: ch del: live_children.simps)
    qed (use n in auto)
    moreover have "compact_ok t" using Suc.prems(2) False unfolding compact_ok_def compact_but_def by (metis not_less)
    ultimately show ?thesis using Suc.prems(1) by blast
  qed
qed

end

section \<open>Removing support\<close>

definition same_ledger :: "'l ledger_ops \<Rightarrow> 'l \<Rightarrow> 'l \<Rightarrow> bool" where
  "same_ledger L l x \<longleftrightarrow> g_seq L x = g_seq L l \<and> g_seq L l < g_mismatch L l x"

definition sub_tip :: "nat \<Rightarrow> 'l tnode \<Rightarrow> 'l tnode" where
  "sub_tip c n = n\<lparr>n_tip := n_tip n - c\<rparr>"

lemma keeps_shape_sub_tip [simp]: "keeps_shape (sub_tip c)"
  by (simp add: keeps_shape_def sub_tip_def)

definition unbump :: "'l ledger_ops \<Rightarrow> nat \<Rightarrow> nat \<Rightarrow> 'l trie \<Rightarrow> 'l trie" where
  "unbump L loc c t = shift (chain L t loc) (sub_branch c) (shift {loc} (sub_tip c) t)"

lemma unbump_shape: "same_shape t (unbump L loc c t)"
  unfolding unbump_def by (rule same_shape_trans [of _ "shift {loc} (sub_tip c) t"]) (rule same_shape_shift, simp)+

lemma unbump_fields:
  assumes "alive t i"
  shows "n_tip (nd (unbump L loc c t) i) = n_tip (nd t i) - (if i = loc then c else 0)"
    "n_branch (nd (unbump L loc c t) i) = n_branch (nd t i) - (if i \<in> chain L t loc then c else 0)"
  using assms by (auto simp: unbump_def alive_def nd_shift sub_tip_def sub_branch_def)

lemma seqs_ok_sub:
  assumes s: "seqs_ok L m (M + replicate_mset c l)" and c: "0 < c"
  shows "\<exists>m'. sub_seq (g_seq L l) c m = Some m' \<and> seqs_ok L m' M"
proof -
  let ?n = "size (filter_mset (\<lambda>x. g_seq L x = g_seq L l) M)"
  have wf: "btree_wf m" using s by (simp add: seqs_ok_def)
  have at: "map_of m (g_seq L l) = Some (?n + c)"
    using s c unfolding seqs_ok_def size_filter_add by auto
  have off: "map_of m x = (if \<exists>l' \<in># M. g_seq L l' = x then Some (size (filter_mset (\<lambda>l'. g_seq L l' = x) M)) else None)"
    if "x \<noteq> g_seq L l" for x
    using s that c unfolding seqs_ok_def size_filter_add by auto
  have zero: "?n = 0 \<longleftrightarrow> \<not> (\<exists>x \<in># M. g_seq L x = g_seq L l)"
    unfolding size_eq_0_iff_empty set_mset_eq_empty_iff [symmetric] by auto
  let ?m = "if ?n = 0 then btree_remove (g_seq L l) m else btree_insert (g_seq L l) ?n m"
  have "sub_seq (g_seq L l) c m = Some ?m" using at by (simp add: sub_seq_def checked_sub_def)
  moreover have "seqs_ok L ?m M"
    unfolding seqs_ok_def
    using wf off zero by (auto simp: map_of_btree_insert map_of_btree_remove btree_wf_insert btree_wf_remove)
  ultimately show ?thesis by blast
qed

context ledger_history begin

lemma same_ledger_tip:
  assumes t: "tree_ok L valid t" and loc: "alive t loc" "tip_at L t l loc" and v: "valid l" "valid x"
  shows "tip_at L t x loc \<longleftrightarrow> same_ledger L l x"
proof -
  note vn = tree_nodeD(1) [OF t loc(1)]
  have e: "nend t loc = Suc (g_seq L l)" "Suc (g_seq L l) \<le> g_mismatch L l (nled t loc)"
    using loc(2) by (auto simp: tip_at_def on_path_def)
  show ?thesis
  proof
    assume "tip_at L t x loc"
    then have x: "g_seq L x = g_seq L l" "Suc (g_seq L l) \<le> g_mismatch L x (nled t loc)"
      using e(1) by (auto simp: tip_at_def on_path_def)
    have "Suc (g_seq L l) \<le> g_mismatch L l x"
      by (rule mm_trans [OF v(1) vn v(2)]) (use e(2) x(2) mm_sym [OF v(2) vn] in simp_all)
    then show "same_ledger L l x" using x(1) by (simp add: same_ledger_def)
  next
    assume "same_ledger L l x"
    then have x: "g_seq L x = g_seq L l" "Suc (g_seq L l) \<le> g_mismatch L l x" by (auto simp: same_ledger_def)
    have "Suc (g_seq L l) \<le> g_mismatch L x (nled t loc)"
      by (rule mm_trans [OF v(2,1) vn]) (use e(2) x(2) mm_sym [OF v(2,1)] in simp_all)
    then show "tip_at L t x loc" using x(1) e(1) by (simp add: tip_at_def on_path_def)
  qed
qed

lemma tip_count:
  assumes k: "trie_core L valid t M" and loc: "alive t loc" "tip_at L t l loc" and v: "valid l"
  shows "n_tip (nd t loc) = size (filter_mset (same_ledger L l) M)"
proof -
  have "filter_mset (\<lambda>x. tip_at L t x loc) M = filter_mset (same_ledger L l) M"
    using same_ledger_tip [OF trie_coreD(2) [OF k] loc v] trie_coreD(1) [OF k] by (intro filter_mset_cong) auto
  then show ?thesis using countsD(1) [OF trie_coreD(3) [OF k] loc(1)] by simp
qed

lemma drop_support_core:
  assumes k: "trie_core L valid t (M + replicate_mset c l)" and loc: "alive t loc" "tip_at L t l loc" and l: "valid l"
  shows "trie_core L valid (unbump L loc c t) M"
proof -
  note t = trie_coreD(2) [OF k] and v = trie_coreD(1) [OF k] and sh = unbump_shape [of t L loc c]
  note al = same_shapeD(1) [OF sh] and p = same_shape_paths [OF sh] and tc = tip_chain [OF t loc l]
  have "counts_ok L (unbump L loc c t) M"
    unfolding counts_ok_def al
  proof (intro allI impI)
    fix i assume i: "alive t i"
    show "n_tip (nd (unbump L loc c t) i) = size (filter_mset (\<lambda>l. tip_at L (unbump L loc c t) l i) M)
        \<and> n_branch (nd (unbump L loc c t) i) = size (filter_mset (\<lambda>l. on_path L (unbump L loc c t) l i) M)"
      unfolding unbump_fields [OF i] p [OF i] countsD [OF trie_coreD(3) [OF k] i] size_filter_add tc [OF i] by simp
  qed
  moreover have "covered_by L (unbump L loc c t) M"
    using trie_coreD(4) [OF k] al p(2) unfolding covered_by_def by (metis union_iff)
  ultimately show ?thesis using same_shape_tree_ok [OF sh t] v by (auto simp: trie_core_def)
qed

lemma compact_drop:
  assumes "compact_ok t"
  shows "compact_but (unbump L loc c t) loc"
  using assms unbump_fields [of t] same_shapeD [OF unbump_shape [of t L loc c]]
  by (simp add: compact_ok_def compact_but_def)

lemma branch_enough:
  assumes k: "trie_core L valid t (M + replicate_mset c l)" and loc: "alive t loc" "tip_at L t l loc" and l: "valid l"
  shows "\<forall>i \<in> chain L t loc. c \<le> n_branch (nd t i)"
proof
  fix i assume i: "i \<in> chain L t loc"
  then have a: "alive t i" by (simp add: chain_def)
  show "c \<le> n_branch (nd t i)"
    unfolding countsD(2) [OF trie_coreD(3) [OF k] a] size_filter_add
    using tip_chain(1) [OF trie_coreD(2) [OF k] loc l a] i by simp
qed

lemma unbump_sub:
  assumes t: "tree_ok L valid t" and loc: "alive t loc" and c: "\<forall>i \<in> chain L t loc. c \<le> n_branch (nd t i)"
  shows "sub_support (length (t_nodes ((shift {loc} (sub_tip c) t)\<lparr>t_seqs := m\<rparr>))) (Some loc) c
      ((shift {loc} (sub_tip c) t)\<lparr>t_seqs := m\<rparr>) = Some ((unbump L loc c t)\<lparr>t_seqs := m\<rparr>)"
proof -
  let ?t = "(shift {loc} (sub_tip c) t)\<lparr>t_seqs := m\<rparr>"
  have "same_shape t (shift {loc} (sub_tip c) t)" by (rule same_shape_shift) simp
  then have sh: "same_shape t ?t" by (simp add: same_shape_def)
  have ch: "chain L ?t loc = chain L t loc" by (rule same_shape_chain [OF sh loc])
  have "c \<le> n_branch (nd ?t i)" if "i \<in> chain L t loc" for i
    using c that by (auto simp: nd_shift sub_tip_def chain_def alive_def)
  then have "\<forall>i \<in> chain L ?t loc. c \<le> n_branch (nd ?t i)" unfolding ch by blast
  moreover have "alive ?t loc" using same_shapeD(1) [OF sh] loc by simp
  ultimately show ?thesis
    using sub_support_chain [OF same_shape_tree_ok [OF sh t] _ chain_finite(2)] ch by (simp add: unbump_def shift_def)
qed

lemma remove_rep:
  assumes r: "trie_rep L valid t (M + replicate_mset k l)" and l: "valid l" and k: "0 < k"
    and c: "k = min c (size (filter_mset (same_ledger L l) (M + replicate_mset k l)))"
  shows "\<exists>t'. trie_remove L (g_ancestor L l (g_seq L l)) (g_seq L l) c t = Some (True, t') \<and> trie_rep L valid t' M"
proof -
  have co: "trie_core L valid t (M + replicate_mset k l)" "compact_ok t" "seqs_ok L (t_seqs t) (M + replicate_mset k l)"
    using r by (auto simp: trie_rep_def)
  note t = trie_coreD(2) [OF co(1)]
  have "\<exists>i. alive t i \<and> tip_at L t l i" using trie_coreD(4) [OF co(1)] k unfolding covered_by_def by simp
  then obtain loc where loc: "find_by_ledger_id L (g_ancestor L l (g_seq L l)) t = Some loc" "alive t loc" "tip_at L t l loc"
    using find_id_spec [OF t l] by (auto split: option.splits)
  have n: "node_at t loc = Some (nd t loc)" "loc < length (t_nodes t)" using loc(2) by (auto simp: alive_def node_at_eq)
  have tip: "min c (n_tip (nd t loc)) = k" "n_tip (nd t loc) \<noteq> 0"
    using tip_count [OF co(1) loc(2,3) l] c k by (auto simp only: min_def split: if_splits)
  let ?t1 = "shift {loc} (sub_tip k) t"
  have sh: "same_shape t ?t1" by (rule same_shape_shift) simp
  have s1: "set_node loc (\<lambda>m. m\<lparr>n_tip := n_tip m - k\<rparr>) t = Some ?t1"
    using set_node_shift [OF n(2), of "sub_tip k"] by (simp add: sub_tip_def [abs_def])
  obtain m where m: "sub_seq (g_seq L l) k (t_seqs t) = Some m" "seqs_ok L m M" using seqs_ok_sub [OF co(3) k] by blast
  let ?t2 = "?t1\<lparr>t_seqs := m\<rparr>" and ?t3 = "(unbump L loc k t)\<lparr>t_seqs := m\<rparr>"
  have core: "trie_core L valid ?t3 M" "compact_but ?t3 loc" "alive ?t3 loc"
    using drop_support_core [OF co(1) loc(2,3) l] compact_drop [OF co(2), of loc k]
      same_shapeD(1) [OF unbump_shape [of t L loc k], of loc] loc(2)
    by (simp_all add: rep_seqs_update compact_but_def alive_def)
  have sub: "sub_support (length (t_nodes ?t2)) (Some loc) k ?t2 = Some ?t3"
    by (rule unbump_sub [OF t loc(2) branch_enough [OF co(1) loc(2,3) l]])
  obtain t4 where t4: "compress (length (t_nodes ?t3)) loc ?t3 = Some t4" "trie_core L valid t4 M" "compact_ok t4" "t_seqs t4 = m"
    using compress_spec [OF core alive_finite(2)] by auto
  have "trie_remove L (g_ancestor L l (g_seq L l)) (g_seq L l) c t = Some (True, t4)"
    using loc(1) n(1) tip s1 m(1) sub t4(1) by (simp add: trie_remove_def Let_def)
  then show ?thesis using t4 m(2) by (simp add: trie_rep_def)
qed

lemma remove_absent:
  assumes r: "trie_rep L valid t M" and l: "valid l" and no: "\<forall>x \<in># M. \<not> same_ledger L l x"
  shows "trie_remove L (g_ancestor L l (g_seq L l)) (g_seq L l) c t = Some (False, t)"
proof (cases "find_by_ledger_id L (g_ancestor L l (g_seq L l)) t")
  case (Some loc)
  have co: "trie_core L valid t M" using r by (simp add: trie_rep_def)
  have loc: "alive t loc" "tip_at L t l loc" using find_id_spec [OF trie_coreD(2) [OF co] l] Some by simp_all
  have "filter_mset (same_ledger L l) M = {#}"
    unfolding set_mset_eq_empty_iff [symmetric] using no by auto
  then have "n_tip (nd t loc) = 0" using tip_count [OF co loc l] by simp
  then show ?thesis using Some loc(1) by (simp add: trie_remove_def alive_def node_at_eq)
qed (simp add: trie_remove_def)

end

end
