(* ===== verification/Ledger_Trie_Preferred.thy ===== *)
theory Ledger_Trie_Preferred
  imports Ledger_Trie_Remove
begin

text \<open>
  What the ancestry trie answers: the support of a ledger and of its branch, and the preferred
  ledger. \<^verbatim>\<open>get_preferred\<close> walks down the trie; its answer is described here on the multiset of
  supported ledgers alone: at every step it takes, the branch it follows has more support than any
  other even if all uncommitted support went to the other, and no further step has.
\<close>

section \<open>Support\<close>

definition support :: "'l ledger_ops \<Rightarrow> 'l multiset \<Rightarrow> 'l \<Rightarrow> nat \<Rightarrow> nat" where
  "support L M l d = size (filter_mset (\<lambda>x. d < g_mismatch L l x) M)"

definition uncommitted :: "'l ledger_ops \<Rightarrow> 'l multiset \<Rightarrow> nat \<Rightarrow> nat" where
  "uncommitted L M s = size (filter_mset (\<lambda>x. g_seq L x < s) M)"

context ledger_history begin

lemma support_cong:
  assumes v: "valid a" "valid b" "\<forall>x \<in># M. valid x" and d: "d < g_mismatch L a b"
  shows "support L M a d = support L M b d"
proof -
  have "d < g_mismatch L a x \<longleftrightarrow> d < g_mismatch L b x" if "x \<in># M" for x
    using mm_trans [of a b x "Suc d"] mm_trans [of b a x "Suc d"] mm_sym [of a b] v that d by auto
  then show ?thesis unfolding support_def by (intro size_filter_cong) blast
qed

text \<open>The counter of a node is the support of any position of its span.\<close>

lemma branch_support_node:
  assumes k: "trie_core L valid t M" and i: "alive t i" "nstart t i \<le> d" "d < nend t i"
  shows "n_branch (nd t i) = support L M (nled t i) d"
proof -
  note t = trie_coreD(2) [OF k]
  have "on_path L t x i \<longleftrightarrow> d < g_mismatch L (nled t i) x" if x: "x \<in># M" for x
    using path_through [OF k x i(1)] mm_sym [OF tree_nodeD(1) [OF t i(1)] trie_coreD(1) [OF k x]] i(2,3)
    by (auto simp: on_path_def)
  then show ?thesis
    unfolding support_def countsD(2) [OF trie_coreD(3) [OF k] i(1)] by (intro size_filter_cong) blast
qed

lemma tip_support_spec:
  assumes r: "trie_core L valid t M" and l: "valid l"
  shows "tip_support L (g_ancestor L l (g_seq L l)) t = Some (size (filter_mset (same_ledger L l) M))"
proof (cases "find_by_ledger_id L (g_ancestor L l (g_seq L l)) t")
  case None
  then have no: "\<not> tip_at L t l i" if "alive t i" for i using find_id_spec [OF trie_coreD(2) [OF r] l] that by simp
  have "\<not> same_ledger L l x" if x: "x \<in># M" for x
  proof
    assume s: "same_ledger L l x"
    obtain i where i: "alive t i" "tip_at L t x i" using trie_coreD(4) [OF r] x by (auto simp: covered_by_def)
    have "same_ledger L x l" using s mm_sym [OF l trie_coreD(1) [OF r x]] by (auto simp: same_ledger_def)
    then have "tip_at L t l i" using same_ledger_tip [OF trie_coreD(2) [OF r] i trie_coreD(1) [OF r x] l] by simp
    then show False using no [OF i(1)] by simp
  qed
  then have "filter_mset (same_ledger L l) M = {#}" unfolding set_mset_eq_empty_iff [symmetric] by auto
  then show ?thesis using None by (simp add: tip_support_def)
next
  case (Some loc)
  then have loc: "alive t loc" "tip_at L t l loc" using find_id_spec [OF trie_coreD(2) [OF r] l] by simp_all
  then show ?thesis using Some tip_count [OF r loc l] by (simp add: tip_support_def alive_def node_at_eq)
qed

text \<open>A ledger that leaves the trie before its end has no supported descendant.\<close>

lemma found_short:
  assumes k: "trie_core L valid t M" and l: "valid l" and f: "found L t l loc d" "d \<le> g_seq L l"
  shows "support L M l (g_seq L l) = 0"
proof -
  note t = trie_coreD(2) [OF k]
  have loc: "alive t loc" "nstart t loc < d" "d = min (g_mismatch L l (nled t loc)) (nend t loc)"
    and ch: "\<And>c. d = nend t loc \<Longrightarrow> c \<in> set (n_children (nd t loc)) \<Longrightarrow> g_mismatch L l (nled t c) \<le> d"
    using f(1) by (auto simp: found_def)
  note v = tree_nodeD(1) [OF t loc(1)]
  have "\<not> g_seq L l < g_mismatch L l x" if x: "x \<in># M" for x
  proof
    assume a: "g_seq L l < g_mismatch L l x"
    note vx = trie_coreD(1) [OF k x]
    have xl: "d < g_mismatch L x l" using a f(2) mm_sym [OF l vx] by simp
    have "d \<le> g_mismatch L x (nled t loc)" by (rule mm_trans [OF vx l v]) (use loc(3) xl in auto)
    then have p: "on_path L t x loc" using path_through [OF k x loc(1)] loc(2) by simp
    show False
    proof (cases "d = nend t loc")
      case True
      have "g_mismatch L l x \<le> Suc (g_seq L x)" using mm_le [OF vx l] mm_sym [OF l vx] by simp
      then have "nend t loc \<le> g_seq L x" using True f(2) a by simp
      then obtain c where c: "c \<in> set (n_children (nd t loc))" "on_path L t x c" using path_child [OF k x loc(1) p] by blast
      note ca = tree_childD [OF t loc(1) c(1)]
      have "Suc d \<le> g_mismatch L l (nled t c)"
        by (rule mm_trans [OF l vx tree_nodeD(1) [OF t ca(1)]])
          (use a f(2) c(2) ca(3) True tree_nodeD(2) [OF t ca(1)] in \<open>auto simp: on_path_def\<close>)
      then show False using ch [OF True c(1)] by simp
    next
      case False
      then have "Suc d \<le> nend t loc" "g_mismatch L l (nled t loc) = d" using loc(3) by auto
      moreover have "Suc d \<le> g_mismatch L l (nled t loc)"
        by (rule mm_trans [OF l vx v]) (use a f(2) p \<open>Suc d \<le> nend t loc\<close> in \<open>auto simp: on_path_def\<close>)
      ultimately show False by simp
    qed
  qed
  then have "filter_mset (\<lambda>x. g_seq L l < g_mismatch L l x) M = {#}"
    unfolding set_mset_eq_empty_iff [symmetric] by auto
  then show ?thesis by (simp add: support_def)
qed

lemma branch_support_spec:
  assumes k: "trie_core L valid t M" and l: "valid l"
  shows "branch_support L l t = Some (support L M l (g_seq L l))"
proof -
  note t = trie_coreD(2) [OF k]
  have node: "n_branch (nd t i) = support L M l (g_seq L l)"
    if i: "alive t i" "nstart t i \<le> g_seq L l" "g_seq L l < nend t i" "g_seq L l < g_mismatch L l (nled t i)" for i
    using branch_support_node [OF k i(1-3)] support_cong [OF l tree_nodeD(1) [OF t i(1)], of M] i(4) trie_coreD(1) [OF k] by auto
  show ?thesis
  proof (cases "find_by_ledger_id L (g_ancestor L l (g_seq L l)) t")
    case None
    obtain loc d where f: "find_node L l t = Some (loc, d)" "found L t l loc d" using find_node_spec [OF t l] by blast
    have loc: "alive t loc" "nstart t loc < d" "d = min (g_mismatch L l (nled t loc)) (nend t loc)"
      using f(2) by (auto simp: found_def)
    have "d \<le> Suc (g_seq L l)" using loc(3) mm_le [OF l tree_nodeD(1) [OF t loc(1)]] by simp
    then show ?thesis
      using None f(1) loc node [OF loc(1)] found_short [OF k l f(2)] by (auto simp: branch_support_def alive_def node_at_eq)
  next
    case (Some loc)
    then have loc: "alive t loc" "tip_at L t l loc" using find_id_spec [OF t l] by simp_all
    then show ?thesis
      using Some node [OF loc(1)] tree_nodeD(2) [OF t loc(1)]
      by (auto simp: branch_support_def alive_def node_at_eq tip_at_def on_path_def)
  qed
qed

end

section \<open>The support by sequence\<close>

definition below :: "nat \<Rightarrow> (nat \<times> nat) list \<Rightarrow> nat" where
  "below k m = sum_list (map snd (filter (\<lambda>e. fst e < k) m))"

definition from_seq :: "nat \<Rightarrow> (nat \<times> nat) list \<Rightarrow> (nat \<times> nat) list" where
  "from_seq k m = filter (\<lambda>e. k \<le> fst e) m"

lemma below_simps [simp]: "below k [] = 0" "below k (e # m) = (if fst e < k then snd e else 0) + below k m"
  by (simp_all add: below_def)

lemma from_seq_simps [simp]: "from_seq k [] = []" "from_seq k (e # m) = (if k \<le> fst e then e # from_seq k m else from_seq k m)"
  by (simp_all add: from_seq_def)

lemma above_all:
  assumes "\<forall>e \<in> set m. k \<le> fst e"
  shows "from_seq k m = m" "below k m = 0"
  using assms by (induction m) auto

lemma take_uncommitted_spec:
  assumes "sorted (map fst xs)"
  shows "take_uncommitted k xs unc = (from_seq k xs, unc + below k xs)"
  using assms
proof (induction k xs unc rule: take_uncommitted.induct)
  case (2 limit s v rest unc)
  show ?case
  proof (cases "s < limit")
    case False
    then have "\<forall>e \<in> set rest. limit \<le> fst e" using "2.prems" by auto
    then show ?thesis using False above_all [of rest limit] by simp
  qed (use 2 in simp)
qed simp

lemma from_seq_from_seq: "from_seq k (from_seq j m) = from_seq (max j k) m"
  by (auto simp: from_seq_def intro!: filter_cong)

lemma below_from_seq: "j \<le> k \<Longrightarrow> below j m + below k (from_seq j m) = below k m"
  by (induction m) (auto simp: below_def from_seq_def)

lemma sorted_from_seq: "sorted (map fst m) \<Longrightarrow> sorted (map fst (from_seq k m))"
  by (simp add: from_seq_def sorted_filter)

text \<open>No entry lies between the two sequence numbers.\<close>

lemma from_seq_Nil:
  assumes "from_seq k m = []" "k \<le> j"
  shows "below j m = below k m" "from_seq j m = []"
proof -
  show "below j m = below k m" using below_from_seq [OF assms(2), of m] assms(1) by simp
  show "from_seq j m = []" using from_seq_from_seq [of j k m] assms by (simp add: max_absorb2)
qed

lemma from_seq_Cons:
  assumes st: "sorted_wrt (<) (map fst m)" and k: "from_seq k m = (s, v) # rest"
  shows "k \<le> s" "rest = from_seq (Suc s) m" "below (Suc s) m = below k m + v"
    "\<And>j. k \<le> j \<Longrightarrow> j \<le> s \<Longrightarrow> below j m = below k m \<and> from_seq j m = from_seq k m"
proof -
  have "sorted_wrt (<) (map fst (from_seq k m))"
    using st unfolding from_seq_def by (simp add: sorted_wrt_map sorted_wrt_filter)
  then have lt: "\<forall>e \<in> set rest. Suc s \<le> fst e" using k by auto
  have "(s, v) \<in> set (from_seq k m)" unfolding k by simp
  then show ks: "k \<le> s" by (simp add: from_seq_def)
  show "rest = from_seq (Suc s) m"
    using from_seq_from_seq [of "Suc s" k m] ks k above_all(1) [OF lt] by (simp add: max_absorb2)
  show "below (Suc s) m = below k m + v"
    using below_from_seq [of k "Suc s" m] ks k above_all(2) [OF lt] by simp
  fix j assume j: "k \<le> j" "j \<le> s"
  have "\<forall>e \<in> set (from_seq k m). j \<le> fst e" using lt j(2) unfolding k by auto
  note al = above_all [OF this]
  show "below j m = below k m \<and> from_seq j m = from_seq k m"
    using below_from_seq [OF j(1), of m] from_seq_from_seq [of j k m] al j(1) by (simp add: max_absorb2)
qed

lemma advance_spec:
  assumes m: "sorted_wrt (<) (map fst m)"
    and "advance_span stop branch n xs unc = (n', xs', unc')" "xs = from_seq (max n li) m" "unc = below (max n li) m" "n \<le> stop"
  shows "n \<le> n' \<and> n' \<le> stop \<and> xs' = from_seq (max n' li) m \<and> unc' = below (max n' li) m
    \<and> (\<forall>d. n \<le> d \<longrightarrow> d < n' \<longrightarrow> below (max d li) m < branch) \<and> (n' < stop \<longrightarrow> branch \<le> unc')"
  using assms(2-)
proof (induction stop branch n xs unc rule: advance_span.induct)
  case (1 stop branch n unc)
  have same: "below (max d li) m = unc" "from_seq (max d li) m = []" if "n \<le> d" for d
    using from_seq_Nil [of "max n li" m "max d li"] "1.prems"(2,3) that by auto
  have r: "xs' = []" "unc' = unc" "n' = (if n < stop \<and> branch > unc then stop else n)"
    using "1.prems"(1) by (auto split: if_splits)
  show ?case unfolding r(1,2) using same r(3) "1.prems"(4) by (auto split: if_splits)
next
  case (2 stop branch n s v rest unc)
  have k: "from_seq (max n li) m = (s, v) # rest" using "2.prems"(2) by simp
  note f = from_seq_Cons [OF m k]
  have same: "below (max d li) m = unc" if "n \<le> d" "d \<le> s" for d using f(1) f(4) [of "max d li"] that "2.prems"(3) by simp
  consider "\<not> (n < stop \<and> branch > unc)" | "n < stop" "branch > unc" "s < stop" | "n < stop" "branch > unc" "stop \<le> s"
    by linarith
  then show ?case
  proof cases
    case 1
    then have "n' = n" "xs' = (s, v) # rest" "unc' = unc" using "2.prems"(1) by (auto split: if_splits)
    then show ?thesis using 1 k "2.prems"(3,4) by auto
  next
    case c: 2
    have mx: "max (s + 1) li = Suc s" using f(1) by simp
    have ih: "s + 1 \<le> n' \<and> n' \<le> stop \<and> xs' = from_seq (max n' li) m \<and> unc' = below (max n' li) m
      \<and> (\<forall>d. s + 1 \<le> d \<longrightarrow> d < n' \<longrightarrow> below (max d li) m < branch) \<and> (n' < stop \<longrightarrow> branch \<le> unc')"
      by (rule "2.IH") (use c "2.prems" f(2,3) mx in auto)
    have "below (max d li) m < branch" if "n \<le> d" "d < n'" for d
      using ih same [of d] c(2) that by (cases "d \<le> s") auto
    then show ?thesis using ih f(1) by auto
  next
    case 3
    then have e: "n' = stop" "xs' = (s, v) # rest" "unc' = unc" using "2.prems"(1) by auto
    have "from_seq (max stop li) m = (s, v) # rest" using f(1) f(4) [of "max stop li"] 3(1,3) k by simp
    then show ?thesis using e same 3 by auto
  qed
qed

lemma below_Suc:
  "sorted_wrt (<) (map fst m) \<Longrightarrow> below (Suc k) m = below k m + (case map_of m k of None \<Rightarrow> 0 | Some v \<Rightarrow> v)"
proof (induction m)
  case (Cons e m)
  have "map_of m k = None" if "fst e = k" using Cons.prems that by (auto simp: map_of_eq_None_iff)
  then show ?case using Cons by auto
qed simp

lemma below_uncommitted:
  assumes "seqs_ok L m M"
  shows "below k m = uncommitted L M k"
proof (induction k)
  case 0
  show ?case using above_all(2) [of m 0] by (simp add: uncommitted_def)
next
  case (Suc k)
  have "filter_mset (\<lambda>x. g_seq L x < Suc k) M = filter_mset (\<lambda>x. g_seq L x < k) M + filter_mset (\<lambda>x. g_seq L x = k) M"
    by (rule multiset_eqI) auto
  then have u: "uncommitted L M (Suc k) = uncommitted L M k + size (filter_mset (\<lambda>x. g_seq L x = k) M)"
    unfolding uncommitted_def by simp
  have "(case map_of m k of None \<Rightarrow> 0 | Some v \<Rightarrow> v) = size (filter_mset (\<lambda>x. g_seq L x = k) M)"
  proof (cases "\<exists>x \<in># M. g_seq L x = k")
    case True
    then show ?thesis using assms by (simp add: seqs_ok_def)
  next
    case False
    then have "filter_mset (\<lambda>x. g_seq L x = k) M = {#}" unfolding set_mset_eq_empty_iff [symmetric] by auto
    then show ?thesis using assms False by (simp add: seqs_ok_def)
  qed
  then show ?case using below_Suc [of m k] assms Suc u by (simp add: seqs_ok_def btree_wf_def)
qed

section \<open>The best child\<close>

definition best_ok :: "'l trie \<Rightarrow> nat list \<Rightarrow> nat \<Rightarrow> nat \<Rightarrow> bool" where
  "best_ok t cs c m \<longleftrightarrow> c \<in> set cs
     \<and> (\<forall>u. u < m \<or> u = 0 \<longrightarrow> u \<le> n_branch (nd t c) \<and> (\<forall>c' \<in> set cs. c' \<noteq> c \<longrightarrow> n_branch (nd t c') + u \<le> n_branch (nd t c)))
     \<and> (\<forall>u. m \<le> u \<longrightarrow> n_branch (nd t c) \<le> u \<or> (\<exists>c' \<in> set cs. c' \<noteq> c \<and> n_branch (nd t c) \<le> u + n_branch (nd t c')))"

lemma best_child_spec:
  assumes d: "distinct cs" and a: "\<forall>c \<in> set cs. alive t c" and ne: "cs \<noteq> []"
  shows "\<exists>c m. best_child L t cs = Some (Some (c, m)) \<and> best_ok t cs c m"
proof (cases "tl cs = []")
  case True
  then obtain c where "cs = [c]" using ne by (cases cs) auto
  then show ?thesis using a by (auto simp: best_child_def best_ok_def alive_def node_at_eq)
next
  case False
  let ?k = "\<lambda>c. (- int (n_branch (nd t c)), - int (start_id L (n_span (nd t c))))"
  obtain f g ds where cs: "sort_key ?k cs = f # g # ds" and two: "\<exists>x y zs. cs = x # y # zs"
  proof -
    obtain x y zs where "cs = x # y # zs" using False ne by (cases cs; cases "tl cs") auto
    then have "2 \<le> length (sort_key ?k cs)" by simp
    then show ?thesis using that \<open>cs = x # y # zs\<close> by (cases "sort_key ?k cs"; cases "tl (sort_key ?k cs)") auto
  qed
  have set: "set cs = set (f # g # ds)" "distinct (f # g # ds)"
    using set_sort [of ?k cs] distinct_sort [of ?k cs] d unfolding cs by auto
  have "sorted (map ?k (f # g # ds))" using sorted_sort_key [of ?k cs] unfolding cs .
  then have ord: "n_branch (nd t g) \<le> n_branch (nd t f)" "\<forall>c \<in> set ds. n_branch (nd t c) \<le> n_branch (nd t g)"
    by (auto simp: less_eq_prod_def)
  let ?m = "n_branch (nd t f) - n_branch (nd t g)"
  let ?m' = "if start_id L (n_span (nd t f)) > start_id L (n_span (nd t g)) then ?m + 1 else ?m"
  have n: "node_at t f = Some (nd t f)" "node_at t g = Some (nd t g)"
    using a set(1) by (auto simp: alive_def node_at_eq)
  have "best_child L t cs = Some (Some (f, ?m'))"
    using two n ord(1) cs by (auto simp: best_child_def checked_sub_def)
  moreover have "best_ok t cs f ?m'"
    unfolding best_ok_def
  proof (intro conjI allI impI)
    show "f \<in> set cs" using set(1) by simp
    fix u assume "u < ?m' \<or> u = 0"
    then have u: "n_branch (nd t g) + u \<le> n_branch (nd t f)" using ord(1) by (auto split: if_splits)
    then show "u \<le> n_branch (nd t f)" by simp
    show "\<forall>c' \<in> set cs. c' \<noteq> f \<longrightarrow> n_branch (nd t c') + u \<le> n_branch (nd t f)"
      using u ord(2) unfolding set(1) by fastforce
  next
    fix u assume "?m' \<le> u"
    then have "n_branch (nd t f) \<le> u + n_branch (nd t g)" by (auto split: if_splits)
    then show "n_branch (nd t f) \<le> u \<or> (\<exists>c' \<in> set cs. c' \<noteq> f \<and> n_branch (nd t f) \<le> u + n_branch (nd t c'))"
      using set by auto
  qed
  ultimately show ?thesis by blast
qed

section \<open>The preferred ledger\<close>

text \<open>
  \<open>dominates a d\<close>: the branch of \<open>a\<close> at position \<open>d\<close> has at least the support of any other that forks
  there and of all uncommitted support together. \<open>prevails\<close> is the strict form.
\<close>

definition dominates :: "'l ledger_ops \<Rightarrow> ('l \<Rightarrow> bool) \<Rightarrow> 'l multiset \<Rightarrow> nat \<Rightarrow> 'l \<Rightarrow> nat \<Rightarrow> bool" where
  "dominates L valid M li a d \<longleftrightarrow> uncommitted L M (max li d) \<le> support L M a d
     \<and> (\<forall>y. valid y \<and> g_mismatch L a y = d \<longrightarrow> support L M y d + uncommitted L M (max li d) \<le> support L M a d)"

definition prevails :: "'l ledger_ops \<Rightarrow> ('l \<Rightarrow> bool) \<Rightarrow> 'l multiset \<Rightarrow> nat \<Rightarrow> 'l \<Rightarrow> nat \<Rightarrow> bool" where
  "prevails L valid M li a d \<longleftrightarrow> uncommitted L M (max li d) < support L M a d
     \<and> (\<forall>y. valid y \<and> g_mismatch L a y = d \<longrightarrow> support L M y d + uncommitted L M (max li d) < support L M a d)"

definition preferred_ok :: "'l ledger_ops \<Rightarrow> ('l \<Rightarrow> bool) \<Rightarrow> 'l multiset \<Rightarrow> nat \<Rightarrow> 'l span_tip \<Rightarrow> bool" where
  "preferred_ok L valid M li p \<longleftrightarrow>
     valid (tip_ledger p) \<and> tip_seq p \<le> g_seq L (tip_ledger p) \<and> tip_id p = g_ancestor L (tip_ledger p) (tip_seq p)
     \<and> (\<exists>x \<in># M. tip_seq p < g_mismatch L x (tip_ledger p))
     \<and> (\<forall>d. 1 \<le> d \<and> d \<le> tip_seq p \<longrightarrow> dominates L valid M li (tip_ledger p) d)
     \<and> (\<forall>z. valid z \<and> tip_seq p < g_mismatch L (tip_ledger p) z \<longrightarrow> \<not> prevails L valid M li z (Suc (tip_seq p)))"

context ledger_history begin

lemma fork_cong:
  assumes v: "valid a" "valid b" "valid y" and d: "d < g_mismatch L a b"
  shows "g_mismatch L a y = d \<longleftrightarrow> g_mismatch L b y = d"
  using mm_trans [OF v(1,2,3), of d] mm_trans [OF v(2,1,3), of d] mm_trans [OF v(1,2,3), of "Suc d"]
    mm_trans [OF v(2,1,3), of "Suc d"] mm_sym [OF v(1,2)] d by (simp add: le_antisym not_less_eq_eq) linarith

lemma dominates_cong:
  assumes v: "valid a" "valid b" "\<forall>x \<in># M. valid x" and d: "d < g_mismatch L a b"
  shows "dominates L valid M li a d = dominates L valid M li b d"
  unfolding dominates_def support_cong [OF v d] using fork_cong [OF v(1,2) _ d] by auto

lemma fork_child:
  assumes k: "trie_core L valid t M" and i: "alive t i" and y: "valid y" "nend t i \<le> g_mismatch L y (nled t i)"
    "support L M y (nend t i) \<noteq> 0"
  shows "\<exists>c \<in> set (n_children (nd t i)). nend t i < g_mismatch L y (nled t c) \<and> support L M y (nend t i) = n_branch (nd t c)"
proof -
  note t = trie_coreD(2) [OF k]
  obtain x where x: "x \<in># M" "nend t i < g_mismatch L y x"
    using y(3) by (auto simp: support_def nonempty_has_size dest!: multiset_nonemptyE)
  note vx = trie_coreD(1) [OF k x(1)]
  have "nend t i \<le> g_mismatch L x (nled t i)"
    by (rule mm_trans [OF vx y(1) tree_nodeD(1) [OF t i]]) (use x(2) y(2) mm_sym [OF vx y(1)] in auto)
  then have "on_path L t x i" by (simp add: on_path_def)
  moreover have "nend t i \<le> g_seq L x" using x(2) mm_le [OF vx y(1)] mm_sym [OF vx y(1)] by simp
  ultimately obtain c where c: "c \<in> set (n_children (nd t i))" "on_path L t x c" using path_child [OF k x(1) i] by blast
  note ch = tree_childD [OF t i c(1)]
  note cn = tree_nodeD [OF t ch(1)]
  have lt: "Suc (nend t i) \<le> g_mismatch L y (nled t c)"
    by (rule mm_trans [OF y(1) vx cn(1)]) (use x(2) c(2) ch(3) cn(2) in \<open>auto simp: on_path_def\<close>)
  have "support L M y (nend t i) = support L M (nled t c) (nend t i)"
    by (rule support_cong [OF y(1) cn(1)]) (use lt trie_coreD(1) [OF k] in auto)
  also have "\<dots> = n_branch (nd t c)" using branch_support_node [OF k ch(1), of "nend t i"] ch(3) cn(2) by simp
  finally show ?thesis using c(1) lt by (intro bexI [of _ c]) auto
qed

lemma branch_pos:
  assumes k: "trie_core L valid t M" "compact_ok t"
  shows "alive t i \<Longrightarrow> i \<noteq> 0 \<Longrightarrow> \<exists>x \<in># M. on_path L t x i"
proof (induction "card {j. alive t j \<and> nstart t i < nstart t j}" arbitrary: i rule: less_induct)
  case less
  note t = trie_coreD(2) [OF k(1)]
  show ?case
  proof (cases "n_tip (nd t i) = 0")
    case True
    then have "2 \<le> length (n_children (nd t i))" using k(2) less.prems by (simp add: compact_ok_def)
    then obtain c where c: "c \<in> set (n_children (nd t i))" by (cases "n_children (nd t i)") auto
    note ch = tree_childD [OF t less.prems(1) c]
    have st: "nstart t i < nstart t c" using ch(3) tree_nodeD(2) [OF t less.prems(1)] by simp
    then have "c \<noteq> 0" using root_bounds(1) [OF t] by (cases "c = 0") auto
    have "{j. alive t j \<and> nstart t c < nstart t j} \<subset> {j. alive t j \<and> nstart t i < nstart t j}" using st ch(1) by auto
    then have "card {j. alive t j \<and> nstart t c < nstart t j} < card {j. alive t j \<and> nstart t i < nstart t j}"
      by (rule psubset_card_mono [rotated]) (use alive_finite(1) [of t] in auto)
    then obtain x where x: "x \<in># M" "on_path L t x c" using less.hyps [OF _ ch(1) \<open>c \<noteq> 0\<close>] by blast
    then show ?thesis using on_path_parent [OF t less.prems(1) c] trie_coreD(1) [OF k(1)] by blast
  next
    case False
    then have "filter_mset (\<lambda>x. tip_at L t x i) M \<noteq> {#}" using countsD(1) [OF trie_coreD(3) [OF k(1)] less.prems(1)] by auto
    then show ?thesis by (auto simp: tip_at_def dest!: multiset_nonemptyE)
  qed
qed

lemma dominates_inside:
  assumes k: "trie_core L valid t M" and i: "alive t i" "nstart t i < d" "d < nend t i"
    and u: "uncommitted L M (max li d) \<le> n_branch (nd t i)"
  shows "dominates L valid M li (nled t i) d"
proof -
  note t = trie_coreD(2) [OF k]
  note v = tree_nodeD(1) [OF t i(1)]
  have n: "support L M (nled t i) d = n_branch (nd t i)" using branch_support_node [OF k i(1), of d] i by simp
  have "support L M y d = 0" if y: "valid y" "g_mismatch L (nled t i) y = d" for y
  proof -
    have "\<not> d < g_mismatch L y x" if x: "x \<in># M" for x
    proof
      assume a: "d < g_mismatch L y x"
      note vx = trie_coreD(1) [OF k x]
      have eq: "g_mismatch L (nled t i) x = d" using fork_cong [OF y(1) vx v a] y(2) mm_sym [OF y(1) v] mm_sym [OF vx v] by simp
      then have "on_path L t x i" using path_through [OF k x i(1)] i(2) mm_sym [OF vx v] by simp
      then show False using eq i(3) mm_sym [OF vx v] by (simp add: on_path_def)
    qed
    then have "filter_mset (\<lambda>x. d < g_mismatch L y x) M = {#}" unfolding set_mset_eq_empty_iff [symmetric] by auto
    then show ?thesis by (simp add: support_def)
  qed
  then show ?thesis using u by (simp add: dominates_def n)
qed

lemma dominates_child:
  assumes k: "trie_core L valid t M" and i: "alive t i" and b: "best_ok t (n_children (nd t i)) c m"
    and u: "uncommitted L M (max li (nend t i)) < m \<or> uncommitted L M (max li (nend t i)) = 0"
  shows "dominates L valid M li (nled t c) (nend t i)"
proof -
  note t = trie_coreD(2) [OF k]
  let ?u = "uncommitted L M (max li (nend t i))"
  have c: "c \<in> set (n_children (nd t i))" and le: "?u \<le> n_branch (nd t c)"
    and all: "\<And>c'. c' \<in> set (n_children (nd t i)) \<Longrightarrow> c' \<noteq> c \<Longrightarrow> n_branch (nd t c') + ?u \<le> n_branch (nd t c)"
    using b u unfolding best_ok_def by blast+
  note ch = tree_childD [OF t i c]
  note cn = tree_nodeD [OF t ch(1)]
  have n: "support L M (nled t c) (nend t i) = n_branch (nd t c)"
    using branch_support_node [OF k ch(1), of "nend t i"] ch(3) cn(2) by simp
  have "support L M y (nend t i) + ?u \<le> n_branch (nd t c)" if y: "valid y" "g_mismatch L (nled t c) y = nend t i" for y
  proof (cases "support L M y (nend t i) = 0")
    case False
    have "nend t i \<le> g_mismatch L y (nled t i)"
      by (rule mm_trans [OF y(1) cn(1) tree_nodeD(1) [OF t i]]) (use y mm_sym [OF y(1) cn(1)] ch(4) in auto)
    from fork_child [OF k i y(1) this False] obtain c' where c': "c' \<in> set (n_children (nd t i))"
        "nend t i < g_mismatch L y (nled t c')" "support L M y (nend t i) = n_branch (nd t c')" by blast
    have "c' \<noteq> c" using c'(2) y(2) mm_sym [OF y(1) cn(1)] by auto
    then show ?thesis using all [OF c'(1)] c'(3) by simp
  qed (use le in simp)
  then show ?thesis using le by (simp add: dominates_def n)
qed

lemma stop_inside:
  assumes k: "trie_core L valid t M" and i: "alive t i" "nstart t i < d" "d < nend t i"
    and u: "n_branch (nd t i) \<le> uncommitted L M (max li d)" and z: "valid z" "d - 1 < g_mismatch L (nled t i) z"
  shows "\<not> prevails L valid M li z d"
proof -
  note t = trie_coreD(2) [OF k]
  note v = tree_nodeD(1) [OF t i(1)]
  have "d < g_mismatch L z x \<Longrightarrow> d - 1 < g_mismatch L (nled t i) x" if "x \<in># M" for x
    using mm_trans [OF v z(1) trie_coreD(1) [OF k that], of "Suc (d - 1)"] z(2) by linarith
  then have "support L M z d \<le> support L M (nled t i) (d - 1)"
    unfolding support_def by (intro size_mset_mono filter_mset_mono_strong) auto
  also have "\<dots> = n_branch (nd t i)" using branch_support_node [OF k i(1), of "d - 1"] i(2,3) by simp
  finally show ?thesis using u by (simp add: prevails_def)
qed

lemma stop_end:
  assumes k: "trie_core L valid t M" and i: "alive t i"
    and b: "n_children (nd t i) = [] \<or> best_ok t (n_children (nd t i)) c m \<and> m \<le> uncommitted L M (max li (nend t i))"
    and z: "valid z" "nend t i \<le> g_mismatch L (nled t i) z"
  shows "\<not> prevails L valid M li z (nend t i)"
proof
  note t = trie_coreD(2) [OF k]
  let ?u = "uncommitted L M (max li (nend t i))"
  assume p: "prevails L valid M li z (nend t i)"
  then have pos: "support L M z (nend t i) \<noteq> 0" "?u < support L M z (nend t i)" by (auto simp: prevails_def)
  have "nend t i \<le> g_mismatch L z (nled t i)" using z mm_sym [OF z(1) tree_nodeD(1) [OF t i]] by simp
  from fork_child [OF k i z(1) this pos(1)] obtain c' where c': "c' \<in> set (n_children (nd t i))"
      "nend t i < g_mismatch L z (nled t c')" "support L M z (nend t i) = n_branch (nd t c')" by blast
  then have bo: "best_ok t (n_children (nd t i)) c m" "m \<le> ?u" using b by auto
  have other: "n_branch (nd t o') + ?u < n_branch (nd t c')" if o': "o' \<in> set (n_children (nd t i))" "o' \<noteq> c'" for o'
  proof -
    note ch = tree_childD [OF t i o'(1)] and cc = tree_childD [OF t i c'(1)]
    note vo = tree_nodeD [OF t ch(1)] and vc = tree_nodeD [OF t cc(1)]
    have "g_mismatch L (nled t c') (nled t o') \<le> nend t i" using tree_siblings [OF t i c'(1) o'(1)] o'(2) by simp
    moreover have "nend t i \<le> g_mismatch L (nled t c') (nled t o')"
      by (rule mm_trans [OF vc(1) tree_nodeD(1) [OF t i] vo(1)])
        (use ch(4) cc(4) mm_sym [OF vo(1) tree_nodeD(1) [OF t i]] in auto)
    ultimately have "g_mismatch L z (nled t o') = nend t i" using fork_cong [OF z(1) vc(1) vo(1) c'(2)] by simp
    moreover have "support L M (nled t o') (nend t i) = n_branch (nd t o')"
      using branch_support_node [OF k ch(1), of "nend t i"] ch(3) vo(2) by simp
    ultimately show ?thesis using p vo(1) c'(3) unfolding prevails_def by metis
  qed
  have "c \<in> set (n_children (nd t i))" using bo(1) by (simp add: best_ok_def)
  moreover have "c' \<noteq> c \<Longrightarrow> n_branch (nd t c') \<le> n_branch (nd t c)" using bo(1) c'(1) unfolding best_ok_def by fastforce
  ultimately have "c' = c" using other [of c] by fastforce
  moreover from this have "\<not> n_branch (nd t c) \<le> ?u" using c'(3) pos(2) by simp
  ultimately show False using bo other unfolding best_ok_def by (metis add.commute not_le)
qed

end

text \<open>A step of the walk after the two inner loops.\<close>

definition preferred_tail ::
  "'l ledger_ops \<Rightarrow> 'l trie \<Rightarrow> nat \<Rightarrow> nat \<Rightarrow> nat \<Rightarrow> nat \<Rightarrow> (nat \<times> nat) list \<Rightarrow> nat \<Rightarrow> 'l span_tip option option" where
  "preferred_tail L t li fuel cur n rest unc =
     (if n < nend t cur then Some (map_option (tip_of L) (span_before (n_span (nd t cur)) n))
      else do {
        live \<leftarrow> live_children t (n_children (nd t cur));
        best \<leftarrow> best_child L t live;
        (case best of
           None \<Rightarrow> Some (Some (tip_of L (n_span (nd t cur))))
         | Some (c, margin) \<Rightarrow>
             if margin > unc \<or> unc = 0 then preferred_loop L t li fuel c rest unc
             else Some (Some (tip_of L (n_span (nd t cur)))))
      })"

lemma preferred_unfold:
  assumes q: "seqs_ok L (t_seqs t) M" and a: "alive t cur" "nstart t cur < nend t cur" and K: "K \<le> max (Suc (nstart t cur)) li"
  shows "\<exists>n. nstart t cur < n \<and> n \<le> nend t cur
    \<and> (\<forall>d. nstart t cur < d \<and> d < n \<longrightarrow> uncommitted L M (max li d) < n_branch (nd t cur))
    \<and> (n < nend t cur \<longrightarrow> n_branch (nd t cur) \<le> uncommitted L M (max li n))
    \<and> (\<forall>fuel. preferred_loop L t li (Suc fuel) cur (from_seq K (t_seqs t)) (uncommitted L M K) =
        preferred_tail L t li fuel cur n (from_seq (max li n) (t_seqs t)) (uncommitted L M (max li n)))"
proof -
  let ?m = "t_seqs t" and ?s = "Suc (nstart t cur)"
  note b = below_uncommitted [OF q, symmetric]
  have m: "sorted_wrt (<) (map fst ?m)" using q by (simp add: seqs_ok_def btree_wf_def)
  then have "sorted (map fst ?m)" by (rule sorted_wrt_mono_rel [rotated]) simp
  then have tk: "take_uncommitted (max ?s li) (from_seq K ?m) (below K ?m) = (from_seq (max ?s li) ?m, below (max ?s li) ?m)"
    using take_uncommitted_spec [OF sorted_from_seq] from_seq_from_seq [of "max ?s li" K ?m] below_from_seq [OF K, of ?m] K
    by (simp add: max_absorb2)
  obtain n xs u where ad: "advance_span (nend t cur) (n_branch (nd t cur)) ?s (from_seq (max ?s li) ?m) (below (max ?s li) ?m) = (n, xs, u)"
    by (metis prod_cases3)
  have r: "?s \<le> n \<and> n \<le> nend t cur \<and> xs = from_seq (max n li) ?m \<and> u = below (max n li) ?m
    \<and> (\<forall>d. ?s \<le> d \<longrightarrow> d < n \<longrightarrow> below (max d li) ?m < n_branch (nd t cur)) \<and> (n < nend t cur \<longrightarrow> n_branch (nd t cur) \<le> u)"
    by (rule advance_spec [OF m ad refl refl]) (use a(2) in simp)
  have "node_at t cur = Some (nd t cur)" using a(1) by (simp add: alive_def node_at_eq)
  then have "preferred_loop L t li (Suc fuel) cur (from_seq K ?m) (below K ?m) = preferred_tail L t li fuel cur n xs u" for fuel
    using tk ad by (simp add: preferred_tail_def Let_def)
  moreover have "u = below (max li n) ?m" "xs = from_seq (max li n) ?m" using r by (simp_all add: max.commute)
  ultimately show ?thesis
    unfolding b using r by (intro exI [of _ n]) (auto simp: max.commute Suc_le_eq simp del: preferred_loop.simps)
qed

context ledger_history begin

lemma child_step:
  assumes k: "trie_core L valid t M" "compact_ok t" and i: "alive t i" and b: "best_ok t (n_children (nd t i)) c m"
    and dom: "\<And>d. 1 \<le> d \<Longrightarrow> d < nend t i \<Longrightarrow> dominates L valid M li (nled t i) d"
    and u: "uncommitted L M (max li (nend t i)) < m \<or> uncommitted L M (max li (nend t i)) = 0"
    and fuel: "card {j. alive t j \<and> nstart t i \<le> nstart t j} \<le> Suc fuel"
  shows "card {j. alive t j \<and> nstart t c \<le> nstart t j} \<le> fuel" "\<exists>x \<in># M. on_path L t x c"
    "\<forall>d. 1 \<le> d \<and> d \<le> nstart t c \<longrightarrow> dominates L valid M li (nled t c) d" "max li (nend t i) \<le> max (Suc (nstart t c)) li"
proof -
  note t = trie_coreD(2) [OF k(1)]
  have c: "c \<in> set (n_children (nd t i))" using b by (simp add: best_ok_def)
  note ch = tree_childD [OF t i c]
  have st: "nstart t i < nstart t c" using ch(3) tree_nodeD(2) [OF t i] by simp
  have "i \<in> {j. alive t j \<and> nstart t i \<le> nstart t j}" "i \<notin> {j. alive t j \<and> nstart t c \<le> nstart t j}"
    using st i by simp_all
  moreover have "{j. alive t j \<and> nstart t c \<le> nstart t j} \<subseteq> {j. alive t j \<and> nstart t i \<le> nstart t j}" using st by auto
  ultimately have "{j. alive t j \<and> nstart t c \<le> nstart t j} \<subset> {j. alive t j \<and> nstart t i \<le> nstart t j}" by blast
  then have "card {j. alive t j \<and> nstart t c \<le> nstart t j} < card {j. alive t j \<and> nstart t i \<le> nstart t j}"
    by (rule psubset_card_mono [rotated]) (use alive_finite(1) [of t] in auto)
  then show "card {j. alive t j \<and> nstart t c \<le> nstart t j} \<le> fuel" using fuel by simp
  have "c \<noteq> 0" using st root_bounds(1) [OF t] by (cases "c = 0") auto
  then show "\<exists>x \<in># M. on_path L t x c" using branch_pos [OF k ch(1)] by simp
  show "\<forall>d. 1 \<le> d \<and> d \<le> nstart t c \<longrightarrow> dominates L valid M li (nled t c) d"
  proof (intro allI impI)
    fix d assume d: "1 \<le> d \<and> d \<le> nstart t c"
    show "dominates L valid M li (nled t c) d"
    proof (cases "d = nend t i")
      case True
      then show ?thesis using dominates_child [OF k(1) i b u] by simp
    next
      case False
      then have lt: "d < nend t i" using d ch(3) by simp
      have "dominates L valid M li (nled t c) d = dominates L valid M li (nled t i) d"
        by (rule dominates_cong [OF tree_nodeD(1) [OF t ch(1)] tree_nodeD(1) [OF t i]])
          (use lt ch(4) trie_coreD(1) [OF k(1)] in auto)
      then show ?thesis using dom lt d by simp
    qed
  qed
  show "max li (nend t i) \<le> max (Suc (nstart t c)) li" using ch(3) by simp
qed

text \<open>The walk may stop at a position of a node when the step after it does not prevail.\<close>

lemma preferred_here:
  assumes k: "trie_core L valid t M" and i: "alive t i" "nstart t i < n" "n \<le> nend t i" and x: "\<exists>x \<in># M. on_path L t x i"
    and dom: "\<And>d. 1 \<le> d \<Longrightarrow> d < n \<Longrightarrow> dominates L valid M li (nled t i) d"
    and stop: "\<And>z. valid z \<Longrightarrow> n \<le> g_mismatch L (nled t i) z \<Longrightarrow> \<not> prevails L valid M li z n"
  shows "preferred_ok L valid M li \<lparr>tip_seq = n - 1, tip_id = g_ancestor L (nled t i) (n - 1), tip_ledger = nled t i\<rparr>"
proof -
  obtain x where "x \<in># M" "nend t i \<le> g_mismatch L x (nled t i)" using x by (auto simp: on_path_def)
  then show ?thesis
    using i dom stop tree_nodeD(1,3) [OF trie_coreD(2) [OF k] i(1)]
    by (auto simp: preferred_ok_def intro!: bexI [of _ x])
qed

lemma preferred_end:
  assumes k: "trie_core L valid t M" "compact_ok t" and i: "alive t i" and x: "\<exists>x \<in># M. on_path L t x i"
    and dom: "\<And>d. 1 \<le> d \<Longrightarrow> d < nend t i \<Longrightarrow> dominates L valid M li (nled t i) d"
    and fuel: "card {j. alive t j \<and> nstart t i \<le> nstart t j} \<le> Suc fuel"
    and IH: "\<And>c. alive t c \<Longrightarrow> card {j. alive t j \<and> nstart t c \<le> nstart t j} \<le> fuel \<Longrightarrow> \<exists>x \<in># M. on_path L t x c
      \<Longrightarrow> \<forall>d. 1 \<le> d \<and> d \<le> nstart t c \<longrightarrow> dominates L valid M li (nled t c) d
      \<Longrightarrow> max li (nend t i) \<le> max (Suc (nstart t c)) li \<Longrightarrow> \<exists>p. preferred_loop L t li fuel c rest unc = Some (Some p) \<and> preferred_ok L valid M li p"
    and u: "unc = uncommitted L M (max li (nend t i))"
  shows "\<exists>p. preferred_tail L t li fuel i (nend t i) rest unc = Some (Some p) \<and> preferred_ok L valid M li p"
proof -
  note t = trie_coreD(2) [OF k(1)]
  note nd = tree_nodeD [OF t i] and ch = tree_childD [OF t i]
  let ?p = "\<lparr>tip_seq = nend t i - 1, tip_id = g_ancestor L (nled t i) (nend t i - 1), tip_ledger = nled t i\<rparr>"
  have tip: "tip_of L (n_span (nd t i)) = ?p" by (simp add: tip_of_def Let_def)
  have lc: "live_children t (n_children (nd t i)) = Some (n_children (nd t i))" using live_children_all ch(1) by blast
  have ok: "preferred_ok L valid M li ?p"
    if "n_children (nd t i) = [] \<or> best_ok t (n_children (nd t i)) c m \<and> m \<le> uncommitted L M (max li (nend t i))" for c m
    using preferred_here [OF k(1) i nd(2) order_refl x dom stop_end [OF k(1) i that]] .
  show ?thesis
  proof (cases "n_children (nd t i) = []")
    case True
    then have "preferred_tail L t li fuel i (nend t i) rest unc = Some (Some ?p)"
      using lc tip by (simp add: preferred_tail_def best_child_def)
    then show ?thesis using ok True by simp
  next
    case False
    then obtain c m where b: "best_child L t (n_children (nd t i)) = Some (Some (c, m))" "best_ok t (n_children (nd t i)) c m"
      using best_child_spec [OF nd(5) _ False] ch(1) by blast
    then have c: "c \<in> set (n_children (nd t i))" by (simp add: best_ok_def)
    show ?thesis
    proof (cases "unc < m \<or> unc = 0")
      case True
      have "\<exists>p. preferred_loop L t li fuel c rest unc = Some (Some p) \<and> preferred_ok L valid M li p"
        by (rule IH [OF ch(1) [OF c] child_step [OF k i b(2) dom True [unfolded u] fuel]])
      then show ?thesis using lc b(1) True by (simp add: preferred_tail_def)
    next
      case False
      then have "preferred_tail L t li fuel i (nend t i) rest unc = Some (Some ?p)" using lc tip b(1) by (simp add: preferred_tail_def)
      then show ?thesis using ok [of c m] b(2) False u by simp
    qed
  qed
qed

lemma preferred_loop_spec:
  assumes r: "trie_rep L valid t M"
  shows "alive t cur \<Longrightarrow> card {j. alive t j \<and> nstart t cur \<le> nstart t j} \<le> fuel \<Longrightarrow> \<exists>x \<in># M. on_path L t x cur
    \<Longrightarrow> \<forall>d. 1 \<le> d \<and> d \<le> nstart t cur \<longrightarrow> dominates L valid M li (nled t cur) d \<Longrightarrow> K \<le> max (Suc (nstart t cur)) li
    \<Longrightarrow> \<exists>p. preferred_loop L t li fuel cur (from_seq K (t_seqs t)) (uncommitted L M K) = Some (Some p)
      \<and> preferred_ok L valid M li p"
proof (induction fuel arbitrary: cur K)
  case 0
  then have "{j. alive t j \<and> nstart t cur \<le> nstart t j} = {}" using alive_finite(1) [of t] by simp
  then show ?case using "0.prems"(1) by auto
next
  case (Suc fuel)
  have k: "trie_core L valid t M" "compact_ok t" "seqs_ok L (t_seqs t) M" using r by (auto simp: trie_rep_def)
  note al = Suc.prems(1)
  obtain n where n: "nstart t cur < n" "n \<le> nend t cur"
      "\<forall>d. nstart t cur < d \<and> d < n \<longrightarrow> uncommitted L M (max li d) < n_branch (nd t cur)"
      "n < nend t cur \<longrightarrow> n_branch (nd t cur) \<le> uncommitted L M (max li n)"
      and eq: "\<forall>fuel. preferred_loop L t li (Suc fuel) cur (from_seq K (t_seqs t)) (uncommitted L M K) =
        preferred_tail L t li fuel cur n (from_seq (max li n) (t_seqs t)) (uncommitted L M (max li n))"
    using preferred_unfold [OF k(3) al tree_nodeD(2) [OF trie_coreD(2) [OF k(1)] al] Suc.prems(5)] by (elim exE conjE)
  have dom: "dominates L valid M li (nled t cur) d" if "1 \<le> d" "d < n" for d
  proof (cases "d \<le> nstart t cur")
    case False
    then have "uncommitted L M (max li d) < n_branch (nd t cur)" using n(3) that(2) by simp
    then show ?thesis using False n(2) that dominates_inside [OF k(1) al, of d li] by simp
  qed (use Suc.prems(4) that in blast)
  show ?case
  proof (cases "n < nend t cur")
    case True
    have "preferred_tail L t li fuel cur n (from_seq (max li n) (t_seqs t)) (uncommitted L M (max li n))
        = Some (Some \<lparr>tip_seq = n - 1, tip_id = g_ancestor L (nled t cur) (n - 1), tip_ledger = nled t cur\<rparr>)"
      using True span_before_eq [OF n(1,2)] by (simp add: preferred_tail_def tip_of_def Let_def)
    moreover have "\<not> prevails L valid M li z n" if "valid z" "n \<le> g_mismatch L (nled t cur) z" for z
      using stop_inside [OF k(1) al n(1) True, of li z] n(1,4) True that by simp
    ultimately show ?thesis using eq preferred_here [OF k(1) al n(1,2) Suc.prems(3) dom] by simp
  next
    case False
    then have "n = nend t cur" using n(2) by simp
    show ?thesis
      unfolding eq [rule_format] \<open>n = nend t cur\<close>
      by (rule preferred_end [OF k(1,2) al Suc.prems(3) dom Suc.prems(2) Suc.IH refl]) (simp_all add: \<open>n = nend t cur\<close>)
  qed
qed

lemma root_path:
  assumes k: "trie_core L valid t M" and x: "x \<in># M"
  shows "on_path L t x 0"
  using path_through [OF k x tree_root(1) [OF trie_coreD(2) [OF k]]] root_bounds [OF trie_coreD(2) [OF k]]
    mm_pos [OF trie_coreD(1) [OF k x] valid_genesis] by simp

lemma is_empty_spec:
  assumes k: "trie_core L valid t M"
  shows "trie_is_empty t = Some (M = {#})"
proof -
  note al = tree_root(1) [OF trie_coreD(2) [OF k]]
  have "filter_mset (\<lambda>x. on_path L t x 0) M = M" using root_path [OF k] by (simp add: filter_mset_eq_conv)
  then have "n_branch (nd t 0) = size M" using countsD(2) [OF trie_coreD(3) [OF k] al] by simp
  then show ?thesis using al by (simp add: trie_is_empty_def alive_def node_at_eq)
qed

lemma get_preferred_spec:
  assumes r: "trie_rep L valid t M"
  shows "\<exists>r. trie_get_preferred L li t = Some r \<and> (case r of None \<Rightarrow> M = {#} | Some p \<Rightarrow> preferred_ok L valid M li p)"
proof -
  have k: "trie_core L valid t M" using r by (simp add: trie_rep_def)
  note al = tree_root(1) [OF trie_coreD(2) [OF k]] and rb = root_bounds [OF trie_coreD(2) [OF k]]
  note e = is_empty_spec [OF k]
  show ?thesis
  proof (cases "M = {#}")
    case False
    then obtain x where x: "x \<in># M" by (auto dest: multiset_nonemptyE)
    have "{j. alive t j \<and> nstart t 0 \<le> nstart t j} = {j. alive t j}" using rb by auto
    then have "\<exists>p. preferred_loop L t li (length (t_nodes t)) 0 (from_seq 0 (t_seqs t)) (uncommitted L M 0) = Some (Some p)
        \<and> preferred_ok L valid M li p"
      by (intro preferred_loop_spec [OF r al]) (use alive_finite(2) [of t] root_path [OF k x] x rb in auto)
    moreover have "from_seq 0 (t_seqs t) = t_seqs t" using above_all(1) [of "t_seqs t" 0] by simp
    moreover have "uncommitted L M 0 = 0" by (simp add: uncommitted_def)
    ultimately show ?thesis using e False by (auto simp: trie_get_preferred_def)
  qed (simp add: trie_get_preferred_def e)
qed

text \<open>A ledger that more than half of the support is on or below is never abandoned.\<close>

lemma preferred_majority:
  assumes p: "preferred_ok L valid M li p" and M: "\<forall>x \<in># M. valid x" and l: "valid l" and maj: "size M < 2 * support L M l (g_seq L l)"
  shows "min (tip_seq p) (g_seq L l) < g_mismatch L l (tip_ledger p)"
proof (rule ccontr)
  let ?d = "g_mismatch L l (tip_ledger p)"
  assume "\<not> ?thesis"
  then have d: "?d \<le> tip_seq p" "?d \<le> g_seq L l" by auto
  have v: "valid (tip_ledger p)" and dom: "\<And>d. 1 \<le> d \<Longrightarrow> d \<le> tip_seq p \<Longrightarrow> dominates L valid M li (tip_ledger p) d"
    using p by (auto simp: preferred_ok_def)
  have sy: "g_mismatch L (tip_ledger p) l = ?d" by (rule mm_sym [OF v l])
  have "support L M l ?d \<le> support L M (tip_ledger p) ?d"
    using dom [OF _ d(1)] mm_pos [OF l v] l sy unfolding dominates_def by fastforce
  moreover have "support L M l (g_seq L l) \<le> support L M l ?d"
    unfolding support_def using d(2) by (intro size_mset_mono filter_mset_mono_strong) auto
  moreover have "support L M l ?d + support L M (tip_ledger p) ?d \<le> size M"
  proof -
    have "\<not> ?d < g_mismatch L (tip_ledger p) x" if x: "x \<in># M" "?d < g_mismatch L l x" for x
      using mm_trans [OF l _ v, of x "Suc ?d"] mm_sym [OF v, of x] M x by auto
    then have "filter_mset (\<lambda>x. ?d < g_mismatch L (tip_ledger p) x) M \<subseteq># filter_mset (\<lambda>x. \<not> ?d < g_mismatch L l x) M"
      by (intro filter_mset_mono_strong) auto
    then have "support L M (tip_ledger p) ?d \<le> size (filter_mset (\<lambda>x. \<not> ?d < g_mismatch L l x) M)"
      unfolding support_def by (rule size_mset_mono)
    moreover have "size M = support L M l ?d + size (filter_mset (\<lambda>x. \<not> ?d < g_mismatch L l x) M)"
      unfolding support_def by (metis multiset_partition size_union)
    ultimately show ?thesis by simp
  qed
  ultimately show False using maj by simp
qed

end

end
