(* ===== verification/Rcl_Validated_Ledger.thy ===== *)
theory Rcl_Validated_Ledger
  imports Ledger_Trie_Preferred
begin

text \<open>
  The ledgers the server puts into the ancestry trie, \<^verbatim>\<open>RclValidatedLedger\<close>: an identifier, a sequence
  number and the hashes of up to 256 ancestors. Two ledgers are compared on the ancestry both know.
  The contract \<open>ledger_history\<close> of the trie is shown for any collection of ledgers whose known
  ancestries reach back to a common ledger and agree with the headers: \<open>num\<close> and \<open>par\<close> give the
  sequence number and the parent hash in the header with a given hash.
\<close>

section \<open>The ledgers\<close>

record vledger =
  vl_id :: nat
  vl_seq :: nat
  vl_ancestors :: "nat list"

definition vl_genesis :: vledger where
  "vl_genesis = \<lparr>vl_id = 0, vl_seq = 0, vl_ancestors = [0]\<rparr>"

text \<open>
  The constructor from a ledger: \<open>skip\<close> is what reading the skip list returns, its last sequence
  number and its hashes.
\<close>

definition vl_from_ledger :: "nat \<Rightarrow> nat \<Rightarrow> (nat \<times> nat list) option \<Rightarrow> vledger option" where
  "vl_from_ledger seq ident skip =
     (case skip of
        None \<Rightarrow> Some \<lparr>vl_id = ident, vl_seq = seq, vl_ancestors = []\<rparr>
      | Some (last_seq, hashes) \<Rightarrow>
          if last_seq = seq - 1 then Some \<lparr>vl_id = ident, vl_seq = seq, vl_ancestors = hashes\<rparr>
          else None)"

definition vl_min_seq :: "vledger \<Rightarrow> nat" where
  "vl_min_seq l = vl_seq l - length (vl_ancestors l)"

definition vl_ancestor :: "vledger \<Rightarrow> nat \<Rightarrow> nat" where
  "vl_ancestor l s =
     (if s > vl_seq l then 0
      else if s = vl_seq l then vl_id l
      else if s < vl_min_seq l then 0
      else vl_ancestors l ! (length (vl_ancestors l) - (vl_seq l - s)))"

fun vl_mismatch_loop :: "vledger \<Rightarrow> vledger \<Rightarrow> nat \<Rightarrow> nat \<Rightarrow> nat" where
  "vl_mismatch_loop a b lower 0 = 0"
| "vl_mismatch_loop a b lower (Suc c) =
     (if vl_ancestor a (Suc c) \<noteq> vl_ancestor b (Suc c) \<and> lower \<le> Suc c
      then vl_mismatch_loop a b lower c else Suc c)"

definition vl_mismatch :: "vledger \<Rightarrow> vledger \<Rightarrow> nat" where
  "vl_mismatch a b =
     (let lower = max (vl_min_seq a) (vl_min_seq b);
          current = vl_mismatch_loop a b lower (min (vl_seq a) (vl_seq b))
      in if current < lower then 1 else current + 1)"

definition vl_ops :: "vledger ledger_ops" where
  "vl_ops = \<lparr>g_genesis = vl_genesis, g_seq = vl_seq, g_ancestor = vl_ancestor, g_mismatch = vl_mismatch\<rparr>"

lemma vl_ops_simps [simp]:
  "g_genesis vl_ops = vl_genesis" "g_seq vl_ops = vl_seq" "g_ancestor vl_ops = vl_ancestor" "g_mismatch vl_ops = vl_mismatch"
  by (simp_all add: vl_ops_def)

text \<open>The index into the hashes that \<^verbatim>\<open>ancestor\<close> computes is in range.\<close>

lemma vl_ancestor_index:
  "s < vl_seq l \<Longrightarrow> vl_min_seq l \<le> s \<Longrightarrow> vl_seq l - s \<le> length (vl_ancestors l)
     \<and> length (vl_ancestors l) - (vl_seq l - s) < length (vl_ancestors l)"
  by (auto simp: vl_min_seq_def)

section \<open>Known ancestry\<close>

definition vl_linked :: "(nat \<Rightarrow> nat) \<Rightarrow> (nat \<Rightarrow> nat) \<Rightarrow> nat \<Rightarrow> nat \<Rightarrow> vledger \<Rightarrow> bool" where
  "vl_linked num par B h l \<longleftrightarrow> 1 \<le> vl_min_seq l \<and> vl_min_seq l \<le> B \<and> B \<le> vl_seq l \<and> vl_ancestor l B = h
     \<and> (\<forall>s \<in> {B..vl_seq l}. vl_ancestor l s \<noteq> 0 \<and> num (vl_ancestor l s) = s)
     \<and> (\<forall>s \<in> {B<..vl_seq l}. par (vl_ancestor l s) = vl_ancestor l (s - 1))"

definition vl_known :: "(nat \<Rightarrow> nat) \<Rightarrow> (nat \<Rightarrow> nat) \<Rightarrow> nat \<Rightarrow> nat \<Rightarrow> vledger \<Rightarrow> bool" where
  "vl_known num par B h l \<longleftrightarrow> l = vl_genesis \<or> vl_linked num par B h l"

lemma vl_linkedD:
  assumes "vl_linked num par B h l"
  shows "1 \<le> B" "vl_min_seq l \<le> B" "B \<le> vl_seq l" "vl_ancestor l B = h" "vl_ancestor l 0 = 0"
    "B \<le> s \<Longrightarrow> s \<le> vl_seq l \<Longrightarrow> vl_ancestor l s \<noteq> 0 \<and> num (vl_ancestor l s) = s"
    "B < s \<Longrightarrow> s \<le> vl_seq l \<Longrightarrow> par (vl_ancestor l s) = vl_ancestor l (s - 1)"
  using assms by (auto simp: vl_linked_def vl_ancestor_def)

lemma mismatch_loop_spec:
  assumes "B \<le> c" "lower \<le> B" "0 < B" "vl_ancestor a B = vl_ancestor b B"
  shows "B \<le> vl_mismatch_loop a b lower c \<and> vl_mismatch_loop a b lower c \<le> c
    \<and> vl_ancestor a (vl_mismatch_loop a b lower c) = vl_ancestor b (vl_mismatch_loop a b lower c)
    \<and> (\<forall>s. vl_mismatch_loop a b lower c < s \<longrightarrow> s \<le> c \<longrightarrow> vl_ancestor a s \<noteq> vl_ancestor b s)"
  using assms
proof (induction c)
  case (Suc c)
  show ?case
  proof (cases "vl_ancestor a (Suc c) = vl_ancestor b (Suc c)")
    case False
    then have "B \<le> c" "lower \<le> Suc c" using Suc.prems by (auto simp: le_Suc_eq)
    then show ?thesis using Suc.IH Suc.prems False by (auto simp: le_Suc_eq)
  qed (use Suc.prems in auto)
qed simp

text \<open>Ledgers that agree somewhere agree on everything known before.\<close>

lemma linked_agree:
  assumes a: "vl_linked num par B h a" and b: "vl_linked num par B h b"
  shows "s \<le> vl_seq a \<Longrightarrow> s \<le> vl_seq b \<Longrightarrow> vl_ancestor a s = vl_ancestor b s \<Longrightarrow> B \<le> r \<Longrightarrow> r \<le> s
    \<Longrightarrow> vl_ancestor a r = vl_ancestor b r"
proof (induction s)
  case (Suc s)
  show ?case
  proof (cases "r = Suc s")
    case False
    then have "B < Suc s" "r \<le> s" using Suc.prems by auto
    then have "vl_ancestor a s = vl_ancestor b s" using vl_linkedD(7) [OF a, of "Suc s"] vl_linkedD(7) [OF b, of "Suc s"] Suc.prems by simp
    then show ?thesis using Suc.IH Suc.prems \<open>r \<le> s\<close> by simp
  qed (use Suc.prems in simp)
qed simp

lemma linked_mismatch:
  assumes a: "vl_linked num par B h a" and b: "vl_linked num par B h b"
  shows "B < vl_mismatch a b" "vl_mismatch a b \<le> Suc (vl_seq a)"
    "s \<le> vl_seq a \<Longrightarrow> s \<le> vl_seq b \<Longrightarrow> B \<le> s \<Longrightarrow> s < vl_mismatch a b \<longleftrightarrow> vl_ancestor a s = vl_ancestor b s"
proof -
  let ?low = "max (vl_min_seq a) (vl_min_seq b)" and ?up = "min (vl_seq a) (vl_seq b)"
  let ?c = "vl_mismatch_loop a b ?low ?up"
  note da = vl_linkedD [OF a] and db = vl_linkedD [OF b]
  have r: "B \<le> ?c \<and> ?c \<le> ?up \<and> vl_ancestor a ?c = vl_ancestor b ?c
      \<and> (\<forall>s. ?c < s \<longrightarrow> s \<le> ?up \<longrightarrow> vl_ancestor a s \<noteq> vl_ancestor b s)"
    by (rule mismatch_loop_spec) (use da(1-4) db(1-4) in auto)
  have "\<not> ?c < ?low" using r da(2) db(2) by linarith
  then have m: "vl_mismatch a b = Suc ?c" by (simp add: vl_mismatch_def Let_def)
  show "B < vl_mismatch a b" "vl_mismatch a b \<le> Suc (vl_seq a)" using r m by auto
  show "s < vl_mismatch a b \<longleftrightarrow> vl_ancestor a s = vl_ancestor b s" if "s \<le> vl_seq a" "s \<le> vl_seq b" "B \<le> s"
  proof (cases "s \<le> ?c")
    case True
    then show ?thesis unfolding m using r linked_agree [OF a b, of ?c s] that by simp
  next
    case False
    moreover from this have "vl_ancestor a s \<noteq> vl_ancestor b s" using r that by simp
    ultimately show ?thesis unfolding m by simp
  qed
qed

lemma genesis_mismatch: "vl_mismatch vl_genesis l = 1" "vl_mismatch l vl_genesis = 1"
  by (simp_all add: vl_mismatch_def vl_genesis_def)

lemma mismatch_sym:
  assumes "vl_known num par B h a" "vl_known num par B h b"
  shows "vl_mismatch a b = vl_mismatch b a"
proof -
  have "vl_mismatch_loop a b lower c = vl_mismatch_loop b a lower c" for lower c by (induction c) auto
  then show ?thesis by (simp add: vl_mismatch_def max.commute min.commute)
qed

lemma mismatch_ultra:
  assumes "vl_known num par B h a" "vl_known num par B h b" "vl_known num par B h c"
  shows "min (vl_mismatch a b) (vl_mismatch b c) \<le> vl_mismatch a c"
proof (cases "vl_linked num par B h a \<and> vl_linked num par B h b \<and> vl_linked num par B h c")
  case True
  then have l: "vl_linked num par B h a" "vl_linked num par B h b" "vl_linked num par B h c" by simp_all
  let ?s = "min (vl_mismatch a b) (vl_mismatch b c) - 1"
  have p: "B < vl_mismatch a b" "B < vl_mismatch b c" using linked_mismatch(1) [OF l(1,2)] linked_mismatch(1) [OF l(2,3)] by simp_all
  have b: "B \<le> ?s" "?s < vl_mismatch a b" "?s < vl_mismatch b c" using p by auto
  have le: "?s \<le> vl_seq a" "?s \<le> vl_seq b" "?s \<le> vl_seq c"
    using b linked_mismatch(2) [OF l(1,2)] linked_mismatch(2) [OF l(2,3)] linked_mismatch(2) [OF l(3,2)]
      mismatch_sym [OF assms(2,3)] by auto
  have "vl_ancestor a ?s = vl_ancestor c ?s"
    using linked_mismatch(3) [OF l(1,2) le(1,2) b(1)] linked_mismatch(3) [OF l(2,3) le(2,3) b(1)] b by simp
  then have "?s < vl_mismatch a c" using linked_mismatch(3) [OF l(1,3) le(1,3) b(1)] by simp
  then show ?thesis by simp
next
  case False
  have "1 \<le> vl_mismatch x y" for x y by (simp add: vl_mismatch_def Let_def)
  moreover from False assms consider "a = vl_genesis" | "b = vl_genesis" | "c = vl_genesis" by (auto simp: vl_known_def)
  then have "min (vl_mismatch a b) (vl_mismatch b c) = 1"
    using \<open>\<And>x y. 1 \<le> vl_mismatch x y\<close> by cases (simp_all add: genesis_mismatch min_def le_antisym)
  ultimately show ?thesis by metis
qed

lemma known_ids:
  assumes a: "vl_known num par B h a" and b: "vl_known num par B h b" and j: "junction vl_ops (vl_known num par B h) a s"
  shows "vl_ancestor a s = vl_ancestor b (vl_seq b) \<longleftrightarrow> s = vl_seq b \<and> s < vl_mismatch a b"
proof -
  have pos: "0 < vl_mismatch a b" by (simp add: vl_mismatch_def Let_def)
  have g: "vl_ancestor vl_genesis 0 = 0" "vl_seq vl_genesis = 0" by (simp_all add: vl_ancestor_def vl_genesis_def)
  have bid: "vl_ancestor b (vl_seq b) = 0 \<longleftrightarrow> vl_seq b = 0" "vl_linked num par B h b \<Longrightarrow> 0 < vl_seq b"
    using b g vl_linkedD(1,3) [of num par B h b] vl_linkedD(6) [of num par B h b "vl_seq b"] unfolding vl_known_def by auto
  consider "s = 0" "vl_ancestor a s = 0" | "vl_linked num par B h a" "B \<le> s" "s \<le> vl_seq a"
  proof -
    consider "a = vl_genesis" | "vl_linked num par B h a" using a by (auto simp: vl_known_def)
    then show ?thesis
    proof cases
      case 1
      then have "s = 0" using j by (auto simp: junction_def genesis_mismatch g)
      then show ?thesis using that(1) g 1 by simp
    next
      case 2
      then have "s = 0 \<or> B \<le> s \<and> s \<le> vl_seq a"
        using j vl_linkedD(3) [OF 2] linked_mismatch(1,2) [OF 2]
        by (auto simp: junction_def vl_known_def genesis_mismatch less_Suc_eq_le dest: spec) (metis Suc_le_mono less_Suc_eq_le)+
      then show ?thesis using that vl_linkedD(5) [OF 2] 2 by blast
    qed
  qed
  then show ?thesis
  proof cases
    case 1
    then show ?thesis using bid(1) pos by metis
  next
    case 2
    show ?thesis
    proof (cases "vl_linked num par B h b")
      case True
      have s: "s = vl_seq b" if "vl_ancestor a s = vl_ancestor b (vl_seq b)"
        using vl_linkedD(6) [OF 2(1), of s] vl_linkedD(3) [OF True] vl_linkedD(6) [OF True, of "vl_seq b"] 2(2,3) that by simp
      show ?thesis using s linked_mismatch(3) [OF 2(1) True 2(3)] 2 by auto
    next
      case False
      then have "vl_seq b = 0" "vl_ancestor b (vl_seq b) = 0" using b g by (auto simp: vl_known_def)
      then show ?thesis using vl_linkedD(1) [OF 2(1)] vl_linkedD(6) [OF 2(1), of s] 2 by auto
    qed
  qed
qed

interpretation vl: ledger_history vl_ops "vl_known num par B h" for num par B h
proof unfold_locales
  fix a b c :: vledger
  show "vl_known num par B h (g_genesis vl_ops)" by (simp add: vl_known_def)
  show "g_seq vl_ops (g_genesis vl_ops) = 0" by (simp add: vl_genesis_def)
  have linked: "vl_mismatch x x = Suc (vl_seq x)" if "vl_linked num par B h x" for x
    using linked_mismatch(2,3) [OF that that] vl_linkedD(3) [OF that] by (simp add: le_antisym Suc_le_eq)
  show "g_mismatch vl_ops a a = Suc (g_seq vl_ops a)" if "vl_known num par B h a"
    using that linked by (auto simp: vl_known_def genesis_mismatch) (simp add: vl_genesis_def)
  show "g_mismatch vl_ops a b = g_mismatch vl_ops b a" if "vl_known num par B h a" "vl_known num par B h b"
    using mismatch_sym [OF that] by simp
  show "0 < g_mismatch vl_ops a b" by (simp add: vl_mismatch_def Let_def)
  show "g_mismatch vl_ops a b \<le> Suc (g_seq vl_ops a)" if "vl_known num par B h a" "vl_known num par B h b"
    using that linked_mismatch(2) [of num par B h a b] by (auto simp: vl_known_def genesis_mismatch)
  show "min (g_mismatch vl_ops a b) (g_mismatch vl_ops b c) \<le> g_mismatch vl_ops a c"
    if "vl_known num par B h a" "vl_known num par B h b" "vl_known num par B h c"
    using mismatch_ultra [OF that] by simp
  show "g_ancestor vl_ops a s = g_ancestor vl_ops b (g_seq vl_ops b) \<longleftrightarrow> s = g_seq vl_ops b \<and> s < g_mismatch vl_ops a b"
    if "vl_known num par B h a" "vl_known num par B h b" "junction vl_ops (vl_known num par B h) a s" for s
    using known_ids [OF that] by simp
qed

end
