(* ===== verification/Ledger_Trie_Properties.thy ===== *)
theory Ledger_Trie_Properties
  imports Rcl_Validated_Ledger
begin

text \<open>
  The properties of the ancestry trie as the server uses it: any sequence of additions and removals
  of support runs to its end and leaves the counters of a multiset of ledgers; the preferred ledger
  is the one the multiset determines.
\<close>

section \<open>Sequences of operations\<close>

datatype 'l trie_op = Trie_Insert 'l nat | Trie_Remove 'l nat

fun op_ledger :: "'l trie_op \<Rightarrow> 'l" where
  "op_ledger (Trie_Insert l c) = l"
| "op_ledger (Trie_Remove l c) = l"

fun op_count :: "'l trie_op \<Rightarrow> nat" where
  "op_count (Trie_Insert l c) = c"
| "op_count (Trie_Remove l c) = c"

fun trie_step :: "'l ledger_ops \<Rightarrow> 'l trie_op \<Rightarrow> 'l trie \<Rightarrow> 'l trie option" where
  "trie_step L (Trie_Insert l c) t = trie_insert L l c t"
| "trie_step L (Trie_Remove l c) t = map_option snd (trie_remove L (g_ancestor L l (g_seq L l)) (g_seq L l) c t)"

fun trie_run :: "'l ledger_ops \<Rightarrow> 'l trie_op list \<Rightarrow> 'l trie \<Rightarrow> 'l trie option" where
  "trie_run L [] t = Some t"
| "trie_run L (x # xs) t = do { t1 \<leftarrow> trie_step L x t; trie_run L xs t1 }"

text \<open>The same operations on the multiset of supported ledgers.\<close>

fun count_step :: "'l trie_op \<Rightarrow> 'l multiset \<Rightarrow> 'l multiset" where
  "count_step (Trie_Insert l c) M = M + replicate_mset c l"
| "count_step (Trie_Remove l c) M = M - replicate_mset c l"

definition supported :: "'l trie_op list \<Rightarrow> 'l multiset" where
  "supported xs = fold count_step xs {#}"

context ledger_history begin

lemma new_rep: "trie_rep L valid (trie_new L) {#}"
proof -
  have "tree_ok L valid (trie_new L)"
    using valid_genesis genesis_seq
    by (auto simp: tree_ok_def node_ok_def alive_def trie_new_def node_root_def node_from_span_def span_genesis_def junction_def)
  then show ?thesis
    by (auto simp: trie_rep_def trie_core_def counts_ok_def covered_by_def compact_ok_def seqs_ok_def alive_def
        trie_new_def node_root_def node_from_span_def)
qed

lemma filter_same:
  assumes inj: "\<And>x. x \<in># M \<Longrightarrow> same_ledger L l x \<longleftrightarrow> x = l"
  shows "filter_mset (same_ledger L l) M = replicate_mset (count M l) l"
proof -
  have "filter_mset (same_ledger L l) M = filter_mset (\<lambda>x. x = l) M" by (rule filter_mset_cong) (use inj in auto)
  then show ?thesis by (simp add: filter_eq_replicate_mset)
qed

lemma step_rep:
  assumes r: "trie_rep L valid t M" and l: "valid (op_ledger x)" "0 < op_count x"
    and inj: "\<And>y. y \<in># M \<Longrightarrow> same_ledger L (op_ledger x) y \<longleftrightarrow> y = op_ledger x"
  shows "\<exists>t'. trie_step L x t = Some t' \<and> trie_rep L valid t' (count_step x M)"
proof (cases x)
  case (Trie_Insert l c)
  then show ?thesis using insert_rep [OF r] l by simp
next
  case (Trie_Remove l c)
  let ?k = "min c (count M l)"
  have v: "valid l" "0 < c" using l Trie_Remove by simp_all
  have M: "M = (M - replicate_mset c l) + replicate_mset ?k l" by (rule multiset_eqI) (simp add: min_def)
  show ?thesis
  proof (cases "l \<in># M")
    case True
    have "?k = min c (size (filter_mset (same_ledger L l) M))"
      using filter_same [of M l] inj Trie_Remove by simp
    then have "?k = min c (size (filter_mset (same_ledger L l) ((M - replicate_mset c l) + replicate_mset ?k l)))"
      using M by simp
    moreover have "0 < ?k" using v(2) True by simp
    moreover have "trie_rep L valid t ((M - replicate_mset c l) + replicate_mset ?k l)" using r M by simp
    ultimately obtain t' where "trie_remove L (g_ancestor L l (g_seq L l)) (g_seq L l) c t = Some (True, t')"
        "trie_rep L valid t' (M - replicate_mset c l)" using remove_rep [OF _ v(1)] by blast
    then show ?thesis using Trie_Remove by simp
  next
    case False
    then have "trie_remove L (g_ancestor L l (g_seq L l)) (g_seq L l) c t = Some (False, t)"
      using remove_absent [OF r v(1), of c] inj Trie_Remove by auto
    moreover have "M - replicate_mset c l = M" using False by (simp add: diff_intersect_left_idem multiset_eq_iff not_in_iff)
    ultimately show ?thesis using r Trie_Remove by simp
  qed
qed

lemma run_rep:
  assumes "trie_rep L valid t M" "\<And>x. x \<in> set xs \<Longrightarrow> valid (op_ledger x) \<and> 0 < op_count x"
    and "\<And>x y. x \<in> S \<Longrightarrow> y \<in> S \<Longrightarrow> same_ledger L x y \<longleftrightarrow> y = x" "set_mset M \<subseteq> S" "op_ledger ` set xs \<subseteq> S"
  shows "\<exists>t'. trie_run L xs t = Some t' \<and> trie_rep L valid t' (fold count_step xs M) \<and> set_mset (fold count_step xs M) \<subseteq> S"
  using assms
proof (induction xs arbitrary: t M)
  case (Cons x xs)
  have "x \<in> set (x # xs)" by simp
  then have x: "valid (op_ledger x)" "0 < op_count x" "op_ledger x \<in> S" using Cons.prems(2,5) by auto
  have "same_ledger L (op_ledger x) y \<longleftrightarrow> y = op_ledger x" if "y \<in># M" for y
    using Cons.prems(3,4) x(3) that by blast
  from step_rep [OF Cons.prems(1) x(1,2) this] obtain t1 where t1: "trie_step L x t = Some t1" "trie_rep L valid t1 (count_step x M)"
    by blast
  have "set_mset (count_step x M) \<subseteq> S"
    using Cons.prems(4) x(3) by (cases x) (auto dest: in_diffD split: if_splits)
  from Cons.IH [OF t1(2) _ Cons.prems(3) this] show ?case using t1(1) Cons.prems(2,5) by simp
qed simp

end

text \<open>Ledgers of the same known history with the same identifier are the same ledger.\<close>

lemma same_known:
  assumes "vl_known num par B h l" "vl_known num par B h x"
  shows "same_ledger vl_ops l x \<longleftrightarrow> vl_id x = vl_id l"
proof -
  have "junction vl_ops (vl_known num par B h) l (vl_seq l)" by (simp add: junction_def)
  then have "vl_ancestor l (vl_seq l) = vl_ancestor x (vl_seq x) \<longleftrightarrow> vl_seq l = vl_seq x \<and> vl_seq l < vl_mismatch l x"
    using known_ids [OF assms] by blast
  then show ?thesis by (auto simp: same_ledger_def vl_ancestor_def)
qed

definition ops_ok :: "(nat \<Rightarrow> nat) \<Rightarrow> (nat \<Rightarrow> nat) \<Rightarrow> nat \<Rightarrow> nat \<Rightarrow> vledger trie_op list \<Rightarrow> bool" where
  "ops_ok num par B h xs \<longleftrightarrow> (\<forall>x \<in> set xs. vl_known num par B h (op_ledger x) \<and> 0 < op_count x)
     \<and> (\<forall>x \<in> set xs. \<forall>y \<in> set xs. vl_id (op_ledger x) = vl_id (op_ledger y) \<longrightarrow> op_ledger x = op_ledger y)"

lemma known_run:
  assumes "ops_ok num par B h xs"
  shows "\<exists>t. trie_run vl_ops xs (trie_new vl_ops) = Some t \<and> trie_rep vl_ops (vl_known num par B h) t (supported xs)
    \<and> set_mset (supported xs) \<subseteq> op_ledger ` set xs"
  unfolding supported_def
  by (rule vl.run_rep [OF vl.new_rep])
    (use assms in \<open>auto simp: ops_ok_def same_known [of num par B h]\<close>)

section \<open>The properties\<close>



text \<open>
  A ledger that more than half of the support is on or below is safe: the preferred ledger is one
  of its ancestors, itself or one of its descendants, never on another branch.
\<close>

theorem majority_is_preferred:
  assumes "ops_ok num par B h xs" and "trie_run vl_ops xs (trie_new vl_ops) = Some t" and "vl_known num par B h l"
    and "size (supported xs) < 2 * size (filter_mset (\<lambda>x. vl_seq l < vl_mismatch l x) (supported xs))"
  shows "\<exists>p. trie_get_preferred vl_ops largest_issued t = Some (Some p)
    \<and> min (tip_seq p) (vl_seq l) < vl_mismatch l (tip_ledger p)"
proof -
  have t: "trie_rep vl_ops (vl_known num par B h) t (supported xs)" using known_run [OF assms(1)] assms(2) by auto
  then have v: "\<forall>x \<in># supported xs. vl_known num par B h x" by (auto simp: trie_rep_def trie_core_def)
  have "supported xs \<noteq> {#}" using assms(4) by auto
  then obtain p where p: "trie_get_preferred vl_ops largest_issued t = Some (Some p)"
      "preferred_ok vl_ops (vl_known num par B h) (supported xs) largest_issued p"
    using vl.get_preferred_spec [OF t, of largest_issued] by (auto split: option.splits)
  then show ?thesis using vl.preferred_majority [OF p(2) v assms(3)] assms(4) by (simp add: support_def)
qed

section \<open>A history with a fork\<close>

text \<open>Ledger 105 has the children 106 and 206, these have the children 107 and 207.\<close>

definition ex_num :: "nat \<Rightarrow> nat" where "ex_num i = i mod 100"

definition ex_par :: "nat \<Rightarrow> nat" where "ex_par i = (if i = 206 then 105 else i - 1)"

definition ex_ledger :: "nat \<Rightarrow> vledger" where
  "ex_ledger i =
     (if i = 106 then \<lparr>vl_id = 106, vl_seq = 6, vl_ancestors = [104, 105]\<rparr>
      else if i = 107 then \<lparr>vl_id = 107, vl_seq = 7, vl_ancestors = [105, 106]\<rparr>
      else if i = 206 then \<lparr>vl_id = 206, vl_seq = 6, vl_ancestors = [104, 105]\<rparr>
      else if i = 207 then \<lparr>vl_id = 207, vl_seq = 7, vl_ancestors = [104, 105, 206]\<rparr>
      else \<lparr>vl_id = 105, vl_seq = 5, vl_ancestors = [103, 104]\<rparr>)"

definition ex_ops :: "vledger trie_op list" where
  "ex_ops = [Trie_Insert (ex_ledger 107) 2, Trie_Insert (ex_ledger 207) 1, Trie_Insert (ex_ledger 106) 3,
     Trie_Remove (ex_ledger 106) 1, Trie_Remove (ex_ledger 207) 5, Trie_Insert (ex_ledger 206) 1]"

lemma ex_ops_ok: "ops_ok ex_num ex_par 5 105 ex_ops"
  by code_simp

lemma ex_supported:
  "supported ex_ops = {#ex_ledger 107, ex_ledger 107, ex_ledger 106, ex_ledger 106, ex_ledger 206#}"
  by code_simp



theorem majority_is_preferred_witness:
  "\<exists>t p. trie_run vl_ops ex_ops (trie_new vl_ops) = Some t \<and> trie_get_preferred vl_ops 0 t = Some (Some p)
    \<and> min (tip_seq p) 6 < vl_mismatch (ex_ledger 106) (tip_ledger p)"
proof -
  obtain t where t: "trie_run vl_ops ex_ops (trie_new vl_ops) = Some t" using known_run [OF ex_ops_ok] by blast
  have k: "vl_known ex_num ex_par 5 105 (ex_ledger 106)" by code_simp
  have m: "size (supported ex_ops) < 2 * size (filter_mset (\<lambda>x. vl_seq (ex_ledger 106) < vl_mismatch (ex_ledger 106) x) (supported ex_ops))"
    unfolding ex_supported by code_simp
  have "vl_seq (ex_ledger 106) = 6" by (simp add: ex_ledger_def)
  then show ?thesis using majority_is_preferred [OF ex_ops_ok t k m, of 0] t by auto
qed

end
