(* ===== verification/Validations_Inv.thy ===== *)
theory Validations_Inv
  imports Validations Ledger_Trie_Properties
begin

text \<open>
  The invariant of the tracker of validations: the ancestry trie holds one vote per node, for the
  ledger recorded as the last one of the node, and every vote, every waiting node and every signer of
  a recovery target goes back to a validation of that node for that ledger that was accepted. All
  operations keep it and none panics.
\<close>

section \<open>Votes\<close>

lemma hm_remove_Cons: "hm_remove k ((k', v) # m) = (if k' = k then hm_remove k m else (k', v) # hm_remove k m)"
  by (simp add: hm_remove_def)

lemma hm_insert_Cons: "hm_insert k v ((k', v') # m) = (if k' = k then (k, v) # m else (k', v') # hm_insert k v m)"
  by (simp add: hm_insert_def)

lemma hm_remove_absent: "k \<notin> fst ` set m \<Longrightarrow> hm_remove k m = m"
  by (induction m) (auto simp: hm_remove_Cons hm_remove_def)

lemma values_remove:
  "hm_wf m \<Longrightarrow> map_of m k = Some v \<Longrightarrow> mset (map snd m) = add_mset v (mset (map snd (hm_remove k m)))"
  by (induction m) (auto simp: hm_remove_Cons hm_wf_def hm_remove_absent)

lemma values_insert:
  "hm_wf m \<Longrightarrow> mset (map snd (hm_insert k v m)) = add_mset v (mset (map snd (hm_remove k m)))"
proof (induction m)
  case (Cons x m)
  then show ?case by (cases x) (auto simp: hm_remove_Cons hm_insert_Cons hm_wf_def hm_remove_absent)
qed (simp add: hm_insert_def hm_remove_def)

lemma values_no_key: "map_of m k = None \<Longrightarrow> hm_remove k m = m"
  by (rule hm_remove_absent) (simp add: map_of_eq_None_iff)

definition votes :: "'l inner \<Rightarrow> 'l multiset" where
  "votes s = mset (map snd (i_last_ledger s))"

definition votes_ok :: "'l ledger_ops \<Rightarrow> ('l \<Rightarrow> bool) \<Rightarrow> 'l inner \<Rightarrow> bool" where
  "votes_ok L valid s \<longleftrightarrow> hm_wf (i_last_ledger s) \<and> trie_rep L valid (i_trie s) (votes s)"

text \<open>
  The state apart from the votes is described by what an operation leaves alone. \<open>only_votes\<close>: nothing
  but the votes changes.
\<close>

definition only_votes :: "'l inner \<Rightarrow> 'l inner \<Rightarrow> bool" where
  "only_votes s s' \<longleftrightarrow> s' = s\<lparr>i_last_ledger := i_last_ledger s', i_trie := i_trie s'\<rparr>"

lemma only_votesD:
  assumes "only_votes s s'"
  shows "i_current s' = i_current s" "i_local_enforcer s' = i_local_enforcer s" "i_enforcers s' = i_enforcers s"
    "i_by_ledger s' = i_by_ledger s" "i_by_sequence s' = i_by_sequence s" "i_acquiring s' = i_acquiring s"
    "i_anchor s' = i_anchor s" "i_candidate s' = i_candidate s"
proof -
  have e: "s' = s\<lparr>i_last_ledger := i_last_ledger s', i_trie := i_trie s'\<rparr>" using assms by (simp add: only_votes_def)
  show "i_current s' = i_current s" "i_local_enforcer s' = i_local_enforcer s" "i_enforcers s' = i_enforcers s"
    "i_by_ledger s' = i_by_ledger s" "i_by_sequence s' = i_by_sequence s" "i_acquiring s' = i_acquiring s"
    "i_anchor s' = i_anchor s" "i_candidate s' = i_candidate s"
    by (subst e, simp)+
qed

context ledger_history begin

lemma single_remove:
  assumes r: "trie_rep L valid t (add_mset l M)" and l: "valid l"
  shows "\<exists>t'. trie_remove L (ledger_ident L l) (g_seq L l) 1 t = Some (True, t') \<and> trie_rep L valid t' M"
proof -
  have "same_ledger L l l" using mm_refl [OF l] by (simp add: same_ledger_def)
  then have "1 = min 1 (size (filter_mset (same_ledger L l) (M + replicate_mset 1 l)))" by (simp add: min_def)
  then show ?thesis using remove_rep [of t M 1 l 1] r l by (simp add: ledger_ident_def)
qed

lemma vote_valid: "votes_ok L valid s \<Longrightarrow> map_of (i_last_ledger s) n = Some l \<Longrightarrow> valid l"
  by (auto simp: votes_ok_def trie_rep_def trie_core_def votes_def dest!: map_of_SomeD)

lemma drop_vote:
  assumes v: "votes_ok L valid s" and n: "map_of (i_last_ledger s) n = Some l"
  shows "\<exists>t. trie_remove L (ledger_ident L l) (g_seq L l) 1 (i_trie s) = Some (True, t)
    \<and> trie_rep L valid t (mset (map snd (hm_remove n (i_last_ledger s))))"
  using single_remove [OF _ vote_valid [OF v n]] v values_remove [OF _ n] by (simp add: votes_ok_def votes_def)

lemma update_trie_ledger_ok:
  assumes v: "votes_ok L valid s" and l: "valid l"
  shows "\<exists>s'. update_trie_ledger L n l s = Some s' \<and> votes_ok L valid s' \<and> only_votes s s'
    \<and> map_of (i_last_ledger s') = (map_of (i_last_ledger s))(n \<mapsto> l)"
proof -
  let ?M = "mset (map snd (hm_remove n (i_last_ledger s)))"
  have w: "hm_wf (i_last_ledger s)" using v by (simp add: votes_ok_def)
  obtain t1 where t1: "(case map_of (i_last_ledger s) n of
        Some prior \<Rightarrow> map_option snd (trie_remove L (ledger_ident L prior) (g_seq L prior) 1 (i_trie s))
      | None \<Rightarrow> Some (i_trie s)) = Some t1" "trie_rep L valid t1 ?M"
  proof (cases "map_of (i_last_ledger s) n")
    case None
    then show ?thesis using that [of "i_trie s"] v values_no_key [OF None] by (simp add: votes_ok_def votes_def)
  next
    case (Some l')
    then show ?thesis using that drop_vote [OF v Some] by auto
  qed
  obtain t2 where t2: "trie_insert L l 1 t1 = Some t2" "trie_rep L valid t2 (?M + replicate_mset 1 l)"
    using insert_rep [OF t1(2) l, of 1] by auto
  have "update_trie_ledger L n l s = Some (s\<lparr>i_last_ledger := hm_insert n l (i_last_ledger s), i_trie := t2\<rparr>)"
    using t1(1) t2(1) by (simp add: update_trie_ledger_def)
  moreover have "trie_rep L valid t2 (mset (map snd (hm_insert n l (i_last_ledger s))))"
    using t2(2) values_insert [OF w] by simp
  ultimately show ?thesis using w by (simp add: votes_ok_def votes_def only_votes_def map_of_hm_insert)
qed

end

section \<open>Backing\<close>

text \<open>
  \<open>H\<close> is the set of pairs of a node and the sequence number and identifier of a ledger for which a
  validation of the node was accepted.
\<close>

definition waiting_ok :: "(nat \<times> nat \<times> nat) set \<Rightarrow> (nat \<times> nat, hset) btree \<Rightarrow> bool" where
  "waiting_ok H m \<longleftrightarrow> btree_wf m \<and> (\<forall>key w. map_of m key = Some w \<longrightarrow> w \<noteq> [] \<and> distinct w \<and> (\<forall>n \<in> set w. (n, key) \<in> H))"

definition proof_ok :: "(nat \<times> nat \<times> nat) set \<Rightarrow> recovery_proof option \<Rightarrow> bool" where
  "proof_ok H r \<longleftrightarrow> (\<forall>q. r = Some q \<longrightarrow> (\<forall>n \<in> set (rp_nodes q). (n, rp_key q) \<in> H))"

definition current_ok :: "(nat \<times> nat \<times> nat) set \<Rightarrow> (nat, validation) hashm \<Rightarrow> bool" where
  "current_ok H m \<longleftrightarrow> hm_wf m \<and> (\<forall>n v. map_of m n = Some v \<longrightarrow> (n, v_id v) \<in> H)"

definition last_ok :: "'l ledger_ops \<Rightarrow> (nat \<times> nat \<times> nat) set \<Rightarrow> (nat, 'l) hashm \<Rightarrow> bool" where
  "last_ok L H m \<longleftrightarrow> (\<forall>n l. map_of m n = Some l \<longrightarrow> (\<exists>sq. (n, sq, ledger_ident L l) \<in> H))"

definition tracker_ok :: "'l ledger_ops \<Rightarrow> ('l \<Rightarrow> bool) \<Rightarrow> (nat \<times> nat \<times> nat) set \<Rightarrow> 'l inner \<Rightarrow> bool" where
  "tracker_ok L valid H s \<longleftrightarrow> votes_ok L valid s \<and> waiting_ok H (i_acquiring s) \<and> current_ok H (i_current s)
     \<and> last_ok L H (i_last_ledger s) \<and> proof_ok H (i_anchor s) \<and> proof_ok H (i_candidate s)"

lemma tracker_okD:
  assumes "tracker_ok L valid H s"
  shows "votes_ok L valid s" "waiting_ok H (i_acquiring s)" "current_ok H (i_current s)" "last_ok L H (i_last_ledger s)"
    "proof_ok H (i_anchor s)" "proof_ok H (i_candidate s)"
  using assms by (auto simp: tracker_ok_def)

lemma tracker_ok_mono: "tracker_ok L valid H s \<Longrightarrow> H \<subseteq> H' \<Longrightarrow> tracker_ok L valid H' s"
  unfolding tracker_ok_def waiting_ok_def current_ok_def last_ok_def proof_ok_def by blast

lemma tracker_ok_frame:
  assumes "tracker_ok L valid H s" "i_last_ledger s' = i_last_ledger s" "i_trie s' = i_trie s" "i_acquiring s' = i_acquiring s"
    "i_current s' = i_current s" "i_anchor s' = i_anchor s" "i_candidate s' = i_candidate s"
  shows "tracker_ok L valid H s'"
  using assms by (simp add: tracker_ok_def votes_ok_def votes_def)

lemma hs_insert_set [simp]: "set (hs_insert x s) = insert x (set s)" "distinct s \<Longrightarrow> distinct (hs_insert x s)"
    "hs_insert x s \<noteq> []"
  by (auto simp: hs_insert_def List.insert_def)

lemma hs_remove_set [simp]: "set (hs_remove x s) = set s - {x}" "distinct s \<Longrightarrow> distinct (hs_remove x s)"
  by (auto simp: hs_remove_def)

lemma hs_extend_set [simp]: "set (hs_extend s t) = set s \<union> set t"
  unfolding hs_extend_def by (induction t arbitrary: s) auto

lemma waiting_insert:
  "waiting_ok H m \<Longrightarrow> w \<noteq> [] \<Longrightarrow> distinct w \<Longrightarrow> \<forall>n \<in> set w. (n, key) \<in> H \<Longrightarrow> waiting_ok H (btree_insert key w m)"
  by (auto simp: waiting_ok_def map_of_btree_insert btree_wf_insert)

lemma waiting_remove: "waiting_ok H m \<Longrightarrow> waiting_ok H (btree_remove key m)"
  by (auto simp: waiting_ok_def map_of_btree_remove btree_wf_remove split: if_splits)

lemma waitingD: "waiting_ok H m \<Longrightarrow> map_of m key = Some w \<Longrightarrow> w \<noteq> [] \<and> distinct w \<and> (\<forall>n \<in> set w. (n, key) \<in> H)"
  unfolding waiting_ok_def by blast

lemma current_insert: "current_ok H m \<Longrightarrow> (n, v_id v) \<in> H \<Longrightarrow> current_ok H (hm_insert n v m)"
  by (auto simp: current_ok_def map_of_hm_insert)

lemma current_remove: "current_ok H m \<Longrightarrow> current_ok H (hm_remove n m)"
  by (auto simp: current_ok_def map_of_hm_remove split: if_splits)

text \<open>The operations that touch only waiting nodes and recovery targets.\<close>

lemma drop_waiter_ok: "tracker_ok L valid H s \<Longrightarrow> tracker_ok L valid H (drop_waiter n key s)"
proof (cases "map_of (i_acquiring s) key")
  case (Some w)
  assume t: "tracker_ok L valid H s"
  note w = waitingD [OF tracker_okD(2) [OF t] Some]
  have "waiting_ok H (i_acquiring (drop_waiter n key s))"
    using Some w tracker_okD(2) [OF t] by (auto simp: drop_waiter_def Let_def intro!: waiting_remove waiting_insert)
  then show ?thesis using t Some by (simp add: tracker_ok_def drop_waiter_def Let_def votes_ok_def votes_def)
qed (simp add: drop_waiter_def)

lemma prune_ok: "tracker_ok L valid H s \<Longrightarrow> tracker_ok L valid H (prune_validation_recovery_signer key n s)"
  by (auto simp: tracker_ok_def prune_validation_recovery_signer_def proof_ok_def proof_is_def votes_ok_def votes_def
      split: option.splits)

lemma observe_ok:
  "tracker_ok L valid H s \<Longrightarrow> proof_ok H r \<Longrightarrow> tracker_ok L valid H (observe_validation_recovery r s)"
  by (auto simp: tracker_ok_def observe_validation_recovery_def proof_ok_def votes_ok_def votes_def split: option.splits)

lemma take_nodes_ok:
  assumes "tracker_ok L valid H s" "take_validation_recovery_nodes key s = (ns, s')"
  shows "tracker_ok L valid H s'" "\<forall>n \<in> set ns. (n, key) \<in> H"
  using assms by (auto simp: tracker_ok_def take_validation_recovery_nodes_def proof_ok_def proof_is_def votes_ok_def votes_def
      split: option.splits if_splits)

definition proofs_ok :: "(nat \<times> nat \<times> nat) set \<Rightarrow> recovery_proof list \<Rightarrow> bool" where
  "proofs_ok H ps \<longleftrightarrow> (\<forall>q \<in> set ps. \<forall>n \<in> set (rp_nodes q). (n, rp_key q) \<in> H)"

lemma take_exact_ok:
  assumes "proofs_ok H ps"
  shows "proof_ok H (fst (take_exact key ps))" "proofs_ok H (snd (take_exact key ps))"
proof -
  have "set (last b # butlast b) = set b" if "b \<noteq> []" for b :: "recovery_proof list"
    using append_butlast_last_id [OF that] by (metis list.set(2) rotate1.simps(2) set_append set_rotate1 sup_commute)
  then show "proof_ok H (fst (take_exact key ps))" "proofs_ok H (snd (take_exact key ps))"
    using assms by (auto simp: take_exact_def proof_ok_def proofs_ok_def extract_Some_iff split: option.splits if_splits)
qed

lemma reconcile_ok:
  assumes t: "tracker_ok L valid H s"
  shows "tracker_ok L valid H (reconcile_validation_recovery_latch a c s)"
proof -
  let ?ps = "(case i_anchor s of None \<Rightarrow> [] | Some r \<Rightarrow> [r]) @ (case i_candidate s of None \<Rightarrow> [] | Some r \<Rightarrow> [r])"
  let ?one = "case a of None \<Rightarrow> (None, ?ps) | Some k \<Rightarrow> take_exact k ?ps"
  let ?two = "case if c = a then None else c of None \<Rightarrow> (None, snd ?one) | Some k \<Rightarrow> take_exact k (snd ?one)"
  have "proofs_ok H ?ps" using tracker_okD(5,6) [OF t] by (auto simp: proofs_ok_def proof_ok_def split: option.splits)
  then have one: "proof_ok H (fst ?one)" "proofs_ok H (snd ?one)"
    using take_exact_ok by (auto simp: proof_ok_def split: option.split)
  have two: "proof_ok H (fst ?two)" using take_exact_ok(1) [OF one(2)] by (auto simp: proof_ok_def split: option.split)
  have "reconcile_validation_recovery_latch a c s = s\<lparr>i_anchor := fst ?one, i_candidate := fst ?two\<rparr>"
    by (simp add: reconcile_validation_recovery_latch_def Let_def case_prod_beta)
  then show ?thesis using t one(1) two by (simp add: tracker_ok_def votes_ok_def votes_def)
qed

section \<open>The operations keep it\<close>

text \<open>What the votes and the waiting nodes have nothing to do with.\<close>

definition keeps :: "'l inner \<Rightarrow> 'l inner \<Rightarrow> bool" where
  "keeps s s' \<longleftrightarrow> i_local_enforcer s' = i_local_enforcer s \<and> i_enforcers s' = i_enforcers s
     \<and> i_by_ledger s' = i_by_ledger s \<and> i_by_sequence s' = i_by_sequence s"

lemma keeps_refl [simp]: "keeps s s"
  by (simp add: keeps_def)

lemma keeps_trans: "keeps s s' \<Longrightarrow> keeps s' s'' \<Longrightarrow> keeps s s''"
  by (simp add: keeps_def)

lemma keeps_votes: "only_votes s s' \<Longrightarrow> keeps s s'"
  using only_votesD [of s s'] by (simp add: keeps_def)

definition env_ok :: "'l ledger_ops \<Rightarrow> ('l \<Rightarrow> bool) \<Rightarrow> 'l val_env \<Rightarrow> bool" where
  "env_ok L valid E \<longleftrightarrow> (\<forall>i l. ve_acquire E i = Some l \<longrightarrow> valid l \<and> ledger_ident L l = i)"

text \<open>A result that keeps the tracker well-formed.\<close>

definition good :: "'l ledger_ops \<Rightarrow> ('l \<Rightarrow> bool) \<Rightarrow> (nat \<times> nat \<times> nat) set \<Rightarrow> 'l inner \<Rightarrow> 'l inner option \<Rightarrow> bool" where
  "good L valid H s r \<longleftrightarrow> (\<exists>s'. r = Some s' \<and> tracker_ok L valid H s' \<and> keeps s s' \<and> i_current s' = i_current s)"

lemma goodI: "tracker_ok L valid H s' \<Longrightarrow> keeps s s' \<Longrightarrow> i_current s' = i_current s \<Longrightarrow> good L valid H s (Some s')"
  by (auto simp: good_def)

lemma good_bind:
  assumes "good L valid H s r" "\<And>s'. tracker_ok L valid H s' \<Longrightarrow> keeps s s' \<Longrightarrow> i_current s' = i_current s \<Longrightarrow> good L valid H s' (f s')"
  shows "good L valid H s (r \<bind> f)"
  using assms keeps_trans unfolding good_def by fastforce

context ledger_history begin

lemma update_good:
  assumes t: "tracker_ok L valid H s" and l: "valid l" "(n, sq, ledger_ident L l) \<in> H"
  shows "good L valid H s (update_trie_ledger L n l s)"
proof -
  obtain s' where s': "update_trie_ledger L n l s = Some s'" "votes_ok L valid s'" "only_votes s s'"
      "map_of (i_last_ledger s') = (map_of (i_last_ledger s))(n \<mapsto> l)"
    using update_trie_ledger_ok [OF tracker_okD(1) [OF t] l(1)] by blast
  have "last_ok L H (i_last_ledger s')" using tracker_okD(4) [OF t] l(2) s'(4) by (auto simp: last_ok_def)
  then have "tracker_ok L valid H s'" using t s'(2) only_votesD [OF s'(3)] by (simp add: tracker_ok_def)
  then show ?thesis using s'(1) keeps_votes [OF s'(3)] only_votesD(1) [OF s'(3)] by (simp add: good_def)
qed

lemma drop_vote_good:
  assumes t: "tracker_ok L valid H s" and n: "map_of (i_last_ledger s) n = Some l"
  shows "good L valid H s (do {
      (_, t) \<leftarrow> trie_remove L (ledger_ident L l) (g_seq L l) 1 (i_trie s);
      Some (s\<lparr>i_last_ledger := hm_remove n (i_last_ledger s), i_trie := t\<rparr>) })"
proof -
  obtain u where u: "trie_remove L (ledger_ident L l) (g_seq L l) 1 (i_trie s) = Some (True, u)"
      "trie_rep L valid u (mset (map snd (hm_remove n (i_last_ledger s))))"
    using drop_vote [OF tracker_okD(1) [OF t] n] by blast
  have "tracker_ok L valid H (s\<lparr>i_last_ledger := hm_remove n (i_last_ledger s), i_trie := u\<rparr>)"
    using t u(2) by (auto simp: tracker_ok_def votes_ok_def votes_def last_ok_def map_of_hm_remove split: if_splits)
  then show ?thesis using u(1) by (simp add: good_def keeps_def)
qed

lemma remove_trie_good:
  assumes t: "tracker_ok L valid H s"
  shows "good L valid H s (remove_trie L n v s)"
proof -
  let ?s = "drop_waiter n (v_id v) (prune_validation_recovery_signer (v_id v) n s)"
  have k: "tracker_ok L valid H ?s" using drop_waiter_ok prune_ok t by blast
  have f: "keeps s ?s" "i_current ?s = i_current s"
    by (auto simp: keeps_def drop_waiter_def prune_validation_recovery_signer_def Let_def split: option.splits)
  have "good L valid H ?s (remove_trie L n v s)"
  proof (cases "map_of (i_last_ledger ?s) n")
    case (Some l)
    show ?thesis
      using drop_vote_good [OF k Some] goodI [OF k keeps_refl refl] Some
      by (cases "ledger_ident L l = v_ledger_id v") (simp_all add: remove_trie_def Let_def)
  qed (simp add: remove_trie_def Let_def goodI [OF k])
  then show ?thesis using f keeps_trans by (fastforce simp: good_def)
qed

lemma update_nodes_good:
  "tracker_ok L valid H s \<Longrightarrow> valid l \<Longrightarrow> \<forall>n \<in> set ns. (n, sq, ledger_ident L l) \<in> H \<Longrightarrow> good L valid H s (update_nodes L l ns s)"
proof (induction ns arbitrary: s)
  case Nil
  then show ?case by (simp add: goodI)
next
  case (Cons n ns)
  show ?case unfolding update_nodes.simps
    by (rule good_bind [OF update_good [OF Cons.prems(1,2)]]) (use Cons in auto)
qed

lemma check_pending_good:
  "tracker_ok L valid H s \<Longrightarrow> env_ok L valid E \<Longrightarrow> good L valid H s (check_pending L E keys s)"
proof (induction keys arbitrary: s)
  case Nil
  then show ?case by (simp add: goodI)
next
  case (Cons key keys)
  show ?case
  proof (cases "ve_acquire E (snd key)")
    case (Some l)
    have l: "valid l" "ledger_ident L l = snd key" using Cons.prems(2) Some by (auto simp: env_ok_def)
    have w: "\<forall>n \<in> set (case map_of (i_acquiring s) key of None \<Rightarrow> [] | Some w \<Rightarrow> w). (n, fst key, ledger_ident L l) \<in> H"
      using waitingD [OF tracker_okD(2) [OF Cons.prems(1)], of key] l(2) by (cases "map_of (i_acquiring s) key") auto
    have "good L valid H s' (check_pending L E keys (s'\<lparr>i_acquiring := btree_remove key (i_acquiring s')\<rparr>))"
      if t: "tracker_ok L valid H s'" for s'
    proof -
      let ?s = "s'\<lparr>i_acquiring := btree_remove key (i_acquiring s')\<rparr>"
      have "tracker_ok L valid H ?s" using t by (simp add: tracker_ok_def votes_ok_def votes_def waiting_remove)
      then have "good L valid H ?s (check_pending L E keys ?s)" using Cons.IH Cons.prems(2) by blast
      then show ?thesis by (simp add: good_def keeps_def)
    qed
    then show ?thesis using good_bind [OF update_nodes_good [OF Cons.prems(1) l(1) w]] Some by simp
  qed (use Cons in simp)
qed

lemma check_acquired_good: "tracker_ok L valid H s \<Longrightarrow> env_ok L valid E \<Longrightarrow> good L valid H s (check_acquired L E s)"
  unfolding check_acquired_def by (rule check_pending_good)

lemma resolve_good:
  assumes t: "tracker_ok L valid H s" and e: "env_ok L valid E" and v: "(n, v_id v) \<in> H"
  shows "good L valid H s (resolve_vote L E n v s)"
proof -
  have ins: "good L valid H s (Some (s\<lparr>i_acquiring := btree_insert (v_id v) w (i_acquiring s)\<rparr>))"
    if "w \<noteq> []" "distinct w" "\<forall>n \<in> set w. (n, v_id v) \<in> H" for w
    using t waiting_insert [OF tracker_okD(2) [OF t] that]
    by (intro goodI) (simp_all add: tracker_ok_def votes_ok_def votes_def keeps_def)
  show ?thesis
  proof (cases "map_of (i_acquiring s) (v_id v)")
    case None
    then show ?thesis
      using update_good [OF t] e v ins [of "[n]"] by (auto simp: resolve_vote_def env_ok_def v_id_def split: option.split)
  next
    case (Some w)
    then show ?thesis using ins [of "hs_insert n w"] waitingD [OF tracker_okD(2) [OF t] Some] v by (auto simp: resolve_vote_def)
  qed
qed

lemma update_validation_good:
  assumes t: "tracker_ok L valid H s" and e: "env_ok L valid E" and v: "(n, v_id v) \<in> H"
  shows "good L valid H s (update_trie_validation L E n v prior s)"
proof -
  let ?s = "case prior of None \<Rightarrow> s | Some key \<Rightarrow> drop_waiter n key s"
  have k: "tracker_ok L valid H ?s" using t drop_waiter_ok by (auto split: option.split)
  have f: "keeps s ?s" "i_current ?s = i_current s" by (auto simp: keeps_def drop_waiter_def Let_def split: option.split)
  have "good L valid H ?s (update_trie_validation L E n v prior s)"
    unfolding update_trie_validation_def Let_def
    by (rule good_bind [OF check_acquired_good [OF k e]]) (use resolve_good [OF _ e v] in blast)
  then show ?thesis using f keeps_trans by (fastforce simp: good_def)
qed

end

section \<open>Public operations\<close>

definition sound :: "'l ledger_ops \<Rightarrow> ('l \<Rightarrow> bool) \<Rightarrow> (nat \<times> nat \<times> nat) set \<Rightarrow> 'l inner \<Rightarrow> 'l inner option \<Rightarrow> bool" where
  "sound L valid H s r \<longleftrightarrow> (\<exists>s'. r = Some s' \<and> tracker_ok L valid H s' \<and> keeps s s')"

lemma good_sound: "good L valid H s r \<Longrightarrow> sound L valid H s r"
  by (auto simp: good_def sound_def)

lemma soundI: "tracker_ok L valid H s' \<Longrightarrow> keeps s s' \<Longrightarrow> sound L valid H s (Some s')"
  by (auto simp: sound_def)

lemma sound_bind:
  assumes "sound L valid H s r" "\<And>s'. tracker_ok L valid H s' \<Longrightarrow> keeps s s' \<Longrightarrow> sound L valid H s' (f s')"
  shows "sound L valid H s (r \<bind> f)"
  using assms keeps_trans unfolding sound_def by fastforce

lemma soundE:
  assumes "sound L valid H s r"
  obtains s' where "r = Some s'" "tracker_ok L valid H s'" "keeps s s'"
  using assms by (auto simp: sound_def)

lemma filter_hm_remove: "filter P (hm_remove n m) = hm_remove n (filter P m)"
  by (induction m) (auto simp: hm_remove_Cons hm_remove_def)

lemma hm_remove_filter: "hm_remove n m = filter (\<lambda>e. fst e \<noteq> n) m"
  by (induction m) (auto simp: hm_remove_Cons hm_remove_def)

context ledger_history begin

lemma stale_keys:
  assumes "distinct (map fst m)" "e \<in> set m"
  shows "fst e \<notin> fst ` set (filter (\<lambda>x. \<not> P x) m) \<longleftrightarrow> P e"
proof -
  have "x = e" if "x \<in> set m" "fst x = fst e" for x
    using assms that by (auto simp: distinct_map inj_on_def)
  then show ?thesis using assms(2) by force
qed

lemma evict_sound:
  "tracker_ok L valid H s \<Longrightarrow> \<exists>s'. evict L ns s = Some s' \<and> tracker_ok L valid H s' \<and> keeps s s'
    \<and> i_current s' = filter (\<lambda>e. fst e \<notin> set ns) (i_current s)"
proof (induction ns arbitrary: s)
  case Nil
  then show ?case by simp
next
  case (Cons n ns)
  have "good L valid H s (case map_of (i_current s) n of Some v \<Rightarrow> remove_trie L n v s | None \<Rightarrow> Some s)"
    using remove_trie_good [OF Cons.prems] goodI [OF Cons.prems] by (auto split: option.split)
  then obtain s1 where s1: "(case map_of (i_current s) n of Some v \<Rightarrow> remove_trie L n v s | None \<Rightarrow> Some s) = Some s1"
      "tracker_ok L valid H s1" "keeps s s1" "i_current s1 = i_current s"
    by (auto simp: good_def)
  let ?s = "s1\<lparr>i_current := hm_remove n (i_current s1)\<rparr>"
  have "tracker_ok L valid H ?s" using s1(2) by (simp add: tracker_ok_def votes_ok_def votes_def current_remove)
  then obtain s2 where s2: "evict L ns ?s = Some s2" "tracker_ok L valid H s2" "keeps ?s s2"
      "i_current s2 = filter (\<lambda>e. fst e \<notin> set ns) (i_current ?s)"
    using Cons.IH by blast
  have "i_current s2 = filter (\<lambda>e. fst e \<notin> set (n # ns)) (i_current s)"
    using s2(4) s1(4) by (auto simp: hm_remove_filter intro: filter_cong)
  moreover have "keeps s s2" using s1(3) s2(3) by (simp add: keeps_def)
  ultimately show ?case using s1(1) s2(1,2) by simp
qed

lemma current_live_sound:
  assumes t: "tracker_ok L valid H s"
  shows "\<exists>s'. current_live L p E s = Some s' \<and> tracker_ok L valid H s' \<and> keeps s s'
    \<and> i_current s' = filter (\<lambda>(n, v). is_current p (ve_now E) (v_sign_time v) (v_seen_time v)) (i_current s)"
proof -
  let ?c = "\<lambda>(n, v). is_current p (ve_now E) (v_sign_time v) (v_seen_time v)"
  let ?ns = "map fst (filter (\<lambda>e. \<not> ?c e) (i_current s))"
  have w: "distinct (map fst (i_current s))" using tracker_okD(3) [OF t] by (simp add: current_ok_def hm_wf_def)
  have "filter (\<lambda>e. fst e \<notin> set ?ns) (i_current s) = filter ?c (i_current s)"
    using stale_keys [OF w, of _ ?c] by (intro filter_cong) auto
  moreover have "current_live L p E s = evict L ?ns s"
    unfolding current_live_def by (auto intro!: arg_cong [of _ _ "\<lambda>xs. evict L (map fst xs) s"] filter_cong)
  ultimately show ?thesis using evict_sound [OF t, of ?ns] by simp
qed

lemma current_live_sound1: "tracker_ok L valid H s \<Longrightarrow> sound L valid H s (current_live L p E s)"
  using current_live_sound [of H s p E] unfolding sound_def by blast

lemma with_trie_sound: "tracker_ok L valid H s \<Longrightarrow> env_ok L valid E \<Longrightarrow> sound L valid H s (with_trie L p E s)"
  unfolding with_trie_def
  by (rule sound_bind [OF current_live_sound1]) (auto intro: good_sound check_acquired_good)

lemma acquired_votes_sound:
  "tracker_ok L valid H s \<Longrightarrow> valid l \<Longrightarrow> \<forall>n \<in> set ns. (n, g_seq L l, ledger_ident L l) \<in> H
    \<Longrightarrow> sound L valid H s (acquired_votes L l rec ns s)"
proof (induction ns arbitrary: s)
  case (Cons n ns)
  have "good L valid H s (if acquired_vote_ok L rec (g_seq L l) n s then update_trie_ledger L n l s else Some s)"
    using update_good [OF Cons.prems(1,2)] goodI [OF Cons.prems(1)] Cons.prems(3) by auto
  then show ?case unfolding acquired_votes.simps by (rule sound_bind [OF good_sound]) (use Cons in auto)
qed (simp add: soundI)

lemma on_ledger_acquired_sound:
  assumes t: "tracker_ok L valid H s" and l: "valid l"
  shows "sound L valid H s (on_ledger_acquired L p E l s)"
  unfolding on_ledger_acquired_def
proof (rule sound_bind [OF current_live_sound1 [OF t]])
  fix s1 assume s1: "tracker_ok L valid H s1"
  let ?key = "(g_seq L l, ledger_ident L l)"
  let ?w = "case map_of (i_acquiring s1) ?key of None \<Rightarrow> [] | Some w \<Rightarrow> w"
  let ?s2 = "s1\<lparr>i_acquiring := btree_remove ?key (i_acquiring s1)\<rparr>"
  obtain ns s3 where s3: "take_validation_recovery_nodes ?key ?s2 = (ns, s3)" by fastforce
  have t2: "tracker_ok L valid H ?s2" using s1 by (simp add: tracker_ok_def votes_ok_def votes_def waiting_remove)
  have w: "\<forall>n \<in> set ?w. (n, ?key) \<in> H"
    using waitingD [OF tracker_okD(2) [OF s1], of ?key] by (cases "map_of (i_acquiring s1) ?key") auto
  have "keeps s1 s3" using s3 by (auto simp: keeps_def take_validation_recovery_nodes_def split: if_splits)
  moreover have "sound L valid H s3 (acquired_votes L l ns (hs_extend ?w ns) s3)"
    by (rule acquired_votes_sound [OF take_nodes_ok(1) [OF t2 s3] l]) (use w take_nodes_ok(2) [OF t2 s3] in auto)
  ultimately have "sound L valid H s1 (acquired_votes L l ns (hs_extend ?w ns) s3)"
    using keeps_trans unfolding sound_def by blast
  then show "sound L valid H s1 (let key = ?key; waiters = case map_of (i_acquiring s1) key of None \<Rightarrow> [] | Some w \<Rightarrow> w;
      s2 = s1\<lparr>i_acquiring := btree_remove key (i_acquiring s1)\<rparr>; (recovery_nodes, s3) = take_validation_recovery_nodes key s2
    in acquired_votes L l recovery_nodes (hs_extend waiters recovery_nodes) s3)"
    using s3 by (simp add: Let_def)
qed

lemma retract_votes_sound:
  "tracker_ok L valid H s \<Longrightarrow> env_ok L valid E \<Longrightarrow> sound L valid H s (retract_votes L E ns s)"
proof (induction ns arbitrary: s)
  case (Cons n ns)
  show ?case unfolding retract_votes.simps
  proof (rule sound_bind [OF good_sound], goal_cases)
    case 1
    then show ?case
    proof (cases "map_of (i_last_ledger s) n")
      case (Some l)
      then show ?thesis using drop_vote_good [OF Cons.prems(1) Some] by simp
    qed (simp add: goodI Cons.prems)
  next
    case (2 s1)
    show ?case
    proof (rule sound_bind [OF good_sound], goal_cases)
      case 1
      then show ?case
        using resolve_good [OF 2(1) Cons.prems(2)] goodI [OF 2(1)] tracker_okD(3) [OF 2(1)]
        by (auto simp: current_ok_def split: option.split)
    next
      case (2 s2)
      then show ?case using Cons.IH Cons.prems(2) by blast
    qed
  qed
qed (simp add: soundI)

lemma on_ledger_unacquired_sound:
  assumes "tracker_ok L valid H s" "env_ok L valid E"
  shows "sound L valid H s (map_option snd (on_ledger_unacquired L p E i s))"
proof -
  obtain s1 where s1: "current_live L p E s = Some s1" "tracker_ok L valid H s1" "keeps s s1"
    using current_live_sound1 [OF assms(1)] by (rule soundE)
  obtain s2 where s2: "retract_votes L E (map fst (filter (\<lambda>(n, l). ledger_ident L l = i) (i_last_ledger s1))) s1 = Some s2"
      "tracker_ok L valid H s2" "keeps s1 s2"
    using retract_votes_sound [OF s1(2) assms(2)] by (rule soundE)
  then show ?thesis using s1 keeps_trans [OF s1(3) s2(3)] by (simp add: on_ledger_unacquired_def Let_def soundI)
qed

lemma change_trust_sound:
  "tracker_ok L valid H s \<Longrightarrow> env_ok L valid E \<Longrightarrow> set ns \<subseteq> fst ` set (i_current s)
    \<Longrightarrow> sound L valid H s (change_trust L E added removed ns s)"
proof (induction ns arbitrary: s)
  case (Cons n ns)
  obtain v where v: "map_of (i_current s) n = Some v" using Cons.prems(3) by (auto dest: weak_map_of_SomeI)
  have H: "(n, v_id v) \<in> H" using tracker_okD(3) [OF Cons.prems(1)] v by (simp add: current_ok_def)
  have k: "tracker_ok L valid H (s\<lparr>i_current := hm_insert n (v\<lparr>v_trusted := b\<rparr>) (i_current s)\<rparr>)" for b
    using Cons.prems(1) H by (simp add: tracker_ok_def votes_ok_def votes_def current_insert v_id_def)
  have dom: "fst ` set (hm_insert n w (i_current s)) = fst ` set (i_current s)" for w
  proof -
    have "n \<in> fst ` set (i_current s)" using v by (force dest: map_of_SomeD)
    then show ?thesis
      using dom_map_of_conv_image_fst [of "hm_insert n w (i_current s)"] dom_map_of_conv_image_fst [of "i_current s"]
      by (simp add: map_of_hm_insert insert_absorb)
  qed
  have st: "\<exists>s1. (if n \<in> set added then do {
        v \<leftarrow> map_of (i_current s) n;
        let v1 = v\<lparr>v_trusted := True\<rparr>;
        update_trie_validation L E n v1 None (s\<lparr>i_current := hm_insert n v1 (i_current s)\<rparr>) }
      else if n \<in> set removed then do {
        v \<leftarrow> map_of (i_current s) n;
        let v1 = v\<lparr>v_trusted := False\<rparr>;
        remove_trie L n v1 (s\<lparr>i_current := hm_insert n v1 (i_current s)\<rparr>) }
      else Some s) = Some s1 \<and> tracker_ok L valid H s1 \<and> keeps s s1 \<and> fst ` set (i_current s1) = fst ` set (i_current s)"
    using update_validation_good [OF k [of True] Cons.prems(2), of n "v\<lparr>v_trusted := True\<rparr>" None] H
      remove_trie_good [OF k [of False], of n "v\<lparr>v_trusted := False\<rparr>"] v dom Cons.prems(1)
    by (auto simp: good_def v_id_def keeps_def)
  then obtain s1 where s1: "change_trust L E added removed (n # ns) s = change_trust L E added removed ns s1"
      "tracker_ok L valid H s1" "keeps s s1" "fst ` set (i_current s1) = fst ` set (i_current s)"
    by auto
  then show ?case using Cons.IH [OF s1(2) Cons.prems(2)] Cons.prems(3) keeps_trans by (fastforce simp: sound_def)
qed (simp add: soundI)

lemma trust_changed_sound:
  assumes "tracker_ok L valid H s" "env_ok L valid E"
  shows "\<exists>s'. trust_changed L E added removed s = Some s' \<and> tracker_ok L valid H s'
    \<and> i_enforcers s' = i_enforcers s \<and> i_local_enforcer s' = i_local_enforcer s"
proof -
  obtain s1 where s1: "change_trust L E added removed (map fst (i_current s)) s = Some s1" "tracker_ok L valid H s1" "keeps s s1"
    by (rule soundE [OF change_trust_sound [OF assms]]) auto
  have "tracker_ok L valid H (s1\<lparr>i_by_ledger := (i_by_ledger s1)\<lparr>am_entries := m\<rparr>\<rparr>)" for m
    by (rule tracker_ok_frame [OF s1(2)]) simp_all
  then show ?thesis using s1(1,3) by (simp add: trust_changed_def keeps_def)
qed

lemma refused_status_some: "\<exists>st. refused_status n v (s\<lparr>i_by_sequence := aged_put (v_seq v) m b\<rparr>) = Some st"
  by (simp add: refused_status_def aged_get_def aged_put_def map_of_hm_insert)

text \<open>Adding a validation: it extends the accepted ones when the answer is \<^const>\<open>Current\<close>.\<close>

lemma add_sound:
  assumes t: "tracker_ok L valid H s" and e: "env_ok L valid E"
  shows "\<exists>st s'. validations_add L p E n v s = Some (st, s')
    \<and> tracker_ok L valid (if st = Current then insert (n, v_id v) H else H) s'
    \<and> i_local_enforcer s' = i_local_enforcer s
    \<and> (if is_current p (ve_now E) (v_sign_time v) (v_seen_time v)
       then let r = try_advance (ve_instant E) (v_seq v) p (case map_of (i_enforcers s) n of None \<Rightarrow> enforcer_default | Some e \<Rightarrow> e)
         in map_of (i_enforcers s') = (map_of (i_enforcers s))(n \<mapsto> snd r) \<and> (st = Current \<longrightarrow> fst r)
       else s' = s \<and> st = Stale)"
proof (cases "is_current p (ve_now E) (v_sign_time v) (v_seen_time v)")
  case cur: True
  let ?en = "case map_of (i_enforcers s) n of None \<Rightarrow> enforcer_default | Some e \<Rightarrow> e"
  let ?s1 = "note_sequence p (ve_instant E) n v s"
  obtain ok en where en: "try_advance (ve_instant E) (v_seq v) p ?en = (ok, en)" by fastforce
  obtain m b where s1: "?s1 = s\<lparr>i_by_sequence := aged_put (v_seq v) m b\<rparr>"
    by (cases "aged_get_or_insert (v_seq v) (ve_instant E) [] (i_by_sequence s)") (auto simp: note_sequence_def Let_def)
  let ?s2 = "?s1\<lparr>i_enforcers := hm_insert n en (i_enforcers s)\<rparr>"
  obtain m' b' where b': "aged_get_or_insert (v_ledger_id v) (ve_instant E) [] (i_by_ledger ?s2) = (m', b')" by fastforce
  let ?s3 = "?s2\<lparr>i_by_ledger := aged_put (v_ledger_id v) (hm_insert n v m') b'\<rparr>"
  let ?H = "insert (n, v_id v) H"
  have t2: "tracker_ok L valid H ?s2" by (rule tracker_ok_frame [OF t]) (simp_all add: s1)
  have t3: "tracker_ok L valid H ?s3" by (rule tracker_ok_frame [OF t2]) simp_all
  have t4: "tracker_ok L valid ?H (x\<lparr>i_current := hm_insert n v (i_current x)\<rparr>)" if "tracker_ok L valid ?H x" for x
    using that by (simp add: tracker_ok_def votes_ok_def votes_def current_insert)
  have t3': "tracker_ok L valid ?H ?s3" using tracker_ok_mono [OF t3] by blast
  have up: "\<exists>y. (if v_trusted v then update_trie_validation L E n v prior x else Some x) = Some y
      \<and> tracker_ok L valid ?H y \<and> keeps x y \<and> i_current y = i_current x" if "tracker_ok L valid ?H x" for x prior
    using update_validation_good [OF that e, of n v prior] that by (auto simp: good_def)
  have fr: "i_enforcers ?s3 = hm_insert n en (i_enforcers s)" "i_local_enforcer ?s3 = i_local_enforcer s" by (simp_all add: s1)
  show ?thesis
  proof (cases ok)
    case False
    obtain st where st: "refused_status n v ?s2 = Some st"
      using refused_status_some [where n = n and v = v and s = s and m = m and b = b] by (auto simp: refused_status_def s1)
    have "st \<noteq> Current" using st by (auto simp: refused_status_def split: option.splits if_splits)
    then show ?thesis using cur en False st t2 by (simp add: validations_add_def Let_def s1 map_of_hm_insert)
  next
    case True
    show ?thesis
    proof (cases "map_of (i_current s) n")
      case None
      obtain y where y: "(if v_trusted v then update_trie_validation L E n v None ?s3 else Some ?s3) = Some y"
          "tracker_ok L valid ?H y" "keeps ?s3 y" using up [OF t3'] by blast
      have "validations_add L p E n v s = Some (Current, y\<lparr>i_current := hm_insert n v (i_current y)\<rparr>)"
        using cur en True b' None y(1) [unfolded s1] by (simp add: validations_add_def Let_def s1 split del: if_split)
      then show ?thesis using cur en True t4 [OF y(2)] y(3) fr by (simp add: keeps_def map_of_hm_insert)
    next
      case (Some old)
      let ?s4 = "?s3\<lparr>i_current := hm_insert n v (i_current ?s3)\<rparr>"
      obtain y where y: "(if v_trusted v then update_trie_validation L E n v (Some (v_id old)) ?s4 else Some ?s4) = Some y"
          "tracker_ok L valid ?H y" "keeps ?s4 y" using up [OF t4 [OF t3']] by blast
      have "validations_add L p E n v s = (if v_sign_time v > v_sign_time old then Some (Current, y) else Some (Stale, ?s3))"
        using cur en True b' Some y(1) [unfolded s1] by (simp add: validations_add_def Let_def s1 cong: if_cong split del: if_split)
      then show ?thesis using cur en True y(2,3) fr t3 by (simp add: keeps_def map_of_hm_insert)
    qed
  qed
qed (use t in \<open>simp add: validations_add_def\<close>)

lemma get_preferred_sound:
  assumes t: "tracker_ok L valid H s" and e: "env_ok L valid E"
  shows "\<exists>s1 r. with_trie L p E s = Some s1 \<and> tracker_ok L valid H s1 \<and> keeps s s1
    \<and> trie_get_preferred L (se_seq (i_local_enforcer s)) (i_trie s1) = Some r
    \<and> (case r of None \<Rightarrow> votes s1 = {#} | Some tip \<Rightarrow> preferred_ok L valid (votes s1) (se_seq (i_local_enforcer s)) tip)
    \<and> get_preferred L p E cur s = Some (case r of None \<Rightarrow> acquiring_majority s1 | Some tip \<Rightarrow> Some (working_ledger L cur tip), s1)"
proof -
  obtain s1 where s1: "with_trie L p E s = Some s1" "tracker_ok L valid H s1" "keeps s s1"
    by (rule soundE [OF with_trie_sound [OF t e]])
  have "trie_rep L valid (i_trie s1) (votes s1)" using tracker_okD(1) [OF s1(2)] by (simp add: votes_ok_def)
  then obtain r where "trie_get_preferred L (se_seq (i_local_enforcer s)) (i_trie s1) = Some r"
      "case r of None \<Rightarrow> votes s1 = {#} | Some tip \<Rightarrow> preferred_ok L valid (votes s1) (se_seq (i_local_enforcer s)) tip"
    using get_preferred_spec by blast
  then show ?thesis using s1 by (simp add: get_preferred_def Let_def)
qed

lemma exact_signers_ok:
  assumes "tracker_ok L valid H s"
  shows "proof_ok H (Some \<lparr>rp_key = key, rp_nodes = exact_signers key w s\<rparr>)"
proof -
  have "(n, key) \<in> H" if n: "n \<in> set (exact_signers key w s)" for n
  proof -
    obtain v where v: "map_of (i_current s) n = Some v" "v_id v = key"
      using n by (cases key) (auto simp: exact_signers_def v_id_def split: option.splits)
    then show ?thesis using tracker_okD(3) [OF assms] by (auto simp: current_ok_def)
  qed
  then show ?thesis by (simp add: proof_ok_def)
qed

lemma diagnostic_sound:
  assumes t: "tracker_ok L valid H s" and e: "env_ok L valid E"
  shows "sound L valid H s (map_option snd (get_preferred_lcl_diagnostic L p E lcl min_seq peers s))"
proof -
  obtain s1 r where s1: "with_trie L p E s = Some s1" "tracker_ok L valid H s1" "keeps s s1"
      "trie_get_preferred L (se_seq (i_local_enforcer s)) (i_trie s1) = Some r"
    using get_preferred_sound [OF t e] by blast
  have ob: "sound L valid H s (Some (observe_validation_recovery pr s1))" if "proof_ok H pr" for pr
    using observe_ok [OF s1(2) that] s1(3)
    by (intro soundI) (auto simp: keeps_def observe_validation_recovery_def split: option.split)
  have pr: "proof_ok H (map_option (\<lambda>(sq, i, _, _). \<lparr>rp_key = (sq, i), rp_nodes = exact_signers (sq, i) (w sq i) s1\<rparr>) x)"
    for x :: "(nat \<times> nat \<times> nat \<times> nat) option" and w
    using exact_signers_ok [OF s1(2)] by (cases x) (auto simp: proof_ok_def)
  show ?thesis
    using s1(1,4) ob [OF pr] by (simp add: get_preferred_lcl_diagnostic_def Let_def case_prod_beta option.map_comp comp_def)
qed

text \<open>The branch of a ledger has at least the support of its tip; the difference are the nodes beyond it.\<close>

lemma nodes_after_count:
  assumes t: "tracker_ok L valid H s1" and l: "valid l"
  shows "\<exists>b c. branch_support L l (i_trie s1) = Some b \<and> tip_support L (ledger_ident L l) (i_trie s1) = Some c
    \<and> checked_sub b c = Some (size (filter_mset (\<lambda>x. g_seq L l < g_mismatch L l x \<and> g_seq L l < g_seq L x) (votes s1)))"
proof -
  have k: "trie_core L valid (i_trie s1) (votes s1)" using tracker_okD(1) [OF t] by (simp add: votes_ok_def trie_rep_def)
  let ?b = "filter_mset (\<lambda>x. g_seq L l < g_mismatch L l x) (votes s1)"
  have ge: "g_seq L l \<le> g_seq L x" if "x \<in># votes s1" "g_seq L l < g_mismatch L l x" for x
    using mm_le [OF trie_coreD(1) [OF k that(1)] l] mm_sym [OF l trie_coreD(1) [OF k that(1)]] that(2) by simp
  have "?b = filter_mset (same_ledger L l) (votes s1)
      + filter_mset (\<lambda>x. g_seq L l < g_mismatch L l x \<and> g_seq L l < g_seq L x) (votes s1)"
    using ge by (intro multiset_eqI) (fastforce simp: same_ledger_def count_eq_zero_iff not_less)
  then have "size ?b = size (filter_mset (same_ledger L l) (votes s1))
      + size (filter_mset (\<lambda>x. g_seq L l < g_mismatch L l x \<and> g_seq L l < g_seq L x) (votes s1))" by simp
  then show ?thesis
    using branch_support_spec [OF k l] tip_support_spec [OF k l] by (simp add: support_def checked_sub_def ledger_ident_def)
qed

lemma nodes_after_sound:
  assumes t: "tracker_ok L valid H s" and e: "env_ok L valid E" and l: "valid l"
  shows "sound L valid H s (map_option snd (get_nodes_after L p E l i s))"
proof (cases "ledger_ident L l = i")
  case True
  obtain s1 where s1: "with_trie L p E s = Some s1" "tracker_ok L valid H s1" "keeps s s1"
    by (rule soundE [OF with_trie_sound [OF t e]])
  then show ?thesis using nodes_after_count [OF s1(2) l] True by (auto simp: get_nodes_after_def intro!: soundI)
qed (simp add: get_nodes_after_def soundI t)

end

end
