(* ===== verification/Validations_Run.thy ===== *)
theory Validations_Run
  imports Validations_Inv
begin

text \<open>
  Sequences of calls on the tracker of validations. The locale \<open>enforced_run\<close> is what the sequence
  enforcer promises to a run of any state machine that holds one: accepted sequence numbers increase
  as long as the enforcer does not expire. It is interpreted on the enforcer of every node and on the
  one of the server itself.
\<close>

section \<open>Calls\<close>

datatype 'l val_event =
    Ev_add nat validation
  | Ev_acquired 'l
  | Ev_unacquired nat
  | Ev_can_validate nat
  | Ev_keep nat nat
  | Ev_expire
  | Ev_trust hset hset
  | Ev_preferred 'l
  | Ev_preferred_lcl 'l nat "(nat, nat) btree"
  | Ev_nodes_after 'l nat
  | Ev_current
  | Ev_for_ledger nat
  | Ev_laggards nat hset
  | Ev_reconcile "(nat \<times> nat) option" "(nat \<times> nat) option"
  | Ev_flush

datatype val_answer = A_status val_status | A_allowed bool | A_other

fun val_step :: "'l ledger_ops \<Rightarrow> val_parms \<Rightarrow> 'l val_env \<times> 'l val_event \<Rightarrow> 'l inner \<Rightarrow> (val_answer \<times> 'l inner) option" where
  "val_step L p (E, Ev_add n v) s = map_option (\<lambda>(st, s1). (A_status st, s1)) (validations_add L p E n v s)"
| "val_step L p (E, Ev_acquired l) s = map_option (Pair A_other) (on_ledger_acquired L p E l s)"
| "val_step L p (E, Ev_unacquired i) s = map_option (Pair A_other \<circ> snd) (on_ledger_unacquired L p E i s)"
| "val_step L p (E, Ev_can_validate sq) s = (let (ok, s1) = can_validate_seq p E sq s in Some (A_allowed ok, s1))"
| "val_step L p (E, Ev_keep low high) s = Some (A_other, set_seq_to_keep low high s)"
| "val_step L p (E, Ev_expire) s = Some (A_other, validations_expire p E s)"
| "val_step L p (E, Ev_trust added removed) s = map_option (Pair A_other) (trust_changed L E added removed s)"
| "val_step L p (E, Ev_preferred cur) s = map_option (Pair A_other \<circ> snd) (get_preferred L p E cur s)"
| "val_step L p (E, Ev_preferred_lcl lcl m peers) s =
     map_option (Pair A_other \<circ> snd) (get_preferred_lcl_diagnostic L p E lcl m peers s)"
| "val_step L p (E, Ev_nodes_after l i) s = map_option (Pair A_other \<circ> snd) (get_nodes_after L p E l i s)"
| "val_step L p (E, Ev_current) s = map_option (Pair A_other \<circ> snd) (current_trusted L p E s)"
| "val_step L p (E, Ev_for_ledger i) s = Some (A_other, snd (validations_for E i s))"
| "val_step L p (E, Ev_laggards sq keys) s = map_option (Pair A_other \<circ> snd \<circ> snd) (laggards L p E sq keys s)"
| "val_step L p (E, Ev_reconcile a c) s = Some (A_other, reconcile_validation_recovery_latch a c s)"
| "val_step L p (E, Ev_flush) s = Some (A_other, flush s)"

fun run_events :: "('e \<Rightarrow> 's \<Rightarrow> ('a \<times> 's) option) \<Rightarrow> 'e list \<Rightarrow> 's \<Rightarrow> ('a list \<times> 's) option" where
  "run_events step [] s = Some ([], s)"
| "run_events step (e # es) s =
     do {
       (a, s1) \<leftarrow> step e s;
       (as, s2) \<leftarrow> run_events step es s1;
       Some (a # as, s2)
     }"

definition val_run ::
  "'l ledger_ops \<Rightarrow> val_parms \<Rightarrow> ('l val_env \<times> 'l val_event) list \<Rightarrow> 'l inner \<Rightarrow> (val_answer list \<times> 'l inner) option" where
  "val_run L p = run_events (val_step L p)"

section \<open>Sequence enforcers\<close>

text \<open>\<open>sq\<close> was accepted at time \<open>t\<close>; at time \<open>now\<close> the enforcer still knows it.\<close>

definition guards :: "val_parms \<Rightarrow> seq_enforcer \<Rightarrow> nat \<Rightarrow> nat \<Rightarrow> nat \<Rightarrow> bool" where
  "guards p e t sq now \<longleftrightarrow> t \<le> now \<and> (\<exists>w. se_when e = Some w \<and> t \<le> w) \<and> (now \<le> t + validation_set_expires p \<longrightarrow> sq \<le> se_seq e)"

lemma try_advance_guards:
  assumes g: "guards p e t sq now" "now \<le> now'"
  shows "guards p (snd (try_advance now' s p e)) t sq now'"
    "fst (try_advance now' s p e) \<Longrightarrow> now' \<le> t + validation_set_expires p \<Longrightarrow> sq < s"
proof -
  obtain w where w: "se_when e = Some w" "t \<le> w" and now: "t \<le> now" using g(1) by (auto simp: guards_def)
  have k: "now' \<le> t + validation_set_expires p \<longrightarrow> sq \<le> se_seq e \<and> \<not> now' > w + validation_set_expires p"
    using g w(2) by (auto simp: guards_def)
  show "guards p (snd (try_advance now' s p e)) t sq now'"
    using k w now g(2) by (auto simp: guards_def try_advance_def Let_def)
  show "sq < s" if "fst (try_advance now' s p e)" "now' \<le> t + validation_set_expires p"
    using k w(1) that by (auto simp: try_advance_def Let_def split: if_splits)
qed

lemma try_advance_starts: "fst (try_advance now s p e) \<Longrightarrow> guards p (snd (try_advance now s p e)) now s now"
  by (auto simp: guards_def try_advance_def Let_def split: if_splits option.splits)

locale enforced_run =
  fixes p :: val_parms and ok :: "'s \<Rightarrow> bool" and fine :: "'e \<Rightarrow> bool" and get :: "'s \<Rightarrow> seq_enforcer"
    and step :: "'e \<Rightarrow> 's \<Rightarrow> ('a \<times> 's) option" and time :: "'e \<Rightarrow> nat" and granted :: "'e \<Rightarrow> 'a \<Rightarrow> nat option"
  assumes step_ok: "ok s \<Longrightarrow> fine e \<Longrightarrow> step e s = Some (a, s') \<Longrightarrow> ok s'"
    and step_get: "ok s \<Longrightarrow> fine e \<Longrightarrow> step e s = Some (a, s') \<Longrightarrow>
      get s' = get s \<or> (\<exists>sq. get s' = snd (try_advance (time e) sq p (get s)))"
    and step_granted: "ok s \<Longrightarrow> fine e \<Longrightarrow> step e s = Some (a, s') \<Longrightarrow> granted e a = Some sq \<Longrightarrow>
      fst (try_advance (time e) sq p (get s)) \<and> get s' = snd (try_advance (time e) sq p (get s))"
begin

lemma later_larger:
  assumes "ok s" "\<forall>e \<in> set es. fine e" "run_events step es s = Some (as, s')" "guards p (get s) t sq now"
    "\<forall>e \<in> set es. now \<le> time e" "sorted (map time es)"
    "j < length es" "granted (es ! j) (as ! j) = Some sq'" "time (es ! j) \<le> t + validation_set_expires p"
  shows "sq < sq'"
  using assms
proof (induction es arbitrary: s as now j)
  case (Cons e es)
  obtain a s1 bs where st: "step e s = Some (a, s1)" "run_events step es s1 = Some (bs, s')" "as = a # bs"
    using Cons.prems(3) by (auto simp: bind_eq_Some_conv split: prod.splits)
  have ok: "ok s1" and fine: "fine e" using step_ok [OF Cons.prems(1) _ st(1)] Cons.prems(2) by auto
  have now: "now \<le> time e" using Cons.prems(5) by simp
  show ?case
  proof (cases j)
    case 0
    then show ?thesis
      using step_granted [OF Cons.prems(1) fine st(1), of sq'] try_advance_guards(2) [OF Cons.prems(4) now, of sq'] Cons.prems(8,9) st(3)
      by simp
  next
    case (Suc i)
    have "guards p (get s1) t sq (time e)"
      using step_get [OF Cons.prems(1) fine st(1)] try_advance_guards(1) [OF Cons.prems(4) now]
        Cons.prems(4) now by (auto simp: guards_def)
    then show ?thesis
      using Cons.IH [OF ok _ st(2), of "time e" i] Cons.prems(2,6-9) st(3) Suc by simp
  qed
qed simp

lemma granted_increase:
  assumes "ok s" "\<forall>e \<in> set es. fine e" "run_events step es s = Some (as, s')" "sorted (map time es)"
    "i < j" "j < length es" "granted (es ! i) (as ! i) = Some sq" "granted (es ! j) (as ! j) = Some sq'"
    "time (es ! j) \<le> time (es ! i) + validation_set_expires p"
  shows "sq < sq'"
  using assms
proof (induction es arbitrary: s as i j)
  case (Cons e es)
  obtain a s1 bs where st: "step e s = Some (a, s1)" "run_events step es s1 = Some (bs, s')" "as = a # bs"
    using Cons.prems(3) by (auto simp: bind_eq_Some_conv split: prod.splits)
  have ok: "ok s1" and fine: "fine e" using step_ok [OF Cons.prems(1) _ st(1)] Cons.prems(2) by auto
  obtain k where k: "j = Suc k" using Cons.prems(5) by (cases j) auto
  show ?case
  proof (cases i)
    case 0
    have g: "fst (try_advance (time e) sq p (get s)) \<and> get s1 = snd (try_advance (time e) sq p (get s))"
      using step_granted [OF Cons.prems(1) fine st(1), of sq] Cons.prems(7) st(3) 0 by simp
    then have "guards p (get s1) (time e) sq (time e)" using try_advance_starts by auto
    then show ?thesis
      using later_larger [OF ok _ st(2), of "time e" sq "time e" k sq'] Cons.prems st(3) 0 k by simp
  next
    case (Suc i')
    then show ?thesis using Cons.IH [OF ok _ st(2), of i' k] Cons.prems st(3) k by simp
  qed
qed simp

end

section \<open>Runs of the tracker\<close>

definition event_ok :: "'l ledger_ops \<Rightarrow> ('l \<Rightarrow> bool) \<Rightarrow> 'l val_env \<times> 'l val_event \<Rightarrow> bool" where
  "event_ok L valid x \<longleftrightarrow> env_ok L valid (fst x)
     \<and> (case snd x of Ev_acquired l \<Rightarrow> valid l | Ev_nodes_after l i \<Rightarrow> valid l | _ \<Rightarrow> True)"

text \<open>The validations that calls accept, by node, sequence number and ledger.\<close>

fun accepted1 :: "'l val_event \<Rightarrow> val_answer \<Rightarrow> (nat \<times> nat \<times> nat) set" where
  "accepted1 (Ev_add n v) (A_status Current) = {(n, v_id v)}"
| "accepted1 _ _ = {}"

lemma accepted1_add: "accepted1 (Ev_add n v) (A_status st) = (if st = Current then {(n, v_id v)} else {})"
  by (cases st) auto

lemma accepted1_other: "accepted1 ev A_other = {}"
  by (cases ev) auto

definition accepted :: "('l val_env \<times> 'l val_event) list \<Rightarrow> val_answer list \<Rightarrow> (nat \<times> nat \<times> nat) set" where
  "accepted es as = (\<Union>(e, a) \<in> set (zip es as). accepted1 (snd e) a)"

definition node_enforcer :: "nat \<Rightarrow> 'l inner \<Rightarrow> seq_enforcer" where
  "node_enforcer n s = (case map_of (i_enforcers s) n of None \<Rightarrow> enforcer_default | Some e \<Rightarrow> e)"

text \<open>What a step does to the state: it stays well-formed, and the enforcers only advance.\<close>

definition step_result ::
  "'l ledger_ops \<Rightarrow> ('l \<Rightarrow> bool) \<Rightarrow> val_parms \<Rightarrow> (nat \<times> nat \<times> nat) set \<Rightarrow> 'l val_env \<times> 'l val_event \<Rightarrow>
     'l inner \<Rightarrow> val_answer \<times> 'l inner \<Rightarrow> bool" where
  "step_result L valid p H e s r \<longleftrightarrow> tracker_ok L valid (H \<union> accepted1 (snd e) (fst r)) (snd r)
     \<and> (case snd e of
          Ev_add n v \<Rightarrow> i_local_enforcer (snd r) = i_local_enforcer s
            \<and> (\<forall>m. m \<noteq> n \<longrightarrow> node_enforcer m (snd r) = node_enforcer m s)
            \<and> (let t = try_advance (ve_instant (fst e)) (v_seq v) p (node_enforcer n s)
               in (node_enforcer n (snd r) = snd t \<or> node_enforcer n (snd r) = node_enforcer n s)
                  \<and> (fst r = A_status Current \<longrightarrow> fst t \<and> node_enforcer n (snd r) = snd t))
        | Ev_can_validate sq \<Rightarrow> i_enforcers (snd r) = i_enforcers s
            \<and> (fst r, i_local_enforcer (snd r)) =
               map_prod A_allowed id (try_advance (ve_instant (fst e)) sq p (i_local_enforcer s))
        | _ \<Rightarrow> i_enforcers (snd r) = i_enforcers s \<and> i_local_enforcer (snd r) = i_local_enforcer s)"

lemma expire_frame:
  "tracker_ok L valid H s \<Longrightarrow> tracker_ok L valid H (validations_expire p E s) \<and> i_enforcers (validations_expire p E s) = i_enforcers s
    \<and> i_local_enforcer (validations_expire p E s) = i_local_enforcer s"
  by (auto simp: validations_expire_def refresh_kept_def Let_def elim!: tracker_ok_frame split: option.split)

context ledger_history begin

lemma new_tracker: "tracker_ok L valid H (inner_new L)"
  using new_rep by (simp add: tracker_ok_def inner_new_def votes_ok_def votes_def waiting_ok_def current_ok_def last_ok_def
      proof_ok_def btree_wf_def hm_wf_def)

lemma step_add:
  assumes t: "tracker_ok L valid H s" and e: "env_ok L valid E"
  shows "\<exists>r. val_step L p (E, Ev_add n v) s = Some r \<and> step_result L valid p H (E, Ev_add n v) s r"
proof -
  obtain st s' where r: "validations_add L p E n v s = Some (st, s')"
      "tracker_ok L valid (if st = Current then insert (n, v_id v) H else H) s'" "i_local_enforcer s' = i_local_enforcer s"
    and f: "if is_current p (ve_now E) (v_sign_time v) (v_seen_time v)
       then let r = try_advance (ve_instant E) (v_seq v) p (case map_of (i_enforcers s) n of None \<Rightarrow> enforcer_default | Some e \<Rightarrow> e)
         in map_of (i_enforcers s') = (map_of (i_enforcers s))(n \<mapsto> snd r) \<and> (st = Current \<longrightarrow> fst r)
       else s' = s \<and> st = Stale"
    using add_sound [OF t e, of p n v] by (elim exE conjE)
  then have "step_result L valid p H (E, Ev_add n v) s (A_status st, s')"
    using r(2,3) f by (auto simp: step_result_def accepted1_add node_enforcer_def Let_def split: if_splits)
  then show ?thesis using r(1) by simp
qed

lemma sound_step:
  assumes "sound L valid H s x" "val_step L p e s = map_option (Pair A_other) x"
    and "\<forall>n v. snd e \<noteq> Ev_add n v" "\<forall>sq. snd e \<noteq> Ev_can_validate sq"
  shows "\<exists>r. val_step L p e s = Some r \<and> step_result L valid p H e s r"
proof -
  obtain s' where s': "x = Some s'" "tracker_ok L valid H s'" "keeps s s'" by (rule soundE [OF assms(1)])
  have "step_result L valid p H e s (A_other, s')"
    using s'(2,3) assms(3,4) by (auto simp: step_result_def keeps_def accepted1_other split: val_event.split)
  then show ?thesis using assms(2) s'(1) by simp
qed

lemma other_result:
  assumes "tracker_ok L valid H s'" "i_enforcers s' = i_enforcers s"
    "i_local_enforcer s' = i_local_enforcer s" "\<forall>n v. snd e \<noteq> Ev_add n v" "\<forall>sq. snd e \<noteq> Ev_can_validate sq"
  shows "step_result L valid p H e s (A_other, s')"
  using assms by (auto simp: step_result_def accepted1_other split: val_event.split)

lemma step_sound:
  assumes t: "tracker_ok L valid H s" and e: "event_ok L valid x"
  shows "\<exists>r. val_step L p x s = Some r \<and> step_result L valid p H x s r"
proof -
  obtain E ev where x: "x = (E, ev)" by (cases x)
  have env: "env_ok L valid E" using e x by (simp add: event_ok_def)
  note live = current_live_sound1 [OF t, of p E]
  show ?thesis
  proof (cases ev)
    case (Ev_acquired l)
    then show ?thesis using sound_step [OF on_ledger_acquired_sound [OF t]] e x by (simp add: event_ok_def)
  next
    case (Ev_unacquired i)
    then show ?thesis using sound_step [OF on_ledger_unacquired_sound [OF t env]] x by (simp add: option.map_comp comp_def)
  next
    case (Ev_can_validate sq)
    let ?s = "snd (can_validate_seq p E sq s)"
    have "tracker_ok L valid H ?s"
      by (rule tracker_ok_frame [OF t]) (simp_all add: can_validate_seq_def Let_def case_prod_beta)
    then show ?thesis
      using x Ev_can_validate by (simp add: step_result_def can_validate_seq_def Let_def case_prod_beta map_prod_def)
  next
    case (Ev_trust added removed)
    then show ?thesis using trust_changed_sound [OF t env, of added removed] x by (auto intro!: other_result)
  next
    case (Ev_preferred cur)
    have "sound L valid H s (map_option snd (get_preferred L p E cur s))"
      using get_preferred_sound [OF t env, of p cur] by (auto simp: sound_def)
    from sound_step [OF this, of p x] show ?thesis using x Ev_preferred by (simp add: option.map_comp comp_def)
  next
    case (Ev_preferred_lcl lcl m peers)
    then show ?thesis using sound_step [OF diagnostic_sound [OF t env]] x by (simp add: option.map_comp comp_def)
  next
    case (Ev_nodes_after l i)
    then show ?thesis using sound_step [OF nodes_after_sound [OF t env]] e x by (simp add: event_ok_def option.map_comp comp_def)
  next
    case Ev_current
    have "map_option snd (current_trusted L p E s) = current_live L p E s"
      by (cases "current_live L p E s") (simp_all add: current_trusted_def)
    then show ?thesis using sound_step [OF live] x Ev_current by (simp flip: option.map_comp)
  next
    case (Ev_laggards sq keys)
    have "map_option (snd \<circ> snd) (laggards L p E sq keys s) = current_live L p E s"
      by (cases "current_live L p E s") (simp_all add: laggards_def Let_def case_prod_beta)
    then show ?thesis using sound_step [OF live] x Ev_laggards by (simp add: comp_assoc flip: option.map_comp)
  next
    case Ev_expire
    then show ?thesis using expire_frame [OF t] x by (auto intro!: other_result)
  next
    case (Ev_reconcile a c)
    then show ?thesis
      using other_result [OF reconcile_ok [OF t], of a c s x p] x
      by (simp add: reconcile_validation_recovery_latch_def Let_def case_prod_beta)
  next
    case Ev_flush
    have "tracker_ok L valid H (flush s)"
      using t by (simp add: tracker_ok_def flush_def votes_ok_def votes_def current_ok_def hm_wf_def proof_ok_def)
    then show ?thesis using x Ev_flush by (auto intro!: other_result simp: flush_def)
  next
    case (Ev_keep low high)
    then show ?thesis using x by (auto intro!: other_result tracker_ok_frame [OF t] simp: set_seq_to_keep_def)
  next
    case (Ev_for_ledger i)
    then show ?thesis using x by (auto intro!: other_result tracker_ok_frame [OF t] simp: validations_for_def Let_def)
  qed (use step_add [OF t env] x in auto)
qed

lemma run_sound:
  "tracker_ok L valid H s \<Longrightarrow> \<forall>e \<in> set es. event_ok L valid e
    \<Longrightarrow> \<exists>as s'. val_run L p es s = Some (as, s') \<and> length as = length es \<and> tracker_ok L valid (H \<union> accepted es as) s'"
proof (induction es arbitrary: s H)
  case Nil
  then show ?case by (simp add: val_run_def accepted_def)
next
  case (Cons e es)
  obtain a s1 where st: "val_step L p e s = Some (a, s1)" "tracker_ok L valid (H \<union> accepted1 (snd e) a) s1"
    using step_sound [OF Cons.prems(1), of e p] Cons.prems(2) by (auto simp: step_result_def)
  obtain as s' where r: "val_run L p es s1 = Some (as, s')" "length as = length es"
      "tracker_ok L valid ((H \<union> accepted1 (snd e) a) \<union> accepted es as) s'"
    using Cons.IH [OF st(2)] Cons.prems(2) by auto
  then show ?case using st(1) by (simp add: val_run_def accepted_def Un_assoc)
qed

end

section \<open>The enforcers of the tracker\<close>

fun granted_node :: "nat \<Rightarrow> 'l val_env \<times> 'l val_event \<Rightarrow> val_answer \<Rightarrow> nat option" where
  "granted_node n (E, Ev_add m v) (A_status Current) = (if m = n then Some (v_seq v) else None)"
| "granted_node n _ _ = None"

fun granted_local :: "'l val_env \<times> 'l val_event \<Rightarrow> val_answer \<Rightarrow> nat option" where
  "granted_local (E, Ev_can_validate sq) (A_allowed True) = Some sq"
| "granted_local _ _ = None"

context ledger_history begin

lemma enforced_step:
  assumes "\<exists>H. tracker_ok L valid H s" "event_ok L valid e" "val_step L p e s = Some (a, s')"
  shows "\<exists>H. tracker_ok L valid H s'" "\<exists>H. step_result L valid p H e s (a, s')"
proof -
  obtain H where "step_result L valid p H e s (a, s')" using step_sound [of _ s e p] assms by auto
  then show "\<exists>H. tracker_ok L valid H s'" "\<exists>H. step_result L valid p H e s (a, s')" by (auto simp: step_result_def)
qed

lemma node_step:
  assumes "step_result L valid p H e s (a, s')"
  shows "node_enforcer n s' = node_enforcer n s \<or> (\<exists>sq. node_enforcer n s' = snd (try_advance (ve_instant (fst e)) sq p (node_enforcer n s)))"
    "granted_node n e a = Some sq \<Longrightarrow> fst (try_advance (ve_instant (fst e)) sq p (node_enforcer n s))
      \<and> node_enforcer n s' = snd (try_advance (ve_instant (fst e)) sq p (node_enforcer n s))"
proof -
  obtain E ev where e: "e = (E, ev)" by (cases e)
  show "node_enforcer n s' = node_enforcer n s \<or> (\<exists>sq. node_enforcer n s' = snd (try_advance (ve_instant (fst e)) sq p (node_enforcer n s)))"
    using assms e by (cases ev; cases "\<exists>v. ev = Ev_add n v") (auto simp: step_result_def node_enforcer_def Let_def)
  assume g: "granted_node n e a = Some sq"
  then obtain v where "ev = Ev_add n v" "a = A_status Current" "sq = v_seq v"
    using e by (cases "(n, e, a)" rule: granted_node.cases) (auto split: if_splits)
  then show "fst (try_advance (ve_instant (fst e)) sq p (node_enforcer n s))
      \<and> node_enforcer n s' = snd (try_advance (ve_instant (fst e)) sq p (node_enforcer n s))"
    using assms e by (auto simp: step_result_def Let_def)
qed

lemma local_step:
  assumes "step_result L valid p H e s (a, s')"
  shows "i_local_enforcer s' = i_local_enforcer s \<or> (\<exists>sq. i_local_enforcer s' = snd (try_advance (ve_instant (fst e)) sq p (i_local_enforcer s)))"
    "granted_local e a = Some sq \<Longrightarrow> fst (try_advance (ve_instant (fst e)) sq p (i_local_enforcer s))
      \<and> i_local_enforcer s' = snd (try_advance (ve_instant (fst e)) sq p (i_local_enforcer s))"
proof -
  obtain E ev where e: "e = (E, ev)" by (cases e)
  show "i_local_enforcer s' = i_local_enforcer s \<or> (\<exists>sq. i_local_enforcer s' = snd (try_advance (ve_instant (fst e)) sq p (i_local_enforcer s)))"
    using assms e by (cases ev) (auto simp: step_result_def map_prod_def case_prod_beta)
  assume g: "granted_local e a = Some sq"
  then have "ev = Ev_can_validate sq" "a = A_allowed True"
    using e by (cases "(e, a)" rule: granted_local.cases; auto)+
  then show "fst (try_advance (ve_instant (fst e)) sq p (i_local_enforcer s))
      \<and> i_local_enforcer s' = snd (try_advance (ve_instant (fst e)) sq p (i_local_enforcer s))"
    using assms e by (auto simp: step_result_def map_prod_def case_prod_beta)
qed

end

interpretation vl_node: enforced_run p "\<lambda>s. \<exists>H. tracker_ok vl_ops (vl_known num par B h) H s"
    "event_ok vl_ops (vl_known num par B h)" "node_enforcer n" "val_step vl_ops p" "\<lambda>e. ve_instant (fst e)" "granted_node n"
  for p num par B h n
proof unfold_locales
  fix s :: "vledger inner" and e a s' sq
  assume st: "\<exists>H. tracker_ok vl_ops (vl_known num par B h) H s" "event_ok vl_ops (vl_known num par B h) e"
    "val_step vl_ops p e s = Some (a, s')"
  show "\<exists>H. tracker_ok vl_ops (vl_known num par B h) H s'" using vl.enforced_step(1) [OF st] .
  obtain H where r: "step_result vl_ops (vl_known num par B h) p H e s (a, s')" using vl.enforced_step(2) [OF st] by blast
  show "node_enforcer n s' = node_enforcer n s
      \<or> (\<exists>sq. node_enforcer n s' = snd (try_advance (ve_instant (fst e)) sq p (node_enforcer n s)))"
    using vl.node_step(1) [OF r] .
  show "fst (try_advance (ve_instant (fst e)) sq p (node_enforcer n s))
      \<and> node_enforcer n s' = snd (try_advance (ve_instant (fst e)) sq p (node_enforcer n s))" if "granted_node n e a = Some sq"
    using vl.node_step(2) [OF r that] .
qed

interpretation vl_local: enforced_run p "\<lambda>s. \<exists>H. tracker_ok vl_ops (vl_known num par B h) H s"
    "event_ok vl_ops (vl_known num par B h)" i_local_enforcer "val_step vl_ops p" "\<lambda>e. ve_instant (fst e)" granted_local
  for p num par B h
proof unfold_locales
  fix s :: "vledger inner" and e a s' sq
  assume st: "\<exists>H. tracker_ok vl_ops (vl_known num par B h) H s" "event_ok vl_ops (vl_known num par B h) e"
    "val_step vl_ops p e s = Some (a, s')"
  show "\<exists>H. tracker_ok vl_ops (vl_known num par B h) H s'" using vl.enforced_step(1) [OF st] .
  obtain H where r: "step_result vl_ops (vl_known num par B h) p H e s (a, s')" using vl.enforced_step(2) [OF st] by blast
  show "i_local_enforcer s' = i_local_enforcer s
      \<or> (\<exists>sq. i_local_enforcer s' = snd (try_advance (ve_instant (fst e)) sq p (i_local_enforcer s)))"
    using vl.local_step(1) [OF r] .
  show "fst (try_advance (ve_instant (fst e)) sq p (i_local_enforcer s))
      \<and> i_local_enforcer s' = snd (try_advance (ve_instant (fst e)) sq p (i_local_enforcer s))" if "granted_local e a = Some sq"
    using vl.local_step(2) [OF r that] .
qed

end
