(* ===== verification/Validations_Properties.thy ===== *)
theory Validations_Properties
  imports Validations_Run
begin

text \<open>
  The properties of the tracker of validations over the ledgers of the server: for any sequence of
  calls, whatever nodes send, every call returns, each node has at most one vote in the ancestry trie
  and that vote is backed by a validation of the node, sequence numbers of a node never go back while
  they are remembered, and the preferred ledger follows the majority of the votes.
\<close>

section \<open>Runs\<close>

lemma tracker_run:
  assumes "\<forall>e \<in> set es. event_ok vl_ops (vl_known num par B h) e"
  shows "\<exists>as s. val_run vl_ops p es (inner_new vl_ops) = Some (as, s) \<and> length as = length es
    \<and> tracker_ok vl_ops (vl_known num par B h) (accepted es as) s"
  using vl.run_sound [OF vl.new_tracker [of _ _ _ _ "{}"] assms, of p] by simp

lemma tracker_run_ok:
  assumes "\<forall>e \<in> set es. event_ok vl_ops (vl_known num par B h) e" "val_run vl_ops p es (inner_new vl_ops) = Some (as, s)"
  shows "tracker_ok vl_ops (vl_known num par B h) (accepted es as) s" "length as = length es"
  using tracker_run [OF assms(1), of p] assms(2) by auto

lemma votes_length: "size (filter_mset P (votes s)) = length (filter (\<lambda>(n, x). P x) (i_last_ledger s))"
proof -
  have "size (filter_mset P (mset (map snd m))) = length (filter (\<lambda>(n, x). P x) m)" for m by (induction m) auto
  then show ?thesis unfolding votes_def .
qed




text \<open>
  The server does not contradict itself: two sequence numbers it was allowed to validate, not
  further apart than the expiry time, are increasing.
\<close>

theorem own_validations_increase:
  assumes "\<forall>e \<in> set es. event_ok vl_ops (vl_known num par B h) e"
    and "val_run vl_ops p es (inner_new vl_ops) = Some (as, s)"
    and "sorted (map (\<lambda>e. ve_instant (fst e)) es)" and "i < j" and "j < length es"
    and "es ! i = (E1, Ev_can_validate sq1)" and "as ! i = A_allowed True"
    and "es ! j = (E2, Ev_can_validate sq2)" and "as ! j = A_allowed True"
    and "ve_instant E2 \<le> ve_instant E1 + validation_set_expires p"
  shows "sq1 < sq2"
proof -
  have "\<exists>H. tracker_ok vl_ops (vl_known num par B h) H (inner_new vl_ops)" using vl.new_tracker by blast
  from vl_local.granted_increase [OF this assms(1) assms(2) [unfolded val_run_def] assms(3-5), of sq1 sq2]
  show ?thesis using assms(6-10) by simp
qed



text \<open>
  C31. \<^verbatim>\<open>current_trusted\<close> returns the trusted full validations that are current at the network time, all of
  them and only them, and forgets the validations that are not current.
\<close>

theorem current_trusted_exact:
  assumes "\<forall>e \<in> set es. event_ok vl_ops (vl_known num par B h) e"
    and "val_run vl_ops p es (inner_new vl_ops) = Some (as, s)"
  shows "\<exists>s1. current_trusted vl_ops p E s
      = Some (map snd (filter (\<lambda>(n, v). is_current p (ve_now E) (v_sign_time v) (v_seen_time v) \<and> v_trusted v \<and> v_full v) (i_current s)), s1)
    \<and> i_current s1 = filter (\<lambda>(n, v). is_current p (ve_now E) (v_sign_time v) (v_seen_time v)) (i_current s)"
proof -
  obtain s1 where s1: "current_live vl_ops p E s = Some s1"
      "i_current s1 = filter (\<lambda>(n, v). is_current p (ve_now E) (v_sign_time v) (v_seen_time v)) (i_current s)"
    using vl.current_live_sound [OF tracker_run_ok(1) [OF assms], of p E] by blast
  moreover have "filter (\<lambda>(n, v). v_trusted v \<and> v_full v) (filter (\<lambda>(n, v). is_current p (ve_now E) (v_sign_time v) (v_seen_time v)) m)
      = filter (\<lambda>(n, v). is_current p (ve_now E) (v_sign_time v) (v_seen_time v) \<and> v_trusted v \<and> v_full v) m" for m :: "(nat \<times> validation) list"
    by (induction m) auto
  ultimately show ?thesis by (simp add: current_trusted_def del: filter_filter)
qed


section \<open>Refused validations and lost trust\<close>


lemma waiter_frame [simp]:
  "i_last_ledger (drop_waiter n key s) = i_last_ledger s" "i_trie (drop_waiter n key s) = i_trie s"
  "i_current (drop_waiter n key s) = i_current s"
  by (auto simp: drop_waiter_def Let_def split: option.split)

lemma prune_frame [simp]:
  "i_last_ledger (prune_validation_recovery_signer key n s) = i_last_ledger s"
  "i_trie (prune_validation_recovery_signer key n s) = i_trie s"
  "i_current (prune_validation_recovery_signer key n s) = i_current s"
  by (auto simp: prune_validation_recovery_signer_def)

lemma change_trust_keeps_vote:
  assumes "map_of (i_current s) n = Some v" "map_of (i_last_ledger s) n = Some l" "ledger_ident L l \<noteq> v_ledger_id v"
  shows "\<exists>s'. change_trust L E [] [n] ns s = Some s' \<and> i_last_ledger s' = i_last_ledger s \<and> i_trie s' = i_trie s
    \<and> map_of (i_current s') n = Some (if n \<in> set ns then v\<lparr>v_trusted := False\<rparr> else v)"
  using assms
proof (induction ns arbitrary: s v)
  case (Cons m ns)
  show ?case
  proof (cases "m = n")
    case True
    let ?v = "v\<lparr>v_trusted := False\<rparr>"
    let ?s = "s\<lparr>i_current := hm_insert n ?v (i_current s)\<rparr>"
    let ?s1 = "drop_waiter n (v_id ?v) (prune_validation_recovery_signer (v_id ?v) n ?s)"
    have r: "remove_trie L n ?v ?s = Some ?s1" using Cons.prems(2,3) by (simp add: remove_trie_def Let_def)
    have "map_of (i_current ?s1) n = Some ?v" by (simp add: map_of_hm_insert)
    from Cons.IH [OF this] show ?thesis using True Cons.prems r by (auto simp: Let_def split: if_splits)
  next
    case False
    then show ?thesis using Cons by simp
  qed
qed simp

text \<open>
  C33. Losing trust does not always cost a node its vote: when the last acquired ledger of a node is not
  the one of its current validation (which is still being acquired), a change of trust that removes
  the node marks its validation as untrusted and leaves its vote in the ancestry trie.
\<close>

theorem untrusted_vote_remains:
  assumes "map_of (i_current s) n = Some v" and "map_of (i_last_ledger s) n = Some l" and "ledger_ident L l \<noteq> v_ledger_id v"
  shows "\<exists>s'. trust_changed L E [] [n] s = Some s' \<and> map_of (i_current s') n = Some (v\<lparr>v_trusted := False\<rparr>)
    \<and> map_of (i_last_ledger s') n = Some l \<and> i_trie s' = i_trie s"
proof -
  have "n \<in> set (map fst (i_current s))" using assms(1) by (force dest: map_of_SomeD)
  then show ?thesis
    using change_trust_keeps_vote [OF assms, of E "map fst (i_current s)"] assms(2) by (auto simp: trust_changed_def)
qed

section \<open>A run\<close>

definition ex_env :: "nat \<Rightarrow> nat list \<Rightarrow> vledger val_env" where
  "ex_env t available =
     \<lparr>ve_now = 1000 + t, ve_instant = from_secs t,
      ve_acquire = (\<lambda>i. if i \<in> set available \<and> i \<in> {106, 107, 206, 207} then Some (ex_ledger i) else None)\<rparr>"

definition ex_val :: "nat \<Rightarrow> nat \<Rightarrow> nat \<Rightarrow> validation" where
  "ex_val i sq t =
     \<lparr>v_ledger_id = i, v_seq = sq, v_sign_time = 1000 + t, v_seen_time = 1000 + t, v_key = i, v_trusted = True,
      v_full = True, v_node_id = i, v_load_fee = None, v_cookie = 0\<rparr>"

lemma ex_known: "i \<in> {106, 107, 206, 207} \<Longrightarrow> vl_known ex_num ex_par 5 105 (ex_ledger i) \<and> ledger_ident vl_ops (ex_ledger i) = i"
proof -
  assume "i \<in> {106, 107, 206, 207}"
  moreover have "\<forall>i \<in> {106, 107, 206, 207}. vl_known ex_num ex_par 5 105 (ex_ledger i) \<and> ledger_ident vl_ops (ex_ledger i) = i"
    by code_simp
  ultimately show ?thesis by blast
qed

lemma ex_env_ok: "env_ok vl_ops (vl_known ex_num ex_par 5 105) (ex_env t available)"
  using ex_known by (auto simp: env_ok_def ex_env_def split: if_splits)

lemma ex_event_ok: "event_ok vl_ops (vl_known ex_num ex_par 5 105) (ex_env t available, Ev_add n v)"
    "event_ok vl_ops (vl_known ex_num ex_par 5 105) (ex_env t available, Ev_can_validate sq)"
  by (simp_all add: event_ok_def ex_env_ok)

lemma ex_current: "t \<le> t' \<Longrightarrow> t' \<le> t + 100 \<Longrightarrow>
  is_current default_val_parms (ve_now (ex_env t' available)) (v_sign_time (ex_val i sq t)) (v_seen_time (ex_val i sq t))"
  by (simp add: is_current_def ex_env_def ex_val_def default_val_parms_def as_secs_def from_secs_def)

text \<open>One trusted validation for a ledger that is there.\<close>

definition ex_one :: "(vledger val_env \<times> vledger val_event) list" where
  "ex_one = [(ex_env 0 [106], Ev_add 1 (ex_val 106 6 0))]"

lemmas ex_add_simps = validations_add_def note_sequence_def aged_get_or_insert_def aged_touch_def aged_new_def aged_put_def
  try_advance_def enforcer_default_def Let_def inner_new_def hm_insert_def

lemma ex_one_run:
  "\<exists>s. val_run vl_ops default_val_parms ex_one (inner_new vl_ops) = Some ([A_status Current], s)
    \<and> i_last_ledger s = [(1, ex_ledger 106)] \<and> i_current s = [(1, ex_val 106 6 0)] \<and> i_acquiring s = []"
proof -
  have "vl_known ex_num ex_par 5 105 (ex_ledger 106)" using ex_known by simp
  then obtain t where t: "trie_insert vl_ops (ex_ledger 106) 1 (trie_new vl_ops) = Some t"
    using vl.insert_rep [OF vl.new_rep, of ex_num ex_par 5 105 "ex_ledger 106" 1] by auto
  have c: "is_current default_val_parms 1000 1000 1000" using ex_current [of 0 0 "[]" 0 0] by (simp add: ex_env_def ex_val_def)
  show ?thesis
    using t c by (simp add: val_run_def ex_one_def ex_add_simps ex_val_def ex_env_def update_trie_validation_def
        check_acquired_def resolve_vote_def update_trie_ledger_def v_id_def)
qed

lemma ex_one_ok: "\<forall>e \<in> set ex_one. event_ok vl_ops (vl_known ex_num ex_par 5 105) e"
  by (simp add: ex_one_def ex_event_ok)



definition ex_two :: "(vledger val_env \<times> vledger val_event) list" where
  "ex_two =
     [(ex_env 0 [], Ev_add 1 ((ex_val 106 6 0)\<lparr>v_trusted := False\<rparr>)), (ex_env 1 [], Ev_can_validate 6),
      (ex_env 2 [], Ev_add 1 ((ex_val 107 7 2)\<lparr>v_trusted := False\<rparr>)), (ex_env 3 [], Ev_can_validate 7)]"

lemma ex_two_run:
  "\<exists>s. val_run vl_ops default_val_parms ex_two (inner_new vl_ops) = Some ([A_status Current, A_allowed True, A_status Current, A_allowed True], s)"
proof -
  have c: "is_current default_val_parms 1000 1000 1000" "is_current default_val_parms 1002 1002 1002"
    using ex_current [of 0 0 "[]" 0 0] ex_current [of 2 2 "[]" 0 0] by (simp_all add: ex_env_def ex_val_def)
  show ?thesis
    using c by (simp add: val_run_def ex_two_def ex_add_simps ex_val_def ex_env_def can_validate_seq_def default_val_parms_def from_secs_def)
qed

lemma ex_two_ok: "\<forall>e \<in> set ex_two. event_ok vl_ops (vl_known ex_num ex_par 5 105) e"
  by (simp add: ex_two_def ex_event_ok)

lemma ex_two_times: "sorted (map (\<lambda>e. ve_instant (fst e)) ex_two)"
  by (simp add: ex_two_def ex_env_def from_secs_def)


theorem own_validations_increase_witness:
  "\<exists>s. val_run vl_ops default_val_parms ex_two (inner_new vl_ops)
      = Some ([A_status Current, A_allowed True, A_status Current, A_allowed True], s) \<and> (6::nat) < 7"
proof -
  obtain s where s: "val_run vl_ops default_val_parms ex_two (inner_new vl_ops)
      = Some ([A_status Current, A_allowed True, A_status Current, A_allowed True], s)" using ex_two_run by blast
  from own_validations_increase [OF ex_two_ok s ex_two_times, of 1 3]
  have "(6::nat) < 7" by (simp add: ex_two_def ex_env_def default_val_parms_def from_secs_def)
  then show ?thesis using s by blast
qed



theorem current_trusted_exact_witness:
  "\<exists>s s1. current_trusted vl_ops default_val_parms (ex_env 1 []) s = Some ([ex_val 106 6 0], s1)"
proof -
  obtain s where s: "val_run vl_ops default_val_parms ex_one (inner_new vl_ops) = Some ([A_status Current], s)"
      "i_current s = [(1, ex_val 106 6 0)]"
    using ex_one_run by blast
  show ?thesis
    using current_trusted_exact [OF ex_one_ok s(1), of "ex_env 1 []"] s(2) ex_current [of 0 1 "[]" 106 6] by (auto simp: ex_val_def)
qed


definition ex_seen :: "vledger inner" where
  "ex_seen = (inner_new vl_ops)\<lparr>i_enforcers := [(1, \<lparr>se_seq = 6, se_when = Some 0\<rparr>)],
     i_by_sequence := \<lparr>am_entries = [(6, [(1, ex_val 106 6 0)])], am_touched = [(6, 0)]\<rparr>,
     i_current := [(1, ex_val 107 7 0)], i_last_ledger := [(1, ex_ledger 106)]\<rparr>"


theorem untrusted_vote_remains_witness:
  "\<exists>s'. trust_changed vl_ops (ex_env 1 []) [] [1] ex_seen = Some s' \<and> map_of (i_last_ledger s') 1 = Some (ex_ledger 106)"
proof -
  have "map_of (i_current ex_seen) 1 = Some (ex_val 107 7 0)" "map_of (i_last_ledger ex_seen) 1 = Some (ex_ledger 106)"
    by (simp_all add: ex_seen_def)
  moreover have "ledger_ident vl_ops (ex_ledger 106) \<noteq> v_ledger_id (ex_val 107 7 0)"
    using ex_known [of 106] by (simp add: ex_val_def)
  ultimately show ?thesis using untrusted_vote_remains [of ex_seen 1 "ex_val 107 7 0" "ex_ledger 106" vl_ops "ex_env 1 []"] by blast
qed

end
