(* ===== verification/Ledger_Entry.thy ===== *)
theory Ledger_Entry
  imports SHAMap_Map
begin

text \<open>
  Ledger entries (\<^verbatim>\<open>STLedgerEntry\<close>) and keylets. An entry is its type, its key and the fields that
  are present, in the order of their codes; the template of the type decides which fields can be
  written. An entry always carries its own type in \<^verbatim>\<open>sfLedgerEntryType\<close>, which no operation
  here writes, so that field is the component \<open>sle_type\<close> and rebuilding an entry from its object
  (\<^verbatim>\<open>from_stobject\<close>) gives the entry back.
\<close>

section \<open>Keylets\<close>

datatype ledger_entry_type =
  LtAny | LtNFTokenOffer | LtCheck | LtDID | LtNegativeUnl | LtNFTokenPage | LtSignerList | LtTicket
| LtAccountRoot | LtContract | LtDirectoryNode | LtAmendments | LtGeneratorMap | LtLedgerHashes
| LtBridge | LtNickname | LtOffer | LtDepositPreauth | LtXChainOwnedClaimId | LtRippleState
| LtFeeSettings | LtXChainOwnedCreateAccountClaimId | LtEscrow | LtPayChannel | LtAMM
| LtMPTokenIssuance | LtMPToken | LtOracle | LtCredential | LtPermissionedDomain | LtDelegate
| LtVault | LtLoanBroker | LtLoan | LtSponsorship | LtChild

record keylet =
  k_key :: nat
  k_type :: ledger_entry_type

definition check_ledger_entry :: "keylet \<Rightarrow> ledger_entry_type \<Rightarrow> nat \<Rightarrow> bool" where
  "check_ledger_entry k actual_type actual_key =
     (case k_type k of
        LtAny \<Rightarrow> True
      | LtChild \<Rightarrow> actual_type \<noteq> LtDirectoryNode
      | expected \<Rightarrow> expected = actual_type \<and> k_key k = actual_key)"

lemma check_exact:
  "t \<noteq> LtAny \<Longrightarrow> t \<noteq> LtChild \<Longrightarrow>
     check_ledger_entry \<lparr>k_key = k, k_type = t\<rparr> t' k' \<longleftrightarrow> t = t' \<and> k = k'"
  by (cases t) (simp_all add: check_ledger_entry_def)

lemma check_any [simp]: "check_ledger_entry \<lparr>k_key = k, k_type = LtAny\<rparr> t' k'"
  by (simp add: check_ledger_entry_def)

text \<open>The types without a format, which no entry has.\<close>

definition has_format :: "ledger_entry_type \<Rightarrow> bool" where
  "has_format t \<longleftrightarrow> t \<notin> {LtAny, LtContract, LtGeneratorMap, LtNickname, LtChild}"

section \<open>Fields\<close>

text \<open>The code of a field: its serialized type in the upper bits, its number in the lower ones.\<close>

definition field_code :: "nat \<Rightarrow> nat \<Rightarrow> nat" where
  "field_code t v = t * 65536 + v"

definition sfFlags :: nat where "sfFlags = field_code 2 2"
definition sfPreviousTxnLgrSeq :: nat where "sfPreviousTxnLgrSeq = field_code 2 5"
definition sfOwnerCount :: nat where "sfOwnerCount = field_code 2 13"
definition sfIndexNext :: nat where "sfIndexNext = field_code 3 1"
definition sfIndexPrevious :: nat where "sfIndexPrevious = field_code 3 2"
definition sfPreviousTxnID :: nat where "sfPreviousTxnID = field_code 5 5"
definition sfRootIndex :: nat where "sfRootIndex = field_code 5 8"
definition sfLowLimit :: nat where "sfLowLimit = field_code 6 6"
definition sfHighLimit :: nat where "sfHighLimit = field_code 6 7"
definition sfAccount :: nat where "sfAccount = field_code 8 1"
definition sfOwner :: nat where "sfOwner = field_code 8 2"
definition sfDestination :: nat where "sfDestination = field_code 8 3"
definition sfIndexes :: nat where "sfIndexes = field_code 19 1"

lemmas sf_defs = field_code_def sfFlags_def sfPreviousTxnLgrSeq_def sfOwnerCount_def sfIndexNext_def
  sfIndexPrevious_def sfPreviousTxnID_def sfRootIndex_def sfLowLimit_def sfHighLimit_def sfAccount_def
  sfOwner_def sfDestination_def sfIndexes_def

text \<open>
  An amount is its sign, value, offset and currency as one number, and the issuer of the issue
  (the zero account for native amounts). Equality of amounts ignores the issuer.
\<close>

record amount =
  am_value :: nat
  am_issuer :: nat

datatype st_value =
  St_u32 nat | St_u64 nat | St_h256 nat | St_amount amount | St_account nat | St_v256 "nat list"
| St_other nat nat

fun value_kind :: "st_value \<Rightarrow> nat" where
  "value_kind (St_u32 n) = 2"
| "value_kind (St_u64 n) = 3"
| "value_kind (St_h256 n) = 5"
| "value_kind (St_amount a) = 6"
| "value_kind (St_account a) = 8"
| "value_kind (St_v256 ks) = 19"
| "value_kind (St_other t n) = t"

fun value_eq :: "st_value \<Rightarrow> st_value \<Rightarrow> bool" where
  "value_eq (St_amount a) (St_amount b) \<longleftrightarrow> am_value a = am_value b"
| "value_eq v w \<longleftrightarrow> v = w"

record sle =
  sle_type :: ledger_entry_type
  sle_key :: nat
  sle_fields :: "(nat, st_value) btree"

text \<open>\<^verbatim>\<open>PartialEq\<close> of entries: same type and key, equal present fields.\<close>

definition sle_eq :: "sle \<Rightarrow> sle \<Rightarrow> bool" where
  "sle_eq s t \<longleftrightarrow> sle_type s = sle_type t \<and> sle_key s = sle_key t
     \<and> list_all2 (\<lambda>(f, v) (g, w). f = g \<and> value_eq v w) (sle_fields s) (sle_fields t)"

text \<open>
  Whether the template of a type has one of the fields the modelled code writes or looks up.
\<close>

definition template_has :: "ledger_entry_type \<Rightarrow> nat \<Rightarrow> bool" where
  "template_has t f \<longleftrightarrow>
     (if f = sfPreviousTxnID \<or> f = sfPreviousTxnLgrSeq then has_format t \<and> t \<noteq> LtLedgerHashes
      else if f = sfOwnerCount then t \<in> {LtAccountRoot, LtLoanBroker}
      else if f = sfFlags then has_format t
      else if f \<in> {sfIndexes, sfRootIndex, sfIndexNext, sfIndexPrevious} then t = LtDirectoryNode
      else if f = sfOwner then
        t \<in> {LtNFTokenOffer, LtSignerList, LtDirectoryNode, LtOracle, LtPermissionedDomain, LtVault,
             LtLoanBroker, LtSponsorship}
      else False)"

definition field_of :: "nat \<Rightarrow> sle \<Rightarrow> st_value option" where
  "field_of f s = map_of (sle_fields s) f"

definition is_field_present :: "nat \<Rightarrow> sle \<Rightarrow> bool" where
  "is_field_present f s \<longleftrightarrow> field_of f s \<noteq> None"

definition get_field_u32 :: "nat \<Rightarrow> sle \<Rightarrow> nat" where
  "get_field_u32 f s = (case field_of f s of Some (St_u32 n) \<Rightarrow> n | _ \<Rightarrow> 0)"

definition get_field_u64 :: "nat \<Rightarrow> sle \<Rightarrow> nat" where
  "get_field_u64 f s = (case field_of f s of Some (St_u64 n) \<Rightarrow> n | _ \<Rightarrow> 0)"

definition get_field_h256 :: "nat \<Rightarrow> sle \<Rightarrow> nat" where
  "get_field_h256 f s = (case field_of f s of Some (St_h256 n) \<Rightarrow> n | _ \<Rightarrow> 0)"

definition get_field_v256 :: "nat \<Rightarrow> sle \<Rightarrow> nat list" where
  "get_field_v256 f s = (case field_of f s of Some (St_v256 ks) \<Rightarrow> ks | _ \<Rightarrow> [])"

definition get_account_id :: "nat \<Rightarrow> sle \<Rightarrow> nat" where
  "get_account_id f s = (case field_of f s of Some (St_account a) \<Rightarrow> a | _ \<Rightarrow> 0)"

text \<open>The issuer of an amount field; an absent field reads as a native amount.\<close>

definition get_field_issuer :: "nat \<Rightarrow> sle \<Rightarrow> nat" where
  "get_field_issuer f s = (case field_of f s of Some (St_amount a) \<Rightarrow> am_issuer a | _ \<Rightarrow> 0)"

text \<open>
  \<^verbatim>\<open>set_field_using_set_value\<close>: a field that is not in the template, or that is present with a
  value of another type, is left alone.
\<close>

definition set_field :: "nat \<Rightarrow> st_value \<Rightarrow> sle \<Rightarrow> sle" where
  "set_field f v s =
     (if template_has (sle_type s) f
         \<and> (case field_of f s of None \<Rightarrow> value_kind v = f div 65536 | Some w \<Rightarrow> value_kind w = value_kind v)
      then s\<lparr>sle_fields := btree_insert f v (sle_fields s)\<rparr> else s)"

text \<open>\<^verbatim>\<open>STLedgerEntry::new\<close> for a directory page: the required fields of the format, with defaults.\<close>

definition new_dir_node :: "nat \<Rightarrow> sle" where
  "new_dir_node key =
     \<lparr>sle_type = LtDirectoryNode, sle_key = key,
      sle_fields = [(sfFlags, St_u32 0), (sfRootIndex, St_h256 0), (sfIndexes, St_v256 [])]\<rparr>"

section \<open>Threading\<close>

text \<open>The rules enter through the amendment \<^verbatim>\<open>fixPreviousTxnID\<close>.\<close>

definition is_threaded_type :: "bool \<Rightarrow> sle \<Rightarrow> bool" where
  "is_threaded_type fix s \<longleftrightarrow>
     (sle_type s \<notin> {LtDirectoryNode, LtAmendments, LtFeeSettings, LtNegativeUnl, LtAMM} \<or> fix)
     \<and> template_has (sle_type s) sfPreviousTxnID"

definition thread :: "nat \<Rightarrow> nat \<Rightarrow> sle \<Rightarrow> (bool \<times> sle) option" where
  "thread tx_id ledger_seq s =
     (if get_field_h256 sfPreviousTxnID s = tx_id then
        if get_field_u32 sfPreviousTxnLgrSeq s = ledger_seq then Some (False, s) else None
      else Some (True, set_field sfPreviousTxnLgrSeq (St_u32 ledger_seq) (set_field sfPreviousTxnID (St_h256 tx_id) s)))"

definition thread_sle :: "nat \<Rightarrow> nat \<Rightarrow> bool \<Rightarrow> sle \<Rightarrow> sle option" where
  "thread_sle tx_id ledger_seq fix s =
     (let threaded =
        if sle_type s = LtAccountRoot \<and> \<not> is_field_present sfOwnerCount s
        then set_field sfOwnerCount (St_u32 0) s else s
      in if is_threaded_type fix threaded then map_option snd (thread tx_id ledger_seq threaded)
         else Some threaded)"

section \<open>Well-formed entries\<close>

fun value_ok :: "st_value \<Rightarrow> bool" where
  "value_ok (St_u32 n) \<longleftrightarrow> n < 2 ^ 32"
| "value_ok (St_u64 n) \<longleftrightarrow> n < 2 ^ 64"
| "value_ok (St_h256 n) \<longleftrightarrow> key_ok n"
| "value_ok (St_v256 ks) \<longleftrightarrow> (\<forall>k \<in> set ks. key_ok k)"
| "value_ok v \<longleftrightarrow> True"

definition sle_ok :: "sle \<Rightarrow> bool" where
  "sle_ok s \<longleftrightarrow> key_ok (sle_key s) \<and> sle_key s \<noteq> 0 \<and> has_format (sle_type s) \<and> btree_wf (sle_fields s)
     \<and> (\<forall>(f, v) \<in> set (sle_fields s). value_kind v = f div 65536 \<and> value_ok v)"

lemma set_field_type [simp]:
  "sle_type (set_field f v s) = sle_type s" "sle_key (set_field f v s) = sle_key s"
  by (simp_all add: set_field_def)

lemma sle_ok_kind: "sle_ok s \<Longrightarrow> field_of f s = Some v \<Longrightarrow> value_kind v = f div 65536 \<and> value_ok v"
  by (auto simp: sle_ok_def field_of_def dest!: map_of_SomeD)

lemma set_field_ok:
  assumes "sle_ok s" "value_kind v = f div 65536" "value_ok v"
  shows "sle_ok (set_field f v s)"
  using assms by (auto simp: sle_ok_def set_field_def set_btree_insert)

lemma field_of_set_field:
  assumes "sle_ok s" "value_kind v = f div 65536" "template_has (sle_type s) f"
  shows "field_of g (set_field f v s) = (if g = f then Some v else field_of g s)"
proof -
  have "case field_of f s of None \<Rightarrow> value_kind v = f div 65536 | Some w \<Rightarrow> value_kind w = value_kind v"
    using sle_ok_kind [OF assms(1)] assms(2) by (simp split: option.split)
  moreover have "btree_wf (sle_fields s)" using assms(1) by (simp add: sle_ok_def)
  ultimately show ?thesis using assms(3) by (simp add: set_field_def field_of_def map_rules)
qed

lemma new_dir_node_ok: "key_ok key \<Longrightarrow> key \<noteq> 0 \<Longrightarrow> sle_ok (new_dir_node key)"
  by (simp add: sle_ok_def new_dir_node_def has_format_def btree_wf_def sf_defs key_ok_def)

lemma sle_eq_refl [simp]: "sle_eq s s"
proof -
  have "value_eq v v" for v by (cases v) simp_all
  then show ?thesis by (simp add: sle_eq_def list_all2_same split: prod.split)
qed

lemma thread_sle_key:
  "thread_sle tx seq fix s = Some t \<Longrightarrow> sle_key t = sle_key s \<and> sle_type t = sle_type s"
  by (auto simp: thread_sle_def thread_def Let_def split: if_splits)

lemma thread_sle_ok:
  assumes "thread_sle tx seq fix s = Some t" "sle_ok s" "key_ok tx" "seq < 2 ^ 32"
  shows "sle_ok t"
proof -
  have *: "sle_ok (set_field sfOwnerCount (St_u32 0) s)"
    "sle_ok x \<Longrightarrow> sle_ok (set_field sfPreviousTxnLgrSeq (St_u32 seq) (set_field sfPreviousTxnID (St_h256 tx) x))" for x
    using assms(2-4) by (auto intro!: set_field_ok simp: sf_defs)
  show ?thesis using assms(1,2) * by (auto simp: thread_sle_def thread_def Let_def split: if_splits)
qed

end
