(* ===== verification/Ledger_View.thy ===== *)
theory Ledger_View
  imports Ledger_Entry SHAMap_Ops SHAMap_Iterate
begin

text \<open>
  The view traits (\<^verbatim>\<open>ReadView\<close>, \<^verbatim>\<open>RawView\<close>) and their implementation by a closed ledger. A trait
  object is a record of its methods, a method that changes the view returns the changed view, and
  \<^verbatim>\<open>Result\<close> is a sum with the error on the left. A panic and a loop that does not end are errors of
  the model (\<open>Panic\<close>, \<open>Diverged\<close>): they pass through the code the way an error does. A ledger
  keeps its entries serialized in a SHAMap; the binary format enters as a codec.
\<close>

section \<open>Results\<close>

datatype traversal_error = Traversal_MissingNode nat | Traversal_RootNotFound | Traversal_View

datatype tx_read_error = TxRead_Traversal traversal_error | TxRead_Decode string

text \<open>
  \<^verbatim>\<open>ViewError\<close>, with a panic and a loop that runs out of its bound as two further results. The trees of
  the model are loaded, so that their traversal does not fail.
\<close>

datatype view_error =
  Traversal traversal_error | TxRead tx_read_error | Mutation mutation_error | DuplicateTx nat | MissingMetadata nat | InvalidFee int | Conversion string
| Panic | Diverged

type_synonym 'a vres = "view_error + 'a"

text \<open>The \<^verbatim>\<open>?\<close> operator.\<close>

definition and_then :: "'a vres \<Rightarrow> ('a \<Rightarrow> 'b vres) \<Rightarrow> 'b vres" where
  "and_then r f = (case r of Inl e \<Rightarrow> Inl e | Inr x \<Rightarrow> f x)"

lemma and_then_simps [simp]: "and_then (Inl e) f = Inl e" "and_then (Inr x) f = f x"
  by (simp_all add: and_then_def)

lemma and_then_Inr: "and_then r f = Inr y \<longleftrightarrow> (\<exists>x. r = Inr x \<and> f x = Inr y)"
  by (cases r) simp_all

definition no_panic :: "'a option \<Rightarrow> 'a vres" where
  "no_panic r = (case r of None \<Rightarrow> Inl Panic | Some x \<Rightarrow> Inr x)"

lemma no_panic_simps [simp]: "no_panic None = Inl Panic" "no_panic (Some x) = Inr x"
  by (simp_all add: no_panic_def)

section \<open>The traits\<close>

record header =
  h_seq :: nat
  h_drops :: nat
  h_hash :: nat
  h_parent_hash :: nat
  h_tx_hash :: nat
  h_account_hash :: nat
  h_parent_close_time :: nat
  h_close_time :: nat
  h_validated :: bool
  h_accepted :: bool
  h_close_time_resolution :: nat
  h_close_flags :: nat

record 'v read_ops =
  r_open :: "'v \<Rightarrow> bool"
  r_header :: "'v \<Rightarrow> header"
  r_exists :: "'v \<Rightarrow> keylet \<Rightarrow> bool vres"
  r_succ :: "'v \<Rightarrow> nat \<Rightarrow> nat option \<Rightarrow> nat option vres"
  r_read :: "'v \<Rightarrow> keylet \<Rightarrow> sle option vres"

datatype batch_op = Batch_Insert | Batch_Update | Batch_Delete

record 'v raw_ops =
  w_erase :: "'v \<Rightarrow> sle \<Rightarrow> 'v vres"
  w_insert :: "'v \<Rightarrow> sle \<Rightarrow> 'v vres"
  w_replace :: "'v \<Rightarrow> sle \<Rightarrow> 'v vres"
  w_destroy :: "'v \<Rightarrow> int \<Rightarrow> 'v vres"
  w_batch :: "'v \<Rightarrow> (batch_op \<times> sle) list \<Rightarrow> 'v vres"

text \<open>\<^verbatim>\<open>raw_apply_sle_batch\<close> of the trait, for views that do not override it.\<close>

fun default_batch ::
  "('v \<Rightarrow> sle \<Rightarrow> 'v vres) \<Rightarrow> ('v \<Rightarrow> sle \<Rightarrow> 'v vres) \<Rightarrow> ('v \<Rightarrow> sle \<Rightarrow> 'v vres)
    \<Rightarrow> 'v \<Rightarrow> (batch_op \<times> sle) list \<Rightarrow> 'v vres" where
  "default_batch ins rep era v [] = Inr v"
| "default_batch ins rep era v ((op, s) # ops) =
     and_then (case op of Batch_Insert \<Rightarrow> ins v s | Batch_Update \<Rightarrow> rep v s | Batch_Delete \<Rightarrow> era v s)
       (\<lambda>v'. default_batch ins rep era v' ops)"

section \<open>The closed ledger\<close>

text \<open>
  The binary format: \<^verbatim>\<open>get_serializer\<close>, and \<^verbatim>\<open>try_from_serial_iter\<close> on the whole payload for a key.
\<close>

record sle_codec =
  sle_enc :: "sle \<Rightarrow> nat list"
  sle_dec :: "nat list \<Rightarrow> nat \<Rightarrow> sle option"

record ledger =
  l_header :: header
  l_state :: sha_node

definition parse_state_sle :: "sle_codec \<Rightarrow> nat list \<Rightarrow> keylet \<Rightarrow> sle option" where
  "parse_state_sle C payload k =
     (case sle_dec C payload (k_key k) of
        None \<Rightarrow> None
      | Some s \<Rightarrow> if check_ledger_entry k (sle_type s) (sle_key s) then Some s else None)"

definition exists_keylet :: "ledger \<Rightarrow> keylet \<Rightarrow> bool vres" where
  "exists_keylet l k = no_panic (has_item (k_key k) (l_state l))"

definition ledger_succ :: "ledger \<Rightarrow> nat \<Rightarrow> nat option \<Rightarrow> nat option vres" where
  "ledger_succ l key bound =
     and_then (no_panic (upper_bound key (l_state l)))
       (\<lambda>leaf. Inr (case leaf of
          Some (Leaf_node t it) \<Rightarrow>
            (case bound of
               None \<Rightarrow> Some (item_key it)
             | Some b \<Rightarrow> if item_key it \<ge> b then None else Some (item_key it))
        | _ \<Rightarrow> None))"

definition ledger_read :: "sle_codec \<Rightarrow> ledger \<Rightarrow> keylet \<Rightarrow> sle option vres" where
  "ledger_read C l k =
     (if k_key k = 0 then Inr None
      else and_then (no_panic (peek_item (k_key k) (l_state l)))
        (\<lambda>item. Inr (case item of None \<Rightarrow> None | Some it \<Rightarrow> parse_state_sle C (item_data it) k)))"

definition ledger_reads :: "sle_codec \<Rightarrow> ledger read_ops" where
  "ledger_reads C =
     \<lparr>r_open = (\<lambda>l. False), r_header = l_header, r_exists = exists_keylet, r_succ = ledger_succ,
      r_read = ledger_read C\<rparr>"

text \<open>
  \<^verbatim>\<open>apply_state_batch\<close>: the operations run on a detached tree that is published only when all of
  them succeed.
\<close>

fun batch_loop :: "(batch_op \<times> nat \<times> nat list) list \<Rightarrow> sha_node \<Rightarrow> sha_node vres" where
  "batch_loop [] tree = Inr tree"
| "batch_loop ((Batch_Insert, key, payload) # ops) tree =
     and_then (no_panic (add_item AccountState \<lparr>item_key = key, item_data = payload\<rparr> tree))
       (\<lambda>r. case r of
          Inl e \<Rightarrow> Inl (Mutation e)
        | Inr (inserted, tree') \<Rightarrow>
            if \<not> inserted then Inl (Mutation (DuplicateExactLeaf key)) else batch_loop ops tree')"
| "batch_loop ((Batch_Update, key, payload) # ops) tree =
     and_then (no_panic (update_item AccountState \<lparr>item_key = key, item_data = payload\<rparr> tree))
       (\<lambda>r. case r of Inl e \<Rightarrow> Inl (Mutation e) | Inr (b, tree') \<Rightarrow> batch_loop ops tree')"
| "batch_loop ((Batch_Delete, key, payload) # ops) tree =
     and_then (no_panic (delete_item key tree))
       (\<lambda>(deleted, tree').
          if \<not> deleted then Inl (Mutation (MissingExactLeaf key)) else batch_loop ops tree')"

definition apply_state_batch :: "ledger \<Rightarrow> (batch_op \<times> nat \<times> nat list) list \<Rightarrow> ledger vres" where
  "apply_state_batch l ops =
     (if ops = [] then Inr l
      else and_then (batch_loop ops (l_state l)) (\<lambda>tree. Inr (l\<lparr>l_state := tree\<rparr>)))"

definition ledger_raw_erase :: "ledger \<Rightarrow> sle \<Rightarrow> ledger vres" where
  "ledger_raw_erase l s = apply_state_batch l [(Batch_Delete, sle_key s, [])]"

definition ledger_raw_insert :: "sle_codec \<Rightarrow> ledger \<Rightarrow> sle \<Rightarrow> ledger vres" where
  "ledger_raw_insert C l s = apply_state_batch l [(Batch_Insert, sle_key s, sle_enc C s)]"

definition ledger_raw_replace :: "sle_codec \<Rightarrow> ledger \<Rightarrow> sle \<Rightarrow> ledger vres" where
  "ledger_raw_replace C l s = apply_state_batch l [(Batch_Update, sle_key s, sle_enc C s)]"

definition ledger_raw_destroy_xrp :: "ledger \<Rightarrow> int \<Rightarrow> ledger vres" where
  "ledger_raw_destroy_xrp l fee =
     (if fee < 0 then Inl (InvalidFee fee)
      else if nat fee \<le> h_drops (l_header l)
      then Inr (l\<lparr>l_header := (l_header l)\<lparr>h_drops := h_drops (l_header l) - nat fee\<rparr>\<rparr>)
      else Inl (InvalidFee fee))"

definition ledger_raw_apply_sle_batch ::
  "sle_codec \<Rightarrow> ledger \<Rightarrow> (batch_op \<times> sle) list \<Rightarrow> ledger vres" where
  "ledger_raw_apply_sle_batch C l ops =
     apply_state_batch l (map (\<lambda>(op, s). (op, sle_key s, sle_enc C s)) ops)"

definition ledger_raw :: "sle_codec \<Rightarrow> ledger raw_ops" where
  "ledger_raw C =
     \<lparr>w_erase = ledger_raw_erase, w_insert = ledger_raw_insert C, w_replace = ledger_raw_replace C,
      w_destroy = ledger_raw_destroy_xrp, w_batch = ledger_raw_apply_sle_batch C\<rparr>"

section \<open>Entries in key order\<close>

text \<open>\<^verbatim>\<open>sles\<close> of the ledger and of the open view, the same loop over their \<^verbatim>\<open>succ\<close> and \<^verbatim>\<open>read\<close>.\<close>

partial_function (option) sles_loop :: "'v read_ops \<Rightarrow> 'v \<Rightarrow> nat \<Rightarrow> sle list \<Rightarrow> sle list vres option" where
  "sles_loop R v current result =
     (case r_succ R v current None of
        Inl e \<Rightarrow> Some (Inl e)
      | Inr None \<Rightarrow> Some (Inr result)
      | Inr (Some k) \<Rightarrow>
          (case r_read R v \<lparr>k_key = k, k_type = LtAny\<rparr> of
             Inl e \<Rightarrow> Some (Inl e)
           | Inr None \<Rightarrow> sles_loop R v k result
           | Inr (Some s) \<Rightarrow> sles_loop R v k (result @ [s])))"

definition sles :: "'v read_ops \<Rightarrow> 'v \<Rightarrow> sle list vres option" where
  "sles R v = sles_loop R v 0 []"

section \<open>The contract of a view\<close>

text \<open>A state is a finite map from keys to well-formed entries filed under their keys.\<close>

type_synonym state = "nat \<rightharpoonup> sle"

definition state_ok :: "state \<Rightarrow> bool" where
  "state_ok M \<longleftrightarrow> finite (dom M) \<and> (\<forall>k s. M k = Some s \<longrightarrow> sle_key s = k \<and> sle_ok s)"

text \<open>A keylet fits a state if the entry under its key, if any, is of the type it asks for.\<close>

definition fits :: "keylet \<Rightarrow> state \<Rightarrow> bool" where
  "fits k M \<longleftrightarrow> (\<forall>s. M (k_key k) = Some s \<longrightarrow> check_ledger_entry k (sle_type s) (sle_key s))"

definition within :: "nat option \<Rightarrow> nat \<Rightarrow> bool" where
  "within b j = (case b of None \<Rightarrow> True | Some l \<Rightarrow> j < l)"

definition next_key :: "state \<Rightarrow> nat \<Rightarrow> nat option \<Rightarrow> nat option" where
  "next_key M k b =
     (let S = {j \<in> dom M. k < j \<and> within b j} in if S = {} then None else Some (Min S))"

lemma next_key_None: "next_key M k b = None \<longleftrightarrow> (\<forall>j \<in> dom M. k < j \<longrightarrow> \<not> within b j)"
  by (auto simp: next_key_def Let_def)

lemma next_key_Some:
  assumes "finite (dom M)"
  shows "next_key M k b = Some c \<longleftrightarrow>
    c \<in> dom M \<and> k < c \<and> within b c \<and> (\<forall>j \<in> dom M. k < j \<longrightarrow> within b j \<longrightarrow> c \<le> j)"
proof -
  let ?S = "{j \<in> dom M. k < j \<and> within b j}"
  have fin: "finite ?S" using assms by simp
  show ?thesis
  proof
    assume "next_key M k b = Some c"
    then have "?S \<noteq> {}" "c = Min ?S" by (simp_all add: next_key_def Let_def split: if_splits)
    then have "c \<in> ?S" "\<forall>j \<in> ?S. c \<le> j" using Min_in [OF fin] Min_le [OF fin] by simp_all
    then show "c \<in> dom M \<and> k < c \<and> within b c \<and> (\<forall>j \<in> dom M. k < j \<longrightarrow> within b j \<longrightarrow> c \<le> j)" by blast
  next
    assume c: "c \<in> dom M \<and> k < c \<and> within b c \<and> (\<forall>j \<in> dom M. k < j \<longrightarrow> within b j \<longrightarrow> c \<le> j)"
    then have "Min ?S = c" using fin by (intro Min_eqI) auto
    then show "next_key M k b = Some c" using c by (auto simp: next_key_def Let_def)
  qed
qed

text \<open>
  What a view promises to its readers: as far as the keylets fit, \<^verbatim>\<open>exists\<close> and \<^verbatim>\<open>read\<close> are lookup
  in its state and \<^verbatim>\<open>succ\<close> is the next key; the remaining drops are what is left to destroy.
\<close>

locale read_view =
  fixes R :: "'v read_ops"
    and vok :: "'v \<Rightarrow> bool"
    and vmap :: "'v \<Rightarrow> state"
    and vdrops :: "'v \<Rightarrow> int"
  assumes abs_ok: "vok v \<Longrightarrow> state_ok (vmap v)"
    and supply_range: "vok v \<Longrightarrow> 0 \<le> vdrops v \<and> vdrops v < 2 ^ 63"
    and exists_abs: "vok v \<Longrightarrow> fits k (vmap v) \<Longrightarrow> r_exists R v k = Inr (vmap v (k_key k) \<noteq> None)"
    and read_abs: "vok v \<Longrightarrow> fits k (vmap v) \<Longrightarrow> r_read R v k = Inr (vmap v (k_key k))"
    and succ_abs: "vok v \<Longrightarrow> key_ok j \<Longrightarrow> r_succ R v j b = Inr (next_key (vmap v) j b)"

context read_view
begin

lemma sles_loop_abs:
  assumes "vok v" "key_ok k"
  shows "sles_loop R v k result = Some (Inr (result @
    map (\<lambda>j. the (vmap v j)) (sorted_list_of_set {j \<in> dom (vmap v). k < j})))"
  using assms(2)
proof (induction "card {j \<in> dom (vmap v). k < j}" arbitrary: k result rule: less_induct)
  case less
  let ?S = "\<lambda>k. {j \<in> dom (vmap v). k < j}"
  have fin: "finite (dom (vmap v))" using abs_ok [OF assms(1)] by (simp add: state_ok_def)
  note succ = succ_abs [OF assms(1) less.prems, of None]
  show ?case
  proof (cases "next_key (vmap v) k None")
    case None
    then have "?S k = {}" by (auto simp: next_key_None within_def)
    then have "sorted_list_of_set (?S k) = []" by (simp only: sorted_list_of_set_empty)
    then show ?thesis using succ None by (subst sles_loop.simps) simp
  next
    case (Some c)
    then have c: "c \<in> dom (vmap v)" "k < c" "\<forall>j \<in> dom (vmap v). k < j \<longrightarrow> c \<le> j"
      by (simp_all add: next_key_Some [OF fin] within_def)
    then obtain s where s: "vmap v c = Some s" "sle_key s = c" "sle_ok s"
      using abs_ok [OF assms(1)] by (auto simp: state_ok_def)
    have read: "r_read R v \<lparr>k_key = c, k_type = LtAny\<rparr> = Inr (Some s)"
      using read_abs [OF assms(1), of "\<lparr>k_key = c, k_type = LtAny\<rparr>"] s by (simp add: fits_def check_any)
    have S: "?S k = insert c (?S c)" "c \<notin> ?S c" using c by (auto simp: order.order_iff_strict)
    have "sorted_list_of_set (?S k) = c # sorted_list_of_set (?S c)"
      using fin by (subst S(1), subst sorted_list_of_set_insert_remove) (auto simp: insort_is_Cons)
    moreover have "sles_loop R v c (result @ [s]) = Some (Inr ((result @ [s]) @
      map (\<lambda>j. the (vmap v j)) (sorted_list_of_set (?S c))))"
      using fin s by (intro less.hyps) (simp_all add: S(1) sle_ok_def)
    ultimately show ?thesis using succ Some read s by (subst sles_loop.simps) simp
  qed
qed

lemma sles_abs:
  assumes "vok v"
  shows "sles R v = Some (Inr (map (\<lambda>j. the (vmap v j)) (sorted_list_of_set (dom (vmap v)))))"
proof -
  have "0 < j" if "j \<in> dom (vmap v)" for j
    using abs_ok [OF assms] that by (auto simp: state_ok_def sle_ok_def)
  then have "{j \<in> dom (vmap v). 0 < j} = dom (vmap v)" by blast
  then show ?thesis using sles_loop_abs [OF assms, of 0 "[]"] by (simp add: sles_def key_ok_def)
qed

end

text \<open>What it promises to its writers, on requests that the state allows.\<close>

fun map_batch :: "state \<Rightarrow> (batch_op \<times> sle) list \<Rightarrow> state option" where
  "map_batch M [] = Some M"
| "map_batch M ((Batch_Insert, s) # ops) =
     (if M (sle_key s) = None \<and> sle_ok s then map_batch (M(sle_key s \<mapsto> s)) ops else None)"
| "map_batch M ((Batch_Update, s) # ops) =
     (if M (sle_key s) \<noteq> None \<and> sle_ok s then map_batch (M(sle_key s \<mapsto> s)) ops else None)"
| "map_batch M ((Batch_Delete, s) # ops) =
     (if M (sle_key s) \<noteq> None \<and> sle_ok s then map_batch (M(sle_key s := None)) ops else None)"

definition becomes ::
  "('v \<Rightarrow> bool) \<Rightarrow> ('v \<Rightarrow> state) \<Rightarrow> ('v \<Rightarrow> int) \<Rightarrow> 'v vres \<Rightarrow> state \<Rightarrow> int \<Rightarrow> bool" where
  "becomes vok vmap vdrops r M d \<longleftrightarrow> (\<exists>v. r = Inr v \<and> vok v \<and> vmap v = M \<and> vdrops v = d)"

locale raw_view =
  fixes W :: "'v raw_ops"
    and vok :: "'v \<Rightarrow> bool"
    and vmap :: "'v \<Rightarrow> state"
    and vdrops :: "'v \<Rightarrow> int"
  assumes batch_abs: "vok v \<Longrightarrow> map_batch (vmap v) ops = Some M
      \<Longrightarrow> becomes vok vmap vdrops (w_batch W v ops) M (vdrops v)"
    and insert_abs: "vok v \<Longrightarrow> vmap v (sle_key s) = None \<Longrightarrow> sle_ok s
      \<Longrightarrow> becomes vok vmap vdrops (w_insert W v s) ((vmap v)(sle_key s \<mapsto> s)) (vdrops v)"
    and replace_abs: "vok v \<Longrightarrow> vmap v (sle_key s) \<noteq> None \<Longrightarrow> sle_ok s
      \<Longrightarrow> becomes vok vmap vdrops (w_replace W v s) ((vmap v)(sle_key s \<mapsto> s)) (vdrops v)"
    and erase_abs: "vok v \<Longrightarrow> vmap v (sle_key s) \<noteq> None \<Longrightarrow> sle_ok s
      \<Longrightarrow> becomes vok vmap vdrops (w_erase W v s) ((vmap v)(sle_key s := None)) (vdrops v)"
    and destroy_abs: "vok v \<Longrightarrow> 0 \<le> fee \<Longrightarrow> fee \<le> vdrops v
      \<Longrightarrow> becomes vok vmap vdrops (w_destroy W v fee) (vmap v) (vdrops v - fee)"

section \<open>The ledger keeps the contract\<close>

text \<open>
  What is asked of the binary format: decoding what was encoded, under the same key, gives the entry
  back. The state of a ledger is what decoding its items gives.
\<close>

definition codec_ok :: "sle_codec \<Rightarrow> bool" where
  "codec_ok C \<longleftrightarrow> (\<forall>s. sle_ok s \<longrightarrow> sle_dec C (sle_enc C s) (sle_key s) = Some s)"

definition ledger_item :: "sle_codec \<Rightarrow> nat \<Rightarrow> sle \<Rightarrow> sha_item" where
  "ledger_item C k s = \<lparr>item_key = k, item_data = sle_enc C s\<rparr>"

definition ledger_map :: "sle_codec \<Rightarrow> ledger \<Rightarrow> state" where
  "ledger_map C l k = (case contents (l_state l) k of None \<Rightarrow> None | Some it \<Rightarrow> sle_dec C (item_data it) k)"

definition ledger_ok :: "sle_codec \<Rightarrow> ledger \<Rightarrow> bool" where
  "ledger_ok C l \<longleftrightarrow> codec_ok C \<and> sha_root AccountState (l_state l) \<and> h_drops (l_header l) < 2 ^ 63
     \<and> (\<forall>k it. contents (l_state l) k = Some it \<longrightarrow>
          (\<exists>s. it = ledger_item C k s \<and> sle_ok s \<and> sle_key s = k))"

definition ledger_drops :: "ledger \<Rightarrow> int" where
  "ledger_drops l = int (h_drops (l_header l))"

lemma ledger_contents:
  assumes "ledger_ok C l"
  shows "contents (l_state l) k = map_option (ledger_item C k) (ledger_map C l k)"
proof (cases "contents (l_state l) k")
  case (Some it)
  then obtain s where "it = ledger_item C k s" "sle_ok s" "sle_key s = k"
    using assms by (auto simp: ledger_ok_def)
  then show ?thesis using Some assms by (auto simp: ledger_map_def ledger_item_def ledger_ok_def codec_ok_def)
qed (simp add: ledger_map_def)

lemma ledger_map_Some:
  assumes "ledger_ok C l" "ledger_map C l k = Some s"
  shows "sle_key s = k \<and> sle_ok s"
proof -
  obtain it where it: "contents (l_state l) k = Some it" "sle_dec C (item_data it) k = Some s"
    using assms(2) by (auto simp: ledger_map_def split: option.splits)
  obtain s' where "it = ledger_item C k s'" "sle_ok s'" "sle_key s' = k"
    using assms(1) it(1) by (auto simp: ledger_ok_def)
  then show ?thesis using it(2) assms(1) by (auto simp: ledger_item_def ledger_ok_def codec_ok_def)
qed

lemma dom_ledger_map: "ledger_ok C l \<Longrightarrow> dom (ledger_map C l) = dom (contents (l_state l))"
  by (auto simp: dom_def ledger_contents)

lemma ledger_state_ok: "ledger_ok C l \<Longrightarrow> state_ok (ledger_map C l)"
  using finite_dom_contents [of "l_state l"] ledger_map_Some
  by (simp add: state_ok_def dom_ledger_map)

lemma ledger_root: "ledger_ok C l \<Longrightarrow> sha_wf AccountState 0 (l_state l)"
  by (simp add: ledger_ok_def sha_root_def)

lemma ledger_read_abs:
  assumes "ledger_ok C l" "fits k (ledger_map C l)"
  shows "ledger_read C l k = Inr (ledger_map C l (k_key k))"
proof (cases "k_key k = 0")
  case True
  have "ledger_map C l (k_key k) \<noteq> Some s" for s
    using ledger_map_Some [OF assms(1), of "k_key k" s] True by (auto simp: sle_ok_def)
  then have "ledger_map C l (k_key k) = None" by (meson not_Some_eq)
  then show ?thesis using True by (simp add: ledger_read_def)
next
  case False
  have peek: "peek_item (k_key k) (l_state l) = Some (contents (l_state l) (k_key k))"
    by (rule peek_item_contents [OF ledger_root [OF assms(1)]])
  show ?thesis
  proof (cases "ledger_map C l (k_key k)")
    case None
    then show ?thesis using False peek by (simp add: ledger_read_def ledger_contents [OF assms(1)])
  next
    case (Some s)
    then have "sle_dec C (sle_enc C s) (k_key k) = Some s"
      using ledger_map_Some [OF assms(1) Some] assms(1) by (auto simp: ledger_ok_def codec_ok_def)
    then show ?thesis
      using False peek Some assms(2)
      by (simp add: ledger_read_def ledger_contents [OF assms(1)] ledger_item_def parse_state_sle_def fits_def)
  qed
qed

lemma ledger_succ_abs:
  assumes "ledger_ok C l" "key_ok k"
  shows "ledger_succ l k b = Inr (next_key (ledger_map C l) k b)"
proof -
  let ?S = "{j \<in> dom (contents (l_state l)). k < j}"
  have fin: "finite ?S" using finite_dom_contents [of "l_state l"] by simp
  note ub = upper_bound_least [OF ledger_root [OF assms(1)] assms(2)]
  show ?thesis
  proof (cases "?S = {}")
    case True
    then have "next_key (ledger_map C l) k b = None" by (auto simp: next_key_None dom_ledger_map [OF assms(1)])
    then show ?thesis using True ub by (simp add: ledger_succ_def Let_def)
  next
    case False
    let ?m = "Min ?S"
    have m: "?m \<in> ?S" by (rule Min_in [OF fin False])
    have le: "?m \<le> j" if "j \<in> ?S" for j using Min_le [OF fin that] .
    obtain it where it: "contents (l_state l) ?m = Some it" using m by blast
    then have key: "item_key it = ?m" using contents_Some [OF ledger_root [OF assms(1)]] by blast
    have "upper_bound k (l_state l) = Some (Some (Leaf_node AccountState it))"
      using False ub it by (simp only: Let_def if_False option.sel)
    then have "ledger_succ l k b = Inr (if within b ?m then Some ?m else None)"
      using key by (simp add: ledger_succ_def within_def not_less split: option.split)
    moreover have "next_key (ledger_map C l) k b = (if within b ?m then Some ?m else None)"
    proof (cases "within b ?m")
      case True
      then have "next_key (ledger_map C l) k b = Some ?m"
        using m le ledger_state_ok [OF assms(1)] by (subst next_key_Some) (auto simp: state_ok_def dom_ledger_map [OF assms(1)])
      then show ?thesis using True by simp
    next
      case False
      then have "\<not> within b j" if "j \<in> ?S" for j using le [OF that] by (auto simp: within_def split: option.splits)
      then have "next_key (ledger_map C l) k b = None" by (auto simp: next_key_None dom_ledger_map [OF assms(1)])
      then show ?thesis using False by simp
    qed
    ultimately show ?thesis by simp
  qed
qed

interpretation led: read_view "ledger_reads C" "ledger_ok C" "ledger_map C" ledger_drops for C
proof
  fix l assume ok: "ledger_ok C l"
  show "state_ok (ledger_map C l)" by (rule ledger_state_ok [OF ok])
  show "0 \<le> ledger_drops l \<and> ledger_drops l < 2 ^ 63" using ok by (simp add: ledger_drops_def ledger_ok_def)
  show "r_succ (ledger_reads C) l j b = Inr (next_key (ledger_map C l) j b)" if "key_ok j" for j b
    using ledger_succ_abs [OF ok that] by (simp add: ledger_reads_def)
  fix k assume f: "fits k (ledger_map C l)"
  show "r_read (ledger_reads C) l k = Inr (ledger_map C l (k_key k))"
    using ledger_read_abs [OF ok f] by (simp add: ledger_reads_def)
  have "has_item (k_key k) (l_state l) = Some (ledger_map C l (k_key k) \<noteq> None)"
    using has_item_contents [OF ledger_root [OF ok]] by (simp add: ledger_contents [OF ok])
  then show "r_exists (ledger_reads C) l k = Inr (ledger_map C l (k_key k) \<noteq> None)"
    by (simp add: ledger_reads_def exists_keylet_def)
qed

lemma ledger_put:
  assumes "ledger_ok C l" "sle_ok s" "sha_root AccountState n"
    and "contents n = (contents (l_state l))(sle_key s \<mapsto> ledger_item C (sle_key s) s)"
  shows "ledger_ok C (l\<lparr>l_state := n\<rparr>)" "ledger_map C (l\<lparr>l_state := n\<rparr>) = (ledger_map C l)(sle_key s \<mapsto> s)"
proof -
  show "ledger_ok C (l\<lparr>l_state := n\<rparr>)" using assms by (auto simp: ledger_ok_def split: if_splits)
  have "sle_dec C (sle_enc C s) (sle_key s) = Some s" using assms(1,2) by (simp add: ledger_ok_def codec_ok_def)
  then show "ledger_map C (l\<lparr>l_state := n\<rparr>) = (ledger_map C l)(sle_key s \<mapsto> s)"
    using assms(4) by (auto simp: ledger_map_def ledger_item_def)
qed

lemma ledger_del:
  assumes "ledger_ok C l" "sha_root AccountState n" "contents n = (contents (l_state l))(k := None)"
  shows "ledger_ok C (l\<lparr>l_state := n\<rparr>)" "ledger_map C (l\<lparr>l_state := n\<rparr>) = (ledger_map C l)(k := None)"
proof -
  show "ledger_ok C (l\<lparr>l_state := n\<rparr>)" using assms by (auto simp: ledger_ok_def split: if_splits)
  show "ledger_map C (l\<lparr>l_state := n\<rparr>) = (ledger_map C l)(k := None)"
    using assms(3) by (auto simp: ledger_map_def)
qed

lemma sha_answer_Inr: "sha_answer n r = (Inr b, n') \<longleftrightarrow> r = Inr (b, n')"
  by (auto simp: sha_answer_def split: sum.splits)

lemma tree_add:
  assumes "sha_root ty n" "key_ok (item_key it)" "contents n (item_key it) = None"
  obtains n' where "add_item ty it n = Some (Inr (True, n'))" "sha_root ty n'" "contents n' = (contents n)(item_key it \<mapsto> it)"
  using sha_step_refines [OF assms(1), of "Add_item it"] assms(2,3) by (auto simp: sha_answer_Inr)

lemma tree_update:
  assumes "sha_root ty n" "key_ok (item_key it)" "contents n (item_key it) \<noteq> None"
  obtains n' where "update_item ty it n = Some (Inr (True, n'))" "sha_root ty n'" "contents n' = (contents n)(item_key it \<mapsto> it)"
  using sha_step_refines [OF assms(1), of "Update_item it"] assms(2,3) by (auto simp: sha_answer_Inr)

lemma tree_delete:
  assumes "sha_root ty n" "contents n k \<noteq> None"
  obtains n' where "delete_item k n = Some (True, n')" "sha_root ty n'" "contents n' = (contents n)(k := None)"
  using sha_step_refines [OF assms(1), of "Delete_item k"] assms(2) by auto

lemma batch_loop_abs:
  assumes "ledger_ok C l" "map_batch (ledger_map C l) ops = Some M"
    "list_all2 (\<lambda>(op, s) (op', k, p). op' = op \<and> k = sle_key s \<and> (op = Batch_Delete \<or> p = sle_enc C s)) ops raw"
  shows "\<exists>n. batch_loop raw (l_state l) = Inr n \<and> ledger_ok C (l\<lparr>l_state := n\<rparr>) \<and> ledger_map C (l\<lparr>l_state := n\<rparr>) = M"
  using assms
proof (induction ops arbitrary: l raw)
  case Nil
  then show ?case by simp
next
  case (Cons e ops)
  obtain op s where e: "e = (op, s)" by fastforce
  obtain p raw' where raw: "raw = (op, sle_key s, p) # raw'" "op = Batch_Delete \<or> p = sle_enc C s"
      and raw': "list_all2 (\<lambda>(op, s) (op', k, p). op' = op \<and> k = sle_key s \<and> (op = Batch_Delete \<or> p = sle_enc C s)) ops raw'"
    using Cons.prems(3) e by (auto simp: list_all2_Cons1)
  have root: "sha_root AccountState (l_state l)" using Cons.prems(1) by (simp add: ledger_ok_def)
  have next_step: "\<exists>n'. batch_loop raw' n = Inr n' \<and> ledger_ok C (l\<lparr>l_state := n'\<rparr>) \<and> ledger_map C (l\<lparr>l_state := n'\<rparr>) = M"
    if "ledger_ok C (l\<lparr>l_state := n\<rparr>)" "map_batch (ledger_map C (l\<lparr>l_state := n\<rparr>)) ops = Some M" for n
    using Cons.IH [OF that raw'] by simp
  show ?case
  proof (cases op)
    case Batch_Insert
    then have s: "ledger_map C l (sle_key s) = None" "sle_ok s" "map_batch ((ledger_map C l)(sle_key s \<mapsto> s)) ops = Some M"
      using Cons.prems(2) e by (simp_all split: if_splits)
    have "contents (l_state l) (sle_key s) = None" "key_ok (sle_key s)"
      using s by (simp_all add: ledger_contents [OF Cons.prems(1)] sle_ok_def)
    then obtain n where n: "add_item AccountState (ledger_item C (sle_key s) s) (l_state l) = Some (Inr (True, n))"
        "sha_root AccountState n" "contents n = (contents (l_state l))(sle_key s \<mapsto> ledger_item C (sle_key s) s)"
      using tree_add [OF root, of "ledger_item C (sle_key s) s"] by (auto simp: ledger_item_def)
    note put = ledger_put [OF Cons.prems(1) s(2) n(2,3)]
    show ?thesis using next_step [OF put(1)] put(2) s(3) n(1) raw Batch_Insert by (simp add: ledger_item_def)
  next
    case Batch_Update
    then have s: "ledger_map C l (sle_key s) \<noteq> None" "sle_ok s" "map_batch ((ledger_map C l)(sle_key s \<mapsto> s)) ops = Some M"
      using Cons.prems(2) e by (simp_all split: if_splits)
    have "contents (l_state l) (sle_key s) \<noteq> None" "key_ok (sle_key s)"
      using s by (simp_all add: ledger_contents [OF Cons.prems(1)] sle_ok_def)
    then obtain n where n: "update_item AccountState (ledger_item C (sle_key s) s) (l_state l) = Some (Inr (True, n))"
        "sha_root AccountState n" "contents n = (contents (l_state l))(sle_key s \<mapsto> ledger_item C (sle_key s) s)"
      using tree_update [OF root, of "ledger_item C (sle_key s) s"] by (auto simp: ledger_item_def)
    note put = ledger_put [OF Cons.prems(1) s(2) n(2,3)]
    show ?thesis using next_step [OF put(1)] put(2) s(3) n(1) raw Batch_Update by (simp add: ledger_item_def)
  next
    case Batch_Delete
    then have s: "ledger_map C l (sle_key s) \<noteq> None" "map_batch ((ledger_map C l)(sle_key s := None)) ops = Some M"
      using Cons.prems(2) e by (simp_all split: if_splits)
    have "contents (l_state l) (sle_key s) \<noteq> None"
      using s by (simp add: ledger_contents [OF Cons.prems(1)])
    then obtain n where n: "delete_item (sle_key s) (l_state l) = Some (True, n)"
        "sha_root AccountState n" "contents n = (contents (l_state l))(sle_key s := None)"
      using tree_delete [OF root] by blast
    note del = ledger_del [OF Cons.prems(1) n(2,3)]
    show ?thesis using next_step [OF del(1)] del(2) s(2) n(1) raw Batch_Delete by simp
  qed
qed

lemma apply_state_batch_abs:
  assumes "ledger_ok C l" "map_batch (ledger_map C l) ops = Some M"
    "list_all2 (\<lambda>(op, s) (op', k, p). op' = op \<and> k = sle_key s \<and> (op = Batch_Delete \<or> p = sle_enc C s)) ops raw"
  shows "becomes (ledger_ok C) (ledger_map C) ledger_drops (apply_state_batch l raw) M (ledger_drops l)"
proof -
  obtain n where "batch_loop raw (l_state l) = Inr n" "ledger_ok C (l\<lparr>l_state := n\<rparr>)" "ledger_map C (l\<lparr>l_state := n\<rparr>) = M"
    using batch_loop_abs [OF assms] by blast
  then show ?thesis
    using assms by (cases raw) (auto simp: becomes_def apply_state_batch_def ledger_drops_def)
qed

interpretation led_raw: raw_view "ledger_raw C" "ledger_ok C" "ledger_map C" ledger_drops for C
proof
  fix l assume ok: "ledger_ok C l"
  note batch = apply_state_batch_abs [OF ok]
  show "becomes (ledger_ok C) (ledger_map C) ledger_drops (w_batch (ledger_raw C) l ops) M (ledger_drops l)"
    if "map_batch (ledger_map C l) ops = Some M" for ops M
    by (simp add: ledger_raw_def ledger_raw_apply_sle_batch_def, rule batch [OF that])
      (auto simp: list.rel_map list_all2_same)
  show "becomes (ledger_ok C) (ledger_map C) ledger_drops (w_insert (ledger_raw C) l s) ((ledger_map C l)(sle_key s \<mapsto> s)) (ledger_drops l)"
    if "ledger_map C l (sle_key s) = None" "sle_ok s" for s
    using batch [of "[(Batch_Insert, s)]"] that by (simp add: ledger_raw_def ledger_raw_insert_def)
  show "becomes (ledger_ok C) (ledger_map C) ledger_drops (w_replace (ledger_raw C) l s) ((ledger_map C l)(sle_key s \<mapsto> s)) (ledger_drops l)"
    if "ledger_map C l (sle_key s) \<noteq> None" "sle_ok s" for s
    using batch [of "[(Batch_Update, s)]"] that by (simp add: ledger_raw_def ledger_raw_replace_def)
  show "becomes (ledger_ok C) (ledger_map C) ledger_drops (w_erase (ledger_raw C) l s) ((ledger_map C l)(sle_key s := None)) (ledger_drops l)"
    if "ledger_map C l (sle_key s) \<noteq> None" "sle_ok s" for s
    using batch [of "[(Batch_Delete, s)]"] that by (simp add: ledger_raw_def ledger_raw_erase_def)
  show "becomes (ledger_ok C) (ledger_map C) ledger_drops (w_destroy (ledger_raw C) l fee) (ledger_map C l) (ledger_drops l - fee)"
    if "0 \<le> fee" "fee \<le> ledger_drops l" for fee
    using that ok by (auto simp: becomes_def ledger_raw_def ledger_raw_destroy_xrp_def ledger_drops_def ledger_ok_def ledger_map_def)
qed

end
