(* ===== verification/Raw_State_Table.thy ===== *)
theory Raw_State_Table
  imports Ledger_View
begin

text \<open>
  Overlays on a view: the search for the next key that all overlays share, the table of an open
  ledger (\<^verbatim>\<open>RawStateTable\<close>) and the open view itself. The state of an overlaid view is its base's
  state with the entries of the table put over it; the open view keeps the contract of a view when
  its base does, so views can be stacked.
\<close>

section \<open>Overlaid keys\<close>

text \<open>
  The loop that asks the base for its next key until one is found that the overlay has not erased.
  Each turn that goes on has met an erased key, so the number of entries of the overlay bounds the
  turns when the base answers with increasing keys.
\<close>

fun skip_erased :: "nat \<Rightarrow> 'v read_ops \<Rightarrow> 'v \<Rightarrow> (nat \<Rightarrow> bool) \<Rightarrow> nat \<Rightarrow> nat option \<Rightarrow> nat option vres" where
  "skip_erased 0 R base erased k bound = Inl Diverged"
| "skip_erased (Suc n) R base erased k bound =
     and_then (r_succ R base k bound)
       (\<lambda>candidate. case candidate of
          None \<Rightarrow> Inr None
        | Some c \<Rightarrow> if erased c then skip_erased n R base erased c bound else Inr (Some c))"

text \<open>The first entry of the overlay after a key that is not erased.\<close>

definition live_after :: "('a \<Rightarrow> bool) \<Rightarrow> (nat, 'a \<times> sle) btree \<Rightarrow> nat \<Rightarrow> nat option" where
  "live_after dead its k =
     map_option fst (find (\<lambda>(j, a, s). k < j \<and> \<not> dead a) its)"

definition erased_in :: "('a \<Rightarrow> bool) \<Rightarrow> (nat, 'a \<times> sle) btree \<Rightarrow> nat \<Rightarrow> bool" where
  "erased_in dead its j = (case map_of its j of None \<Rightarrow> False | Some (a, s) \<Rightarrow> dead a)"

definition cut_last :: "nat option \<Rightarrow> nat option \<Rightarrow> nat option" where
  "cut_last bound k =
     (case k of None \<Rightarrow> None | Some c \<Rightarrow>
        (case bound of None \<Rightarrow> Some c | Some l \<Rightarrow> if c \<ge> l then None else Some c))"

section \<open>RawStateTable\<close>

datatype raw_action = Raw_Erase | Raw_Insert | Raw_Replace

record raw_table =
  rt_items :: "(nat, raw_action \<times> sle) btree"
  rt_drops :: int

definition raw_new :: raw_table where
  "raw_new = \<lparr>rt_items = [], rt_drops = 0\<rparr>"

definition raw_exists :: "'v read_ops \<Rightarrow> 'v \<Rightarrow> raw_table \<Rightarrow> keylet \<Rightarrow> bool vres" where
  "raw_exists R base t k =
     (case map_of (rt_items t) (k_key k) of
        Some (a, s) \<Rightarrow>
          if a = Raw_Erase then Inr False else Inr (check_ledger_entry k (sle_type s) (sle_key s))
      | None \<Rightarrow> r_exists R base k)"

definition raw_succ :: "'v read_ops \<Rightarrow> 'v \<Rightarrow> raw_table \<Rightarrow> nat \<Rightarrow> nat option \<Rightarrow> nat option vres" where
  "raw_succ R base t key bound =
     and_then
       (skip_erased (Suc (length (rt_items t))) R base (erased_in (\<lambda>a. a = Raw_Erase) (rt_items t)) key bound)
       (\<lambda>candidate.
          Inr (cut_last bound
            (case live_after (\<lambda>a. a = Raw_Erase) (rt_items t) key of
               None \<Rightarrow> candidate
             | Some k \<Rightarrow>
                 (case candidate of
                    None \<Rightarrow> Some k
                  | Some c \<Rightarrow> if c > k then Some k else Some c))))"

definition raw_read :: "'v read_ops \<Rightarrow> 'v \<Rightarrow> raw_table \<Rightarrow> keylet \<Rightarrow> sle option vres" where
  "raw_read R base t k =
     (case map_of (rt_items t) (k_key k) of
        Some (a, s) \<Rightarrow>
          if a = Raw_Erase then Inr None
          else Inr (if check_ledger_entry k (sle_type s) (sle_key s) then Some s else None)
      | None \<Rightarrow> r_read R base k)"

definition raw_put :: "raw_action \<Rightarrow> sle \<Rightarrow> raw_table \<Rightarrow> raw_table" where
  "raw_put a s t = t\<lparr>rt_items := btree_insert (sle_key s) (a, s) (rt_items t)\<rparr>"

definition raw_erase :: "raw_table \<Rightarrow> sle \<Rightarrow> raw_table vres" where
  "raw_erase t s =
     (case map_option fst (map_of (rt_items t) (sle_key s)) of
        None \<Rightarrow> Inr (raw_put Raw_Erase s t)
      | Some Raw_Erase \<Rightarrow> Inl (Conversion ''RawStateTable::erase: already erased'')
      | Some Raw_Insert \<Rightarrow> Inr (t\<lparr>rt_items := btree_remove (sle_key s) (rt_items t)\<rparr>)
      | Some Raw_Replace \<Rightarrow> Inr (raw_put Raw_Erase s t))"

definition raw_insert :: "raw_table \<Rightarrow> sle \<Rightarrow> raw_table vres" where
  "raw_insert t s =
     (case map_option fst (map_of (rt_items t) (sle_key s)) of
        None \<Rightarrow> Inr (raw_put Raw_Insert s t)
      | Some Raw_Erase \<Rightarrow> Inr (raw_put Raw_Replace s t)
      | Some Raw_Insert \<Rightarrow> Inl (Conversion ''RawStateTable::insert: already inserted'')
      | Some Raw_Replace \<Rightarrow> Inl (Conversion ''RawStateTable::insert: already exists''))"

definition raw_replace :: "raw_table \<Rightarrow> sle \<Rightarrow> raw_table vres" where
  "raw_replace t s =
     (case map_option fst (map_of (rt_items t) (sle_key s)) of
        Some Raw_Erase \<Rightarrow> Inl (Conversion ''RawStateTable::replace: was erased'')
      | Some Raw_Insert \<Rightarrow> Inr (raw_put Raw_Insert s t)
      | _ \<Rightarrow> Inr (raw_put Raw_Replace s t))"

text \<open>Amounts of XRP are 64-bit signed; their sum wraps.\<close>

definition as_i64 :: "int \<Rightarrow> int" where
  "as_i64 x = signed_take_bit 63 x"

definition raw_destroy :: "raw_table \<Rightarrow> int \<Rightarrow> raw_table" where
  "raw_destroy t fee = t\<lparr>rt_drops := as_i64 (rt_drops t + fee)\<rparr>"

fun raw_apply_items :: "'w raw_ops \<Rightarrow> (nat, raw_action \<times> sle) btree \<Rightarrow> 'w \<Rightarrow> 'w vres" where
  "raw_apply_items W [] to = Inr to"
| "raw_apply_items W ((k, a, s) # its) to =
     and_then
       (case a of
          Raw_Erase \<Rightarrow> w_erase W to s
        | Raw_Insert \<Rightarrow> w_insert W to s
        | Raw_Replace \<Rightarrow> w_replace W to s)
       (raw_apply_items W its)"

definition raw_apply :: "'w raw_ops \<Rightarrow> raw_table \<Rightarrow> 'w \<Rightarrow> 'w vres" where
  "raw_apply W t to = and_then (w_destroy W to (rt_drops t)) (raw_apply_items W (rt_items t))"

section \<open>OpenView\<close>

text \<open>A transaction of the view: its bytes and those of its metadata.\<close>

type_synonym tx_entry = "nat list \<times> nat list option"

record 'b open_view =
  ov_base :: 'b
  ov_header :: header
  ov_items :: raw_table
  ov_txs :: "(nat, tx_entry) btree"
  ov_base_tx_count :: nat
  ov_open :: bool

definition new_open :: "'b read_ops \<Rightarrow> 'b \<Rightarrow> 'b open_view" where
  "new_open R base =
     (let h = r_header R base
      in \<lparr>ov_base = base,
          ov_header = h\<lparr>h_validated := False, h_accepted := False, h_seq := (h_seq h + 1) mod 2 ^ 32,
            h_parent_close_time := h_close_time h, h_parent_hash := h_hash h\<rparr>,
          ov_items = raw_new, ov_txs = [], ov_base_tx_count = 0, ov_open = True\<rparr>)"

definition new_closed :: "'b read_ops \<Rightarrow> 'b \<Rightarrow> 'b open_view" where
  "new_closed R base =
     \<lparr>ov_base = base, ov_header = r_header R base, ov_items = raw_new, ov_txs = [], ov_base_tx_count = 0,
      ov_open = r_open R base\<rparr>"

definition tx_count :: "'b open_view \<Rightarrow> nat" where
  "tx_count v = ov_base_tx_count v + length (ov_txs v)"

definition batch_from :: "'b open_view \<Rightarrow> 'b open_view open_view" where
  "batch_from v =
     \<lparr>ov_base = v, ov_header = ov_header v, ov_items = raw_new, ov_txs = [], ov_base_tx_count = tx_count v,
      ov_open = False\<rparr>"

definition open_reads :: "'b read_ops \<Rightarrow> 'b open_view read_ops" where
  "open_reads R =
     \<lparr>r_open = ov_open, r_header = ov_header,
      r_exists = (\<lambda>v. raw_exists R (ov_base v) (ov_items v)),
      r_succ = (\<lambda>v. raw_succ R (ov_base v) (ov_items v)),
      r_read = (\<lambda>v. raw_read R (ov_base v) (ov_items v))\<rparr>"

definition with_items :: "'b open_view \<Rightarrow> raw_table vres \<Rightarrow> 'b open_view vres" where
  "with_items v r = and_then r (\<lambda>t. Inr (v\<lparr>ov_items := t\<rparr>))"

definition open_raw_erase :: "'b open_view \<Rightarrow> sle \<Rightarrow> 'b open_view vres" where
  "open_raw_erase v s = with_items v (raw_erase (ov_items v) s)"

definition open_raw_insert :: "'b open_view \<Rightarrow> sle \<Rightarrow> 'b open_view vres" where
  "open_raw_insert v s = with_items v (raw_insert (ov_items v) s)"

definition open_raw_replace :: "'b open_view \<Rightarrow> sle \<Rightarrow> 'b open_view vres" where
  "open_raw_replace v s = with_items v (raw_replace (ov_items v) s)"

definition open_raw_destroy_xrp :: "'b open_view \<Rightarrow> int \<Rightarrow> 'b open_view vres" where
  "open_raw_destroy_xrp v fee = Inr (v\<lparr>ov_items := raw_destroy (ov_items v) fee\<rparr>)"

definition open_raw :: "'b open_view raw_ops" where
  "open_raw =
     \<lparr>w_erase = open_raw_erase, w_insert = open_raw_insert, w_replace = open_raw_replace,
      w_destroy = open_raw_destroy_xrp,
      w_batch = default_batch open_raw_insert open_raw_replace open_raw_erase\<rparr>"

definition open_raw_tx_insert :: "'b open_view \<Rightarrow> nat \<Rightarrow> nat list \<Rightarrow> nat list option \<Rightarrow> 'b open_view vres" where
  "open_raw_tx_insert v key txn metadata =
     (if map_of (ov_txs v) key = None
      then Inr (v\<lparr>ov_txs := btree_insert key (txn, metadata) (ov_txs v)\<rparr>)
      else Inl (DuplicateTx key))"

definition open_tx_exists :: "'b open_view \<Rightarrow> nat \<Rightarrow> bool" where
  "open_tx_exists v key \<longleftrightarrow> map_of (ov_txs v) key \<noteq> None"

text \<open>\<^verbatim>\<open>apply\<close> on a target whose transactions are inserted with \<open>tx_insert\<close>.\<close>

fun apply_txs ::
  "('w \<Rightarrow> nat \<Rightarrow> nat list \<Rightarrow> nat list option \<Rightarrow> 'w vres) \<Rightarrow> (nat, tx_entry) btree \<Rightarrow> 'w \<Rightarrow> 'w vres" where
  "apply_txs ins [] to = Inr to"
| "apply_txs ins ((key, txn, metadata) # txs) to = and_then (ins to key txn metadata) (apply_txs ins txs)"

definition open_apply ::
  "'w raw_ops \<Rightarrow> ('w \<Rightarrow> nat \<Rightarrow> nat list \<Rightarrow> nat list option \<Rightarrow> 'w vres) \<Rightarrow> 'b open_view \<Rightarrow> 'w \<Rightarrow> 'w vres" where
  "open_apply W ins v to = and_then (raw_apply W (ov_items v) to) (apply_txs ins (ov_txs v))"

definition apply_state_only :: "'w raw_ops \<Rightarrow> 'b open_view \<Rightarrow> 'w \<Rightarrow> 'w vres" where
  "apply_state_only W v to = raw_apply W (ov_items v) to"

section \<open>Overlays refine their states\<close>

definition overlay :: "('a \<Rightarrow> bool) \<Rightarrow> state \<Rightarrow> (nat, 'a \<times> sle) btree \<Rightarrow> state" where
  "overlay dead M its k =
     (case map_of its k of None \<Rightarrow> M k | Some (a, s) \<Rightarrow> if dead a then None else Some s)"

definition entries_ok :: "(nat, 'a \<times> sle) btree \<Rightarrow> bool" where
  "entries_ok its \<longleftrightarrow> btree_wf its \<and> (\<forall>k a s. map_of its k = Some (a, s) \<longrightarrow> sle_key s = k \<and> sle_ok s)"

lemma overlay_Nil [simp]: "overlay dead M [] = M"
  by (rule ext) (simp add: overlay_def)

lemma overlay_state_ok:
  assumes "state_ok M" "entries_ok its"
  shows "state_ok (overlay dead M its)"
proof -
  have "dom (overlay dead M its) \<subseteq> dom M \<union> dom (map_of its)"
    by (auto simp: overlay_def dom_def split: option.splits)
  moreover have "finite (dom M \<union> dom (map_of its))" using assms(1) by (simp add: state_ok_def finite_dom_map_of)
  ultimately have "finite (dom (overlay dead M its))" by (rule finite_subset)
  then show ?thesis
    using assms by (auto simp: state_ok_def entries_ok_def overlay_def split: option.splits if_splits)
qed

lemma overlay_insert:
  "btree_wf its \<Longrightarrow> overlay dead M (btree_insert k (a, s) its) = (overlay dead M its)(k := if dead a then None else Some s)"
  by (rule ext) (simp add: overlay_def map_rules)

lemma overlay_remove: "overlay dead M (btree_remove k its) = (overlay dead M its)(k := M k)"
  by (rule ext) (simp add: overlay_def map_rules)

lemma entries_ok_insert: "entries_ok its \<Longrightarrow> sle_ok s \<Longrightarrow> entries_ok (btree_insert (sle_key s) (a, s) its)"
  by (auto simp: entries_ok_def map_rules split: if_splits)

lemma entries_ok_remove: "entries_ok its \<Longrightarrow> entries_ok (btree_remove k its)"
  by (auto simp: entries_ok_def map_rules split: if_splits)

lemma entries_ok_Nil [simp]: "entries_ok []"
  by (simp add: entries_ok_def)

lemma entries_ok_Cons:
  assumes "entries_ok ((k, a, s) # its)"
  shows "sle_key s = k" "sle_ok s" "entries_ok its" "map_of its k = None"
proof -
  have entry: "sle_key s' = j \<and> sle_ok s'" if "map_of ((k, a, s) # its) j = Some (a', s')" for j a' s'
    using assms that unfolding entries_ok_def by blast
  show "sle_key s = k" "sle_ok s" using entry [of k a s] by simp_all
  have "btree_wf its" and new: "map_of its k = None"
    using assms by (auto simp: entries_ok_def btree_wf_def map_of_eq_None_iff)
  moreover have "sle_key s' = j \<and> sle_ok s'" if "map_of its j = Some (a', s')" for j a' s'
    using entry [of j a' s'] that new by (cases "j = k") simp_all
  ultimately show "entries_ok its" "map_of its k = None" unfolding entries_ok_def by blast+
qed

lemma overlay_Cons:
  "map_of its k = None \<Longrightarrow> overlay dead M ((k, a, s) # its) = overlay dead (M(k := if dead a then None else Some s)) its"
  by (rule ext) (simp add: overlay_def split: option.split)

text \<open>The next key of an overlay is the smaller of the base's next key and the next live entry.\<close>

lemma find_sorted:
  assumes "btree_wf its"
  shows "map_option fst (find (\<lambda>e. P (fst e) (snd e)) its) = Some c \<longleftrightarrow>
    (\<exists>x. map_of its c = Some x \<and> P c x) \<and> (\<forall>j x. map_of its j = Some x \<and> P j x \<longrightarrow> c \<le> j)"
  using assms
proof (induction its)
  case (Cons e its)
  obtain k x where e: "e = (k, x)" by fastforce
  have wf: "btree_wf its" and lt: "\<And>j y. map_of its j = Some y \<Longrightarrow> k < j"
    using Cons.prems e by (auto simp: btree_wf_def dest!: map_of_SomeD)
  show ?case
  proof (cases "P k x")
    case True
    then show ?thesis using e lt by (auto simp: less_imp_le split: if_splits) (metis less_le_not_le linorder_not_less)+
  next
    case False
    have "map_of its k = None" using lt [of k] by (cases "map_of its k") auto
    then have eq: "map_of (e # its) j = Some y \<and> P j y \<longleftrightarrow> map_of its j = Some y \<and> P j y" for j y
      using e False by auto
    show ?thesis unfolding eq using Cons.IH [OF wf] e False by simp
  qed
qed simp

definition live_in :: "('a \<Rightarrow> bool) \<Rightarrow> (nat, 'a \<times> sle) btree \<Rightarrow> nat \<Rightarrow> bool" where
  "live_in dead its j \<longleftrightarrow> (\<exists>a s. map_of its j = Some (a, s) \<and> \<not> dead a)"

lemma live_after_Some:
  assumes "btree_wf its"
  shows "live_after dead its k = Some c \<longleftrightarrow>
    live_in dead its c \<and> k < c \<and> (\<forall>j. live_in dead its j \<longrightarrow> k < j \<longrightarrow> c \<le> j)"
  using find_sorted [OF assms, of "\<lambda>j (a, s). k < j \<and> \<not> dead a" c]
  by (auto simp: live_after_def live_in_def case_prod_beta')

lemma live_after_None:
  assumes "btree_wf its"
  shows "live_after dead its k = None \<longleftrightarrow> (\<forall>j. live_in dead its j \<longrightarrow> \<not> k < j)"
  using btree_wf_distinct [OF assms]
  by (fastforce simp: live_after_def live_in_def find_None_iff)

lemma overlay_dom: "j \<in> dom (overlay dead M its) \<longleftrightarrow> live_in dead its j \<or> j \<in> dom M \<and> \<not> erased_in dead its j"
  by (auto simp: overlay_def live_in_def erased_in_def dom_def split: option.splits)

lemma overlay_next:
  assumes "state_ok M" "entries_ok its"
  shows "next_key (overlay dead M its) k b =
    cut_last b
      (case live_after dead its k of
         None \<Rightarrow> next_key (M |` {j. \<not> erased_in dead its j}) k b
       | Some l \<Rightarrow>
           (case next_key (M |` {j. \<not> erased_in dead its j}) k b of
              None \<Rightarrow> Some l
            | Some c \<Rightarrow> if c > l then Some l else Some c))" (is "?lhs = cut_last b ?rhs")
proof -
  let ?M = "M |` {j. \<not> erased_in dead its j}"
  have wf: "btree_wf its" using assms(2) by (simp add: entries_ok_def)
  have fin: "finite (dom (overlay dead M its))" using overlay_state_ok [OF assms] by (simp add: state_ok_def)
  have finM: "finite (dom ?M)" using assms(1) by (simp add: state_ok_def)
  have dom: "j \<in> dom (overlay dead M its) \<longleftrightarrow> live_in dead its j \<or> j \<in> dom ?M" for j
    by (simp add: overlay_dom)
  have ball: "(\<forall>j \<in> dom (overlay dead M its). P j) \<longleftrightarrow> (\<forall>j. live_in dead its j \<longrightarrow> P j) \<and> (\<forall>j \<in> dom ?M. P j)" for P
    by (simp only: Ball_def dom) blast
  have mono: "within b j \<Longrightarrow> i \<le> j \<Longrightarrow> within b i" for i j by (auto simp: within_def split: option.splits)
  have cut: "cut_last b (Some c) = (if within b c then Some c else None)" "cut_last b None = None" for c
    by (simp_all add: cut_last_def within_def not_less split: option.split)
  note S = next_key_Some [OF fin] next_key_Some [OF finM] next_key_None live_after_Some [OF wf] live_after_None [OF wf]
  show ?thesis
  proof (cases "live_after dead its k")
    case None
    note L = None
    show ?thesis
    proof (cases "next_key ?M k b")
      case N: None
      then have "?lhs = None" using L unfolding S dom ball by blast
      then show ?thesis using L N cut by simp
    next
      case (Some c)
      then have "?lhs = Some c" "within b c" using L unfolding S dom ball by blast+
      then show ?thesis using L Some cut by simp
    qed
  next
    case (Some l)
    note L = Some
    show ?thesis
    proof (cases "next_key ?M k b")
      case None
      have "?lhs = (if within b l then Some l else None)"
      proof (cases "within b l")
        case True
        then have "?lhs = Some l" using L None unfolding S dom ball by blast
        then show ?thesis using True by simp
      next
        case False
        then have "?lhs = None" using L None mono unfolding S dom ball by blast
        then show ?thesis using False by simp
      qed
      then show ?thesis using L None cut by simp
    next
      case (Some c)
      have "within b (min c l)" using Some mono [of c "min c l"] unfolding S by simp
      moreover have "?lhs = Some (min c l)" using L Some calculation unfolding S dom ball by (auto simp: min_def)
      ultimately show ?thesis using L Some cut by (cases "c \<le> l") (simp_all add: not_le)
    qed
  qed
qed

context read_view
begin

lemma skip_erased_abs:
  assumes "vok v" "key_ok k" "card {j \<in> dom (vmap v). k < j \<and> E j} < n"
  shows "skip_erased n R v E k b = Inr (next_key (vmap v |` {j. \<not> E j}) k b)"
  using assms(2,3)
proof (induction n arbitrary: k)
  case (Suc n)
  have ok: "state_ok (vmap v)" by (rule abs_ok [OF assms(1)])
  then have fin: "finite (dom (vmap v))" "finite (dom (vmap v |` {j. \<not> E j}))" by (simp_all add: state_ok_def)
  show ?case
  proof (cases "next_key (vmap v) k b")
    case None
    then have "next_key (vmap v |` {j. \<not> E j}) k b = None" by (auto simp: next_key_None)
    then show ?thesis using None succ_abs [OF assms(1) Suc.prems(1), of b] by simp
  next
    case (Some c)
    then have c: "c \<in> dom (vmap v)" "k < c" "within b c" "\<And>j. j \<in> dom (vmap v) \<Longrightarrow> k < j \<Longrightarrow> within b j \<Longrightarrow> c \<le> j"
      by (simp_all add: next_key_Some [OF fin(1)])
    have key: "key_ok c" using c(1) ok by (auto simp: state_ok_def sle_ok_def)
    show ?thesis
    proof (cases "E c")
      case True
      let ?A = "{j \<in> dom (vmap v). k < j \<and> E j}" and ?B = "{j \<in> dom (vmap v). c < j \<and> E j}"
      have "?B \<subset> ?A" using c(1,2) True by auto
      then have "card ?B < card ?A" using fin(1) by (intro psubset_card_mono) simp_all
      then have IH: "skip_erased n R v E c b = Inr (next_key (vmap v |` {j. \<not> E j}) c b)"
        using Suc.IH [OF key] Suc.prems(2) by simp
      have "c < j \<longleftrightarrow> k < j" if j: "j \<in> dom (vmap v |` {j. \<not> E j})" "within b j" for j
      proof
        assume "k < j"
        then have "c \<le> j" using c(4) j by simp
        moreover have "c \<noteq> j" using j(1) True by auto
        ultimately show "c < j" by simp
      qed (use c(2) in simp)
      then have "{j \<in> dom (vmap v |` {j. \<not> E j}). c < j \<and> within b j} = {j \<in> dom (vmap v |` {j. \<not> E j}). k < j \<and> within b j}"
        by blast
      then have "next_key (vmap v |` {j. \<not> E j}) c b = next_key (vmap v |` {j. \<not> E j}) k b"
        by (simp add: next_key_def)
      then show ?thesis using Some True IH succ_abs [OF assms(1) Suc.prems(1), of b] by simp
    next
      case False
      then have "next_key (vmap v |` {j. \<not> E j}) k b = Some c"
        using c by (auto simp: next_key_Some [OF fin(2)])
      then show ?thesis using Some False succ_abs [OF assms(1) Suc.prems(1), of b] by simp
    qed
  qed
qed simp

lemma skip_overlay:
  assumes "vok v" "key_ok k"
  shows "skip_erased (Suc (length its)) R v (erased_in dead its) k b
    = Inr (next_key (vmap v |` {j. \<not> erased_in dead its j}) k b)"
proof (rule skip_erased_abs [OF assms])
  have "{j \<in> dom (vmap v). k < j \<and> erased_in dead its j} \<subseteq> set (map fst its)"
    by (auto simp: erased_in_def split: option.splits dest!: map_of_SomeD intro: rev_image_eqI)
  then have "card {j \<in> dom (vmap v). k < j \<and> erased_in dead its j} \<le> card (set (map fst its))"
    by (intro card_mono) simp_all
  also have "\<dots> \<le> length its" using card_length [of "map fst its"] by simp
  finally show "card {j \<in> dom (vmap v). k < j \<and> erased_in dead its j} < Suc (length its)" by simp
qed

end

section \<open>The open view keeps the contract\<close>

definition raw_ok :: "state \<Rightarrow> int \<Rightarrow> raw_table \<Rightarrow> bool" where
  "raw_ok M d t \<longleftrightarrow> entries_ok (rt_items t) \<and> 0 \<le> rt_drops t \<and> rt_drops t \<le> d
     \<and> (\<forall>k a s. map_of (rt_items t) k = Some (a, s) \<longrightarrow> (a = Raw_Insert \<longleftrightarrow> M k = None))"

abbreviation raw_overlay :: "state \<Rightarrow> raw_table \<Rightarrow> state" where
  "raw_overlay M t \<equiv> overlay (\<lambda>a. a = Raw_Erase) M (rt_items t)"

lemma raw_ok_new: "0 \<le> d \<Longrightarrow> raw_ok M d raw_new"
  by (simp add: raw_ok_def raw_new_def)

text \<open>A table that takes an operation, seen through its overlay.\<close>

definition raw_becomes :: "state \<Rightarrow> int \<Rightarrow> raw_table vres \<Rightarrow> state \<Rightarrow> int \<Rightarrow> bool" where
  "raw_becomes M d r M' d' \<longleftrightarrow> (\<exists>t. r = Inr t \<and> raw_ok M d t \<and> raw_overlay M t = M' \<and> rt_drops t = d')"

lemma raw_put_ok:
  assumes "raw_ok M d t" "sle_ok s" "a = Raw_Insert \<longleftrightarrow> M (sle_key s) = None"
  shows "raw_ok M d (raw_put a s t)"
  using assms by (auto simp: raw_ok_def raw_put_def entries_ok_insert map_rules entries_ok_def split: if_splits)

lemma raw_put_overlay:
  "raw_ok M d t \<Longrightarrow> raw_overlay M (raw_put a s t) = (raw_overlay M t)(sle_key s := if a = Raw_Erase then None else Some s)"
  by (simp add: raw_put_def overlay_insert raw_ok_def entries_ok_def)

lemma raw_put_drops [simp]: "rt_drops (raw_put a s t) = rt_drops t"
  by (simp add: raw_put_def)

lemma raw_insert_abs:
  assumes "raw_ok M d t" "raw_overlay M t (sle_key s) = None" "sle_ok s"
  shows "raw_becomes M d (raw_insert t s) ((raw_overlay M t)(sle_key s \<mapsto> s)) (rt_drops t)"
proof (cases "map_of (rt_items t) (sle_key s)")
  case None
  then have "M (sle_key s) = None" using assms(2) by (simp add: overlay_def)
  then show ?thesis
    using None assms raw_put_ok [OF assms(1,3), of Raw_Insert] raw_put_overlay [OF assms(1), of Raw_Insert s]
    by (simp add: raw_becomes_def raw_insert_def)
next
  case (Some e)
  obtain a s' where e: "e = (a, s')" by fastforce
  then have a: "a = Raw_Erase" using assms(2) Some by (simp add: overlay_def split: if_splits)
  then have "M (sle_key s) \<noteq> None" using assms(1) Some e by (auto simp: raw_ok_def)
  then show ?thesis
    using Some e a assms raw_put_ok [OF assms(1,3), of Raw_Replace] raw_put_overlay [OF assms(1), of Raw_Replace s]
    by (simp add: raw_becomes_def raw_insert_def)
qed

lemma raw_replace_abs:
  assumes "raw_ok M d t" "raw_overlay M t (sle_key s) \<noteq> None" "sle_ok s"
  shows "raw_becomes M d (raw_replace t s) ((raw_overlay M t)(sle_key s \<mapsto> s)) (rt_drops t)"
proof (cases "map_of (rt_items t) (sle_key s)")
  case None
  then have "M (sle_key s) \<noteq> None" using assms(2) by (simp add: overlay_def)
  then show ?thesis
    using None assms raw_put_ok [OF assms(1,3), of Raw_Replace] raw_put_overlay [OF assms(1), of Raw_Replace s]
    by (simp add: raw_becomes_def raw_replace_def)
next
  case (Some e)
  obtain a s' where e: "e = (a, s')" by fastforce
  then have a: "a \<noteq> Raw_Erase" using assms(2) Some by (simp add: overlay_def split: if_splits)
  have "a = Raw_Insert \<longleftrightarrow> M (sle_key s) = None" using assms(1) Some e by (auto simp: raw_ok_def)
  then show ?thesis
    using Some e a assms raw_put_ok [OF assms(1,3), of a] raw_put_overlay [OF assms(1), of a s]
    by (cases a) (simp_all add: raw_becomes_def raw_replace_def)
qed

lemma raw_erase_abs:
  assumes "raw_ok M d t" "raw_overlay M t (sle_key s) \<noteq> None" "sle_ok s"
  shows "raw_becomes M d (raw_erase t s) ((raw_overlay M t)(sle_key s := None)) (rt_drops t)"
proof (cases "map_of (rt_items t) (sle_key s)")
  case None
  then have "M (sle_key s) \<noteq> None" using assms(2) by (simp add: overlay_def)
  then show ?thesis
    using None assms raw_put_ok [OF assms(1,3), of Raw_Erase] raw_put_overlay [OF assms(1), of Raw_Erase s]
    by (simp add: raw_becomes_def raw_erase_def)
next
  case (Some e)
  obtain a s' where e: "e = (a, s')" by fastforce
  then have a: "a \<noteq> Raw_Erase" using assms(2) Some by (simp add: overlay_def split: if_splits)
  have M: "a = Raw_Insert \<longleftrightarrow> M (sle_key s) = None" using assms(1) Some e by (auto simp: raw_ok_def)
  show ?thesis
  proof (cases a)
    case Raw_Insert
    have "raw_ok M d (t\<lparr>rt_items := btree_remove (sle_key s) (rt_items t)\<rparr>)"
      using assms(1) by (auto simp: raw_ok_def entries_ok_remove map_rules split: if_splits)
    then show ?thesis
      using Some e Raw_Insert M by (simp add: raw_becomes_def raw_erase_def overlay_remove)
  next
    case Raw_Replace
    then show ?thesis
      using Some e M assms raw_put_ok [OF assms(1,3), of Raw_Erase] raw_put_overlay [OF assms(1), of Raw_Erase s]
      by (simp add: raw_becomes_def raw_erase_def)
  qed (use a in simp)
qed

definition open_ok :: "('b \<Rightarrow> bool) \<Rightarrow> ('b \<Rightarrow> state) \<Rightarrow> ('b \<Rightarrow> int) \<Rightarrow> 'b open_view \<Rightarrow> bool" where
  "open_ok vok vmap vdrops v \<longleftrightarrow>
     vok (ov_base v) \<and> raw_ok (vmap (ov_base v)) (vdrops (ov_base v)) (ov_items v)"

definition open_map :: "('b \<Rightarrow> state) \<Rightarrow> 'b open_view \<Rightarrow> state" where
  "open_map vmap v = raw_overlay (vmap (ov_base v)) (ov_items v)"

definition open_drops :: "('b \<Rightarrow> int) \<Rightarrow> 'b open_view \<Rightarrow> int" where
  "open_drops vdrops v = vdrops (ov_base v) - rt_drops (ov_items v)"

lemma default_batch_abs:
  assumes ins: "\<And>v s. vok v \<Longrightarrow> vmap v (sle_key s) = None \<Longrightarrow> sle_ok s
      \<Longrightarrow> becomes vok vmap vdrops (i v s) ((vmap v)(sle_key s \<mapsto> s)) (vdrops v)"
    and rep: "\<And>v s. vok v \<Longrightarrow> vmap v (sle_key s) \<noteq> None \<Longrightarrow> sle_ok s
      \<Longrightarrow> becomes vok vmap vdrops (r v s) ((vmap v)(sle_key s \<mapsto> s)) (vdrops v)"
    and era: "\<And>v s. vok v \<Longrightarrow> vmap v (sle_key s) \<noteq> None \<Longrightarrow> sle_ok s
      \<Longrightarrow> becomes vok vmap vdrops (e v s) ((vmap v)(sle_key s := None)) (vdrops v)"
    and "vok v" "map_batch (vmap v) ops = Some M"
  shows "becomes vok vmap vdrops (default_batch i r e v ops) M (vdrops v)"
  using assms(4,5)
proof (induction ops arbitrary: v)
  case (Cons x ops)
  obtain op s where x: "x = (op, s)" by fastforce
  let ?step = "case op of Batch_Insert \<Rightarrow> i v s | Batch_Update \<Rightarrow> r v s | Batch_Delete \<Rightarrow> e v s"
  have "\<exists>M'. becomes vok vmap vdrops ?step M' (vdrops v) \<and> map_batch M' ops = Some M"
    using Cons.prems x ins [of v s] rep [of v s] era [of v s] by (cases op) (auto split: if_splits)
  then obtain v' where "?step = Inr v'" "vok v'" "map_batch (vmap v') ops = Some M" "vdrops v' = vdrops v"
    by (auto simp: becomes_def)
  then show ?case using Cons.IH [of v'] x by simp
qed (simp add: becomes_def)

context read_view
begin

lemma raw_exists_abs:
  assumes "vok v" "raw_ok (vmap v) d t" "fits k (raw_overlay (vmap v) t)"
  shows "raw_exists R v t k = Inr (raw_overlay (vmap v) t (k_key k) \<noteq> None)"
proof (cases "map_of (rt_items t) (k_key k)")
  case None
  then have "fits k (vmap v)" using assms(3) by (simp add: fits_def overlay_def)
  then show ?thesis using exists_abs [OF assms(1)] None by (simp add: raw_exists_def overlay_def)
next
  case (Some e)
  then show ?thesis using assms(3) by (cases e) (auto simp: raw_exists_def overlay_def fits_def)
qed

lemma raw_read_abs:
  assumes "vok v" "raw_ok (vmap v) d t" "fits k (raw_overlay (vmap v) t)"
  shows "raw_read R v t k = Inr (raw_overlay (vmap v) t (k_key k))"
proof (cases "map_of (rt_items t) (k_key k)")
  case None
  then have "fits k (vmap v)" using assms(3) by (simp add: fits_def overlay_def)
  then show ?thesis using read_abs [OF assms(1)] None by (simp add: raw_read_def overlay_def)
next
  case (Some e)
  then show ?thesis using assms(3) by (cases e) (auto simp: raw_read_def overlay_def fits_def)
qed

lemma raw_succ_abs:
  assumes "vok v" "raw_ok (vmap v) d t" "key_ok k"
  shows "raw_succ R v t k b = Inr (next_key (raw_overlay (vmap v) t) k b)"
  using overlay_next [OF abs_ok [OF assms(1)], of "rt_items t" "\<lambda>a. a = Raw_Erase" k b] assms(2)
    skip_overlay [OF assms(1,3), of "rt_items t" "\<lambda>a. a = Raw_Erase" b]
  by (simp add: raw_succ_def raw_ok_def)

lemma open_is_view: "read_view (open_reads R) (open_ok vok vmap vdrops) (open_map vmap) (open_drops vdrops)"
proof
  fix v assume ok: "open_ok vok vmap vdrops v"
  then have base: "vok (ov_base v)" "raw_ok (vmap (ov_base v)) (vdrops (ov_base v)) (ov_items v)"
    by (simp_all add: open_ok_def)
  show "state_ok (open_map vmap v)"
    unfolding open_map_def using base by (intro overlay_state_ok abs_ok) (simp_all add: raw_ok_def)
  show "0 \<le> open_drops vdrops v \<and> open_drops vdrops v < 2 ^ 63"
    using base(2) supply_range [OF base(1)] by (simp add: open_drops_def raw_ok_def)
  show "r_succ (open_reads R) v j b = Inr (next_key (open_map vmap v) j b)" if "key_ok j" for j b
    using raw_succ_abs [OF base that] by (simp add: open_reads_def open_map_def)
  fix k assume "fits k (open_map vmap v)"
  then have f: "fits k (raw_overlay (vmap (ov_base v)) (ov_items v))" by (simp add: open_map_def)
  show "r_exists (open_reads R) v k = Inr (open_map vmap v (k_key k) \<noteq> None)"
    using raw_exists_abs [OF base f] by (simp add: open_reads_def open_map_def)
  show "r_read (open_reads R) v k = Inr (open_map vmap v (k_key k))"
    using raw_read_abs [OF base f] by (simp add: open_reads_def open_map_def)
qed

lemma with_items_becomes:
  assumes "vok (ov_base v)" "raw_becomes (vmap (ov_base v)) (vdrops (ov_base v)) r M (rt_drops (ov_items v))"
  shows "becomes (open_ok vok vmap vdrops) (open_map vmap) (open_drops vdrops) (with_items v r) M (open_drops vdrops v)"
  using assms by (auto simp: raw_becomes_def becomes_def with_items_def open_ok_def open_map_def open_drops_def)

lemma open_is_raw: "raw_view open_raw (open_ok vok vmap vdrops) (open_map vmap) (open_drops vdrops)"
proof -
  have ins: "becomes (open_ok vok vmap vdrops) (open_map vmap) (open_drops vdrops) (open_raw_insert v s)
      ((open_map vmap v)(sle_key s \<mapsto> s)) (open_drops vdrops v)"
    if "open_ok vok vmap vdrops v" "open_map vmap v (sle_key s) = None" "sle_ok s" for v s
    unfolding open_raw_insert_def
    using with_items_becomes [OF _ raw_insert_abs, of v s] that by (simp add: open_ok_def open_map_def)
  have rep: "becomes (open_ok vok vmap vdrops) (open_map vmap) (open_drops vdrops) (open_raw_replace v s)
      ((open_map vmap v)(sle_key s \<mapsto> s)) (open_drops vdrops v)"
    if "open_ok vok vmap vdrops v" "open_map vmap v (sle_key s) \<noteq> None" "sle_ok s" for v s
    unfolding open_raw_replace_def
    using with_items_becomes [OF _ raw_replace_abs, of v s] that by (simp add: open_ok_def open_map_def)
  have era: "becomes (open_ok vok vmap vdrops) (open_map vmap) (open_drops vdrops) (open_raw_erase v s)
      ((open_map vmap v)(sle_key s := None)) (open_drops vdrops v)"
    if "open_ok vok vmap vdrops v" "open_map vmap v (sle_key s) \<noteq> None" "sle_ok s" for v s
    unfolding open_raw_erase_def
    using with_items_becomes [OF _ raw_erase_abs, of v s] that by (simp add: open_ok_def open_map_def)
  have des: "becomes (open_ok vok vmap vdrops) (open_map vmap) (open_drops vdrops) (open_raw_destroy_xrp v fee)
      (open_map vmap v) (open_drops vdrops v - fee)"
    if ok: "open_ok vok vmap vdrops v" and fee: "0 \<le> fee" "fee \<le> open_drops vdrops v" for v fee
  proof -
    have "vdrops (ov_base v) < 2 ^ 63" using supply_range ok by (simp add: open_ok_def)
    then have "as_i64 (rt_drops (ov_items v) + fee) = rt_drops (ov_items v) + fee"
      using ok fee unfolding as_i64_def by (intro signed_take_bit_int_eq_self) (simp_all add: open_ok_def raw_ok_def open_drops_def)
    then show ?thesis
      using ok fee by (auto simp: becomes_def open_raw_destroy_xrp_def raw_destroy_def open_ok_def raw_ok_def open_map_def open_drops_def)
  qed
  show ?thesis
    by unfold_locales
      (simp_all add: open_raw_def ins rep era des default_batch_abs [where vok = "open_ok vok vmap vdrops" and vmap = "open_map vmap"
         and vdrops = "open_drops vdrops"])
qed

end

context raw_view
begin

lemma raw_apply_items_abs:
  assumes "vok to" "entries_ok its" "\<And>k a s. map_of its k = Some (a, s) \<Longrightarrow> a = Raw_Insert \<longleftrightarrow> vmap to k = None"
  shows "becomes vok vmap vdrops (raw_apply_items W its to) (overlay (\<lambda>a. a = Raw_Erase) (vmap to) its) (vdrops to)"
  using assms
proof (induction its arbitrary: to)
  case (Cons e its)
  obtain k a s where e: "e = (k, a, s)" using prod_cases3 by blast
  note wf = entries_ok_Cons [OF Cons.prems(2) [unfolded e]]
  have a: "a = Raw_Insert \<longleftrightarrow> vmap to k = None" using Cons.prems(3) [of k a s] e by simp
  let ?M = "(vmap to)(k := if a = Raw_Erase then None else Some s)"
  have "becomes vok vmap vdrops
      (case a of Raw_Erase \<Rightarrow> w_erase W to s | Raw_Insert \<Rightarrow> w_insert W to s | Raw_Replace \<Rightarrow> w_replace W to s) ?M (vdrops to)"
    using a wf(1,2) insert_abs [OF Cons.prems(1), of s] replace_abs [OF Cons.prems(1), of s] erase_abs [OF Cons.prems(1), of s]
    by (cases a) simp_all
  then obtain to' where to': "(case a of Raw_Erase \<Rightarrow> w_erase W to s | Raw_Insert \<Rightarrow> w_insert W to s
      | Raw_Replace \<Rightarrow> w_replace W to s) = Inr to'" "vok to'" "vmap to' = ?M" "vdrops to' = vdrops to"
    by (auto simp: becomes_def)
  have pre: "a' = Raw_Insert \<longleftrightarrow> vmap to' j = None" if "map_of its j = Some (a', s')" for j a' s'
    using Cons.prems(3) [of j a' s'] that e wf(4) to'(3) by (auto split: if_splits)
  have "becomes vok vmap vdrops (raw_apply_items W its to') (overlay (\<lambda>a. a = Raw_Erase) (vmap to') its) (vdrops to')"
    by (rule Cons.IH [OF to'(2) wf(3)]) (rule pre)
  then show ?case using to' e overlay_Cons [OF wf(4)] by (simp del: fun_upd_apply)
qed (simp add: becomes_def)

lemma raw_apply_abs:
  assumes "vok to" "raw_ok (vmap to) d t" "d \<le> vdrops to"
  shows "becomes vok vmap vdrops (raw_apply W t to) (raw_overlay (vmap to) t) (vdrops to - rt_drops t)"
proof -
  obtain v where v: "w_destroy W to (rt_drops t) = Inr v" "vok v" "vmap v = vmap to" "vdrops v = vdrops to - rt_drops t"
    using destroy_abs [OF assms(1), of "rt_drops t"] assms(2,3) by (auto simp: becomes_def raw_ok_def)
  have "becomes vok vmap vdrops (raw_apply_items W (rt_items t) v) (raw_overlay (vmap v) t) (vdrops v)"
    by (rule raw_apply_items_abs [OF v(2)]) (use assms(2) v(3) in \<open>auto simp: raw_ok_def\<close>)
  then show ?thesis using v by (simp add: raw_apply_def)
qed

end

interpretation ov: read_view "open_reads (ledger_reads C)" "open_ok (ledger_ok C) (ledger_map C) ledger_drops"
  "open_map (ledger_map C)" "open_drops ledger_drops" for C
  by (rule led.open_is_view)

interpretation ov_raw: raw_view open_raw "open_ok (ledger_ok C) (ledger_map C) ledger_drops"
  "open_map (ledger_map C)" "open_drops ledger_drops" for C
  by (rule led.open_is_raw)

end
