(* ===== verification/Apply_State_Table.thy ===== *)
theory Apply_State_Table
  imports Raw_State_Table
begin

text \<open>
  The table of a view that transactions write to (\<^verbatim>\<open>ApplyStateTable\<close>), with entries that are checked
  out, changed, inserted or erased, and the \<^verbatim>\<open>Sandbox\<close> over it. Changing or erasing an entry asks
  that it was checked out before; committing the table gives its base the state that was read
  through it.
\<close>

section \<open>ApplyStateTable\<close>

datatype apply_action = Act_Cache | Act_Erase | Act_Insert | Act_Modify

record apply_table =
  at_items :: "(nat, apply_action \<times> sle) btree"
  at_drops :: int

abbreviation erased :: "apply_action \<Rightarrow> bool" where
  "erased a \<equiv> a = Act_Erase"

definition apply_new :: apply_table where
  "apply_new = \<lparr>at_items = [], at_drops = 0\<rparr>"

definition apply_destroy_xrp :: "apply_table \<Rightarrow> int \<Rightarrow> apply_table" where
  "apply_destroy_xrp t fee = t\<lparr>at_drops := as_i64 (at_drops t + fee)\<rparr>"

definition apply_succ :: "'v read_ops \<Rightarrow> 'v \<Rightarrow> apply_table \<Rightarrow> nat \<Rightarrow> nat option \<Rightarrow> nat option vres" where
  "apply_succ R base t key bound =
     and_then (skip_erased (Suc (length (at_items t))) R base (erased_in erased (at_items t)) key bound)
       (\<lambda>next.
          let result = (case (next, live_after erased (at_items t) key) of
              (Some n, Some ln) \<Rightarrow> Some (min n ln)
            | (Some n, None) \<Rightarrow> Some n
            | (None, Some ln) \<Rightarrow> Some ln
            | (None, None) \<Rightarrow> None)
          in Inr (cut_last bound result))"

definition apply_exists :: "'v read_ops \<Rightarrow> 'v \<Rightarrow> apply_table \<Rightarrow> keylet \<Rightarrow> bool vres" where
  "apply_exists R base t k =
     (case map_of (at_items t) (k_key k) of
        Some (a, s) \<Rightarrow> Inr (a \<noteq> Act_Erase)
      | None \<Rightarrow> r_exists R base k)"

definition apply_read :: "'v read_ops \<Rightarrow> 'v \<Rightarrow> apply_table \<Rightarrow> keylet \<Rightarrow> sle option vres" where
  "apply_read R base t k =
     (case map_of (at_items t) (k_key k) of
        Some (a, s) \<Rightarrow> if a = Act_Erase then Inr None else Inr (Some s)
      | None \<Rightarrow> r_read R base k)"

definition apply_put :: "nat \<Rightarrow> apply_action \<Rightarrow> sle \<Rightarrow> apply_table \<Rightarrow> apply_table" where
  "apply_put key a s t = t\<lparr>at_items := btree_insert key (a, s) (at_items t)\<rparr>"

definition apply_peek :: "'v read_ops \<Rightarrow> 'v \<Rightarrow> apply_table \<Rightarrow> keylet \<Rightarrow> (sle option \<times> apply_table) vres" where
  "apply_peek R base t k =
     (case map_of (at_items t) (k_key k) of
        Some (a, s) \<Rightarrow> if a = Act_Erase then Inr (None, t) else Inr (Some s, t)
      | None \<Rightarrow>
          and_then (r_read R base k)
            (\<lambda>r. Inr (r, case r of Some s \<Rightarrow> apply_put (k_key k) Act_Cache s t | None \<Rightarrow> t)))"

definition apply_insert :: "apply_table \<Rightarrow> sle \<Rightarrow> apply_table vres" where
  "apply_insert t s =
     (case map_option fst (map_of (at_items t) (sle_key s)) of
        Some Act_Cache \<Rightarrow> Inl (Conversion ''ApplyStateTable::insert: already cached'')
      | Some Act_Insert \<Rightarrow> Inl (Conversion ''ApplyStateTable::insert: already inserted'')
      | Some Act_Modify \<Rightarrow> Inl (Conversion ''ApplyStateTable::insert: already modified'')
      | Some Act_Erase \<Rightarrow> Inr (apply_put (sle_key s) Act_Modify s t)
      | None \<Rightarrow> Inr (apply_put (sle_key s) Act_Insert s t))"

definition apply_replace :: "apply_table \<Rightarrow> sle \<Rightarrow> apply_table vres" where
  "apply_replace t s =
     (case map_option fst (map_of (at_items t) (sle_key s)) of
        Some Act_Erase \<Rightarrow> Inl (Conversion ''ApplyStateTable::replace: already erased'')
      | Some Act_Insert \<Rightarrow> Inr (apply_put (sle_key s) Act_Insert s t)
      | _ \<Rightarrow> Inr (apply_put (sle_key s) Act_Modify s t))"

definition apply_update :: "apply_table \<Rightarrow> sle \<Rightarrow> apply_table vres" where
  "apply_update t s =
     (case map_option fst (map_of (at_items t) (sle_key s)) of
        None \<Rightarrow> Inl (Conversion ''ApplyStateTable::update: missing key'')
      | Some Act_Erase \<Rightarrow> Inl (Conversion ''ApplyStateTable::update: erased'')
      | Some Act_Insert \<Rightarrow> Inr (apply_put (sle_key s) Act_Insert s t)
      | _ \<Rightarrow> Inr (apply_put (sle_key s) Act_Modify s t))"

definition apply_erase :: "apply_table \<Rightarrow> sle \<Rightarrow> apply_table vres" where
  "apply_erase t s =
     (case map_option fst (map_of (at_items t) (sle_key s)) of
        None \<Rightarrow> Inl (Conversion ''ApplyStateTable::erase: missing key'')
      | Some Act_Erase \<Rightarrow> Inl (Conversion ''ApplyStateTable::erase: double erase'')
      | Some Act_Insert \<Rightarrow> Inr (t\<lparr>at_items := btree_remove (sle_key s) (at_items t)\<rparr>)
      | _ \<Rightarrow> Inr (apply_put (sle_key s) Act_Erase s t))"

fun batch_of :: "nat \<times> apply_action \<times> sle \<Rightarrow> (batch_op \<times> sle) list" where
  "batch_of (key, Act_Erase, s) = [(Batch_Delete, s)]"
| "batch_of (key, Act_Insert, s) = [(Batch_Insert, s)]"
| "batch_of (key, Act_Modify, s) = [(Batch_Update, s)]"
| "batch_of (key, Act_Cache, s) = []"

definition apply_apply :: "'w raw_ops \<Rightarrow> apply_table \<Rightarrow> 'w \<Rightarrow> 'w vres" where
  "apply_apply W t to =
     and_then (w_batch W to (concat (map batch_of (at_items t)))) (\<lambda>to'. w_destroy W to' (at_drops t))"

section \<open>Sandbox\<close>

record 'b sandbox =
  sb_base :: 'b
  sb_table :: apply_table

definition sandbox_new :: "'b \<Rightarrow> 'b sandbox" where
  "sandbox_new base = \<lparr>sb_base = base, sb_table = apply_new\<rparr>"

definition sandbox_reads :: "'b read_ops \<Rightarrow> 'b sandbox read_ops" where
  "sandbox_reads R =
     \<lparr>r_open = (\<lambda>v. r_open R (sb_base v)), r_header = (\<lambda>v. r_header R (sb_base v)),
      r_exists = (\<lambda>v. apply_exists R (sb_base v) (sb_table v)),
      r_succ = (\<lambda>v. apply_succ R (sb_base v) (sb_table v)),
      r_read = (\<lambda>v. apply_read R (sb_base v) (sb_table v))\<rparr>"

definition with_table :: "'b sandbox \<Rightarrow> apply_table vres \<Rightarrow> 'b sandbox vres" where
  "with_table v r = and_then r (\<lambda>t. Inr (v\<lparr>sb_table := t\<rparr>))"

definition sandbox_raw_erase :: "'b sandbox \<Rightarrow> sle \<Rightarrow> 'b sandbox vres" where
  "sandbox_raw_erase v s = with_table v (apply_erase (sb_table v) s)"

definition sandbox_raw_insert :: "'b sandbox \<Rightarrow> sle \<Rightarrow> 'b sandbox vres" where
  "sandbox_raw_insert v s = with_table v (apply_insert (sb_table v) s)"

definition sandbox_raw_replace :: "'b sandbox \<Rightarrow> sle \<Rightarrow> 'b sandbox vres" where
  "sandbox_raw_replace v s = with_table v (apply_replace (sb_table v) s)"

definition sandbox_raw_destroy_xrp :: "'b sandbox \<Rightarrow> int \<Rightarrow> 'b sandbox vres" where
  "sandbox_raw_destroy_xrp v fee = Inr (v\<lparr>sb_table := apply_destroy_xrp (sb_table v) fee\<rparr>)"

definition sandbox_raw :: "'b sandbox raw_ops" where
  "sandbox_raw =
     \<lparr>w_erase = sandbox_raw_erase, w_insert = sandbox_raw_insert, w_replace = sandbox_raw_replace,
      w_destroy = sandbox_raw_destroy_xrp,
      w_batch = default_batch sandbox_raw_insert sandbox_raw_replace sandbox_raw_erase\<rparr>"

record 'v apply_ops =
  a_peek :: "'v \<Rightarrow> keylet \<Rightarrow> (sle option \<times> 'v) vres"
  a_insert :: "'v \<Rightarrow> sle \<Rightarrow> 'v vres"
  a_update :: "'v \<Rightarrow> sle \<Rightarrow> 'v vres"
  a_replace :: "'v \<Rightarrow> sle \<Rightarrow> 'v vres"
  a_erase :: "'v \<Rightarrow> sle \<Rightarrow> 'v vres"
  a_destroy :: "'v \<Rightarrow> int \<Rightarrow> 'v vres"

definition sandbox_peek :: "'b read_ops \<Rightarrow> 'b sandbox \<Rightarrow> keylet \<Rightarrow> (sle option \<times> 'b sandbox) vres" where
  "sandbox_peek R v k =
     and_then (apply_peek R (sb_base v) (sb_table v) k) (\<lambda>(r, t). Inr (r, v\<lparr>sb_table := t\<rparr>))"

definition sandbox_update :: "'b sandbox \<Rightarrow> sle \<Rightarrow> 'b sandbox vres" where
  "sandbox_update v s = with_table v (apply_update (sb_table v) s)"

definition sandbox_apply_ops :: "'b read_ops \<Rightarrow> 'b sandbox apply_ops" where
  "sandbox_apply_ops R =
     \<lparr>a_peek = sandbox_peek R, a_insert = sandbox_raw_insert, a_update = sandbox_update,
      a_replace = sandbox_raw_replace, a_erase = sandbox_raw_erase, a_destroy = sandbox_raw_destroy_xrp\<rparr>"

definition sandbox_apply :: "'w raw_ops \<Rightarrow> 'b sandbox \<Rightarrow> 'w \<Rightarrow> 'w vres" where
  "sandbox_apply W v to = apply_apply W (sb_table v) to"

section \<open>The contract of a view to write to\<close>

text \<open>
  Keys are hashes over a name space, so a key belongs to one type of entries: \<open>ty\<close> tells which.
  Updating and erasing ask for a checkout: \<open>out\<close> tells the keys that are checked out.
\<close>

definition typed :: "(nat \<Rightarrow> ledger_entry_type) \<Rightarrow> state \<Rightarrow> bool" where
  "typed ty M \<longleftrightarrow> (\<forall>k s. M k = Some s \<longrightarrow> sle_type s = ty k)"

definition takes ::
  "('v \<Rightarrow> bool) \<Rightarrow> ('v \<Rightarrow> state) \<Rightarrow> ('v \<Rightarrow> int) \<Rightarrow> ('v \<Rightarrow> nat set) \<Rightarrow> 'v vres \<Rightarrow> state \<Rightarrow> int \<Rightarrow> nat set \<Rightarrow> bool" where
  "takes vok vmap vdrops out r M d ks \<longleftrightarrow>
     (\<exists>v. r = Inr v \<and> vok v \<and> vmap v = M \<and> vdrops v = d \<and> ks \<inter> dom M \<subseteq> out v)"

definition entry_ok :: "(nat \<Rightarrow> ledger_entry_type) \<Rightarrow> sle \<Rightarrow> bool" where
  "entry_ok ty s \<longleftrightarrow> sle_ok s \<and> sle_type s = ty (sle_key s)"

locale apply_view = read_view R vok vmap vdrops
  for R :: "'v read_ops" and vok vmap vdrops +
  fixes A :: "'v apply_ops"
    and ty :: "nat \<Rightarrow> ledger_entry_type"
    and out :: "'v \<Rightarrow> nat set"
  assumes typed_abs: "vok v \<Longrightarrow> typed ty (vmap v)"
    and peek_abs: "vok v \<Longrightarrow> fits k (vmap v) \<Longrightarrow>
      \<exists>v'. a_peek A v k = Inr (vmap v (k_key k), v') \<and>
        takes vok vmap vdrops out (Inr v') (vmap v) (vdrops v) (insert (k_key k) (out v))"
    and put_abs: "vok v \<Longrightarrow> vmap v (sle_key s) = None \<Longrightarrow> entry_ok ty s \<Longrightarrow>
      takes vok vmap vdrops out (a_insert A v s) ((vmap v)(sle_key s \<mapsto> s)) (vdrops v) (insert (sle_key s) (out v))"
    and update_abs: "vok v \<Longrightarrow> vmap v (sle_key s) \<noteq> None \<Longrightarrow> sle_key s \<in> out v \<Longrightarrow> entry_ok ty s \<Longrightarrow>
      takes vok vmap vdrops out (a_update A v s) ((vmap v)(sle_key s \<mapsto> s)) (vdrops v) (out v)"
    and change_abs: "vok v \<Longrightarrow> vmap v (sle_key s) \<noteq> None \<Longrightarrow> entry_ok ty s \<Longrightarrow>
      takes vok vmap vdrops out (a_replace A v s) ((vmap v)(sle_key s \<mapsto> s)) (vdrops v) (insert (sle_key s) (out v))"
    and delete_abs: "vok v \<Longrightarrow> vmap v (sle_key s) \<noteq> None \<Longrightarrow> sle_key s \<in> out v \<Longrightarrow> entry_ok ty s \<Longrightarrow>
      takes vok vmap vdrops out (a_erase A v s) ((vmap v)(sle_key s := None)) (vdrops v) (out v)"
    and burn_abs: "vok v \<Longrightarrow> 0 \<le> fee \<Longrightarrow> fee \<le> vdrops v \<Longrightarrow>
      takes vok vmap vdrops out (a_destroy A v fee) (vmap v) (vdrops v - fee) (out v)"

section \<open>The sandbox keeps the contract\<close>

text \<open>What the action of an entry says of the base.\<close>

definition action_ok :: "apply_action \<Rightarrow> sle \<Rightarrow> sle option \<Rightarrow> bool" where
  "action_ok a s x \<longleftrightarrow> (case a of
     Act_Insert \<Rightarrow> x = None
   | Act_Cache \<Rightarrow> x = Some s
   | _ \<Rightarrow> x \<noteq> None)"

definition apply_ok :: "state \<Rightarrow> int \<Rightarrow> apply_table \<Rightarrow> bool" where
  "apply_ok M d t \<longleftrightarrow> entries_ok (at_items t) \<and> 0 \<le> at_drops t \<and> at_drops t \<le> d
     \<and> (\<forall>k a s. map_of (at_items t) k = Some (a, s) \<longrightarrow> action_ok a s (M k))"

abbreviation apply_overlay :: "state \<Rightarrow> apply_table \<Rightarrow> state" where
  "apply_overlay M t \<equiv> overlay erased M (at_items t)"

lemma apply_new_ok: "0 \<le> d \<Longrightarrow> apply_ok M d apply_new" "apply_overlay M apply_new = M"
  by (simp_all add: apply_ok_def apply_new_def)

lemma apply_put_ok:
  assumes "apply_ok M d t" "sle_ok s"
    "action_ok a s (M (sle_key s))"
  shows "apply_ok M d (apply_put (sle_key s) a s t)"
proof -
  have t: "entries_ok (at_items t)" "0 \<le> at_drops t \<and> at_drops t \<le> d"
    and items: "\<And>k a s. map_of (at_items t) k = Some (a, s) \<Longrightarrow> action_ok a s (M k)"
    using assms(1) unfolding apply_ok_def by blast+
  have "map_of (at_items (apply_put (sle_key s) a s t)) j
      = (if j = sle_key s then Some (a, s) else map_of (at_items t) j)" for j
    using t(1) by (simp add: apply_put_def entries_ok_def map_rules)
  then have "action_ok b r (M k)"
    if "map_of (at_items (apply_put (sle_key s) a s t)) k = Some (b, r)" for k b r
    using that items [of k b r] assms(3) by (cases "k = sle_key s") simp_all
  then show ?thesis
    using t entries_ok_insert [OF t(1) assms(2), of a] unfolding apply_ok_def by (simp add: apply_put_def)
qed

lemma apply_put_overlay:
  "apply_ok M d t \<Longrightarrow>
     apply_overlay M (apply_put k a s t) = (apply_overlay M t)(k := if a = Act_Erase then None else Some s)"
  by (simp add: apply_put_def apply_ok_def entries_ok_def overlay_insert)

lemma apply_put_items:
  "apply_ok M d t \<Longrightarrow> dom (map_of (at_items (apply_put k a s t))) = insert k (dom (map_of (at_items t)))"
  by (auto simp: apply_put_def apply_ok_def entries_ok_def map_rules)

lemma apply_put_drops [simp]: "at_drops (apply_put k a s t) = at_drops t"
  by (simp add: apply_put_def)

definition table_takes :: "state \<Rightarrow> int \<Rightarrow> apply_table vres \<Rightarrow> state \<Rightarrow> int \<Rightarrow> nat set \<Rightarrow> bool" where
  "table_takes M d r M' x ks \<longleftrightarrow> (\<exists>t. r = Inr t \<and> apply_ok M d t \<and> apply_overlay M t = M' \<and> at_drops t = x
     \<and> ks \<inter> dom M' \<subseteq> dom (map_of (at_items t)))"

lemma table_takes_put:
  assumes "apply_ok M d t" "sle_ok s" "r = Inr (apply_put (sle_key s) a s t)"
    "action_ok a s (M (sle_key s))"
    "M' = (apply_overlay M t)(sle_key s := if a = Act_Erase then None else Some s)"
    "ks \<subseteq> insert (sle_key s) (dom (map_of (at_items t)))"
  shows "table_takes M d r M' (at_drops t) ks"
  using assms apply_put_ok [OF assms(1,2,4)] apply_put_overlay [OF assms(1)] apply_put_items [OF assms(1)]
  by (auto simp: table_takes_def)

lemma apply_item:
  assumes "apply_ok M d t" "map_of (at_items t) k = Some (a, s)"
  shows "apply_overlay M t k = (if a = Act_Erase then None else Some s)"
    and "a = Act_Insert \<longleftrightarrow> M k = None" and "a = Act_Cache \<Longrightarrow> M k = Some s"
proof -
  have "action_ok a s (M k)" using assms unfolding apply_ok_def by blast
  then show "a = Act_Insert \<longleftrightarrow> M k = None" "a = Act_Cache \<Longrightarrow> M k = Some s" by (cases a; simp add: action_ok_def)+
qed (use assms(2) in \<open>simp add: overlay_def\<close>)

lemma apply_insert_abs:
  assumes "apply_ok M d t" "apply_overlay M t (sle_key s) = None" "sle_ok s"
  shows "table_takes M d (apply_insert t s) ((apply_overlay M t)(sle_key s \<mapsto> s)) (at_drops t)
    (insert (sle_key s) (dom (map_of (at_items t))))"
proof (cases "map_of (at_items t) (sle_key s)")
  case None
  then show ?thesis
    using assms(2) by (intro table_takes_put [OF assms(1,3), of _ Act_Insert]) (simp_all add: apply_insert_def overlay_def action_ok_def)
next
  case (Some e)
  then obtain a s' where e: "map_of (at_items t) (sle_key s) = Some (a, s')" by (cases e) auto
  then have "a = Act_Erase" "M (sle_key s) \<noteq> None"
    using apply_item(1,2) [OF assms(1) e] assms(2) by (simp_all split: if_splits)
  then show ?thesis using e by (intro table_takes_put [OF assms(1,3), of _ Act_Modify]) (simp_all add: apply_insert_def action_ok_def)
qed

lemma apply_replace_abs:
  assumes "apply_ok M d t" "apply_overlay M t (sle_key s) \<noteq> None" "sle_ok s"
  shows "table_takes M d (apply_replace t s) ((apply_overlay M t)(sle_key s \<mapsto> s)) (at_drops t)
    (insert (sle_key s) (dom (map_of (at_items t))))"
proof (cases "map_of (at_items t) (sle_key s)")
  case None
  then show ?thesis
    using assms(2) by (intro table_takes_put [OF assms(1,3), of _ Act_Modify]) (simp_all add: apply_replace_def overlay_def action_ok_def)
next
  case (Some e)
  then obtain a s' where e: "map_of (at_items t) (sle_key s) = Some (a, s')" by (cases e) auto
  then have a: "a \<noteq> Act_Erase" "a = Act_Insert \<longleftrightarrow> M (sle_key s) = None"
    using apply_item(1,2) [OF assms(1) e] assms(2) by (simp_all split: if_splits)
  have "apply_replace t s = Inr (apply_put (sle_key s) (if a = Act_Insert then Act_Insert else Act_Modify) s t)"
    using a(1) e by (cases a) (simp_all add: apply_replace_def)
  then show ?thesis
    using a(2) by (intro table_takes_put [OF assms(1,3), of _ "if a = Act_Insert then Act_Insert else Act_Modify"]) (simp_all add: action_ok_def)
qed

lemma apply_update_replace:
  assumes "sle_key s \<in> dom (map_of (at_items t))" "apply_overlay M t (sle_key s) \<noteq> None"
  shows "apply_update t s = apply_replace t s"
proof -
  obtain a s' where "map_of (at_items t) (sle_key s) = Some (a, s')" using assms(1) by auto
  then show ?thesis using assms(2) by (cases a) (simp_all add: apply_update_def apply_replace_def overlay_def)
qed

lemma apply_erase_abs:
  assumes "apply_ok M d t" "apply_overlay M t (sle_key s) \<noteq> None" "sle_key s \<in> dom (map_of (at_items t))" "sle_ok s"
  shows "table_takes M d (apply_erase t s) ((apply_overlay M t)(sle_key s := None)) (at_drops t) (dom (map_of (at_items t)))"
proof -
  obtain a s' where e: "map_of (at_items t) (sle_key s) = Some (a, s')" using assms(3) by auto
  note item = apply_item [OF assms(1) e]
  show ?thesis
  proof (cases "a = Act_Insert")
    case True
    let ?t = "t\<lparr>at_items := btree_remove (sle_key s) (at_items t)\<rparr>"
    have "M (sle_key s) = None" using item(2) True by simp
    then have "apply_ok M d ?t" "apply_overlay M ?t = (apply_overlay M t)(sle_key s := None)"
      using assms(1) by (auto simp: apply_ok_def entries_ok_remove overlay_remove map_rules)
    moreover have "apply_erase t s = Inr ?t" using e True by (simp add: apply_erase_def)
    moreover have "dom (map_of (at_items t)) - {sle_key s} \<subseteq> dom (map_of (at_items ?t))"
      by (auto simp: map_rules)
    ultimately show ?thesis by (auto simp: table_takes_def)
  next
    case False
    have "a \<noteq> Act_Erase" "M (sle_key s) \<noteq> None"
      using item(1,2) False assms(2) by (simp_all split: if_splits)
    then have "apply_erase t s = Inr (apply_put (sle_key s) Act_Erase s t)"
      using e False by (cases a) (simp_all add: apply_erase_def)
    then show ?thesis
      using \<open>M (sle_key s) \<noteq> None\<close> by (intro table_takes_put [OF assms(1,4), of _ Act_Erase]) (auto simp: action_ok_def)
  qed
qed

definition sandbox_map :: "('b \<Rightarrow> state) \<Rightarrow> 'b sandbox \<Rightarrow> state" where
  "sandbox_map vmap v = apply_overlay (vmap (sb_base v)) (sb_table v)"

definition sandbox_drops :: "('b \<Rightarrow> int) \<Rightarrow> 'b sandbox \<Rightarrow> int" where
  "sandbox_drops vdrops v = vdrops (sb_base v) - at_drops (sb_table v)"

definition sandbox_ok ::
  "(nat \<Rightarrow> ledger_entry_type) \<Rightarrow> ('b \<Rightarrow> bool) \<Rightarrow> ('b \<Rightarrow> state) \<Rightarrow> ('b \<Rightarrow> int) \<Rightarrow> 'b sandbox \<Rightarrow> bool" where
  "sandbox_ok ty vok vmap vdrops v \<longleftrightarrow> vok (sb_base v) \<and> typed ty (sandbox_map vmap v)
     \<and> apply_ok (vmap (sb_base v)) (vdrops (sb_base v)) (sb_table v)"

definition sandbox_out :: "'b sandbox \<Rightarrow> nat set" where
  "sandbox_out v = dom (map_of (at_items (sb_table v)))"

lemma typed_upd [intro]:
  "typed ty M \<Longrightarrow> entry_ok ty s \<Longrightarrow> typed ty (M(sle_key s \<mapsto> s))" "typed ty M \<Longrightarrow> typed ty (M(k := None))"
  by (simp_all add: typed_def entry_ok_def)

lemma with_table_takes:
  assumes "sandbox_ok ty vok vmap vdrops v" "typed ty M"
    and "table_takes (vmap (sb_base v)) (vdrops (sb_base v)) r M (at_drops (sb_table v)) ks"
  shows "takes (sandbox_ok ty vok vmap vdrops) (sandbox_map vmap) (sandbox_drops vdrops) sandbox_out
    (with_table v r) M (sandbox_drops vdrops v) ks"
proof -
  obtain t where "r = Inr t" "apply_ok (vmap (sb_base v)) (vdrops (sb_base v)) t"
    "apply_overlay (vmap (sb_base v)) t = M" "at_drops t = at_drops (sb_table v)" "ks \<inter> dom M \<subseteq> dom (map_of (at_items t))"
    using assms(3) unfolding table_takes_def by blast
  then show ?thesis
    using assms(1,2) by (simp add: takes_def with_table_def sandbox_ok_def sandbox_map_def sandbox_drops_def sandbox_out_def)
qed

text \<open>The entries of a table, put into a batch, are an overlay.\<close>

lemma map_batch_items:
  assumes "entries_ok its" "\<And>k a s. map_of its k = Some (a, s) \<Longrightarrow> action_ok a s (M k)"
  shows "map_batch M (concat (map batch_of its)) = Some (overlay erased M its)"
  using assms
proof (induction its arbitrary: M)
  case (Cons e its)
  obtain k a s where e: "e = (k, a, s)" using prod_cases3 by blast
  note s = entries_ok_Cons [OF Cons.prems(1) [unfolded e]]
  let ?M = "M(k := if erased a then None else Some s)"
  have a: "action_ok a s (M k)" using Cons.prems(2) [of k a s] e by simp
  have "action_ok b r (?M j)" if "map_of its j = Some (b, r)" for j b r
    using Cons.prems(2) [of j b r] that s(4) e by (cases "j = k") simp_all
  then have "map_batch ?M (concat (map batch_of its)) = Some (overlay erased ?M its)" by (rule Cons.IH [OF s(3)])
  then show ?case
    using a s(1,2) e overlay_Cons [OF s(4), of erased M a s] by (cases a) (simp_all add: action_ok_def fun_upd_idem)
qed simp

context read_view
begin

lemma apply_lookup:
  assumes "vok v" "fits k (apply_overlay (vmap v) t)"
  shows "apply_exists R v t k = Inr (apply_overlay (vmap v) t (k_key k) \<noteq> None)"
    and "apply_read R v t k = Inr (apply_overlay (vmap v) t (k_key k))"
proof -
  have "fits k (vmap v)" if "map_of (at_items t) (k_key k) = None"
    using assms(2) that by (simp add: fits_def overlay_def)
  then show "apply_exists R v t k = Inr (apply_overlay (vmap v) t (k_key k) \<noteq> None)"
    "apply_read R v t k = Inr (apply_overlay (vmap v) t (k_key k))"
    using exists_abs [OF assms(1)] read_abs [OF assms(1)]
    by (auto simp: apply_exists_def apply_read_def overlay_def split: option.splits)
qed

lemma apply_succ_abs:
  assumes "vok v" "apply_ok (vmap v) d t" "key_ok k"
  shows "apply_succ R v t k b = Inr (next_key (apply_overlay (vmap v) t) k b)"
proof -
  have "entries_ok (at_items t)" using assms(2) by (simp add: apply_ok_def)
  then show ?thesis
    using overlay_next [OF abs_ok [OF assms(1)], of "at_items t" erased k b]
      skip_overlay [OF assms(1,3), of "at_items t" erased b]
    by (simp add: apply_succ_def Let_def min_def split: option.splits)
qed

lemma sandbox_is_view:
  "read_view (sandbox_reads R) (sandbox_ok ty vok vmap vdrops) (sandbox_map vmap) (sandbox_drops vdrops)"
proof
  fix v assume ok: "sandbox_ok ty vok vmap vdrops v"
  then have base: "vok (sb_base v)" and t: "apply_ok (vmap (sb_base v)) (vdrops (sb_base v)) (sb_table v)"
    by (simp_all add: sandbox_ok_def)
  show "state_ok (sandbox_map vmap v)"
    unfolding sandbox_map_def using base t by (intro overlay_state_ok abs_ok) (simp_all add: apply_ok_def)
  show "0 \<le> sandbox_drops vdrops v \<and> sandbox_drops vdrops v < 2 ^ 63"
    using t supply_range [OF base] by (simp add: sandbox_drops_def apply_ok_def)
  show "r_succ (sandbox_reads R) v j b = Inr (next_key (sandbox_map vmap v) j b)" if "key_ok j" for j b
    using apply_succ_abs [OF base t that] by (simp add: sandbox_reads_def sandbox_map_def)
  fix k assume "fits k (sandbox_map vmap v)"
  then have f: "fits k (apply_overlay (vmap (sb_base v)) (sb_table v))" by (simp add: sandbox_map_def)
  show "r_exists (sandbox_reads R) v k = Inr (sandbox_map vmap v (k_key k) \<noteq> None)"
    "r_read (sandbox_reads R) v k = Inr (sandbox_map vmap v (k_key k))"
    using apply_lookup [OF base f] by (simp_all add: sandbox_reads_def sandbox_map_def)
qed

lemma sandbox_peek_abs:
  assumes "sandbox_ok ty vok vmap vdrops v" "fits k (sandbox_map vmap v)"
  shows "\<exists>v'. sandbox_peek R v k = Inr (sandbox_map vmap v (k_key k), v') \<and>
    takes (sandbox_ok ty vok vmap vdrops) (sandbox_map vmap) (sandbox_drops vdrops) sandbox_out
      (Inr v') (sandbox_map vmap v) (sandbox_drops vdrops v) (insert (k_key k) (sandbox_out v))"
proof -
  let ?M = "vmap (sb_base v)" and ?t = "sb_table v"
  have base: "vok (sb_base v)" and t: "apply_ok ?M (vdrops (sb_base v)) ?t" and ty: "typed ty (apply_overlay ?M ?t)"
    using assms(1) by (simp_all add: sandbox_ok_def sandbox_map_def)
  have f: "fits k (apply_overlay ?M ?t)" using assms(2) by (simp add: sandbox_map_def)
  note peek = sandbox_peek_def apply_peek_def sandbox_map_def
  show ?thesis
  proof (cases "map_of (at_items ?t) (k_key k)")
    case (Some e)
    then have "sandbox_peek R v k = Inr (sandbox_map vmap v (k_key k), v)"
      by (cases e) (simp add: peek overlay_def)
    moreover have "insert (k_key k) (sandbox_out v) = sandbox_out v" using Some by (auto simp: sandbox_out_def)
    ultimately show ?thesis using assms(1) by (auto simp: takes_def)
  next
    case None
    then have at: "apply_overlay ?M ?t (k_key k) = ?M (k_key k)" by (simp add: overlay_def)
    then have read: "r_read R (sb_base v) k = Inr (?M (k_key k))"
      using read_abs [OF base, of k] f by (simp add: fits_def)
    show ?thesis
    proof (cases "?M (k_key k)")
      case N: None
      then have "sandbox_peek R v k = Inr (sandbox_map vmap v (k_key k), v)"
        using None read at by (simp add: peek)
      moreover have "k_key k \<notin> dom (sandbox_map vmap v)" using N at by (simp add: sandbox_map_def domIff)
      ultimately show ?thesis using assms(1) by (auto simp: takes_def)
    next
      case (Some s)
      have s: "sle_key s = k_key k" "sle_ok s" using abs_ok [OF base] Some by (simp_all add: state_ok_def)
      have "table_takes ?M (vdrops (sb_base v)) (Inr (apply_put (k_key k) Act_Cache s ?t)) (apply_overlay ?M ?t) (at_drops ?t)
          (insert (k_key k) (sandbox_out v))"
        using s Some at t by (intro table_takes_put [of _ _ _ s _ Act_Cache])
          (auto simp: action_ok_def sandbox_out_def fun_upd_idem)
      from with_table_takes [OF assms(1) ty this]
      show ?thesis using None read at Some by (auto simp: peek with_table_def)
    qed
  qed
qed

lemmas defs = sandbox_apply_ops_def sandbox_out_def sandbox_map_def sandbox_ok_def entry_ok_def

lemma sandbox_is_apply:
  "apply_view (sandbox_reads R) (sandbox_ok ty vok vmap vdrops) (sandbox_map vmap) (sandbox_drops vdrops)
     (sandbox_apply_ops R) ty sandbox_out"
proof (intro apply_view.intro sandbox_is_view apply_view_axioms.intro, goal_cases)
  case (1 v)
  then show ?case by (simp add: sandbox_ok_def)
next
  case (2 v k)
  then show ?case using sandbox_peek_abs by (simp add: sandbox_apply_ops_def)
next
  case (3 v s)
  then show ?case
    using apply_insert_abs [of "vmap (sb_base v)" "vdrops (sb_base v)" "sb_table v" s]
    by (auto simp: defs sandbox_raw_insert_def intro!: with_table_takes)
next
  case (4 v s)
  moreover have "apply_update (sb_table v) s = apply_replace (sb_table v) s"
    using 4 by (intro apply_update_replace [of _ _ "vmap (sb_base v)"]) (simp_all add: sandbox_map_def sandbox_out_def)
  moreover have "insert (sle_key s) (sandbox_out v) = sandbox_out v" using 4(3) by blast
  ultimately show ?case
    using apply_replace_abs [of "vmap (sb_base v)" "vdrops (sb_base v)" "sb_table v" s]
    by (auto simp: defs sandbox_update_def intro!: with_table_takes)
next
  case (5 v s)
  then show ?case
    using apply_replace_abs [of "vmap (sb_base v)" "vdrops (sb_base v)" "sb_table v" s]
    by (auto simp: defs sandbox_raw_replace_def intro!: with_table_takes)
next
  case (6 v s)
  then show ?case
    using apply_erase_abs [of "vmap (sb_base v)" "vdrops (sb_base v)" "sb_table v" s]
    by (auto simp: defs sandbox_raw_erase_def intro!: with_table_takes)
next
  case (7 v fee)
  have "vdrops (sb_base v) < 2 ^ 63" using supply_range 7(1) by (simp add: sandbox_ok_def)
  then have "as_i64 (at_drops (sb_table v) + fee) = at_drops (sb_table v) + fee"
    using 7 unfolding as_i64_def by (intro signed_take_bit_int_eq_self) (simp_all add: sandbox_ok_def apply_ok_def sandbox_drops_def)
  then show ?case
    using 7 by (auto simp: defs takes_def apply_ok_def sandbox_raw_destroy_xrp_def apply_destroy_xrp_def sandbox_drops_def)
qed

end

context raw_view
begin

lemma apply_apply_abs:
  assumes "vok to" "apply_ok (vmap to) d t" "d \<le> vdrops to"
  shows "becomes vok vmap vdrops (apply_apply W t to) (apply_overlay (vmap to) t) (vdrops to - at_drops t)"
proof -
  have "map_batch (vmap to) (concat (map batch_of (at_items t))) = Some (apply_overlay (vmap to) t)"
    using assms(2) by (intro map_batch_items) (auto simp: apply_ok_def)
  then obtain v where v: "w_batch W to (concat (map batch_of (at_items t))) = Inr v" "vok v"
    "vmap v = apply_overlay (vmap to) t" "vdrops v = vdrops to"
    using batch_abs [OF assms(1)] by (auto simp: becomes_def)
  then show ?thesis
    using destroy_abs [OF v(2), of "at_drops t"] assms(2,3) by (simp add: apply_apply_def apply_ok_def)
qed

end

interpretation sb: apply_view "sandbox_reads (ledger_reads C)" "sandbox_ok ty (ledger_ok C) (ledger_map C) ledger_drops"
  "sandbox_map (ledger_map C)" "sandbox_drops ledger_drops" "sandbox_apply_ops (ledger_reads C)" ty sandbox_out for C ty
  by (rule led.sandbox_is_apply)

interpretation sbo: apply_view "sandbox_reads (open_reads (ledger_reads C))"
  "sandbox_ok ty (open_ok (ledger_ok C) (ledger_map C) ledger_drops) (open_map (ledger_map C)) (open_drops ledger_drops)"
  "sandbox_map (open_map (ledger_map C))" "sandbox_drops (open_drops ledger_drops)"
  "sandbox_apply_ops (open_reads (ledger_reads C))" ty sandbox_out for C ty
  by (rule ov.sandbox_is_apply)

end
