(* ===== verification/Flow_Sandbox.thy ===== *)
theory Flow_Sandbox
  imports Apply_State_Table
begin

text \<open>
  The \<^verbatim>\<open>FlowSandbox\<close>, a child of a view that is written to: it captures the writes and is committed
  to its parent or discarded. The commit first checks all of its preconditions in the parent, so
  that it takes place as a whole or not at all.
\<close>

section \<open>FlowSandbox\<close>

datatype flow_action = Flow_Insert | Flow_Modify | Flow_Erase

abbreviation flow_dead :: "flow_action \<Rightarrow> bool" where
  "flow_dead a \<equiv> a = Flow_Erase"

text \<open>Of the apply flags, \<^verbatim>\<open>DRY_RUN\<close> matters here.\<close>

record 'p flow =
  fl_parent :: 'p
  fl_items :: "(nat, flow_action \<times> sle) btree"
  fl_drops :: int
  fl_dry_run :: bool

definition flow_new :: "bool \<Rightarrow> 'p \<Rightarrow> 'p flow" where
  "flow_new dry p = \<lparr>fl_parent = p, fl_items = [], fl_drops = 0, fl_dry_run = dry\<rparr>"

definition flow_exists :: "'p read_ops \<Rightarrow> 'p flow \<Rightarrow> keylet \<Rightarrow> bool vres" where
  "flow_exists R f k =
     (case map_of (fl_items f) (k_key k) of
        Some (a, s) \<Rightarrow> Inr (a \<noteq> Flow_Erase)
      | None \<Rightarrow> r_exists R (fl_parent f) k)"

definition flow_succ :: "'p read_ops \<Rightarrow> 'p flow \<Rightarrow> nat \<Rightarrow> nat option \<Rightarrow> nat option vres" where
  "flow_succ R f key bound =
     and_then (skip_erased (Suc (length (fl_items f))) R (fl_parent f) (erased_in flow_dead (fl_items f)) key bound)
       (\<lambda>next.
          Inr (cut_last bound
            (case live_after flow_dead (fl_items f) key of
               None \<Rightarrow> next
             | Some k \<Rightarrow> if next = None \<or> the next > k then Some k else next)))"

definition flow_read :: "'p read_ops \<Rightarrow> 'p flow \<Rightarrow> keylet \<Rightarrow> sle option vres" where
  "flow_read R f k =
     (case map_of (fl_items f) (k_key k) of
        Some (a, s) \<Rightarrow> if a = Flow_Erase then Inr None else Inr (Some s)
      | None \<Rightarrow> r_read R (fl_parent f) k)"

definition flow_reads :: "'p read_ops \<Rightarrow> 'p flow read_ops" where
  "flow_reads R =
     \<lparr>r_open = (\<lambda>f. r_open R (fl_parent f)), r_header = (\<lambda>f. r_header R (fl_parent f)),
      r_exists = flow_exists R, r_succ = flow_succ R, r_read = flow_read R\<rparr>"

definition flow_put :: "flow_action \<Rightarrow> sle \<Rightarrow> 'p flow \<Rightarrow> 'p flow" where
  "flow_put a s f = f\<lparr>fl_items := btree_insert (sle_key s) (a, s) (fl_items f)\<rparr>"

definition flow_raw_insert :: "'p flow \<Rightarrow> sle \<Rightarrow> 'p flow vres" where
  "flow_raw_insert f s =
     Inr (flow_put
       (if map_option fst (map_of (fl_items f) (sle_key s)) = Some Flow_Erase then Flow_Modify else Flow_Insert) s f)"

definition flow_raw_replace :: "'p flow \<Rightarrow> sle \<Rightarrow> 'p flow vres" where
  "flow_raw_replace f s =
     (if map_option fst (map_of (fl_items f) (sle_key s)) = Some Flow_Insert
      then Inr (flow_put Flow_Insert s f) else Inr (flow_put Flow_Modify s f))"

definition flow_raw_erase :: "'p flow \<Rightarrow> sle \<Rightarrow> 'p flow vres" where
  "flow_raw_erase f s =
     (if map_option fst (map_of (fl_items f) (sle_key s)) = Some Flow_Insert
      then Inr (f\<lparr>fl_items := btree_remove (sle_key s) (fl_items f)\<rparr>)
      else Inr (flow_put Flow_Erase s f))"

definition flow_raw_destroy_xrp :: "'p flow \<Rightarrow> int \<Rightarrow> 'p flow vres" where
  "flow_raw_destroy_xrp f fee = Inr (f\<lparr>fl_drops := as_i64 (fl_drops f + fee)\<rparr>)"

definition flow_peek :: "'p apply_ops \<Rightarrow> 'p flow \<Rightarrow> keylet \<Rightarrow> (sle option \<times> 'p flow) vres" where
  "flow_peek A f k =
     (case map_of (fl_items f) (k_key k) of
        Some (a, s) \<Rightarrow> if a = Flow_Erase then Inr (None, f) else Inr (Some s, f)
      | None \<Rightarrow> and_then (a_peek A (fl_parent f) k) (\<lambda>(r, p). Inr (r, f\<lparr>fl_parent := p\<rparr>)))"

definition flow_ops :: "'p apply_ops \<Rightarrow> 'p flow apply_ops" where
  "flow_ops A =
     \<lparr>a_peek = flow_peek A, a_insert = flow_raw_insert, a_update = flow_raw_replace, a_replace = flow_raw_replace,
      a_erase = flow_raw_erase, a_destroy = flow_raw_destroy_xrp\<rparr>"

section \<open>Committing\<close>

text \<open>
  The parent is borrowed, so what was done to it before an error stays: the functions below return
  the error, if any, with the parent. An operation of the parent that fails leaves it as it was.
\<close>

fun validate_parent_commit ::
  "'p read_ops \<Rightarrow> 'p apply_ops \<Rightarrow> (nat, flow_action \<times> sle) btree \<Rightarrow> 'p \<Rightarrow> view_error option \<times> 'p" where
  "validate_parent_commit R A [] p = (None, p)"
| "validate_parent_commit R A ((key, a, s) # its) p =
     (let k = \<lparr>k_key = key, k_type = sle_type s\<rparr>
      in case r_read R p k of
           Inl e \<Rightarrow> (Some e, p)
         | Inr existing \<Rightarrow>
             if a = Flow_Insert then
               if existing \<noteq> None
               then (Some (Conversion ''FlowSandbox::apply: inserted parent entry already exists''), p)
               else validate_parent_commit R A its p
             else if existing = None
             then (Some (Conversion ''FlowSandbox::apply: parent entry disappeared''), p)
             else (case a_peek A p k of
                     Inl e \<Rightarrow> (Some e, p)
                   | Inr (r, p') \<Rightarrow> validate_parent_commit R A its p'))"

definition flow_write :: "'p apply_ops \<Rightarrow> nat \<Rightarrow> flow_action \<Rightarrow> sle \<Rightarrow> 'p \<Rightarrow> view_error option \<times> 'p" where
  "flow_write A key a s p =
     (let finish = (\<lambda>q r. case r of Inl e \<Rightarrow> (Some e, q) | Inr q' \<Rightarrow> (None, q'))
      in if a = Flow_Insert then finish p (a_insert A p s)
         else case a_peek A p \<lparr>k_key = key, k_type = sle_type s\<rparr> of
           Inl e \<Rightarrow> (Some e, p)
         | Inr (None, q) \<Rightarrow>
             (Some (Conversion (if a = Flow_Modify then ''FlowSandbox::apply: modified parent entry disappeared''
                else ''FlowSandbox::apply: erased parent entry disappeared'')), q)
         | Inr (Some r, q) \<Rightarrow>
             if a = Flow_Modify then finish q (a_update A q s) else finish q (a_erase A q s))"

fun flow_commit :: "'p apply_ops \<Rightarrow> (nat, flow_action \<times> sle) btree \<Rightarrow> 'p \<Rightarrow> view_error option \<times> 'p" where
  "flow_commit A [] p = (None, p)"
| "flow_commit A ((key, a, s) # its) p =
     (case flow_write A key a s p of (Some e, q) \<Rightarrow> (Some e, q) | (None, q) \<Rightarrow> flow_commit A its q)"

definition flow_apply :: "'p read_ops \<Rightarrow> 'p apply_ops \<Rightarrow> 'p flow \<Rightarrow> view_error option \<times> 'p" where
  "flow_apply R A f =
     (case validate_parent_commit R A (fl_items f) (fl_parent f) of
        (Some e, p) \<Rightarrow> (Some e, p)
      | (None, p) \<Rightarrow>
          (case (if fl_drops f > 0 \<and> \<not> fl_dry_run f then a_destroy A p (fl_drops f) else Inr p) of
             Inl e \<Rightarrow> (Some e, p)
           | Inr q \<Rightarrow> flow_commit A (fl_items f) q))"

section \<open>The child keeps the contract\<close>

definition flow_map :: "('p \<Rightarrow> state) \<Rightarrow> 'p flow \<Rightarrow> state" where
  "flow_map vmap f = overlay flow_dead (vmap (fl_parent f)) (fl_items f)"

definition flow_left :: "('p \<Rightarrow> int) \<Rightarrow> 'p flow \<Rightarrow> int" where
  "flow_left vdrops f = vdrops (fl_parent f) - fl_drops f"

text \<open>The writes that a child captured, and their agreement with the state of the parent.\<close>

definition captured :: "(nat \<Rightarrow> ledger_entry_type) \<Rightarrow> (nat, flow_action \<times> sle) btree \<Rightarrow> bool" where
  "captured ty its \<longleftrightarrow> btree_wf its \<and> (\<forall>(k, a, s) \<in> set its. sle_key s = k \<and> entry_ok ty s)"

definition agrees :: "state \<Rightarrow> (nat, flow_action \<times> sle) btree \<Rightarrow> bool" where
  "agrees M its \<longleftrightarrow> (\<forall>(k, a, s) \<in> set its. a = Flow_Insert \<longleftrightarrow> M k = None)"

definition flow_ok ::
  "(nat \<Rightarrow> ledger_entry_type) \<Rightarrow> ('p \<Rightarrow> bool) \<Rightarrow> ('p \<Rightarrow> state) \<Rightarrow> ('p \<Rightarrow> int) \<Rightarrow> 'p flow \<Rightarrow> bool" where
  "flow_ok ty vok vmap vdrops f \<longleftrightarrow> vok (fl_parent f) \<and> captured ty (fl_items f)
     \<and> agrees (vmap (fl_parent f)) (fl_items f) \<and> 0 \<le> fl_drops f \<and> fl_drops f \<le> vdrops (fl_parent f)"

lemma captured_entries: "captured ty its \<Longrightarrow> entries_ok its"
  by (auto simp: captured_def entries_ok_def entry_ok_def dest!: map_of_SomeD)

lemma captured_insert:
  "captured ty its \<Longrightarrow> entry_ok ty s \<Longrightarrow> captured ty (btree_insert (sle_key s) (a, s) its)"
  by (auto simp: captured_def set_btree_insert)

lemma captured_remove: "captured ty its \<Longrightarrow> captured ty (btree_remove k its)"
  by (auto simp: captured_def map_rules) (auto simp: btree_remove_def)

lemma typed_fits: "typed ty M \<Longrightarrow> state_ok M \<Longrightarrow> fits \<lparr>k_key = k, k_type = ty k\<rparr> M"
  by (auto simp: fits_def typed_def state_ok_def sle_ok_def has_format_def check_exact)

lemma typed_overlay: "typed ty M \<Longrightarrow> captured ty its \<Longrightarrow> typed ty (overlay dead M its)"
  by (auto simp: typed_def captured_def entry_ok_def overlay_def split: option.splits if_splits dest!: map_of_SomeD)

lemma captured_item:
  assumes "captured ty its" "map_of its k = Some (a, s)"
  shows "sle_key s = k \<and> entry_ok ty s"
  using assms by (auto simp: captured_def dest!: map_of_SomeD)

lemma agrees_item: "agrees M its \<Longrightarrow> map_of its k = Some (a, s) \<Longrightarrow> a = Flow_Insert \<longleftrightarrow> M k = None"
  by (auto simp: agrees_def dest!: map_of_SomeD)

lemma flow_put_ok:
  assumes "flow_ok ty vok vmap vdrops f" "entry_ok ty s" "a = Flow_Insert \<longleftrightarrow> vmap (fl_parent f) (sle_key s) = None"
  shows "flow_ok ty vok vmap vdrops (flow_put a s f)"
    and "flow_map vmap (flow_put a s f) = (flow_map vmap f)(sle_key s := if flow_dead a then None else Some s)"
    and "flow_left vdrops (flow_put a s f) = flow_left vdrops f"
proof -
  have wf: "btree_wf (fl_items f)" using assms(1) by (simp add: flow_ok_def captured_def)
  then have "agrees (vmap (fl_parent f)) (btree_insert (sle_key s) (a, s) (fl_items f))"
    using assms(1,3) by (auto simp: flow_ok_def agrees_def set_btree_insert)
  then show "flow_ok ty vok vmap vdrops (flow_put a s f)"
    using assms(1,2) captured_insert by (simp add: flow_ok_def flow_put_def)
  show "flow_map vmap (flow_put a s f) = (flow_map vmap f)(sle_key s := if flow_dead a then None else Some s)"
    using wf by (simp add: flow_map_def flow_put_def overlay_insert)
qed (simp add: flow_left_def flow_put_def)

lemma flow_item:
  assumes "flow_ok ty vok vmap vdrops f"
  shows "map_of (fl_items f) k = None \<Longrightarrow> flow_map vmap f k = vmap (fl_parent f) k"
    and "map_of (fl_items f) k = Some (a, s) \<Longrightarrow> flow_map vmap f k = (if flow_dead a then None else Some s)"
    and "map_of (fl_items f) k = Some (a, s) \<Longrightarrow> a = Flow_Insert \<longleftrightarrow> vmap (fl_parent f) k = None"
  using assms agrees_item [of "vmap (fl_parent f)" "fl_items f" k a s]
  by (simp_all add: flow_map_def overlay_def flow_ok_def)

lemma flow_takes:
  "flow_ok ty vok vmap vdrops f' \<Longrightarrow> flow_map vmap f' = M \<Longrightarrow> flow_left vdrops f' = d \<Longrightarrow>
     takes (flow_ok ty vok vmap vdrops) (flow_map vmap) (flow_left vdrops) (\<lambda>f. UNIV) (Inr f') M d ks"
  by (simp add: takes_def)

lemma flow_insert_abs:
  assumes "flow_ok ty vok vmap vdrops f" "flow_map vmap f (sle_key s) = None" "entry_ok ty s"
  shows "takes (flow_ok ty vok vmap vdrops) (flow_map vmap) (flow_left vdrops) (\<lambda>f. UNIV)
    (flow_raw_insert f s) ((flow_map vmap f)(sle_key s \<mapsto> s)) (flow_left vdrops f) ks"
proof -
  let ?a = "if map_option fst (map_of (fl_items f) (sle_key s)) = Some Flow_Erase then Flow_Modify else Flow_Insert"
  have "?a = Flow_Insert \<longleftrightarrow> vmap (fl_parent f) (sle_key s) = None"
  proof (cases "map_of (fl_items f) (sle_key s)")
    case (Some e)
    then show ?thesis using flow_item(2,3) [OF assms(1)] assms(2) by (cases e) (fastforce split: if_splits)
  qed (use flow_item(1) [OF assms(1)] assms(2) in simp)
  from flow_put_ok [OF assms(1,3) this] show ?thesis
    unfolding flow_raw_insert_def by (intro flow_takes) (simp_all split: if_splits)
qed

lemma flow_replace_abs:
  assumes "flow_ok ty vok vmap vdrops f" "flow_map vmap f (sle_key s) \<noteq> None" "entry_ok ty s"
  shows "takes (flow_ok ty vok vmap vdrops) (flow_map vmap) (flow_left vdrops) (\<lambda>f. UNIV)
    (flow_raw_replace f s) ((flow_map vmap f)(sle_key s \<mapsto> s)) (flow_left vdrops f) ks"
proof -
  let ?a = "if map_option fst (map_of (fl_items f) (sle_key s)) = Some Flow_Insert then Flow_Insert else Flow_Modify"
  have "?a = Flow_Insert \<longleftrightarrow> vmap (fl_parent f) (sle_key s) = None"
  proof (cases "map_of (fl_items f) (sle_key s)")
    case (Some e)
    then show ?thesis using flow_item(2,3) [OF assms(1)] assms(2) by (cases e) (fastforce split: if_splits)
  qed (use flow_item(1) [OF assms(1)] assms(2) in simp)
  from flow_put_ok [OF assms(1,3) this]
  have "takes (flow_ok ty vok vmap vdrops) (flow_map vmap) (flow_left vdrops) (\<lambda>f. UNIV)
    (Inr (flow_put ?a s f)) ((flow_map vmap f)(sle_key s \<mapsto> s)) (flow_left vdrops f) ks"
    by (intro flow_takes) (simp_all split: if_splits)
  then show ?thesis by (simp add: flow_raw_replace_def split: if_splits)
qed

lemma flow_erase_abs:
  assumes "flow_ok ty vok vmap vdrops f" "flow_map vmap f (sle_key s) \<noteq> None" "entry_ok ty s"
  shows "takes (flow_ok ty vok vmap vdrops) (flow_map vmap) (flow_left vdrops) (\<lambda>f. UNIV)
    (flow_raw_erase f s) ((flow_map vmap f)(sle_key s := None)) (flow_left vdrops f) ks"
proof (cases "map_option fst (map_of (fl_items f) (sle_key s)) = Some Flow_Insert")
  case True
  then obtain r where r: "map_of (fl_items f) (sle_key s) = Some (Flow_Insert, r)" by fastforce
  then have "vmap (fl_parent f) (sle_key s) = None" using flow_item(3) [OF assms(1) r] by simp
  moreover have "agrees (vmap (fl_parent f)) (btree_remove (sle_key s) (fl_items f))"
    using assms(1) by (auto simp: flow_ok_def agrees_def btree_remove_def)
  ultimately show ?thesis
    using True assms(1) captured_remove
    by (auto simp: flow_raw_erase_def flow_ok_def flow_map_def flow_left_def overlay_remove intro!: flow_takes)
next
  case False
  then have "vmap (fl_parent f) (sle_key s) \<noteq> None"
    using flow_item [OF assms(1), of "sle_key s"] assms(2)
    by (cases "map_of (fl_items f) (sle_key s)") fastforce+
  with flow_put_ok [OF assms(1,3), of Flow_Erase] False show ?thesis
    unfolding flow_raw_erase_def by (auto intro!: flow_takes)
qed

context apply_view
begin

lemma flow_is_view: "read_view (flow_reads R) (flow_ok ty vok vmap vdrops) (flow_map vmap) (flow_left vdrops)"
proof
  fix f assume ok: "flow_ok ty vok vmap vdrops f"
  then have base: "vok (fl_parent f)" and its: "entries_ok (fl_items f)"
    using captured_entries by (auto simp: flow_ok_def)
  show "state_ok (flow_map vmap f)" unfolding flow_map_def by (intro overlay_state_ok abs_ok base its)
  show "0 \<le> flow_left vdrops f \<and> flow_left vdrops f < 2 ^ 63"
    using ok supply_range [OF base] by (simp add: flow_left_def flow_ok_def)
  show "r_succ (flow_reads R) f j b = Inr (next_key (flow_map vmap f) j b)" if "key_ok j" for j b
    using overlay_next [OF abs_ok [OF base] its, of flow_dead j b] skip_overlay [OF base that, of "fl_items f" flow_dead b]
    by (simp add: flow_reads_def flow_succ_def flow_map_def split: option.splits)
  fix k assume f: "fits k (flow_map vmap f)"
  have "fits k (vmap (fl_parent f))" if "map_of (fl_items f) (k_key k) = None"
    using f flow_item(1) [OF ok that] by (simp add: fits_def)
  then show "r_exists (flow_reads R) f k = Inr (flow_map vmap f (k_key k) \<noteq> None)"
    "r_read (flow_reads R) f k = Inr (flow_map vmap f (k_key k))"
    using exists_abs [OF base] read_abs [OF base]
    by (auto simp: flow_reads_def flow_exists_def flow_read_def flow_map_def overlay_def split: option.splits)
qed

lemma flow_peek_abs:
  assumes "flow_ok ty vok vmap vdrops f" "fits k (flow_map vmap f)"
  shows "\<exists>f'. flow_peek A f k = Inr (flow_map vmap f (k_key k), f') \<and>
    takes (flow_ok ty vok vmap vdrops) (flow_map vmap) (flow_left vdrops) (\<lambda>f. UNIV)
      (Inr f') (flow_map vmap f) (flow_left vdrops f) ks"
proof (cases "map_of (fl_items f) (k_key k)")
  case (Some e)
  then have "flow_peek A f k = Inr (flow_map vmap f (k_key k), f)"
    by (cases e) (simp add: flow_peek_def flow_map_def overlay_def)
  then show ?thesis using assms(1) flow_takes by blast
next
  case None
  have ok: "vok (fl_parent f)" using assms(1) by (simp add: flow_ok_def)
  have "fits k (vmap (fl_parent f))" using assms(2) flow_item(1) [OF assms(1) None] by (simp add: fits_def)
  from peek_abs [OF ok this] obtain p where p: "a_peek A (fl_parent f) k = Inr (vmap (fl_parent f) (k_key k), p)"
    "vok p" "vmap p = vmap (fl_parent f)" "vdrops p = vdrops (fl_parent f)"
    by (auto simp: takes_def)
  then have "flow_peek A f k = Inr (flow_map vmap f (k_key k), f\<lparr>fl_parent := p\<rparr>)"
    using None flow_item(1) [OF assms(1) None] by (simp add: flow_peek_def)
  moreover have "takes (flow_ok ty vok vmap vdrops) (flow_map vmap) (flow_left vdrops) (\<lambda>f. UNIV)
      (Inr (f\<lparr>fl_parent := p\<rparr>)) (flow_map vmap f) (flow_left vdrops f) ks"
    using assms(1) p by (intro flow_takes) (simp_all add: flow_ok_def flow_map_def flow_left_def)
  ultimately show ?thesis by blast
qed

lemma flow_is_apply:
  "apply_view (flow_reads R) (flow_ok ty vok vmap vdrops) (flow_map vmap) (flow_left vdrops) (flow_ops A) ty (\<lambda>f. UNIV)"
proof (intro apply_view.intro flow_is_view apply_view_axioms.intro, goal_cases)
  case (1 f)
  then show ?case using typed_abs [of "fl_parent f"] by (auto simp: flow_ok_def flow_map_def intro: typed_overlay)
next
  case (7 f fee)
  have "vdrops (fl_parent f) < 2 ^ 63" using supply_range 7(1) by (simp add: flow_ok_def)
  then have "as_i64 (fl_drops f + fee) = fl_drops f + fee"
    using 7 unfolding as_i64_def by (intro signed_take_bit_int_eq_self) (simp_all add: flow_ok_def flow_left_def)
  then show ?case
    using 7 by (auto simp: flow_ops_def flow_raw_destroy_xrp_def flow_ok_def flow_map_def flow_left_def intro!: flow_takes)
qed (simp_all add: flow_ops_def flow_peek_abs flow_insert_abs flow_replace_abs flow_erase_abs)

text \<open>The check of the preconditions leaves the state of the parent alone and decides the agreement.\<close>

lemma captured_Cons:
  assumes "captured ty ((k, a, s) # its)"
  shows "sle_key s = k" "entry_ok ty s" "captured ty its" "map_of its k = None"
  using assms by (auto simp: captured_def btree_wf_def map_of_eq_None_iff)

lemma own_keylet_fits: "vok p \<Longrightarrow> entry_ok ty s \<Longrightarrow> sle_key s = k \<Longrightarrow> fits \<lparr>k_key = k, k_type = sle_type s\<rparr> (vmap p)"
  using typed_fits [OF typed_abs abs_ok, of p k] by (simp add: entry_ok_def)

lemma validate_abs:
  assumes "captured ty its" "vok p"
  shows "\<exists>e q. validate_parent_commit R A its p = (e, q) \<and> vok q \<and> vmap q = vmap p \<and> vdrops q = vdrops p
    \<and> (e = None \<longleftrightarrow> agrees (vmap p) its)"
  using assms
proof (induction its arbitrary: p)
  case (Cons x its)
  obtain k a s where x: "x = (k, a, s)" using prod_cases3 by blast
  note c = captured_Cons [OF Cons.prems(1) [unfolded x]]
  note fits = own_keylet_fits [OF Cons.prems(2) c(2,1)]
  have read: "r_read R p \<lparr>k_key = k, k_type = sle_type s\<rparr> = Inr (vmap p k)"
    using read_abs [OF Cons.prems(2) fits] by simp
  have head: "agrees (vmap p) (x # its) \<longleftrightarrow> (a = Flow_Insert \<longleftrightarrow> vmap p k = None) \<and> agrees (vmap p) its"
    by (simp add: agrees_def x)
  obtain p' where p': "a_peek A p \<lparr>k_key = k, k_type = sle_type s\<rparr> = Inr (vmap p k, p')" "vok p'"
    "vmap p' = vmap p" "vdrops p' = vdrops p"
    using peek_abs [OF Cons.prems(2) fits] by (auto simp: takes_def)
  show ?case
  proof (cases "a = Flow_Insert \<longleftrightarrow> vmap p k = None")
    case False
    then show ?thesis using read head Cons.prems(2) by (auto simp: x Let_def)
  next
    case True
    let ?q = "if a = Flow_Insert then p else p'"
    have "validate_parent_commit R A (x # its) p = validate_parent_commit R A its ?q"
      using True read p'(1) by (auto simp: x Let_def)
    moreover have "vok ?q" "vmap ?q = vmap p" "vdrops ?q = vdrops p" using Cons.prems(2) p' by simp_all
    ultimately show ?thesis using Cons.IH [OF c(3), of ?q] True head by (simp del: validate_parent_commit.simps)
  qed
qed (simp add: agrees_def)

lemma flow_write_abs:
  assumes "vok p" "entry_ok ty s" "sle_key s = k" "a = Flow_Insert \<longleftrightarrow> vmap p k = None"
  shows "\<exists>q. flow_write A k a s p = (None, q) \<and> vok q
    \<and> vmap q = (vmap p)(k := if flow_dead a then None else Some s) \<and> vdrops q = vdrops p"
proof (cases "a = Flow_Insert")
  case True
  then show ?thesis using put_abs [OF assms(1) _ assms(2)] assms(3,4) by (auto simp: flow_write_def takes_def)
next
  case False
  then obtain r where r: "vmap p k = Some r" using assms(4) by auto
  obtain q where q: "a_peek A p \<lparr>k_key = k, k_type = sle_type s\<rparr> = Inr (Some r, q)" "vok q"
    "vmap q = vmap p" "vdrops q = vdrops p" "k \<in> out q"
    using peek_abs [OF assms(1) own_keylet_fits [OF assms(1-3)]] r by (auto simp: takes_def)
  show ?thesis
    using update_abs [OF q(2) _ _ assms(2)] delete_abs [OF q(2) _ _ assms(2)] q r False assms(3)
    by (cases a) (auto simp: flow_write_def takes_def)
qed

lemma flow_commit_abs:
  assumes "captured ty its" "vok p" "agrees (vmap p) its"
  shows "\<exists>q. flow_commit A its p = (None, q) \<and> vok q \<and> vmap q = overlay flow_dead (vmap p) its \<and> vdrops q = vdrops p"
  using assms
proof (induction its arbitrary: p)
  case (Cons x its)
  obtain k a s where x: "x = (k, a, s)" using prod_cases3 by blast
  note c = captured_Cons [OF Cons.prems(1) [unfolded x]]
  have a: "a = Flow_Insert \<longleftrightarrow> vmap p k = None" using Cons.prems(3) by (simp add: agrees_def x)
  from flow_write_abs [OF Cons.prems(2) c(2,1) this]
  obtain q where q: "flow_write A k a s p = (None, q)" "vok q"
    "vmap q = (vmap p)(k := if flow_dead a then None else Some s)" "vdrops q = vdrops p" by blast
  have "k \<notin> fst ` set its" using c(4) by (simp add: map_of_eq_None_iff)
  then have "vmap q j = vmap p j" if "(j, b, r) \<in> set its" for j b r using q(3) that by force
  then have "agrees (vmap q) its" using Cons.prems(3) by (auto simp: agrees_def x)
  from Cons.IH [OF c(3) q(2) this] show ?case
    using q overlay_Cons [OF c(4), of flow_dead "vmap p" a s] by (simp add: x del: fun_upd_apply)
qed simp

lemma flow_apply_abs:
  assumes "vok (fl_parent f)" "captured ty (fl_items f)" "0 \<le> fl_drops f" "fl_drops f \<le> vdrops (fl_parent f)"
  shows "if agrees (vmap (fl_parent f)) (fl_items f)
    then \<exists>q. flow_apply R A f = (None, q) \<and> vok q \<and> vmap q = flow_map vmap f
      \<and> vdrops q = (if fl_dry_run f then vdrops (fl_parent f) else flow_left vdrops f)
    else \<exists>e q. flow_apply R A f = (Some e, q) \<and> vok q \<and> vmap q = vmap (fl_parent f) \<and> vdrops q = vdrops (fl_parent f)"
proof -
  let ?p = "fl_parent f" and ?its = "fl_items f"
  obtain e p where v: "validate_parent_commit R A ?its ?p = (e, p)" "vok p" "vmap p = vmap ?p" "vdrops p = vdrops ?p"
    "e = None \<longleftrightarrow> agrees (vmap ?p) ?its"
    using validate_abs [OF assms(2,1)] by blast
  show ?thesis
  proof (cases "agrees (vmap ?p) ?its")
    case False
    then show ?thesis using v by (auto simp: flow_apply_def)
  next
    case True
    let ?r = "if fl_drops f > 0 \<and> \<not> fl_dry_run f then a_destroy A p (fl_drops f) else Inr p"
    obtain q where q: "?r = Inr q" "vok q" "vmap q = vmap ?p"
      "vdrops q = (if fl_dry_run f then vdrops ?p else flow_left vdrops f)"
    proof (cases "fl_drops f > 0 \<and> \<not> fl_dry_run f")
      case True
      then show ?thesis
        using that burn_abs [OF v(2), of "fl_drops f"] v(3,4) assms(4) by (auto simp: takes_def flow_left_def)
    qed (use that [of p] v(2-4) assms(3) in \<open>auto simp: flow_left_def\<close>)
    have "\<exists>q'. flow_commit A ?its q = (None, q') \<and> vok q' \<and> vmap q' = overlay flow_dead (vmap q) ?its \<and> vdrops q' = vdrops q"
      by (rule flow_commit_abs [OF assms(2) q(2)]) (use True q(3) in simp)
    then show ?thesis using True v(1,5) q by (auto simp: flow_apply_def flow_map_def)
  qed
qed

end

interpretation fs: apply_view "flow_reads (sandbox_reads (ledger_reads C))"
  "flow_ok ty (sandbox_ok ty (ledger_ok C) (ledger_map C) ledger_drops) (sandbox_map (ledger_map C)) (sandbox_drops ledger_drops)"
  "flow_map (sandbox_map (ledger_map C))" "flow_left (sandbox_drops ledger_drops)"
  "flow_ops (sandbox_apply_ops (ledger_reads C))" ty "\<lambda>f. UNIV" for C ty
  by (rule sb.flow_is_apply)

end
