(* ===== verification/Ledger_Directory.thy ===== *)
theory Ledger_Directory
  imports Flow_Sandbox
begin

text \<open>
  Directories of a ledger: the pages of a directory are entries linked in a ring that starts at the
  root page. The operations run on any view that is written to. A directory is named by the key of
  its root and all its keylets are of the type of directory nodes, so the checks of that type in
  the code pass; \<open>h\<close> is the hash that gives the key of another page.
\<close>

section \<open>Pages\<close>

definition page_key :: "(nat \<Rightarrow> nat \<Rightarrow> nat) \<Rightarrow> nat \<Rightarrow> nat \<Rightarrow> nat" where
  "page_key h dir page = (if page = 0 then dir else h dir page)"

definition page_kl :: "(nat \<Rightarrow> nat \<Rightarrow> nat) \<Rightarrow> nat \<Rightarrow> nat \<Rightarrow> keylet" where
  "page_kl h dir page = \<lparr>k_key = page_key h dir page, k_type = LtDirectoryNode\<rparr>"

definition dir_node_max_entries :: nat where "dir_node_max_entries = 32"
definition dir_node_max_pages :: nat where "dir_node_max_pages = 262144"

definition describe_owner_dir :: "nat \<Rightarrow> sle \<Rightarrow> sle" where
  "describe_owner_dir account = set_field sfOwner (St_account account)"

definition set_next :: "nat \<Rightarrow> sle \<Rightarrow> sle" where
  "set_next page = set_field sfIndexNext (St_u64 page)"

definition set_previous :: "nat \<Rightarrow> sle \<Rightarrow> sle" where
  "set_previous page = set_field sfIndexPrevious (St_u64 page)"

definition set_indexes :: "nat list \<Rightarrow> sle \<Rightarrow> sle" where
  "set_indexes ks = set_field sfIndexes (St_v256 ks)"

abbreviation next_of :: "sle \<Rightarrow> nat" where "next_of \<equiv> get_field_u64 sfIndexNext"
abbreviation previous_of :: "sle \<Rightarrow> nat" where "previous_of \<equiv> get_field_u64 sfIndexPrevious"
abbreviation indexes_of :: "sle \<Rightarrow> nat list" where "indexes_of \<equiv> get_field_v256 sfIndexes"

text \<open>Checking out an entry that has to be there.\<close>

definition peek_or :: "'v apply_ops \<Rightarrow> keylet \<Rightarrow> string \<Rightarrow> 'v \<Rightarrow> (sle \<times> 'v) vres" where
  "peek_or A k msg v =
     and_then (a_peek A v k)
       (\<lambda>(r, v'). case r of None \<Rightarrow> Inl (Conversion msg) | Some s \<Rightarrow> Inr (s, v'))"

section \<open>Adding\<close>

definition create_root :: "'v apply_ops \<Rightarrow> nat \<Rightarrow> nat \<Rightarrow> (sle \<Rightarrow> sle) \<Rightarrow> 'v \<Rightarrow> (nat \<times> 'v) vres" where
  "create_root A dir key describe v =
     (let root = set_indexes [key] (describe (set_field sfRootIndex (St_h256 dir) (new_dir_node dir)))
      in and_then (a_insert A v root) (\<lambda>v'. Inr (0, v')))"

definition find_previous_page ::
  "'v apply_ops \<Rightarrow> (nat \<Rightarrow> nat \<Rightarrow> nat) \<Rightarrow> nat \<Rightarrow> sle \<Rightarrow> 'v \<Rightarrow> ((nat \<times> sle \<times> nat list) \<times> 'v) vres" where
  "find_previous_page A h dir start v =
     (let page = previous_of start
      in and_then
        (if page \<noteq> 0 then peek_or A (page_kl h dir page) ''Directory chain: root back-pointer broken.'' v
         else Inr (start, v))
        (\<lambda>(node, v'). Inr ((page, node, indexes_of node), v')))"

definition insert_key ::
  "'v apply_ops \<Rightarrow> sle \<Rightarrow> nat \<Rightarrow> bool \<Rightarrow> nat list \<Rightarrow> nat \<Rightarrow> 'v \<Rightarrow> (nat \<times> 'v) vres" where
  "insert_key A node page preserve_order indexes key v =
     (if key \<in> set indexes then Inl (Conversion ''dirInsert: double insertion'')
      else
        let indexes' =
          (if preserve_order then indexes @ [key]
           else takeWhile (\<lambda>k. k < key) (sort indexes) @ key # dropWhile (\<lambda>k. k < key) (sort indexes))
        in and_then (a_replace A v (set_indexes indexes' node)) (\<lambda>v'. Inr (page, v')))"

definition directory_page_limit_exceeded :: "nat \<Rightarrow> bool \<Rightarrow> bool" where
  "directory_page_limit_exceeded new_page fix_limit \<longleftrightarrow> \<not> fix_limit \<and> new_page \<ge> dir_node_max_pages"

definition insert_page ::
  "'v apply_ops \<Rightarrow> (nat \<Rightarrow> nat \<Rightarrow> nat) \<Rightarrow> bool \<Rightarrow> nat \<Rightarrow> sle \<Rightarrow> sle \<Rightarrow> nat \<Rightarrow> nat \<Rightarrow> (sle \<Rightarrow> sle) \<Rightarrow> 'v
    \<Rightarrow> (nat option \<times> 'v) vres" where
  "insert_page A h fix_limit page node next key dir describe v =
     (let new_page = (page + 1) mod 2 ^ 64
      in if new_page = 0 then Inr (None, v)
         else if directory_page_limit_exceeded new_page fix_limit then Inr (None, v)
         else and_then
           (if sle_key node = sle_key next
            then a_replace A v (set_previous new_page (set_next new_page node))
            else and_then (a_replace A v (set_next new_page node))
              (\<lambda>v'. a_replace A v' (set_previous new_page next)))
           (\<lambda>v'.
              let base = set_indexes [key]
                    (set_field sfRootIndex (St_h256 dir) (new_dir_node (page_key h dir new_page)));
                  linked = (if new_page \<noteq> 1 then set_previous (new_page - 1) base else base)
              in and_then (a_insert A v' (describe linked)) (\<lambda>v''. Inr (Some new_page, v''))))"

definition dir_add ::
  "'v apply_ops \<Rightarrow> (nat \<Rightarrow> nat \<Rightarrow> nat) \<Rightarrow> bool \<Rightarrow> bool \<Rightarrow> nat \<Rightarrow> nat \<Rightarrow> (sle \<Rightarrow> sle) \<Rightarrow> 'v
    \<Rightarrow> (nat option \<times> 'v) vres" where
  "dir_add A h fix_limit preserve_order dir key describe v =
     and_then (a_peek A v (page_kl h dir 0))
       (\<lambda>(r, v1). case r of
          None \<Rightarrow> and_then (create_root A dir key describe v1) (\<lambda>(page, v2). Inr (Some page, v2))
        | Some root \<Rightarrow>
            and_then (find_previous_page A h dir root v1)
              (\<lambda>((page, node, indexes), v2).
                 if length indexes < dir_node_max_entries
                 then and_then (insert_key A node page preserve_order indexes key v2)
                   (\<lambda>(page', v3). Inr (Some page', v3))
                 else insert_page A h fix_limit page node root key dir describe v2))"

definition dir_append ::
  "'v apply_ops \<Rightarrow> (nat \<Rightarrow> nat \<Rightarrow> nat) \<Rightarrow> bool \<Rightarrow> nat \<Rightarrow> nat \<Rightarrow> (sle \<Rightarrow> sle) \<Rightarrow> 'v \<Rightarrow> (nat option \<times> 'v) vres" where
  "dir_append A h fix_limit = dir_add A h fix_limit True"

definition dir_insert ::
  "'v apply_ops \<Rightarrow> (nat \<Rightarrow> nat \<Rightarrow> nat) \<Rightarrow> bool \<Rightarrow> nat \<Rightarrow> nat \<Rightarrow> (sle \<Rightarrow> sle) \<Rightarrow> 'v \<Rightarrow> (nat option \<times> 'v) vres" where
  "dir_insert A h fix_limit = dir_add A h fix_limit False"

section \<open>Removing\<close>

text \<open>The part of \<^verbatim>\<open>dir_remove\<close> for the root page, already written without the key and now empty.\<close>

definition dir_remove_root ::
  "'v apply_ops \<Rightarrow> (nat \<Rightarrow> nat \<Rightarrow> nat) \<Rightarrow> nat \<Rightarrow> sle \<Rightarrow> bool \<Rightarrow> 'v \<Rightarrow> (bool \<times> 'v) vres" where
  "dir_remove_root A h dir node keep_root v =
     (let prev_page = previous_of node; next_page = next_of node
      in if next_page = 0 \<and> prev_page \<noteq> 0 then Inl (Conversion ''Directory chain: fwd link broken'')
         else if prev_page = 0 \<and> next_page \<noteq> 0 then Inl (Conversion ''Directory chain: rev link broken'')
         else and_then
           (if next_page = prev_page \<and> next_page \<noteq> 0
            then and_then (peek_or A (page_kl h dir next_page) ''Directory chain: fwd link broken.'' v)
              (\<lambda>(last, v1).
                 if indexes_of last = [] then
                   and_then (a_update A v1 (set_previous 0 (set_next 0 node)))
                     (\<lambda>v2. and_then (a_erase A v2 last) (\<lambda>v3. Inr ((0, 0), v3)))
                 else Inr ((next_page, prev_page), v1))
            else Inr ((next_page, prev_page), v))
           (\<lambda>((next_page', prev_page'), v').
              if keep_root then Inr (True, v')
              else if next_page' = 0 \<and> prev_page' = 0
              then and_then (a_erase A v' node) (\<lambda>v''. Inr (True, v''))
              else Inr (True, v')))"

text \<open>The cleanup of an empty last page (left by earlier versions) after its predecessor went.\<close>

definition dir_remove_last ::
  "'v apply_ops \<Rightarrow> (nat \<Rightarrow> nat \<Rightarrow> nat) \<Rightarrow> nat \<Rightarrow> nat \<Rightarrow> nat \<Rightarrow> sle \<Rightarrow> 'v \<Rightarrow> (nat \<times> 'v) vres" where
  "dir_remove_last A h dir prev_page next_page next v =
     (if next_page \<noteq> 0 \<and> next_of next = 0 \<and> indexes_of next = []
      then and_then (a_erase A v next)
        (\<lambda>v1. and_then (peek_or A (page_kl h dir prev_page) ''prev disappeared'' v1)
          (\<lambda>(prev, v2). and_then (a_update A v2 (set_next 0 prev))
            (\<lambda>v3. and_then (peek_or A (page_kl h dir 0) ''Directory chain: root link broken.'' v3)
              (\<lambda>(root, v4). and_then (a_update A v4 (set_previous prev_page root)) (\<lambda>v5. Inr (0, v5))))))
      else Inr (next_page, v))"

definition dir_remove_page ::
  "'v apply_ops \<Rightarrow> (nat \<Rightarrow> nat \<Rightarrow> nat) \<Rightarrow> nat \<Rightarrow> nat \<Rightarrow> sle \<Rightarrow> bool \<Rightarrow> 'v \<Rightarrow> (bool \<times> 'v) vres" where
  "dir_remove_page A h dir page node keep_root v =
     (let prev_page = previous_of node; next_page = next_of node
      in if next_page = page \<or> prev_page = page then Inl (Conversion ''Directory chain: link broken'')
         else
           and_then (peek_or A (page_kl h dir prev_page) ''Directory chain: fwd link broken'' v)
           (\<lambda>(prev, v1). and_then (a_update A v1 (set_next next_page prev))
           (\<lambda>v2. and_then (peek_or A (page_kl h dir next_page) ''Directory chain: rev link broken'' v2)
           (\<lambda>(next, v3). let next' = set_previous prev_page next
             in and_then (a_update A v3 next')
           (\<lambda>v4. and_then (a_erase A v4 node)
           (\<lambda>v5. and_then (dir_remove_last A h dir prev_page next_page next' v5)
           (\<lambda>(next_page', v6).
              if \<not> keep_root \<and> next_page' = 0 \<and> prev_page = 0
              then and_then (peek_or A (page_kl h dir prev_page) ''Directory chain: fwd link broken.'' v6)
                (\<lambda>(prev', v7).
                   if indexes_of prev' = [] then and_then (a_erase A v7 prev') (\<lambda>v8. Inr (True, v8))
                   else Inr (True, v7))
              else Inr (True, v6))))))))"

definition dir_remove ::
  "'v apply_ops \<Rightarrow> (nat \<Rightarrow> nat \<Rightarrow> nat) \<Rightarrow> nat \<Rightarrow> nat \<Rightarrow> nat \<Rightarrow> bool \<Rightarrow> 'v \<Rightarrow> (bool \<times> 'v) vres" where
  "dir_remove A h dir page key keep_root v =
     and_then (a_peek A v (page_kl h dir page))
       (\<lambda>(r, v1). case r of
          None \<Rightarrow> Inr (False, v1)
        | Some found \<Rightarrow>
            if key \<notin> set (indexes_of found) then Inr (False, v1)
            else
              let entries = remove1 key (indexes_of found); node = set_indexes entries found
              in and_then (a_update A v1 node)
                (\<lambda>v2. if entries \<noteq> [] then Inr (True, v2)
                      else if page = 0 then dir_remove_root A h dir node keep_root v2
                      else dir_remove_page A h dir page node keep_root v2))"

section \<open>Deleting\<close>

definition empty_dir_delete ::
  "'v apply_ops \<Rightarrow> (nat \<Rightarrow> nat \<Rightarrow> nat) \<Rightarrow> nat \<Rightarrow> 'v \<Rightarrow> (bool \<times> 'v) vres" where
  "empty_dir_delete A h dir v =
     and_then (a_peek A v (page_kl h dir 0))
       (\<lambda>(r, v1). case r of
          None \<Rightarrow> Inr (False, v1)
        | Some root \<Rightarrow>
            if get_field_h256 sfRootIndex root \<noteq> dir
            then Inl (Conversion ''emptyDirDelete: invalid directory root'')
            else if indexes_of root \<noteq> [] then Inr (False, v1)
            else
              let prev_page = previous_of root; next_page = next_of root
              in if next_page = 0 \<and> prev_page \<noteq> 0 then Inl (Conversion ''Directory chain: fwd link broken'')
                 else if prev_page = 0 \<and> next_page \<noteq> 0 then Inl (Conversion ''Directory chain: rev link broken'')
                 else if next_page = prev_page \<and> next_page \<noteq> 0
                 then and_then (peek_or A (page_kl h dir next_page) ''Directory chain: fwd link broken.'' v1)
                   (\<lambda>(last, v2).
                      if indexes_of last \<noteq> [] then Inr (False, v2)
                      else
                        let root' = set_previous 0 (set_next 0 root)
                        in and_then (a_update A v2 root')
                          (\<lambda>v3. and_then (a_erase A v3 last)
                            (\<lambda>v4. and_then (a_erase A v4 root') (\<lambda>v5. Inr (True, v5)))))
                 else if next_page = 0 \<and> prev_page = 0
                 then and_then (a_erase A v1 root) (\<lambda>v2. Inr (True, v2))
                 else Inr (True, v1))"

text \<open>\<^verbatim>\<open>dir_delete\<close>, with the keys handed to the callback so far, in order.\<close>

partial_function (option) dir_delete_loop ::
  "'v apply_ops \<Rightarrow> (nat \<Rightarrow> nat \<Rightarrow> nat) \<Rightarrow> nat \<Rightarrow> nat \<Rightarrow> nat list \<Rightarrow> nat list \<Rightarrow> 'v
    \<Rightarrow> (bool \<times> nat list \<times> 'v) vres option" where
  "dir_delete_loop A h dir page visited calls v =
     (if page \<in> set visited then Some (Inl (Conversion ''Directory chain: cycle detected''))
      else case a_peek A v (page_kl h dir page) of
        Inl e \<Rightarrow> Some (Inl e)
      | Inr (None, v1) \<Rightarrow> Some (Inr (False, calls, v1))
      | Inr (Some node, v1) \<Rightarrow>
          (case a_erase A v1 node of
             Inl e \<Rightarrow> Some (Inl e)
           | Inr v2 \<Rightarrow>
               if is_field_present sfIndexNext node
               then dir_delete_loop A h dir (next_of node) (page # visited) (calls @ indexes_of node) v2
               else Some (Inr (True, calls @ indexes_of node, v2))))"

definition dir_delete ::
  "'v apply_ops \<Rightarrow> (nat \<Rightarrow> nat \<Rightarrow> nat) \<Rightarrow> nat \<Rightarrow> 'v \<Rightarrow> (bool \<times> nat list \<times> 'v) vres option" where
  "dir_delete A h dir v = dir_delete_loop A h dir 0 [] [] v"

end
