(* ===== verification/Directory_Ring.thy ===== *)
theory Directory_Ring
  imports Ledger_Directory "HOL-Library.Multiset"
begin

text \<open>
  The ring of a directory's pages, and what it means that the entries of a state are the pages of a
  directory. A directory is abstractly a map from page numbers to the keys on the page.
\<close>

section \<open>Rings\<close>

text \<open>
  Page \<open>q\<close> follows page \<open>p\<close> in the ring over the pages \<open>S\<close>: pages are in ascending order, and the
  root, page 0, follows the last page.
\<close>

definition linked :: "nat set \<Rightarrow> nat \<Rightarrow> nat \<Rightarrow> bool" where
  "linked S p q \<longleftrightarrow> p \<in> S \<and> q \<in> S
     \<and> (if q = 0 then \<forall>r \<in> S. r \<le> p else p < q \<and> (\<forall>r \<in> S. r \<le> p \<or> q \<le> r))"

lemma linked_after: "linked S p q \<Longrightarrow> q \<noteq> 0 \<Longrightarrow> p < q \<and> q \<in> S"
  by (simp add: linked_def)

lemma linked_fun: "linked S p q \<Longrightarrow> linked S p r \<Longrightarrow> q = r"
proof -
  assume pq: "linked S p q" and pr: "linked S p r"
  have zero: "r' = 0" if "linked S p 0" "linked S p r'" for r'
    using that(1) linked_after [OF that(2)] by (fastforce simp: linked_def)
  have le: "q' \<le> r'" if "linked S p q'" "linked S p r'" "q' \<noteq> 0" "r' \<noteq> 0" for q' r'
    using that by (auto simp: linked_def)
  show "q = r" using zero [of q] zero [of r] le [of q r] le [of r q] pq pr by (cases "q = 0"; cases "r = 0") simp_all
qed

lemma linked_inj: "linked S p r \<Longrightarrow> linked S q r \<Longrightarrow> p = q"
proof -
  have "p' \<le> q'" if "linked S p' r" "linked S q' r" for p' q'
    using that by (auto simp: linked_def split: if_splits)
  then show "linked S p r \<Longrightarrow> linked S q r \<Longrightarrow> p = q" by (meson antisym)
qed

lemma linked_remove:
  assumes "linked S a p" "linked S p b" "p \<noteq> 0"
  shows "linked (S - {p}) a b"
  using assms unfolding linked_def by (cases "b = 0") fastforce+

lemma linked_other: "linked S p q \<Longrightarrow> p \<noteq> r \<Longrightarrow> q \<noteq> r \<Longrightarrow> linked (S - {r}) p q"
  by (auto simp: linked_def)

lemma linked_neq: "linked S p q \<Longrightarrow> q \<noteq> 0 \<Longrightarrow> p \<noteq> q"
  by (auto simp: linked_def)

lemma linked_last: "linked S m 0 \<Longrightarrow> r \<in> S \<Longrightarrow> r \<le> m"
  by (simp add: linked_def)

lemma linked_add:
  assumes "linked S m 0" "m < n"
  shows "linked (insert n S) m n" "linked (insert n S) n 0" "linked S p q \<Longrightarrow> q \<noteq> 0 \<Longrightarrow> linked (insert n S) p q"
proof -
  have le: "r \<le> m" if "r \<in> S" for r using linked_last [OF assms(1) that] .
  show "linked (insert n S) m n" "linked (insert n S) n 0"
    using assms le by (auto simp: linked_def intro: order.trans less_imp_le)
  show "linked (insert n S) p q" if pq: "linked S p q" "q \<noteq> 0"
  proof -
    have "q \<le> m" using pq le by (simp add: linked_def)
    then have "q \<le> n" using assms(2) by simp
    then show ?thesis using pq by (simp add: linked_def)
  qed
qed

lemma linked_single: "linked S 0 0 \<longleftrightarrow> S = {0}"
  by (auto simp: linked_def)

lemma linked_pair: "linked S 0 p \<Longrightarrow> linked S p 0 \<Longrightarrow> p \<noteq> 0 \<Longrightarrow> S = {0, p}"
  by (fastforce simp: linked_def)

lemma linked_Max: "finite S \<Longrightarrow> linked S m 0 \<Longrightarrow> Max S = m"
  by (intro Max_eqI) (auto simp: linked_def)

section \<open>Directories\<close>

type_synonym dir_pages = "nat \<rightharpoonup> nat list"

text \<open>
  What the hashing of page keys promises: the pages of the directory have different keys, and these
  are keys of directory nodes.
\<close>

definition pages_ok :: "(nat \<Rightarrow> nat \<Rightarrow> nat) \<Rightarrow> (nat \<Rightarrow> ledger_entry_type) \<Rightarrow> nat \<Rightarrow> bool" where
  "pages_ok h ty dir \<longleftrightarrow> inj_on (page_key h dir) {..<2 ^ 64}
     \<and> (\<forall>p < 2 ^ 64. key_ok (page_key h dir p) \<and> page_key h dir p \<noteq> 0 \<and> ty (page_key h dir p) = LtDirectoryNode)"

definition page_shape :: "(nat \<Rightarrow> nat \<Rightarrow> nat) \<Rightarrow> nat \<Rightarrow> nat set \<Rightarrow> nat \<Rightarrow> nat list \<Rightarrow> sle \<Rightarrow> bool" where
  "page_shape h dir S p ks s \<longleftrightarrow> sle_ok s \<and> sle_type s = LtDirectoryNode \<and> sle_key s = page_key h dir p
     \<and> get_field_h256 sfRootIndex s = dir \<and> indexes_of s = ks
     \<and> linked S p (next_of s) \<and> linked S (previous_of s) p"

definition dir_rep :: "(nat \<Rightarrow> nat \<Rightarrow> nat) \<Rightarrow> nat \<Rightarrow> dir_pages \<Rightarrow> state \<Rightarrow> bool" where
  "dir_rep h dir D M \<longleftrightarrow> dom D \<subseteq> {..<2 ^ 64} \<and> (D = Map.empty \<or> 0 \<in> dom D)
     \<and> (\<forall>p < 2 ^ 64. D p = None \<longrightarrow> M (page_key h dir p) = None)
     \<and> (\<forall>p ks. D p = Some ks \<longrightarrow> length ks \<le> dir_node_max_entries \<and> (p \<noteq> 0 \<longrightarrow> ks \<noteq> [])
          \<and> (\<exists>s. M (page_key h dir p) = Some s \<and> page_shape h dir (dom D) p ks s))"

text \<open>Keys that belong to no page of the directory.\<close>

definition frame :: "(nat \<Rightarrow> nat \<Rightarrow> nat) \<Rightarrow> nat \<Rightarrow> state \<Rightarrow> state \<Rightarrow> bool" where
  "frame h dir M M' \<longleftrightarrow> (\<forall>k. k \<notin> page_key h dir ` {..<2 ^ 64} \<longrightarrow> M' k = M k)"

lemma frame_refl [simp]: "frame h dir M M"
  by (simp add: frame_def)

lemma frame_upd: "frame h dir M N \<Longrightarrow> p < 2 ^ 64 \<Longrightarrow> frame h dir M (N(page_key h dir p := x))"
  by (auto simp: frame_def)

lemma page_key_eq: "pages_ok h ty dir \<Longrightarrow> p < 2 ^ 64 \<Longrightarrow> q < 2 ^ 64 \<Longrightarrow> page_key h dir p = page_key h dir q \<longleftrightarrow> p = q"
  by (auto simp: pages_ok_def inj_on_def)

lemma page_bound: "dir_rep h dir D M \<Longrightarrow> D p \<noteq> None \<Longrightarrow> p < 2 ^ 64"
  by (auto simp: dir_rep_def)

lemma dir_rep_Some:
  assumes "dir_rep h dir D M" "D p = Some ks"
  obtains s where "M (page_key h dir p) = Some s" "page_shape h dir (dom D) p ks s" "p < 2 ^ 64"
    "length ks \<le> dir_node_max_entries" "p \<noteq> 0 \<Longrightarrow> ks \<noteq> []"
  using assms unfolding dir_rep_def by blast

lemma dir_rep_page:
  "dir_rep h dir D M \<Longrightarrow> D p = Some ks \<Longrightarrow> length ks \<le> dir_node_max_entries \<and> (p \<noteq> 0 \<longrightarrow> ks \<noteq> []) \<and> p < 2 ^ 64
     \<and> (\<exists>s. M (page_key h dir p) = Some s \<and> page_shape h dir (dom D) p ks s)"
  by (auto simp: dir_rep_def)

lemma dir_rep_shape:
  "dir_rep h dir D M \<Longrightarrow> D p = Some ks \<Longrightarrow> M (page_key h dir p) = Some s \<Longrightarrow> page_shape h dir (dom D) p ks s"
  using dir_rep_page by fastforce

lemma dir_rep_None: "dir_rep h dir D M \<Longrightarrow> p < 2 ^ 64 \<Longrightarrow> D p = None \<Longrightarrow> M (page_key h dir p) = None"
  by (simp add: dir_rep_def)

section \<open>Fields of a page\<close>

definition dir_node :: "sle \<Rightarrow> bool" where
  "dir_node s \<longleftrightarrow> sle_ok s \<and> sle_type s = LtDirectoryNode"

named_theorems page_rules

lemma dir_field:
  assumes "dir_node s" "f \<in> {sfIndexes, sfRootIndex, sfIndexNext, sfIndexPrevious}" "value_kind v = f div 65536" "value_ok v"
  shows "dir_node (set_field f v s)" "field_of g (set_field f v s) = (if g = f then Some v else field_of g s)"
  using assms set_field_ok [of s v f] field_of_set_field [of s v f g]
  by (auto simp: dir_node_def template_has_def sf_defs)

lemma page_update [page_rules]:
  assumes "dir_node s"
  shows "p < 2 ^ 64 \<Longrightarrow> dir_node (set_next p s)" "p < 2 ^ 64 \<Longrightarrow> dir_node (set_previous p s)"
    and "\<forall>k \<in> set ks. key_ok k \<Longrightarrow> dir_node (set_indexes ks s)"
    and "key_ok k \<Longrightarrow> dir_node (set_field sfRootIndex (St_h256 k) s)"
    and "p < 2 ^ 64 \<Longrightarrow> next_of (set_next p s) = p" "p < 2 ^ 64 \<Longrightarrow> next_of (set_previous p s) = next_of s"
    and "\<forall>k \<in> set ks. key_ok k \<Longrightarrow> next_of (set_indexes ks s) = next_of s"
    and "p < 2 ^ 64 \<Longrightarrow> previous_of (set_previous p s) = p" "p < 2 ^ 64 \<Longrightarrow> previous_of (set_next p s) = previous_of s"
    and "\<forall>k \<in> set ks. key_ok k \<Longrightarrow> previous_of (set_indexes ks s) = previous_of s"
    and "p < 2 ^ 64 \<Longrightarrow> indexes_of (set_next p s) = indexes_of s" "p < 2 ^ 64 \<Longrightarrow> indexes_of (set_previous p s) = indexes_of s"
    and "\<forall>k \<in> set ks. key_ok k \<Longrightarrow> indexes_of (set_indexes ks s) = ks"
    and "p < 2 ^ 64 \<Longrightarrow> get_field_h256 sfRootIndex (set_next p s) = get_field_h256 sfRootIndex s"
    and "p < 2 ^ 64 \<Longrightarrow> get_field_h256 sfRootIndex (set_previous p s) = get_field_h256 sfRootIndex s"
    and "\<forall>k \<in> set ks. key_ok k \<Longrightarrow> get_field_h256 sfRootIndex (set_indexes ks s) = get_field_h256 sfRootIndex s"
  unfolding set_next_def set_previous_def set_indexes_def get_field_u64_def get_field_h256_def get_field_v256_def
  using dir_field [OF assms, of sfIndexNext "St_u64 p"] dir_field [OF assms, of sfIndexPrevious "St_u64 p"]
    dir_field [OF assms, of sfIndexes "St_v256 ks"] dir_field [OF assms, of sfRootIndex "St_h256 k"]
  by (simp_all add: sf_defs)

lemma page_update_key [simp]:
  "sle_key (set_next p s) = sle_key s" "sle_key (set_previous p s) = sle_key s" "sle_key (set_indexes ks s) = sle_key s"
  "sle_type (set_next p s) = sle_type s" "sle_type (set_previous p s) = sle_type s" "sle_type (set_indexes ks s) = sle_type s"
  by (simp_all add: set_next_def set_previous_def set_indexes_def)

lemma indexes_ok: "sle_ok s \<Longrightarrow> \<forall>k \<in> set (indexes_of s). key_ok k"
proof (cases "field_of sfIndexes s")
  case (Some v)
  then show "sle_ok s \<Longrightarrow> \<forall>k \<in> set (indexes_of s). key_ok k"
    using sle_ok_kind [of s sfIndexes v] by (cases v) (simp_all add: get_field_v256_def)
qed (simp add: get_field_v256_def)

end
