(* ===== verification/Directory_Add.thy ===== *)
theory Directory_Add
  imports Directory_Ring
begin

text \<open>
  The operations of a directory refine operations on maps from pages to keys, on every view that
  keeps the contract of \<open>apply_view\<close>.
\<close>

section \<open>What the operations do\<close>

definition put_key :: "bool \<Rightarrow> nat list \<Rightarrow> nat \<Rightarrow> nat list" where
  "put_key preserve_order ks key = (if preserve_order then ks @ [key] else insort key (sort ks))"

text \<open>\<open>None\<close> is the error of a double insertion; the page is \<open>None\<close> when the directory is full.\<close>

definition add_spec :: "bool \<Rightarrow> bool \<Rightarrow> nat \<Rightarrow> dir_pages \<Rightarrow> (nat option \<times> dir_pages) option" where
  "add_spec fix_limit preserve_order key D =
     (if D = Map.empty then Some (Some 0, [0 \<mapsto> [key]])
      else
        let m = Max (dom D); ks = the (D m)
        in if length ks < dir_node_max_entries then
             if key \<in> set ks then None else Some (Some m, D(m \<mapsto> put_key preserve_order ks key))
           else if Suc m = 2 ^ 64 \<or> directory_page_limit_exceeded (Suc m) fix_limit then Some (None, D)
           else Some (Some (Suc m), D(Suc m \<mapsto> [key])))"

definition remove_spec :: "bool \<Rightarrow> nat \<Rightarrow> nat \<Rightarrow> dir_pages \<Rightarrow> bool \<times> dir_pages" where
  "remove_spec keep_root page key D =
     (case D page of
        None \<Rightarrow> (False, D)
      | Some ks \<Rightarrow>
          if key \<notin> set ks then (False, D)
          else
            let D1 = (if remove1 key ks \<noteq> [] \<or> page = 0 then D(page \<mapsto> remove1 key ks) else D(page := None))
            in (True, if \<not> keep_root \<and> D1 = [0 \<mapsto> []] then Map.empty else D1))"

section \<open>Steps on a view\<close>

definition holds ::
  "('v \<Rightarrow> bool) \<Rightarrow> ('v \<Rightarrow> state) \<Rightarrow> ('v \<Rightarrow> int) \<Rightarrow> ('v \<Rightarrow> nat set) \<Rightarrow> 'v \<Rightarrow> state \<Rightarrow> int \<Rightarrow> nat set \<Rightarrow> bool" where
  "holds vok vmap vdrops out v M d ks \<longleftrightarrow> vok v \<and> vmap v = M \<and> vdrops v = d \<and> ks \<inter> dom M \<subseteq> out v"

lemma takes_holds: "takes vok vmap vdrops out r M d ks \<longleftrightarrow> (\<exists>v. r = Inr v \<and> holds vok vmap vdrops out v M d ks)"
  by (simp add: takes_def holds_def)

context apply_view
begin

abbreviation knows :: "'v \<Rightarrow> state \<Rightarrow> int \<Rightarrow> nat set \<Rightarrow> bool" where
  "knows \<equiv> holds vok vmap vdrops out"

lemma page_peek:
  assumes "knows v M d ks" "pages_ok h ty dir" "p < 2 ^ 64"
  shows "\<exists>v'. a_peek A v (page_kl h dir p) = Inr (M (page_key h dir p), v') \<and> knows v' M d (insert (page_key h dir p) ks)"
proof -
  have v: "vok v" "vmap v = M" "vdrops v = d" "ks \<inter> dom M \<subseteq> out v" using assms(1) by (simp_all add: holds_def)
  have "fits (page_kl h dir p) (vmap v)"
    using typed_fits [OF typed_abs abs_ok, OF v(1,1), of "page_key h dir p"] assms(2,3)
    by (simp add: page_kl_def pages_ok_def)
  from peek_abs [OF v(1) this] v show ?thesis by (fastforce simp: takes_def holds_def page_kl_def)
qed

lemma page_peek_or:
  assumes "knows v M d ks" "pages_ok h ty dir" "p < 2 ^ 64" "M (page_key h dir p) = Some s"
  shows "\<exists>v'. peek_or A (page_kl h dir p) msg v = Inr (s, v') \<and> knows v' M d (insert (page_key h dir p) ks)"
  using page_peek [OF assms(1-3)] assms(4) by (fastforce simp: peek_or_def)

lemma page_update_step:
  assumes "knows v M d ks" "sle_key s = k" "M k \<noteq> None" "k \<in> ks" "entry_ok ty s"
  shows "\<exists>v'. a_update A v s = Inr v' \<and> knows v' (M(k \<mapsto> s)) d ks"
  using update_abs [of v s] assms by (fastforce simp: takes_def holds_def)

lemma page_erase_step:
  assumes "knows v M d ks" "sle_key s = k" "M k \<noteq> None" "k \<in> ks" "entry_ok ty s"
  shows "\<exists>v'. a_erase A v s = Inr v' \<and> knows v' (M(k := None)) d ks"
  using delete_abs [of v s] assms by (fastforce simp: takes_def holds_def)

lemma page_replace_step:
  assumes "knows v M d ks" "sle_key s = k" "M k \<noteq> None" "entry_ok ty s"
  shows "\<exists>v'. a_replace A v s = Inr v' \<and> knows v' (M(k \<mapsto> s)) d (insert k ks)"
  using change_abs [of v s] assms by (fastforce simp: takes_def holds_def)

lemma page_insert_step:
  assumes "knows v M d ks" "sle_key s = k" "M k = None" "entry_ok ty s"
  shows "\<exists>v'. a_insert A v s = Inr v' \<and> knows v' (M(k \<mapsto> s)) d (insert k ks)"
  using put_abs [of v s] assms by (fastforce simp: takes_def holds_def)

end

lemma page_entry_ok:
  "pages_ok h ty dir \<Longrightarrow> p < 2 ^ 64 \<Longrightarrow> dir_node s \<Longrightarrow> sle_key s = page_key h dir p \<Longrightarrow> entry_ok ty s"
  by (simp add: entry_ok_def dir_node_def pages_ok_def)

lemma page_shape_node: "page_shape h dir S p ks s \<Longrightarrow> dir_node s"
  by (simp add: page_shape_def dir_node_def)

lemma page_shape_keys: "page_shape h dir S p ks s \<Longrightarrow> \<forall>k \<in> set ks. key_ok k"
  using indexes_ok by (auto simp: page_shape_def)

section \<open>Changing one page\<close>

text \<open>New keys on a page.\<close>

lemma dir_rep_keys:
  assumes "dir_rep h dir D M" "pages_ok h ty dir" "D p = Some ks" "M (page_key h dir p) = Some s"
    and "length ks' \<le> dir_node_max_entries" "p \<noteq> 0 \<Longrightarrow> ks' \<noteq> []" "\<forall>k \<in> set ks'. key_ok k"
  shows "dir_rep h dir (D(p \<mapsto> ks')) (M(page_key h dir p \<mapsto> set_indexes ks' s))"
proof -
  have p: "p < 2 ^ 64" and s: "page_shape h dir (dom D) p ks s"
    using dir_rep_page [OF assms(1,3)] dir_rep_shape [OF assms(1,3,4)] by simp_all
  have dom: "dom (D(p \<mapsto> ks')) = dom D" using assms(3) by auto
  have s': "page_shape h dir (dom D) p ks' (set_indexes ks' s)"
    using s page_update(3,7,10,13,16) [OF page_shape_node [OF s]] assms(7) by (simp add: page_shape_def dir_node_def)
  show ?thesis
    unfolding dir_rep_def dom
  proof (intro conjI allI impI)
    fix q qs assume q: "(D(p \<mapsto> ks')) q = Some qs"
    have "q < 2 ^ 64" using q p page_bound [OF assms(1)] by (auto split: if_splits)
    then have neq: "page_key h dir q = page_key h dir p \<longleftrightarrow> q = p" using page_key_eq [OF assms(2)] p by simp
    show "length qs \<le> dir_node_max_entries" "q \<noteq> 0 \<Longrightarrow> qs \<noteq> []"
      "\<exists>s'. (M(page_key h dir p \<mapsto> set_indexes ks' s)) (page_key h dir q) = Some s' \<and> page_shape h dir (dom D) q qs s'"
      using q neq s' assms(5,6) by (auto split: if_splits dest: dir_rep_page [OF assms(1)])
  qed (use assms(1,3) page_key_eq [OF assms(2)] p in \<open>auto simp: dir_rep_def split: if_splits\<close>)
qed

text \<open>New links on two pages: the next page of \<open>a\<close> becomes \<open>x\<close>, the previous page of \<open>b\<close> becomes \<open>y\<close>.\<close>

definition relink :: "nat \<Rightarrow> nat \<Rightarrow> nat \<Rightarrow> nat \<Rightarrow> nat \<Rightarrow> sle \<Rightarrow> sle" where
  "relink a x b y q s = (if q = b then set_previous y else id) ((if q = a then set_next x else id) s)"

lemma relink_other [simp]: "q \<noteq> a \<Longrightarrow> q \<noteq> b \<Longrightarrow> relink a x b y q = id"
  by (rule ext) (simp add: relink_def)

lemma relink_shape:
  assumes "page_shape h dir S q ks s" "x < 2 ^ 64" "y < 2 ^ 64"
    and "linked T q (if q = a then x else next_of s)" "linked T (if q = b then y else previous_of s) q"
  shows "page_shape h dir T q ks (relink a x b y q s)"
proof -
  have s: "dir_node s" by (rule page_shape_node [OF assms(1)])
  note * = page_update(1,2,5,6,8,9,11,12,14,15) [OF s] page_update(1,2,5,6,8,9,11,12,14,15) [OF page_update(1) [OF s]]
  show ?thesis
    using assms * by (auto simp: page_shape_def relink_def dir_node_def)
qed

lemma dir_rep_add_page:
  assumes "dir_rep h dir D M" "pages_ok h ty dir" "linked (dom D) m 0" "Suc m < 2 ^ 64"
    and M': "\<And>q. q < 2 ^ 64 \<Longrightarrow> M' (page_key h dir q) =
      (if q = Suc m then Some s else map_option (relink m (Suc m) 0 (Suc m) q) (M (page_key h dir q)))"
    and s: "dir_node s" "sle_key s = page_key h dir (Suc m)" "get_field_h256 sfRootIndex s = dir" "indexes_of s = [key]"
      "next_of s = 0" "previous_of s = m"
  shows "dir_rep h dir (D(Suc m \<mapsto> [key])) M'"
proof -
  let ?n = "Suc m" and ?S = "dom D" and ?T = "insert (Suc m) (dom D)"
  note links = linked_add [OF assms(3) lessI]
  have new: "?n \<notin> ?S" using linked_last [OF assms(3), of ?n] by auto
  have "page_shape h dir ?T ?n [key] s" using s links(1,2) by (simp add: page_shape_def dir_node_def)
  moreover have "page_shape h dir ?T q qs (relink m ?n 0 ?n q t)"
    if q: "page_shape h dir ?S q qs t" "q \<noteq> ?n" for q qs t
  proof (rule relink_shape [OF q(1) assms(4,4)])
    have l: "linked ?S q (next_of t)" "linked ?S (previous_of t) q" using q(1) by (simp_all add: page_shape_def)
    show "linked ?T q (if q = m then ?n else next_of t)"
    proof (cases "q = m")
      case False
      then have "next_of t \<noteq> 0" using linked_inj [OF assms(3), of q] l(1) by metis
      then show ?thesis using links(3) [OF l(1)] False by simp
    qed (simp add: links(1))
    show "linked ?T (if q = 0 then ?n else previous_of t) q"
      using links(2) links(3) [OF l(2)] by (cases "q = 0") simp_all
  qed
  ultimately have page: "\<exists>t'. M' (page_key h dir q) = Some t' \<and> page_shape h dir ?T q qs t'"
    if "(D(?n \<mapsto> [key])) q = Some qs" for q qs
    using that M' [of q] dir_rep_page [OF assms(1), of q qs] assms(4) by (auto split: if_splits)
  have dom: "dom (D(?n \<mapsto> [key])) = ?T" by auto
  show ?thesis
    unfolding dir_rep_def dom
  proof (intro conjI allI impI)
    fix q qs assume q: "(D(?n \<mapsto> [key])) q = Some qs"
    then show "length qs \<le> dir_node_max_entries" "q \<noteq> 0 \<Longrightarrow> qs \<noteq> []"
      using dir_rep_page [OF assms(1), of q qs] by (auto simp: dir_node_max_entries_def split: if_splits)
    show "\<exists>t'. M' (page_key h dir q) = Some t' \<and> page_shape h dir ?T q qs t'" by (rule page [OF q])
  qed (use assms(1,3,4) M' in \<open>auto simp: dir_rep_def linked_def split: if_splits\<close>)
qed

lemma dir_rep_remove_page:
  assumes "dir_rep h dir D M" "pages_ok h ty dir" "linked (dom D) a p" "linked (dom D) p b" "p \<noteq> 0"
    and M': "\<And>q. q < 2 ^ 64 \<Longrightarrow> M' (page_key h dir q) =
      (if q = p then None else map_option (relink a b b a q) (M (page_key h dir q)))"
  shows "dir_rep h dir (D(p := None)) M'"
proof -
  let ?S = "dom D" and ?T = "dom D - {p}"
  have bound: "a < 2 ^ 64" "b < 2 ^ 64" using assms(1,3,4) by (auto simp: dir_rep_def linked_def)
  note ab = linked_remove [OF assms(3-5)]
  have shape: "page_shape h dir ?T q qs (relink a b b a q t)" if q: "page_shape h dir ?S q qs t" "q \<noteq> p" for q qs t
  proof (rule relink_shape [OF q(1) bound(2,1)])
    have l: "linked ?S q (next_of t)" "linked ?S (previous_of t) q" using q(1) by (simp_all add: page_shape_def)
    show "linked ?T q (if q = a then b else next_of t)"
    proof (cases "q = a")
      case False
      then have "next_of t \<noteq> p" using linked_inj [OF assms(3), of q] l(1) by metis
      then show ?thesis using linked_other [OF l(1) q(2)] False by simp
    qed (simp add: ab)
    show "linked ?T (if q = b then a else previous_of t) q"
    proof (cases "q = b")
      case False
      then have "previous_of t \<noteq> p" using linked_fun [OF assms(4), of q] l(2) by metis
      then show ?thesis using linked_other [OF l(2) _ q(2)] False by simp
    qed (simp add: ab)
  qed
  have page: "\<exists>t'. M' (page_key h dir q) = Some t' \<and> page_shape h dir ?T q qs t'"
    if "(D(p := None)) q = Some qs" for q qs
    using that M' [of q] dir_rep_page [OF assms(1), of q qs] shape by (auto split: if_splits)
  have dom: "dom (D(p := None)) = ?T" by auto
  show ?thesis
    unfolding dir_rep_def dom
  proof (intro conjI allI impI)
    fix q qs assume q: "(D(p := None)) q = Some qs"
    then show "length qs \<le> dir_node_max_entries" "q \<noteq> 0 \<Longrightarrow> qs \<noteq> []"
      using dir_rep_page [OF assms(1), of q qs] by (auto split: if_splits)
    show "\<exists>t'. M' (page_key h dir q) = Some t' \<and> page_shape h dir ?T q qs t'" by (rule page [OF q])
  qed (use assms(1,3,5) M' in \<open>auto simp: dir_rep_def linked_def split: if_splits\<close>)
qed

lemma dir_rep_root:
  assumes "dir_rep h dir Map.empty M" "pages_ok h ty dir"
    and "dir_node s" "sle_key s = dir" "get_field_h256 sfRootIndex s = dir" "indexes_of s = [key]"
      "next_of s = 0" "previous_of s = 0"
  shows "dir_rep h dir [0 \<mapsto> [key]] (M(dir \<mapsto> s))"
proof -
  have "page_key h dir q = dir \<longleftrightarrow> q = 0" if "q < 2 ^ 64" for q
    using page_key_eq [OF assms(2) that, of 0] by (simp add: page_key_def)
  moreover have "page_shape h dir {0} 0 [key] s"
    using assms(3-) linked_single [of "{0}"] by (simp add: page_shape_def dir_node_def page_key_def)
  ultimately show ?thesis
    using assms(1) by (auto simp: dir_rep_def dir_node_max_entries_def page_key_def split: if_splits)
qed

lemma dir_rep_erase_root:
  assumes "dir_rep h dir [0 \<mapsto> ks] M" "pages_ok h ty dir"
  shows "dir_rep h dir Map.empty (M(dir := None))"
proof -
  have "page_key h dir q = dir \<longleftrightarrow> q = 0" if "q < 2 ^ 64" for q
    using page_key_eq [OF assms(2) that, of 0] by (simp add: page_key_def)
  then show ?thesis using assms(1) by (auto simp: dir_rep_def split: if_splits)
qed

section \<open>Adding\<close>

lemma insort_take: "insort (x :: nat) xs = takeWhile (\<lambda>k. k < x) xs @ x # dropWhile (\<lambda>k. k < x) xs"
  by (induction xs) auto

text \<open>What the callers' descriptions of new pages may do: write other fields.\<close>

definition describe_ok :: "(sle \<Rightarrow> sle) \<Rightarrow> bool" where
  "describe_ok describe \<longleftrightarrow> (\<forall>s. dir_node s \<longrightarrow> dir_node (describe s) \<and> sle_key (describe s) = sle_key s
     \<and> (\<forall>f \<in> {sfIndexes, sfRootIndex, sfIndexNext, sfIndexPrevious}. field_of f (describe s) = field_of f s))"

lemma describe_owner_dir_ok: "describe_ok (describe_owner_dir account)"
  using set_field_ok field_of_set_field
  by (auto simp: describe_ok_def describe_owner_dir_def dir_node_def template_has_def sf_defs)

lemma describe_fields:
  assumes "describe_ok describe" "dir_node s"
  shows "dir_node (describe s)" "sle_key (describe s) = sle_key s" "indexes_of (describe s) = indexes_of s"
    "get_field_h256 sfRootIndex (describe s) = get_field_h256 sfRootIndex s"
    "next_of (describe s) = next_of s" "previous_of (describe s) = previous_of s"
  using assms by (simp_all add: describe_ok_def get_field_v256_def get_field_h256_def get_field_u64_def)

text \<open>A new page, before it is linked.\<close>

definition fresh_page :: "nat \<Rightarrow> nat \<Rightarrow> nat \<Rightarrow> sle \<Rightarrow> bool" where
  "fresh_page dir key pk s \<longleftrightarrow> dir_node s \<and> sle_key s = pk \<and> get_field_h256 sfRootIndex s = dir
     \<and> indexes_of s = [key] \<and> next_of s = 0"

lemma new_page:
  assumes "key_ok pk" "pk \<noteq> 0" "key_ok dir"
  shows "dir_node (set_field sfRootIndex (St_h256 dir) (new_dir_node pk))"
    and "sle_key (set_field sfRootIndex (St_h256 dir) (new_dir_node pk)) = pk"
    and "get_field_h256 sfRootIndex (set_field sfRootIndex (St_h256 dir) (new_dir_node pk)) = dir"
    and "next_of (set_field sfRootIndex (St_h256 dir) (new_dir_node pk)) = 0"
    and "previous_of (set_field sfRootIndex (St_h256 dir) (new_dir_node pk)) = 0"
proof -
  let ?s = "set_field sfRootIndex (St_h256 dir) (new_dir_node pk)"
  have s: "dir_node (new_dir_node pk)" using new_dir_node_ok [OF assms(1,2)] by (simp add: dir_node_def new_dir_node_def)
  note * = dir_field [OF s, of sfRootIndex "St_h256 dir"]
  show "dir_node ?s" using *(1) assms(3) by (simp add: sf_defs)
  show "sle_key ?s = pk" by (simp add: new_dir_node_def)
  show "get_field_h256 sfRootIndex ?s = dir" "next_of ?s = 0" "previous_of ?s = 0"
    using *(2) assms(3) by (simp_all add: get_field_h256_def get_field_u64_def field_of_def new_dir_node_def sf_defs)
qed

lemma root_fresh:
  assumes "key_ok dir" "dir \<noteq> 0" "describe_ok describe" "key_ok key"
  defines "s \<equiv> set_indexes [key] (describe (set_field sfRootIndex (St_h256 dir) (new_dir_node dir)))"
  shows "fresh_page dir key dir s" "previous_of s = 0"
proof -
  note n = new_page [OF assms(1,2,1)]
  note d = describe_fields [OF assms(3) n(1)]
  have "\<forall>k \<in> set [key]. key_ok k" using assms(4) by simp
  note i = page_update(3,7,10,13,16) [OF d(1) this]
  show "fresh_page dir key dir s" "previous_of s = 0" using n d i by (simp_all add: fresh_page_def s_def)
qed

lemma page_fresh:
  assumes "key_ok pk" "pk \<noteq> 0" "key_ok dir" "describe_ok describe" "key_ok key" "Suc m < 2 ^ 64"
  defines "base \<equiv> set_indexes [key] (set_field sfRootIndex (St_h256 dir) (new_dir_node pk))"
  defines "s \<equiv> describe (if Suc m \<noteq> 1 then set_previous (Suc m - 1) base else base)"
  shows "fresh_page dir key pk s" "previous_of s = m"
proof -
  note n = new_page [OF assms(1-3)]
  have "\<forall>k \<in> set [key]. key_ok k" using assms(5) by simp
  note b = page_update(3,7,10,13,16) [OF n(1) this, folded base_def]
  let ?l = "if Suc m \<noteq> 1 then set_previous (Suc m - 1) base else base"
  have m: "m < 2 ^ 64" using assms(6) by simp
  note u = page_update(2,6,8,12,15) [OF b(1) m]
  have l: "dir_node ?l" "sle_key ?l = pk" "get_field_h256 sfRootIndex ?l = dir" "indexes_of ?l = [key]" "next_of ?l = 0"
    "previous_of ?l = m"
    using n b u by (simp_all add: base_def split: if_splits)
  show "fresh_page dir key pk s" "previous_of s = m"
    unfolding s_def using describe_fields [OF assms(4) l(1)] l by (simp_all add: fresh_page_def)
qed

definition dir_goes ::
  "('v \<Rightarrow> bool) \<Rightarrow> ('v \<Rightarrow> state) \<Rightarrow> ('v \<Rightarrow> int) \<Rightarrow> ('v \<Rightarrow> nat set) \<Rightarrow> (nat \<Rightarrow> nat \<Rightarrow> nat) \<Rightarrow> nat \<Rightarrow> state \<Rightarrow> int
    \<Rightarrow> ('x \<times> 'v) vres \<Rightarrow> 'x \<Rightarrow> dir_pages \<Rightarrow> bool" where
  "dir_goes vok vmap vdrops out h dir M d r x D \<longleftrightarrow>
     (\<exists>v M'. r = Inr (x, v) \<and> holds vok vmap vdrops out v M' d {} \<and> dir_rep h dir D M' \<and> frame h dir M M')"

lemma holds_weaken: "holds vok vmap vdrops out v M d ks \<Longrightarrow> holds vok vmap vdrops out v M d {}"
  by (simp add: holds_def)

lemma page_of_root: "page_key h dir 0 = dir"
  by (simp add: page_key_def)

lemma root_key_ok: "pages_ok h ty dir \<Longrightarrow> key_ok dir \<and> dir \<noteq> 0"
  using page_of_root by (force simp: pages_ok_def)

context apply_view
begin

abbreviation goes :: "(nat \<Rightarrow> nat \<Rightarrow> nat) \<Rightarrow> nat \<Rightarrow> state \<Rightarrow> int \<Rightarrow> ('x \<times> 'v) vres \<Rightarrow> 'x \<Rightarrow> dir_pages \<Rightarrow> bool" where
  "goes \<equiv> dir_goes vok vmap vdrops out"

lemma create_root_abs:
  assumes "knows v M d ks" "pages_ok h ty dir" "dir_rep h dir Map.empty M" "describe_ok describe" "key_ok key"
  shows "goes h dir M d (create_root A dir key describe v) 0 [0 \<mapsto> [key]]"
proof -
  let ?s = "set_indexes [key] (describe (set_field sfRootIndex (St_h256 dir) (new_dir_node dir)))"
  have "key_ok dir" "dir \<noteq> 0" using root_key_ok [OF assms(2)] by simp_all
  note f = root_fresh [OF this assms(4,5)]
  then have s: "dir_node ?s" "sle_key ?s = dir" by (simp_all add: fresh_page_def)
  have "M dir = None" using dir_rep_None [OF assms(3), of 0] by (simp add: page_of_root)
  moreover have "entry_ok ty ?s" using page_entry_ok [OF assms(2) _ s(1), of 0] s(2) by (simp add: page_of_root)
  ultimately obtain v' where v': "a_insert A v ?s = Inr v'" "knows v' (M(dir \<mapsto> ?s)) d (insert dir ks)"
    using page_insert_step [OF assms(1) s(2)] by blast
  have "dir_rep h dir [0 \<mapsto> [key]] (M(dir \<mapsto> ?s))"
    using f by (intro dir_rep_root [OF assms(3,2)]) (simp_all add: fresh_page_def)
  moreover have "frame h dir M (M(dir \<mapsto> ?s))" using frame_upd [of h dir M M 0] by (simp add: page_of_root)
  ultimately show ?thesis
    using v'(1) holds_weaken [OF v'(2)] s(2) by (auto simp: dir_goes_def create_root_def Let_def)
qed

lemma relink_last:
  assumes "knows v M d ks" "pages_ok h ty dir" "dir_rep h dir D M" "linked (dom D) m 0" "Suc m < 2 ^ 64"
    and "M (page_key h dir m) = Some node" "M dir = Some root"
  obtains v1 M1 where "(if sle_key node = sle_key root
      then a_replace A v (set_previous (Suc m) (set_next (Suc m) node))
      else and_then (a_replace A v (set_next (Suc m) node)) (\<lambda>v'. a_replace A v' (set_previous (Suc m) root))) = Inr v1"
    and "knows v1 M1 d ks" "frame h dir M M1"
    and "\<And>q. q < 2 ^ 64 \<Longrightarrow> M1 (page_key h dir q) = map_option (relink m (Suc m) 0 (Suc m) q) (M (page_key h dir q))"
proof -
  let ?n = "Suc m" and ?pk = "page_key h dir"
  obtain qs rs where D: "D m = Some qs" "D 0 = Some rs" using assms(4) by (auto simp: linked_def)
  have m: "m < 2 ^ 64" using assms(5) by simp
  have root: "M (?pk 0) = Some root" using assms(7) by (simp add: page_of_root)
  have shape: "page_shape h dir (dom D) m qs node" "page_shape h dir (dom D) 0 rs root"
    using dir_rep_shape [OF assms(3) D(1) assms(6)] dir_rep_shape [OF assms(3) D(2) root] .
  then have key: "sle_key node = ?pk m" "sle_key root = ?pk 0" by (simp_all add: page_shape_def)
  note node = page_shape_node [OF shape(1)] page_shape_node [OF shape(2)]
  note upd = page_update(1) [OF node(1) assms(5)] page_update(2) [OF node(2) assms(5)]
  note eq = page_key_eq [OF assms(2)]
  show ?thesis
  proof (cases "m = 0")
    case True
    let ?s = "set_previous ?n (set_next ?n node)"
    have "entry_ok ty ?s"
      using page_entry_ok [OF assms(2) m page_update(2) [OF upd(1) assms(5)]] key(1) by simp
    then obtain v1 where v1: "a_replace A v ?s = Inr v1" "knows v1 (M(?pk m \<mapsto> ?s)) d (insert (?pk m) ks)"
      using page_replace_step [OF assms(1), of ?s "?pk m"] assms(6) key(1) by auto
    have "knows v1 (M(?pk m \<mapsto> ?s)) d ks" using v1(2) by (auto simp: holds_def)
    moreover have "(M(?pk m \<mapsto> ?s)) (?pk q) = map_option (relink m ?n 0 ?n q) (M (?pk q))" if "q < 2 ^ 64" for q
      using True eq [OF that m] assms(6) by (cases "q = m") (simp_all add: relink_def option.map_id)
    moreover have "frame h dir M (M(?pk m \<mapsto> ?s))" by (rule frame_upd [OF frame_refl m])
    ultimately show ?thesis using that v1(1) True key by simp
  next
    case False
    let ?s = "set_next ?n node" and ?r = "set_previous ?n root"
    have ne: "?pk m \<noteq> ?pk 0" using eq [OF m, of 0] False by simp
    have ok: "entry_ok ty ?s" "entry_ok ty ?r"
      using page_entry_ok [OF assms(2) m upd(1)] page_entry_ok [OF assms(2) _ upd(2), of 0] key by simp_all
    obtain v1 where v1: "a_replace A v ?s = Inr v1" "knows v1 (M(?pk m \<mapsto> ?s)) d (insert (?pk m) ks)"
      using page_replace_step [OF assms(1) _ _ ok(1), of "?pk m"] assms(6) key(1) by auto
    obtain v2 where v2: "a_replace A v1 ?r = Inr v2"
      "knows v2 (M(?pk m \<mapsto> ?s, ?pk 0 \<mapsto> ?r)) d (insert (?pk 0) (insert (?pk m) ks))"
      using page_replace_step [OF v1(2) _ _ ok(2), of "?pk 0"] root key ne by auto
    have "knows v2 (M(?pk m \<mapsto> ?s, ?pk 0 \<mapsto> ?r)) d ks" using v2(2) by (auto simp: holds_def)
    moreover have "(M(?pk m \<mapsto> ?s, ?pk 0 \<mapsto> ?r)) (?pk q) = map_option (relink m ?n 0 ?n q) (M (?pk q))" if "q < 2 ^ 64" for q
      using eq [OF that m] eq [OF that, of 0] ne assms(6) root
      by (cases "q = m"; cases "q = 0") (simp_all add: relink_def option.map_id)
    moreover have "frame h dir M (M(?pk m \<mapsto> ?s, ?pk 0 \<mapsto> ?r))" by (intro frame_upd frame_refl m) simp
    ultimately show ?thesis using that v1(1) v2(1) key ne by simp
  qed
qed

lemma insert_page_abs:
  assumes "knows v M d ks" "pages_ok h ty dir" "dir_rep h dir D M" "linked (dom D) m 0" "m < 2 ^ 64"
    and "M (page_key h dir m) = Some node" "M dir = Some root" "describe_ok describe" "key_ok key"
  shows "if Suc m = 2 ^ 64 \<or> directory_page_limit_exceeded (Suc m) fix_limit
    then goes h dir M d (insert_page A h fix_limit m node root key dir describe v) None D
    else goes h dir M d (insert_page A h fix_limit m node root key dir describe v) (Some (Suc m)) (D(Suc m \<mapsto> [key]))"
proof (cases "Suc m = 2 ^ 64 \<or> directory_page_limit_exceeded (Suc m) fix_limit")
  case True
  then have "insert_page A h fix_limit m node root key dir describe v = Inr (None, v)"
  proof (cases "Suc m = 2 ^ 64")
    case False
    then have "Suc m mod 2 ^ 64 = Suc m" using assms(5) by simp
    then show ?thesis using False True by (simp add: insert_page_def Let_def del: power_Suc)
  qed (simp add: insert_page_def)
  then show ?thesis using True assms(3) holds_weaken [OF assms(1)] by (auto simp: dir_goes_def)
next
  case False
  let ?n = "Suc m" and ?pk = "page_key h dir"
  have n: "?n < 2 ^ 64" using False assms(5) by simp
  obtain v1 M1 where v1: "(if sle_key node = sle_key root
      then a_replace A v (set_previous ?n (set_next ?n node))
      else and_then (a_replace A v (set_next ?n node)) (\<lambda>v'. a_replace A v' (set_previous ?n root))) = Inr v1"
    "knows v1 M1 d ks" "frame h dir M M1"
    and M1: "\<And>q. q < 2 ^ 64 \<Longrightarrow> M1 (?pk q) = map_option (relink m ?n 0 ?n q) (M (?pk q))"
    using relink_last [OF assms(1-4) n assms(6,7)] by blast
  have keys: "key_ok (?pk ?n)" "?pk ?n \<noteq> 0" "key_ok dir"
    using assms(2) n root_key_ok [OF assms(2)] by (simp_all add: pages_ok_def)
  define s where "s = describe (if ?n \<noteq> 1
    then set_previous (?n - 1) (set_indexes [key] (set_field sfRootIndex (St_h256 dir) (new_dir_node (?pk ?n))))
    else set_indexes [key] (set_field sfRootIndex (St_h256 dir) (new_dir_node (?pk ?n))))"
  note f = page_fresh [OF keys assms(8,9) n, folded s_def]
  have s: "dir_node s" "sle_key s = ?pk ?n" using f by (simp_all add: fresh_page_def)
  have "?n \<notin> dom D" using linked_last [OF assms(4), of ?n] by auto
  then have none: "M1 (?pk ?n) = None" using M1 [OF n] dir_rep_None [OF assms(3) n] by (auto simp: domIff)
  obtain v2 where v2: "a_insert A v1 s = Inr v2" "knows v2 (M1(?pk ?n \<mapsto> s)) d (insert (?pk ?n) ks)"
    using page_insert_step [OF v1(2) s(2) none page_entry_ok [OF assms(2) n s]] by blast
  have rep: "dir_rep h dir (D(?n \<mapsto> [key])) (M1(?pk ?n \<mapsto> s))"
  proof (rule dir_rep_add_page [OF assms(3,2,4) n])
    show "(M1(?pk ?n \<mapsto> s)) (?pk q) = (if q = ?n then Some s else map_option (relink m ?n 0 ?n q) (M (?pk q)))"
      if "q < 2 ^ 64" for q using page_key_eq [OF assms(2) that n] M1 [OF that] by simp
  qed (use f in \<open>simp_all add: fresh_page_def\<close>)
  have "insert_page A h fix_limit m node root key dir describe v = Inr (Some ?n, v2)"
  proof -
    have e: "(m + 1) mod 2 ^ 64 = ?n" "directory_page_limit_exceeded ?n fix_limit = False" using n False by simp_all
    have "insert_page A h fix_limit m node root key dir describe v =
      and_then (Inr v1) (\<lambda>v'. and_then (a_insert A v' s) (\<lambda>v''. Inr (Some ?n, v'')))"
      unfolding insert_page_def Let_def e v1(1) s_def by (simp only: Suc_not_Zero if_False)
    then show ?thesis using v2(1) by simp
  qed
  moreover have "frame h dir M (M1(?pk ?n \<mapsto> s))" by (rule frame_upd [OF v1(3) n])
  ultimately show ?thesis using False rep holds_weaken [OF v2(2)] by (auto simp: dir_goes_def)
qed

lemma insert_key_abs:
  assumes "knows v M d ks" "pages_ok h ty dir" "dir_rep h dir D M" "D m = Some qs"
    and "M (page_key h dir m) = Some node" "key_ok key" "length qs < dir_node_max_entries" "key \<notin> set qs"
  shows "goes h dir M d (insert_key A node m preserve_order qs key v) m (D(m \<mapsto> put_key preserve_order qs key))"
proof -
  let ?pk = "page_key h dir" and ?qs = "put_key preserve_order qs key"
  have m: "m < 2 ^ 64" by (rule page_bound [OF assms(3)]) (simp add: assms(4))
  note shape = dir_rep_shape [OF assms(3-5)]
  have ok: "\<forall>k \<in> set ?qs. key_ok k" using page_shape_keys [OF shape] assms(6) by (auto simp: put_key_def set_insort_key)
  have len: "length ?qs \<le> dir_node_max_entries" "?qs \<noteq> []"
    using assms(7) by (auto simp: put_key_def dest: arg_cong [where f = length])
  let ?s = "set_indexes ?qs node"
  have s: "dir_node ?s" "sle_key ?s = ?pk m"
    using page_update(3) [OF page_shape_node [OF shape] ok] shape by (simp_all add: page_shape_def)
  obtain v1 where v1: "a_replace A v ?s = Inr v1" "knows v1 (M(?pk m \<mapsto> ?s)) d (insert (?pk m) ks)"
    using page_replace_step [OF assms(1) s(2) _ page_entry_ok [OF assms(2) m s]] assms(5) by auto
  have "insert_key A node m preserve_order qs key v = Inr (m, v1)"
    using v1(1) assms(8) insort_take [of key "sort qs"] by (simp add: insert_key_def put_key_def Let_def split: if_splits)
  moreover have "dir_rep h dir (D(m \<mapsto> ?qs)) (M(?pk m \<mapsto> ?s))"
    by (rule dir_rep_keys [OF assms(3,2,4,5) len(1) len(2) ok])
  ultimately show ?thesis
    using holds_weaken [OF v1(2)] frame_upd [OF frame_refl m] by (auto simp: dir_goes_def)
qed

lemma find_previous_page_abs:
  assumes "knows v M d ks" "pages_ok h ty dir" "dir_rep h dir D M" "D 0 = Some rs" "M dir = Some root"
  obtains m qs node v' where "find_previous_page A h dir root v = Inr ((m, node, qs), v')"
    "knows v' M d ks" "linked (dom D) m 0" "D m = Some qs" "M (page_key h dir m) = Some node"
proof -
  let ?m = "previous_of root" and ?pk = "page_key h dir"
  have "page_shape h dir (dom D) 0 rs root" using dir_rep_shape [OF assms(3,4)] assms(5) by (simp add: page_of_root)
  then have l: "linked (dom D) ?m 0" by (simp add: page_shape_def)
  then obtain qs where qs: "D ?m = Some qs" by (auto simp: linked_def)
  then obtain node where node: "M (?pk ?m) = Some node" "indexes_of node = qs" and m: "?m < 2 ^ 64"
    using dir_rep_page [OF assms(3) qs] by (auto simp: page_shape_def)
  show ?thesis
  proof (cases "?m = 0")
    case True
    then show ?thesis using that [of ?m node qs v] assms(1,5) l qs node by (simp add: find_previous_page_def page_of_root)
  next
    case False
    obtain v' where v': "peek_or A (page_kl h dir ?m) ''Directory chain: root back-pointer broken.'' v = Inr (node, v')"
      "knows v' M d (insert (?pk ?m) ks)"
      using page_peek_or [OF assms(1,2) m node(1)] by blast
    then show ?thesis
      using that [of ?m node qs v'] False l qs node by (auto simp: find_previous_page_def Let_def holds_def)
  qed
qed

lemma dir_add_abs:
  assumes "knows v M d ks" "pages_ok h ty dir" "dir_rep h dir D M" "describe_ok describe" "key_ok key"
  shows "case add_spec fix_limit preserve_order key D of
      None \<Rightarrow> dir_add A h fix_limit preserve_order dir key describe v = Inl (Conversion ''dirInsert: double insertion'')
    | Some (page, D') \<Rightarrow> goes h dir M d (dir_add A h fix_limit preserve_order dir key describe v) page D'"
proof -
  obtain v1 where v1: "a_peek A v (page_kl h dir 0) = Inr (M dir, v1)" "knows v1 M d (insert dir ks)"
    using page_peek [OF assms(1,2), of 0] by (auto simp: page_of_root)
  show ?thesis
  proof (cases "D = Map.empty")
    case True
    then have none: "M dir = None" using dir_rep_None [OF assms(3), of 0] by (simp add: page_of_root)
    have "goes h dir M d (create_root A dir key describe v1) 0 [0 \<mapsto> [key]]"
      using create_root_abs [OF v1(2) assms(2) _ assms(4,5)] assms(3) True by simp
    then show ?thesis using True none v1(1) by (auto simp: add_spec_def dir_add_def dir_goes_def)
  next
    case False
    then obtain rs where rs: "D 0 = Some rs" using assms(3) by (auto simp: dir_rep_def)
    then obtain root where root: "M dir = Some root" using dir_rep_page [OF assms(3) rs] by (auto simp: page_of_root)
    obtain m qs node v2 where v2: "find_previous_page A h dir root v1 = Inr ((m, node, qs), v2)"
      "knows v2 M d (insert dir ks)" and m: "linked (dom D) m 0" "D m = Some qs" "M (page_key h dir m) = Some node"
      by (rule find_previous_page_abs [OF v1(2) assms(2,3) rs root])
    have "finite (dom D)" using assms(3) finite_subset [of "dom D" "{..<2 ^ 64}"] by (simp add: dir_rep_def)
    then have spec: "add_spec fix_limit preserve_order key D =
       (if length qs < dir_node_max_entries then
          if key \<in> set qs then None else Some (Some m, D(m \<mapsto> put_key preserve_order qs key))
        else if Suc m = 2 ^ 64 \<or> directory_page_limit_exceeded (Suc m) fix_limit then Some (None, D)
        else Some (Some (Suc m), D(Suc m \<mapsto> [key])))"
      using False m(2) linked_Max [OF _ m(1)] by (simp add: add_spec_def Let_def)
    have bound: "m < 2 ^ 64" by (rule page_bound [OF assms(3)]) (simp add: m(2))
    note ik = insert_key_abs [OF v2(2) assms(2,3) m(2,3) assms(5), of preserve_order]
    note ip = insert_page_abs [OF v2(2) assms(2,3) m(1) bound m(3) root assms(4,5), of fix_limit]
    have add: "dir_add A h fix_limit preserve_order dir key describe v =
      (if length qs < dir_node_max_entries
       then and_then (insert_key A node m preserve_order qs key v2) (\<lambda>(page', v3). Inr (Some page', v3))
       else insert_page A h fix_limit m node root key dir describe v2)"
      using v1(1) v2(1) root by (simp add: dir_add_def)
    show ?thesis
    proof (cases "length qs < dir_node_max_entries")
      case True
      show ?thesis
      proof (cases "key \<in> set qs")
        case dup: True
        then show ?thesis using True add spec by (simp add: insert_key_def)
      next
        case False
        then obtain v3 M3 where "insert_key A node m preserve_order qs key v2 = Inr (m, v3)" "knows v3 M3 d {}"
          "dir_rep h dir (D(m \<mapsto> put_key preserve_order qs key)) M3" "frame h dir M M3"
          using ik [OF True] unfolding dir_goes_def by blast
        then show ?thesis using True False add spec by (auto simp: dir_goes_def)
      qed
    next
      case False
      then show ?thesis
        using add spec ip by (cases "Suc m = 2 ^ 64 \<or> directory_page_limit_exceeded (Suc m) fix_limit") simp_all
    qed
  qed
qed

end

end
