(* ===== verification/Directory_Remove.thy ===== *)
theory Directory_Remove
  imports Directory_Add
begin

text \<open>Removing keys from a directory, and deleting directories, refine their abstract operations.\<close>

section \<open>Removing\<close>

lemma finite_pages: "dir_rep h dir D M \<Longrightarrow> finite (dom D)"
  using finite_subset [of "dom D" "{..<2 ^ 64}"] by (simp add: dir_rep_def)

lemma only_root: "D = [0 \<mapsto> ks] \<longleftrightarrow> dom D = {0} \<and> D 0 = Some ks"
proof
  assume D: "dom D = {0} \<and> D 0 = Some ks"
  show "D = [0 \<mapsto> ks]"
  proof
    show "D p = [0 \<mapsto> ks] p" for p using D by (cases "p = 0") (auto simp: set_eq_iff domIff)
  qed
qed simp

lemma not_only_root: "b \<in> dom D \<Longrightarrow> b \<noteq> 0 \<Longrightarrow> D \<noteq> [0 \<mapsto> ks]"
  by (auto split: if_splits)

text \<open>The result and the effect of \<^verbatim>\<open>empty_dir_delete\<close>.\<close>

definition empty_delete_spec :: "dir_pages \<Rightarrow> bool \<times> dir_pages" where
  "empty_delete_spec D =
     (if D 0 \<noteq> Some [] then (False, D)
      else if dom D = {0} then (True, Map.empty)
      else (card (dom D) \<noteq> 2, D))"

context apply_view
begin

lemma erase_root_abs:
  assumes "knows v M' d ks" "pages_ok h ty dir" "dir_rep h dir [0 \<mapsto> qs] M'" "frame h dir M M'" "dir \<in> ks"
    and "dir_node s" "sle_key s = dir"
  shows "\<exists>v'. a_erase A v s = Inr v' \<and> goes h dir M d (Inr (x, v')) x Map.empty"
proof -
  have "M' dir \<noteq> None" using dir_rep_page [OF assms(3), of 0 qs] by (auto simp: page_of_root)
  moreover have "entry_ok ty s" using page_entry_ok [OF assms(2) _ assms(6), of 0] assms(7) by (simp add: page_of_root)
  ultimately obtain v' where v': "a_erase A v s = Inr v'" "knows v' (M'(dir := None)) d ks"
    using page_erase_step [OF assms(1,7) _ assms(5)] by blast
  moreover have "frame h dir M (M'(dir := None))" using frame_upd [OF assms(4), of 0] by (simp add: page_of_root)
  ultimately show ?thesis
    using dir_rep_erase_root [OF assms(3,2)] holds_weaken [OF v'(2)] by (auto simp: dir_goes_def)
qed

lemma dir_remove_root_abs:
  assumes "knows v M' d ks" "pages_ok h ty dir" "dir_rep h dir D M'" "frame h dir M M'" "dir \<in> ks"
    and "D 0 = Some []" "M' dir = Some node"
  shows "goes h dir M d (dir_remove_root A h dir node keep_root v) True
    (if \<not> keep_root \<and> D = [0 \<mapsto> []] then Map.empty else D)"
proof -
  have shape: "page_shape h dir (dom D) 0 [] node"
    using dir_rep_shape [OF assms(3,6)] assms(7) by (simp add: page_of_root)
  let ?a = "previous_of node" and ?b = "next_of node"
  have l: "linked (dom D) 0 ?b" "linked (dom D) ?a 0" using shape by (simp_all add: page_shape_def)
  have zero: "?a = 0 \<longleftrightarrow> ?b = 0" using l linked_single [of "dom D"] linked_fun linked_inj by metis
  have stay: "goes h dir M d (Inr (True, w)) True D" if "knows w M' d ls" for w ls
    using holds_weaken [OF that] assms(3,4) by (auto simp: dir_goes_def)
  show ?thesis
  proof (cases "?b = 0")
    case True
    then have dom: "dom D = {0}" using l linked_single [of "dom D"] by simp
    then have D: "D = [0 \<mapsto> []]" using assms(6) by (subst only_root) simp
    have r: "dir_remove_root A h dir node keep_root v =
      (if keep_root then Inr (True, v) else and_then (a_erase A v node) (\<lambda>v''. Inr (True, v'')))"
      using True zero by (simp add: dir_remove_root_def Let_def)
    have node: "dir_node node" "sle_key node = dir"
      using shape page_shape_node [OF shape] by (simp_all add: page_shape_def page_of_root)
    obtain v' where "a_erase A v node = Inr v'" "goes h dir M d (Inr (True, v')) True Map.empty"
      using erase_root_abs [OF assms(1,2) assms(3) [unfolded D] assms(4,5) node, of True] by blast
    then show ?thesis using r D stay [OF assms(1)] by simp
  next
    case False
    then have other: "D \<noteq> [0 \<mapsto> []]" using not_only_root [of ?b D] l(1) by (simp add: linked_def)
    have "\<exists>v'. dir_remove_root A h dir node keep_root v = Inr (True, v') \<and> (\<exists>ls. knows v' M' d ls)"
    proof (cases "?b = ?a")
      case True
      obtain qs where qs: "D ?b = Some qs" using l(1) by (auto simp: linked_def)
      obtain last where last: "M' (page_key h dir ?b) = Some last" "indexes_of last \<noteq> []" "?b < 2 ^ 64"
        using dir_rep_page [OF assms(3) qs] False by (auto simp: page_shape_def)
      obtain v1 where "peek_or A (page_kl h dir ?b) ''Directory chain: fwd link broken.'' v = Inr (last, v1)"
        "knows v1 M' d (insert (page_key h dir ?b) ks)"
        using page_peek_or [OF assms(1,2) last(3,1)] by blast
      then show ?thesis using False True last(2) by (auto simp: dir_remove_root_def Let_def)
    next
      case ab: False
      then show ?thesis using False zero assms(1) by (auto simp: dir_remove_root_def Let_def)
    qed
    then show ?thesis using other stay by auto
  qed
qed

text \<open>Unlinking a page from the ring.\<close>

lemma unlink_abs:
  assumes "knows v (M(page_key h dir p \<mapsto> node)) d ks" "pages_ok h ty dir" "dir_rep h dir D M" "p \<noteq> 0" "p < 2 ^ 64"
    and "linked (dom D) a p" "linked (dom D) p b" "page_key h dir p \<in> ks"
    and "dir_node node" "sle_key node = page_key h dir p"
  obtains prev nxt v1 v2 v3 v4 v5 M' where
    "peek_or A (page_kl h dir a) ''Directory chain: fwd link broken'' v = Inr (prev, v1)"
    "a_update A v1 (set_next b prev) = Inr v2"
    "peek_or A (page_kl h dir b) ''Directory chain: rev link broken'' v2 = Inr (nxt, v3)"
    "a_update A v3 (set_previous a nxt) = Inr v4" "a_erase A v4 node = Inr v5"
    "indexes_of (set_previous a nxt) = the (D b)"
    "\<exists>ls. knows v5 M' d ls" "dir_rep h dir (D(p := None)) M'" "frame h dir M M'"
proof -
  let ?pk = "page_key h dir"
  obtain as bs where D: "D a = Some as" "D b = Some bs" using assms(6,7) by (auto simp: linked_def)
  obtain prev where prev: "M (?pk a) = Some prev" "page_shape h dir (dom D) a as prev" and a: "a < 2 ^ 64"
    using dir_rep_page [OF assms(3) D(1)] by blast
  obtain sb where sb: "M (?pk b) = Some sb" "page_shape h dir (dom D) b bs sb" and b: "b < 2 ^ 64"
    using dir_rep_page [OF assms(3) D(2)] by blast
  have ap: "a \<noteq> p" "b \<noteq> p" using linked_neq [OF assms(6,4)] linked_neq [OF assms(7)] assms(4) by auto
  note eq = page_key_eq [OF assms(2)]
  note na = page_shape_node [OF prev(2)] and nb = page_shape_node [OF sb(2)]
  let ?next = "if b = a then set_next b prev else sb"
  let ?M1 = "M(?pk p \<mapsto> node)"
  let ?M2 = "?M1(?pk a \<mapsto> set_next b prev)"
  let ?M3 = "?M2(?pk b \<mapsto> set_previous a ?next)"
  have ka: "sle_key prev = ?pk a" and kb: "sle_key ?next = ?pk b" using prev(2) sb(2) by (simp_all add: page_shape_def)
  have nx: "dir_node ?next" "indexes_of ?next = bs"
    using nb sb(2) prev D page_update(1,11) [OF na b] by (auto simp: page_shape_def)
  obtain v1 where v1: "peek_or A (page_kl h dir a) ''Directory chain: fwd link broken'' v = Inr (prev, v1)"
    "knows v1 ?M1 d (insert (?pk a) ks)"
    using page_peek_or [OF assms(1,2) a] prev(1) eq [OF a assms(5)] ap by auto
  have "entry_ok ty (set_next b prev)"
    using page_entry_ok [OF assms(2) a page_update(1) [OF na b]] ka by simp
  then obtain v2 where v2: "a_update A v1 (set_next b prev) = Inr v2" "knows v2 ?M2 d (insert (?pk a) ks)"
    using page_update_step [OF v1(2), of "set_next b prev" "?pk a"] ka prev(1) eq [OF a assms(5)] ap by auto
  have at_b: "?M2 (?pk b) = Some ?next" using sb(1) eq [OF b a] eq [OF b assms(5)] ap by simp
  then obtain v3 where v3: "peek_or A (page_kl h dir b) ''Directory chain: rev link broken'' v2 = Inr (?next, v3)"
    "knows v3 ?M2 d (insert (?pk b) (insert (?pk a) ks))"
    using page_peek_or [OF v2(2) assms(2) b at_b] by blast
  have "entry_ok ty (set_previous a ?next)"
    using page_entry_ok [OF assms(2) b page_update(2) [OF nx(1) a]] kb by simp
  then obtain v4 where v4: "a_update A v3 (set_previous a ?next) = Inr v4" "knows v4 ?M3 d (insert (?pk b) (insert (?pk a) ks))"
    using page_update_step [OF v3(2), of "set_previous a ?next" "?pk b"] kb at_b by fastforce
  have "?M3 (?pk p) \<noteq> None" using eq [OF a assms(5)] eq [OF b assms(5)] ap by simp
  then obtain v5 where v5: "a_erase A v4 node = Inr v5" "knows v5 (?M3(?pk p := None)) d (insert (?pk b) (insert (?pk a) ks))"
    using page_erase_step [OF v4(2) assms(10)] page_entry_ok [OF assms(2,5,9,10)] assms(8) by blast
  have "(?M3(?pk p := None)) (?pk q) = (if q = p then None else map_option (relink a b b a q) (M (?pk q)))"
    if q: "q < 2 ^ 64" for q
  proof (cases "q = p")
    case False
    then have "(?M3(?pk p := None)) (?pk q) = (if q = b then Some (set_previous a ?next) else if q = a then Some (set_next b prev) else M (?pk q))"
      using eq [OF q a] eq [OF q b] eq [OF q assms(5)] by simp
    then show ?thesis
      using prev(1) sb(1) False by (cases "q = b"; cases "q = a") (simp_all add: relink_def option.map_id)
  qed simp
  then have "dir_rep h dir (D(p := None)) (?M3(?pk p := None))" by (rule dir_rep_remove_page [OF assms(3,2,6,7,4)])
  moreover have "frame h dir M (?M3(?pk p := None))" by (intro frame_upd frame_refl a b assms(5))
  moreover have "indexes_of (set_previous a ?next) = the (D b)" using page_update(12) [OF nx(1) a] nx(2) D by simp
  ultimately show ?thesis using that v1(1) v2(1) v3(1) v4(1) v5 by blast
qed

lemma dir_remove_page_abs:
  assumes "knows v (M(page_key h dir p \<mapsto> node)) d ks" "pages_ok h ty dir" "dir_rep h dir D M" "p \<noteq> 0" "p < 2 ^ 64"
    and "linked (dom D) (previous_of node) p" "linked (dom D) p (next_of node)" "page_key h dir p \<in> ks"
    and "dir_node node" "sle_key node = page_key h dir p"
  shows "goes h dir M d (dir_remove_page A h dir p node keep_root v) True
    (if \<not> keep_root \<and> D(p := None) = [0 \<mapsto> []] then Map.empty else D(p := None))"
proof -
  let ?a = "previous_of node" and ?b = "next_of node" and ?D = "D(p := None)"
  obtain prev nxt v1 v2 v3 v4 v5 M' where
    steps: "peek_or A (page_kl h dir ?a) ''Directory chain: fwd link broken'' v = Inr (prev, v1)"
      "a_update A v1 (set_next ?b prev) = Inr v2"
      "peek_or A (page_kl h dir ?b) ''Directory chain: rev link broken'' v2 = Inr (nxt, v3)"
      "a_update A v3 (set_previous ?a nxt) = Inr v4" "a_erase A v4 node = Inr v5"
    and nxt: "indexes_of (set_previous ?a nxt) = the (D ?b)"
    and v5: "\<exists>ls. knows v5 M' d ls" and rep: "dir_rep h dir ?D M'" and fr: "frame h dir M M'"
    by (rule unlink_abs [OF assms])
  obtain ls where ls: "knows v5 M' d ls" using v5 ..
  have ab: "?a \<in> dom D" "?b \<in> dom D" "?a \<noteq> p" "?b \<noteq> p"
    using assms(6,7) linked_neq [OF assms(6,4)] linked_neq [OF assms(7)] assms(4) by (auto simp: linked_def)
  have "the (D ?b) \<noteq> []" if "?b \<noteq> 0" using dir_rep_page [OF assms(3)] ab(2) that by fastforce
  then have last: "dir_remove_last A h dir ?a ?b (set_previous ?a nxt) v5 = Inr (?b, v5)"
    using nxt by (auto simp: dir_remove_last_def)
  have stay: "goes h dir M d (Inr (True, w)) True ?D" if "knows w M' d ls'" for w ls'
    using holds_weaken [OF that] rep fr by (auto simp: dir_goes_def)
  have run: "dir_remove_page A h dir p node keep_root v =
    (if \<not> keep_root \<and> ?b = 0 \<and> ?a = 0
     then and_then (peek_or A (page_kl h dir 0) ''Directory chain: fwd link broken.'' v5)
       (\<lambda>(prev', v7). if indexes_of prev' = [] then and_then (a_erase A v7 prev') (\<lambda>v8. Inr (True, v8)) else Inr (True, v7))
     else Inr (True, v5))"
    using steps last ab(3,4) by (simp add: dir_remove_page_def Let_def)
  show ?thesis
  proof (cases "\<not> keep_root \<and> ?b = 0 \<and> ?a = 0")
    case False
    then have "\<not> keep_root \<Longrightarrow> ?D \<noteq> [0 \<mapsto> []]"
      using not_only_root [of ?a ?D] not_only_root [of ?b ?D] ab by (cases "?a = 0") simp_all
    then show ?thesis using run False stay [OF ls] by auto
  next
    case True
    then have dom: "dom ?D = {0}" using linked_pair [of "dom D" p] assms(4,6,7) by auto
    then obtain rs where rs: "?D 0 = Some rs" by blast
    then have D: "?D = [0 \<mapsto> rs]" using dom by (subst only_root) simp
    obtain root where root: "M' dir = Some root" "page_shape h dir (dom ?D) 0 rs root"
      using dir_rep_page [OF rep rs] unfolding page_of_root by blast
    obtain v6 where v6: "peek_or A (page_kl h dir 0) ''Directory chain: fwd link broken.'' v5 = Inr (root, v6)"
      "knows v6 M' d (insert dir ls)"
      using page_peek_or [OF ls assms(2), of 0 root] root(1) by (auto simp: page_of_root)
    have node: "dir_node root" "sle_key root = dir" "indexes_of root = rs"
      using page_shape_node [OF root(2)] root(2) by (simp_all add: page_shape_def page_of_root)
    obtain v7 where v7: "a_erase A v6 root = Inr v7" "goes h dir M d (Inr (True, v7)) True Map.empty"
      using erase_root_abs [OF v6(2) assms(2) rep [unfolded D] fr insertI1 node(1,2), of True] by blast
    have same: "?D = [0 \<mapsto> []] \<longleftrightarrow> rs = []" unfolding D by (auto dest: fun_cong [of _ _ 0])
    show ?thesis
    proof (cases "rs = []")
      case empty: True
      then show ?thesis unfolding run using True v6(1) v7 node(3) same by simp
    next
      case False
      then show ?thesis unfolding run using True v6(1) stay [OF v6(2)] node(3) same by simp
    qed
  qed
qed

lemma dir_remove_abs:
  assumes "knows v M d ks" "pages_ok h ty dir" "dir_rep h dir D M" "p < 2 ^ 64"
  shows "goes h dir M d (dir_remove A h dir p key keep_root v) (fst (remove_spec keep_root p key D)) (snd (remove_spec keep_root p key D))"
proof -
  let ?pk = "page_key h dir"
  obtain v1 where v1: "a_peek A v (page_kl h dir p) = Inr (M (?pk p), v1)" "knows v1 M d (insert (?pk p) ks)"
    using page_peek [OF assms(1,2,4)] by blast
  have stay: "goes h dir M d (Inr (False, v1)) False D" using holds_weaken [OF v1(2)] assms(3) by (auto simp: dir_goes_def)
  show ?thesis
  proof (cases "D p")
    case None
    then show ?thesis
      using v1(1) dir_rep_None [OF assms(3,4) None] stay by (simp add: dir_remove_def remove_spec_def)
  next
    case (Some qs)
    obtain found where found: "M (?pk p) = Some found" "page_shape h dir (dom D) p qs found" and len: "length qs \<le> dir_node_max_entries"
      using dir_rep_page [OF assms(3) Some] by blast
    then have qs: "indexes_of found = qs" by (simp add: page_shape_def)
    show ?thesis
    proof (cases "key \<in> set qs")
      case False
      then show ?thesis using v1(1) found(1) qs Some stay by (simp add: dir_remove_def remove_spec_def)
    next
      case True
      let ?es = "remove1 key qs"
      let ?node = "set_indexes ?es found"
      have es: "\<forall>k \<in> set ?es. key_ok k" using page_shape_keys [OF found(2)] using set_remove1_subset by fastforce
      note n = page_shape_node [OF found(2)]
      note u = page_update(3,7,10) [OF n es]
      have node: "dir_node ?node" "sle_key ?node = ?pk p" using u(1) found(2) by (simp_all add: page_shape_def)
      obtain v2 where v2: "a_update A v1 ?node = Inr v2" "knows v2 (M(?pk p \<mapsto> ?node)) d (insert (?pk p) ks)"
        using page_update_step [OF v1(2) node(2) _ insertI1 page_entry_ok [OF assms(2,4) node]] found(1) by auto
      have run: "dir_remove A h dir p key keep_root v = (if ?es \<noteq> [] then Inr (True, v2)
          else if p = 0 then dir_remove_root A h dir ?node keep_root v2 else dir_remove_page A h dir p ?node keep_root v2)"
        using v1(1) v2(1) found(1) qs True by (simp add: dir_remove_def Let_def)
      have fr: "frame h dir M (M(?pk p \<mapsto> ?node))" by (rule frame_upd [OF frame_refl assms(4)])
      have rep: "dir_rep h dir (D(p \<mapsto> ?es)) (M(?pk p \<mapsto> ?node))" if "?es \<noteq> [] \<or> p = 0"
        by (rule dir_rep_keys [OF assms(3,2) Some found(1)]) (use len that es in \<open>auto simp: length_remove1\<close>)
      show ?thesis
      proof (cases "?es = []")
        case False
        then have "D(p \<mapsto> ?es) \<noteq> [0 \<mapsto> []]" by (auto dest!: fun_cong [of _ _ p] split: if_splits)
        then have "remove_spec keep_root p key D = (True, D(p \<mapsto> ?es))"
          using Some True False by (simp add: remove_spec_def Let_def)
        then show ?thesis using run False rep fr holds_weaken [OF v2(2)] by (auto simp: dir_goes_def)
      next
        case empty: True
        show ?thesis
        proof (cases "p = 0")
          case True
          then have "goes h dir M d (dir_remove_root A h dir ?node keep_root v2) True
              (if \<not> keep_root \<and> D(p \<mapsto> ?es) = [0 \<mapsto> []] then Map.empty else D(p \<mapsto> ?es))"
            using v2(2) assms(2) rep fr empty
            by (intro dir_remove_root_abs [where M' = "M(?pk p \<mapsto> ?node)" and ks = "insert (?pk p) ks"])
              (simp_all add: page_of_root)
          moreover have "remove_spec keep_root p key D =
              (True, if \<not> keep_root \<and> D(p \<mapsto> ?es) = [0 \<mapsto> []] then Map.empty else D(p \<mapsto> ?es))"
            using Some \<open>key \<in> set qs\<close> True by (simp add: remove_spec_def Let_def)
          moreover have "dir_remove A h dir p key keep_root v = dir_remove_root A h dir ?node keep_root v2"
            using run True empty by simp
          ultimately show ?thesis by (simp only: fst_conv snd_conv)
        next
          case False
          have "goes h dir M d (dir_remove_page A h dir p ?node keep_root v2) True
              (if \<not> keep_root \<and> D(p := None) = [0 \<mapsto> []] then Map.empty else D(p := None))"
            using u found(2)
            by (intro dir_remove_page_abs [OF v2(2) assms(2,3) False assms(4) _ _ insertI1 node]) (simp_all add: page_shape_def)
          moreover have "remove_spec keep_root p key D =
              (True, if \<not> keep_root \<and> D(p := None) = [0 \<mapsto> []] then Map.empty else D(p := None))"
            using Some True False empty by (simp add: remove_spec_def Let_def)
          moreover have "dir_remove A h dir p key keep_root v = dir_remove_page A h dir p ?node keep_root v2"
            using run False empty by simp
          ultimately show ?thesis by (simp only: fst_conv snd_conv)
        qed
      qed
    qed
  qed
qed

text \<open>Deleting an empty directory.\<close>

lemma empty_dir_delete_abs:
  assumes "knows v M d ks" "pages_ok h ty dir" "dir_rep h dir D M"
  shows "goes h dir M d (empty_dir_delete A h dir v) (fst (empty_delete_spec D)) (snd (empty_delete_spec D))"
proof -
  obtain v1 where v1: "a_peek A v (page_kl h dir 0) = Inr (M dir, v1)" "knows v1 M d (insert dir ks)"
    using page_peek [OF assms(1,2), of 0] by (auto simp: page_of_root)
  have stay: "goes h dir M d (Inr (x, w)) x D" if "knows w M d ls" for w ls and x :: bool
    using holds_weaken [OF that] assms(3) by (auto simp: dir_goes_def)
  show ?thesis
  proof (cases "D 0")
    case None
    then have "M dir = None" using dir_rep_None [OF assms(3), of 0] by (simp add: page_of_root)
    then show ?thesis using v1 None stay [OF v1(2), of False] by (simp add: empty_dir_delete_def empty_delete_spec_def)
  next
    case (Some rs)
    obtain root where root: "M dir = Some root" "page_shape h dir (dom D) 0 rs root"
      using dir_rep_page [OF assms(3) Some] unfolding page_of_root by blast
    let ?a = "previous_of root" and ?b = "next_of root"
    have f: "get_field_h256 sfRootIndex root = dir" "indexes_of root = rs" "linked (dom D) 0 ?b" "linked (dom D) ?a 0"
      using root(2) by (simp_all add: page_shape_def)
    have zero: "?a = 0 \<longleftrightarrow> ?b = 0" "?b = 0 \<longleftrightarrow> dom D = {0}"
      using f(3,4) linked_single [of "dom D"] linked_fun linked_inj by metis+
    show ?thesis
    proof (cases "rs = [] \<and> dom D = {0}")
      case True
      then have D: "D = [0 \<mapsto> []]" using Some by (subst only_root) simp
      have node: "dir_node root" "sle_key root = dir"
        using page_shape_node [OF root(2)] root(2) by (simp_all add: page_shape_def page_of_root)
      obtain v2 where "a_erase A v1 root = Inr v2" "goes h dir M d (Inr (True, v2)) True Map.empty"
        using erase_root_abs [OF v1(2) assms(2) assms(3) [unfolded D] frame_refl insertI1 node, of True] by blast
      then show ?thesis
        using v1(1) root(1) f(1,2) zero True D by (simp add: empty_dir_delete_def empty_delete_spec_def Let_def)
    next
      case other: False
      show ?thesis
      proof (cases "rs = [] \<and> ?b = ?a")
        case True
        then have b: "?b \<noteq> 0" "dom D = {0, ?b}" using other zero linked_pair [of "dom D" ?b] f(3,4) by auto
        then obtain qs where qs: "D ?b = Some qs" by blast
        obtain last where last: "M (page_key h dir ?b) = Some last" "indexes_of last \<noteq> []" "?b < 2 ^ 64"
          using dir_rep_page [OF assms(3) qs] b(1) by (auto simp: page_shape_def)
        obtain v2 where "peek_or A (page_kl h dir ?b) ''Directory chain: fwd link broken.'' v1 = Inr (last, v2)"
          "knows v2 M d (insert (page_key h dir ?b) (insert dir ks))"
          using page_peek_or [OF v1(2) assms(2) last(3,1)] by blast
        then show ?thesis
          using v1(1) root(1) f(1,2) True b Some last(2) stay [of v2 _ False] other
          by (auto simp: empty_dir_delete_def empty_delete_spec_def Let_def)
      next
        case False
        have "card (dom D) \<noteq> 2" if "rs = []" "dom D \<noteq> {0}"
        proof
          assume "card (dom D) = 2"
          then obtain x y where "dom D = {x, y}" by (auto simp: card_2_iff)
          then show False using f(3,4) zero that False by (auto simp: linked_def)
        qed
        then show ?thesis
          using v1 root(1) f(1,2) False other zero Some stay [OF v1(2)]
          by (auto simp: empty_dir_delete_def empty_delete_spec_def Let_def)
      qed
    qed
  qed
qed

end

end
