(* ===== verification/Directory_Delete.thy ===== *)
theory Directory_Delete
  imports Directory_Remove
begin

text \<open>
  Deleting a directory page by page, and the interpretations of the directory operations on the
  views of the model.
\<close>

section \<open>Deleting\<close>

text \<open>The keys from a page on, in the order of the ring, and the state without the pages before it.\<close>

definition keys_from :: "dir_pages \<Rightarrow> nat \<Rightarrow> nat list" where
  "keys_from D p = concat (map (\<lambda>q. the (D q)) (sorted_list_of_set {q \<in> dom D. p \<le> q}))"

definition wipe :: "(nat \<Rightarrow> nat \<Rightarrow> nat) \<Rightarrow> nat \<Rightarrow> nat set \<Rightarrow> state \<Rightarrow> state" where
  "wipe h dir S M k = (if k \<in> page_key h dir ` S then None else M k)"

text \<open>Whether the last page of a directory records that no page follows it.\<close>

definition closed_ring :: "(nat \<Rightarrow> nat \<Rightarrow> nat) \<Rightarrow> nat \<Rightarrow> dir_pages \<Rightarrow> state \<Rightarrow> bool" where
  "closed_ring h dir D M \<longleftrightarrow> is_field_present sfIndexNext (the (M (page_key h dir (Max (dom D)))))"

lemma linked_gap: "linked S p q \<Longrightarrow> q \<noteq> 0 \<Longrightarrow> r \<in> S \<Longrightarrow> r \<le> p \<or> q \<le> r"
  by (simp add: linked_def)

lemma pages_to_last: "linked S p 0 \<Longrightarrow> insert p {r \<in> S. r < p} = S"
  using linked_last by (fastforce simp: linked_def)

lemma keys_from_step:
  assumes "finite (dom D)" "linked (dom D) p q" "q \<noteq> 0" "D p = Some ks"
  shows "keys_from D p = ks @ keys_from D q"
proof -
  have S: "{r \<in> dom D. p \<le> r} = insert p {r \<in> dom D. q \<le> r}" "p \<notin> {r \<in> dom D. q \<le> r}"
  proof -
    have "q \<le> r" if "r \<in> dom D" "r \<noteq> p" "p \<le> r" for r using linked_gap [OF assms(2,3) that(1)] that by simp
    then show "{r \<in> dom D. p \<le> r} = insert p {r \<in> dom D. q \<le> r}" "p \<notin> {r \<in> dom D. q \<le> r}"
      using assms(2,3) by (auto simp: linked_def)
  qed
  have "sorted_list_of_set {r \<in> dom D. p \<le> r} = p # sorted_list_of_set {r \<in> dom D. q \<le> r}"
    unfolding S(1) using assms(1-3) S(2) by (subst sorted_list_of_set_insert_remove) (auto simp: insort_is_Cons linked_def)
  then show ?thesis using assms(4) by (simp add: keys_from_def)
qed

lemma keys_from_last:
  assumes "linked (dom D) p 0" "D p = Some ks"
  shows "keys_from D p = ks"
proof -
  have "{r \<in> dom D. p \<le> r} = {p}" using assms linked_last by fastforce
  then show ?thesis using assms(2) by (simp add: keys_from_def)
qed

lemma wipe_step: "(wipe h dir S M)(page_key h dir p := None) = wipe h dir (insert p S) M"
  by (auto simp: wipe_def fun_eq_iff)

lemma pages_before: "linked S p q \<Longrightarrow> q \<noteq> 0 \<Longrightarrow> insert p {r \<in> S. r < p} = {r \<in> S. r < q}"
  by (auto simp: linked_def)

context apply_view
begin

lemma delete_page_step:
  assumes "knows v (wipe h dir {r \<in> dom D. r < p} M) d ls" "pages_ok h ty dir" "dir_rep h dir D M" "D p = Some ks"
  obtains node v1 v2 where "a_peek A v (page_kl h dir p) = Inr (Some node, v1)" "a_erase A v1 node = Inr v2"
    "M (page_key h dir p) = Some node" "page_shape h dir (dom D) p ks node"
    "knows v2 (wipe h dir (insert p {r \<in> dom D. r < p}) M) d {}"
proof -
  let ?pk = "page_key h dir" and ?M = "wipe h dir {r \<in> dom D. r < p} M"
  obtain node where node: "M (?pk p) = Some node" "page_shape h dir (dom D) p ks node" and p: "p < 2 ^ 64"
    using dir_rep_page [OF assms(3,4)] by blast
  have "?pk p \<notin> ?pk ` {r \<in> dom D. r < p}"
  proof
    assume "?pk p \<in> ?pk ` {r \<in> dom D. r < p}"
    then obtain r where r: "?pk p = ?pk r" "r < p" by auto
    then have "r < 2 ^ 64" using p by simp
    then show False using page_key_eq [OF assms(2) p, of r] r by simp
  qed
  then have at: "?M (?pk p) = Some node" using node(1) by (simp add: wipe_def)
  obtain v1 where v1: "a_peek A v (page_kl h dir p) = Inr (Some node, v1)" "knows v1 ?M d (insert (?pk p) ls)"
    using page_peek [OF assms(1,2) p] at by auto
  have key: "sle_key node = ?pk p" using node(2) by (simp add: page_shape_def)
  have "entry_ok ty node" by (rule page_entry_ok [OF assms(2) p page_shape_node [OF node(2)] key])
  then obtain v2 where v2: "a_erase A v1 node = Inr v2" "knows v2 (?M(?pk p := None)) d (insert (?pk p) ls)"
    using page_erase_step [OF v1(2) key _ insertI1] at by auto
  show ?thesis using that [OF v1(1) v2(1) node] holds_weaken [OF v2(2)] by (simp add: wipe_step)
qed

lemma dir_delete_loop_abs:
  assumes "pages_ok h ty dir" "dir_rep h dir D M"
    and "knows v (wipe h dir {r \<in> dom D. r < p} M) d ls" "p \<in> dom D" "set visited = {r \<in> dom D. r < p}"
  shows "if closed_ring h dir D M
    then dir_delete_loop A h dir p visited calls v = Some (Inl (Conversion ''Directory chain: cycle detected''))
    else \<exists>v'. dir_delete_loop A h dir p visited calls v = Some (Inr (True, calls @ keys_from D p, v'))
      \<and> knows v' (wipe h dir (dom D) M) d {}"
  using assms(3-)
proof (induction "card {r \<in> dom D. p < r}" arbitrary: p v visited calls ls rule: less_induct)
  case less
  obtain ks where ks: "D p = Some ks" using less.prems(2) by blast
  obtain node v1 v2 where step: "a_peek A v (page_kl h dir p) = Inr (Some node, v1)" "a_erase A v1 node = Inr v2"
    and node: "M (page_key h dir p) = Some node" "page_shape h dir (dom D) p ks node"
    and v2: "knows v2 (wipe h dir (insert p {r \<in> dom D. r < p}) M) d {}"
    by (rule delete_page_step [OF less.prems(1) assms(1,2) ks])
  let ?q = "next_of node"
  have q: "linked (dom D) p ?q" "indexes_of node = ks" using node(2) by (simp_all add: page_shape_def)
  have fin: "finite (dom D)" by (rule finite_pages [OF assms(2)])
  have new: "p \<notin> set visited" using less.prems(3) by simp
  have loop: "dir_delete_loop A h dir p visited calls v = (if is_field_present sfIndexNext node
      then dir_delete_loop A h dir ?q (p # visited) (calls @ ks) v2 else Some (Inr (True, calls @ ks, v2)))"
    by (subst dir_delete_loop.simps) (simp add: new step q(2))
  show ?case
  proof (cases "?q = 0")
    case False
    have "is_field_present sfIndexNext node"
      using False by (auto simp: is_field_present_def get_field_u64_def split: option.splits)
    moreover have "{r \<in> dom D. ?q < r} \<subset> {r \<in> dom D. p < r}" using q(1) False by (auto simp: linked_def)
    then have "card {r \<in> dom D. ?q < r} < card {r \<in> dom D. p < r}" using fin by (intro psubset_card_mono) simp_all
    note IH = less.hyps [OF this, of v2 "{}" "p # visited" "calls @ ks"]
    ultimately show ?thesis
      using IH v2 q(1) less.prems(3) pages_before [OF q(1) False] keys_from_step [OF fin q(1) False ks] loop
      by (cases "closed_ring h dir D M") (simp_all add: linked_def)
  next
    case True
    then have max: "Max (dom D) = p" using linked_Max [OF fin] q(1) by simp
    have all: "insert p {r \<in> dom D. r < p} = dom D" using pages_to_last q(1) True by simp
    then have cycle: "dir_delete_loop A h dir ?q (p # visited) (calls @ ks) v2 =
        Some (Inl (Conversion ''Directory chain: cycle detected''))"
      using True less.prems(3) q(1) by (subst dir_delete_loop.simps) (auto simp: linked_def)
    show ?thesis
      using loop cycle v2 all keys_from_last [of D p ks] ks q(1) True node(1) by (auto simp: closed_ring_def max)
  qed
qed

lemma dir_delete_abs:
  assumes "knows v M d ls" "pages_ok h ty dir" "dir_rep h dir D M" "D \<noteq> Map.empty"
  shows "if closed_ring h dir D M
    then dir_delete A h dir v = Some (Inl (Conversion ''Directory chain: cycle detected''))
    else \<exists>v' M'. dir_delete A h dir v = Some (Inr (True, keys_from D 0, v'))
      \<and> knows v' M' d {} \<and> dir_rep h dir Map.empty M' \<and> frame h dir M M'"
proof -
  have root: "0 \<in> dom D" using assms(3,4) by (auto simp: dir_rep_def)
  have "wipe h dir {r \<in> dom D. r < 0} M = M" by (simp add: wipe_def fun_eq_iff)
  then have loop: "if closed_ring h dir D M
    then dir_delete A h dir v = Some (Inl (Conversion ''Directory chain: cycle detected''))
    else \<exists>v'. dir_delete A h dir v = Some (Inr (True, keys_from D 0, v')) \<and> knows v' (wipe h dir (dom D) M) d {}"
    using dir_delete_loop_abs [OF assms(2,3), of v 0 d ls "[]" "[]"] assms(1) root
    by (cases "closed_ring h dir D M") (simp_all add: dir_delete_def)
  have "wipe h dir (dom D) M (page_key h dir p) = None" if "p < 2 ^ 64" for p
    using dir_rep_None [OF assms(3) that] by (cases "p \<in> dom D") (auto simp: wipe_def)
  then have "dir_rep h dir Map.empty (wipe h dir (dom D) M)" by (simp add: dir_rep_def)
  moreover have "dom D \<subseteq> {..<2 ^ 64}" using assms(3) by (simp add: dir_rep_def)
  then have "frame h dir M (wipe h dir (dom D) M)" by (auto simp: frame_def wipe_def)
  ultimately show ?thesis using loop by (cases "closed_ring h dir D M") (simp, force)
qed

end

end
