(* ===== verification/Apply_Thread.thy ===== *)
theory Apply_Thread
  imports Apply_State_Table
begin

text \<open>
  The commit of a transaction's table to a closed ledger. The inserted and changed entries are
  threaded (they record the transaction that touched them last), an entry that was written but not
  changed is left alone, and the owners of an erased trust line are threaded too.
\<close>

section \<open>apply_with_tx_thread\<close>

text \<open>
  \<open>ak\<close> is the key of the account root of an account (\<^verbatim>\<open>account_keylet\<close>, a hash), \<open>th\<close> is
  \<^verbatim>\<open>thread_sle\<close> with the transaction, the ledger and the rules, where \<open>None\<close> is a failed assertion.
\<close>

definition thread_owner ::
  "(nat \<Rightarrow> nat) \<Rightarrow> 'w read_ops \<Rightarrow> apply_table \<Rightarrow> 'w \<Rightarrow> nat \<Rightarrow> (nat, sle) btree \<Rightarrow> (nat, sle) btree vres" where
  "thread_owner ak R t to owner threads =
     (let k = \<lparr>k_key = ak owner, k_type = LtAccountRoot\<rparr>
      in if map_of threads (k_key k) \<noteq> None then Inr threads
         else and_then
           (case map_of (at_items t) (k_key k) of
              Some (Act_Insert, s) \<Rightarrow> Inr None
            | Some (Act_Modify, s) \<Rightarrow>
                and_then (r_read R to k)
                  (\<lambda>r. Inr (case r of
                     Some original \<Rightarrow> if sle_eq original s then Some s else None
                   | None \<Rightarrow> None))
            | Some (Act_Erase, s) \<Rightarrow> Inr None
            | Some (Act_Cache, s) \<Rightarrow> Inr (Some s)
            | None \<Rightarrow> r_read R to k)
           (\<lambda>owner_sle. Inr (case owner_sle of None \<Rightarrow> threads | Some s \<Rightarrow> btree_insert (k_key k) s threads)))"

definition erased_owners :: "sle \<Rightarrow> nat list" where
  "erased_owners s = [get_field_issuer sfLowLimit s, get_field_issuer sfHighLimit s]"

definition collect_owner_threads ::
  "(nat \<Rightarrow> nat) \<Rightarrow> 'w read_ops \<Rightarrow> apply_table \<Rightarrow> 'w \<Rightarrow> sle \<Rightarrow> (nat, sle) btree \<Rightarrow> (nat, sle) btree vres" where
  "collect_owner_threads ak R t to s threads =
     (if sle_type s \<noteq> LtRippleState then Inr threads
      else fold (\<lambda>owner r. and_then r (thread_owner ak R t to owner)) (erased_owners s) (Inr threads))"

fun thread_items ::
  "(nat \<Rightarrow> nat) \<Rightarrow> (sle \<Rightarrow> sle option) \<Rightarrow> 'w read_ops \<Rightarrow> apply_table \<Rightarrow> 'w
    \<Rightarrow> (nat, apply_action \<times> sle) btree \<Rightarrow> (batch_op \<times> sle) list \<Rightarrow> (nat, sle) btree
    \<Rightarrow> ((batch_op \<times> sle) list \<times> (nat, sle) btree) vres" where
  "thread_items ak th R t to [] ops threads = Inr (ops, threads)"
| "thread_items ak th R t to ((key, Act_Erase, s) # its) ops threads =
     and_then (collect_owner_threads ak R t to s threads)
       (thread_items ak th R t to its (ops @ [(Batch_Delete, s)]))"
| "thread_items ak th R t to ((key, Act_Insert, s) # its) ops threads =
     and_then (no_panic (th s))
       (\<lambda>s'. thread_items ak th R t to its (ops @ [(Batch_Insert, s')]) threads)"
| "thread_items ak th R t to ((key, Act_Modify, s) # its) ops threads =
     and_then (r_read R to \<lparr>k_key = key, k_type = sle_type s\<rparr>)
       (\<lambda>r. case r of
          None \<Rightarrow> Inl (Conversion ''ApplyStateTable::apply_with_tx_thread: modified entry disappeared'')
        | Some original \<Rightarrow>
            if sle_eq s original then thread_items ak th R t to its ops threads
            else and_then (no_panic (th s))
              (\<lambda>s'. thread_items ak th R t to its (ops @ [(Batch_Update, s')]) threads))"
| "thread_items ak th R t to ((key, Act_Cache, s) # its) ops threads =
     thread_items ak th R t to its ops threads"

fun thread_all :: "(sle \<Rightarrow> sle option) \<Rightarrow> sle list \<Rightarrow> (batch_op \<times> sle) list option" where
  "thread_all th [] = Some []"
| "thread_all th (s # ss) =
     (case th s of
        None \<Rightarrow> None
      | Some s' \<Rightarrow> map_option (Cons (Batch_Update, s')) (thread_all th ss))"

definition apply_with_tx_thread ::
  "(nat \<Rightarrow> nat) \<Rightarrow> 'w read_ops \<Rightarrow> 'w raw_ops \<Rightarrow> apply_table \<Rightarrow> 'w \<Rightarrow> nat \<Rightarrow> nat \<Rightarrow> bool \<Rightarrow> 'w vres" where
  "apply_with_tx_thread ak R W t to tx_id ledger_seq fix =
     (let th = thread_sle tx_id ledger_seq fix
      in and_then (thread_items ak th R t to (at_items t) [] [])
        (\<lambda>(ops, threads).
           and_then (w_batch W to ops)
             (\<lambda>to1. and_then (no_panic (thread_all th (map snd threads)))
               (\<lambda>owner_ops. and_then (w_batch W to1 owner_ops)
                 (\<lambda>to2. w_destroy W to2 (at_drops t))))))"

section \<open>The committed state\<close>

locale read_raw_view = read_view R vok vmap vdrops + raw_view W vok vmap vdrops
  for R :: "'v read_ops" and W vok vmap vdrops

interpretation ledrw: read_raw_view "ledger_reads C" "ledger_raw C" "ledger_ok C" "ledger_map C" ledger_drops for C ..

text \<open>The account roots whose trust lines the table erases.\<close>

definition erased_owner_keys :: "(nat \<Rightarrow> nat) \<Rightarrow> (nat, apply_action \<times> sle) btree \<Rightarrow> nat set" where
  "erased_owner_keys ak its =
     {ak owner | owner s. (\<exists>k. (k, Act_Erase, s) \<in> set its) \<and> sle_type s = LtRippleState \<and> owner \<in> set (erased_owners s)}"

text \<open>An entry of the table as committed over \<open>x\<close>, and then as an owner.\<close>

fun committed_entry :: "(sle \<Rightarrow> sle option) \<Rightarrow> apply_action \<Rightarrow> sle \<Rightarrow> sle option \<Rightarrow> sle option" where
  "committed_entry th Act_Erase s x = None"
| "committed_entry th Act_Insert s x = th s"
| "committed_entry th Act_Modify s x = (if sle_eq s (the x) then x else th s)"
| "committed_entry th Act_Cache s x = x"

fun owner_entry :: "(apply_action \<times> sle) option \<Rightarrow> sle option \<Rightarrow> sle option" where
  "owner_entry None x = x"
| "owner_entry (Some (Act_Cache, s)) x = Some s"
| "owner_entry (Some (Act_Modify, s)) x = (if sle_eq s (the x) then Some s else None)"
| "owner_entry (Some (a, s)) x = None"

definition committed :: "(nat \<Rightarrow> nat) \<Rightarrow> (sle \<Rightarrow> sle option) \<Rightarrow> apply_table \<Rightarrow> state \<Rightarrow> state" where
  "committed ak th t M k =
     (case (if k \<in> erased_owner_keys ak (at_items t) then owner_entry (map_of (at_items t) k) (M k) else None) of
        Some s \<Rightarrow> th s
      | None \<Rightarrow>
          (case map_of (at_items t) k of
             None \<Rightarrow> M k
           | Some (a, s) \<Rightarrow> committed_entry th a s (M k)))"

lemma sle_eq_sym: "sle_eq s r \<longleftrightarrow> sle_eq r s"
proof -
  have "value_eq v w \<longleftrightarrow> value_eq w v" for v w by (induction v w rule: value_eq.induct) auto
  then show ?thesis by (auto simp: sle_eq_def list_all2_conv_all_nth case_prod_beta)
qed

definition threads_ok :: "apply_table \<Rightarrow> state \<Rightarrow> nat set \<Rightarrow> (nat, sle) btree \<Rightarrow> bool" where
  "threads_ok t M ks threads \<longleftrightarrow> btree_wf threads
     \<and> (\<forall>k. map_of threads k = (if k \<in> ks then owner_entry (map_of (at_items t) k) (M k) else None))"

text \<open>The batch of the table, given the state \<open>M\<close> of the target.\<close>

definition thread_op :: "(sle \<Rightarrow> sle option) \<Rightarrow> state \<Rightarrow> nat \<times> apply_action \<times> sle \<Rightarrow> (batch_op \<times> sle) list" where
  "thread_op th M = (\<lambda>(k, a, s). case a of
     Act_Erase \<Rightarrow> [(Batch_Delete, s)]
   | Act_Insert \<Rightarrow> [(Batch_Insert, the (th s))]
   | Act_Modify \<Rightarrow> if sle_eq s (the (M k)) then [] else [(Batch_Update, the (th s))]
   | Act_Cache \<Rightarrow> [])"

context read_view
begin

lemma thread_owner_abs:
  assumes "vok to" "apply_ok (vmap to) d t" "fits \<lparr>k_key = ak owner, k_type = LtAccountRoot\<rparr> (vmap to)"
    and "threads_ok t (vmap to) ks threads"
  shows "\<exists>threads'. thread_owner ak R t to owner threads = Inr threads'
    \<and> threads_ok t (vmap to) (insert (ak owner) ks) threads'"
proof (cases "map_of threads (ak owner)")
  case (Some s)
  then have "insert (ak owner) ks = ks" using assms(4) by (auto simp: threads_ok_def split: if_splits)
  then show ?thesis using Some assms(4) by (simp add: thread_owner_def Let_def)
next
  case None
  let ?k = "ak owner"
  let ?e = "owner_entry (map_of (at_items t) ?k) (vmap to ?k)"
  let ?r = "case ?e of None \<Rightarrow> threads | Some s \<Rightarrow> btree_insert ?k s threads"
  have read: "r_read R to \<lparr>k_key = ?k, k_type = LtAccountRoot\<rparr> = Inr (vmap to ?k)"
    using read_abs [OF assms(1,3)] by simp
  have "thread_owner ak R t to owner threads = Inr ?r"
  proof (cases "map_of (at_items t) ?k")
    case (Some e)
    then obtain a s where e: "map_of (at_items t) ?k = Some (a, s)" by (cases e) auto
    have "a = Act_Modify \<Longrightarrow> vmap to ?k \<noteq> None" using apply_item(2) [OF assms(2) e] by auto
    then show ?thesis
      using e None read by (cases a) (auto simp: thread_owner_def Let_def sle_eq_sym [of s])
  qed (use None read in \<open>simp add: thread_owner_def Let_def split: option.split\<close>)
  moreover have "threads_ok t (vmap to) (insert ?k ks) ?r"
    using assms(4) None by (cases ?e) (auto simp: threads_ok_def map_rules)
  ultimately show ?thesis by blast
qed

lemma thread_owners_abs:
  assumes "vok to" "apply_ok (vmap to) d t"
    and "\<And>owner. owner \<in> set os \<Longrightarrow> fits \<lparr>k_key = ak owner, k_type = LtAccountRoot\<rparr> (vmap to)"
    and "threads_ok t (vmap to) ks threads"
  shows "\<exists>threads'. fold (\<lambda>owner r. and_then r (thread_owner ak R t to owner)) os (Inr threads) = Inr threads'
    \<and> threads_ok t (vmap to) (ks \<union> ak ` set os) threads'"
  using assms(3,4)
proof (induction os arbitrary: threads ks)
  case (Cons owner os)
  obtain threads1 where t1: "thread_owner ak R t to owner threads = Inr threads1"
    "threads_ok t (vmap to) (insert (ak owner) ks) threads1"
    using thread_owner_abs [of to d t ak owner ks threads, OF assms(1,2) _ Cons.prems(2)] Cons.prems(1) by auto
  obtain threads2 where "fold (\<lambda>owner r. and_then r (thread_owner ak R t to owner)) os (Inr threads1) = Inr threads2"
    "threads_ok t (vmap to) (insert (ak owner) ks \<union> ak ` set os) threads2"
    using Cons.IH [of "insert (ak owner) ks" threads1] Cons.prems(1) t1(2) by auto
  then show ?case using t1(1) by simp
qed simp

lemma thread_items_abs:
  assumes "vok to" "apply_ok (vmap to) d t"
    and acct: "\<And>owner. fits \<lparr>k_key = ak owner, k_type = LtAccountRoot\<rparr> (vmap to)"
    and its: "\<And>k a s. (k, a, s) \<in> set its \<Longrightarrow> map_of (at_items t) k = Some (a, s) \<and> th s \<noteq> None
      \<and> fits \<lparr>k_key = k, k_type = sle_type s\<rparr> (vmap to)"
    and "threads_ok t (vmap to) ks threads"
  shows "\<exists>threads'. thread_items ak th R t to its ops threads
      = Inr (ops @ concat (map (thread_op th (vmap to)) its), threads')
    \<and> threads_ok t (vmap to) (ks \<union> erased_owner_keys ak its) threads'"
  using its assms(5)
proof (induction its arbitrary: ops threads ks)
  case (Cons e its)
  obtain k a s where e: "e = (k, a, s)" using prod_cases3 by blast
  have item: "map_of (at_items t) k = Some (a, s)" "th s \<noteq> None" "fits \<lparr>k_key = k, k_type = sle_type s\<rparr> (vmap to)"
    using Cons.prems(1) [of k a s] e by simp_all
  note IH = Cons.IH [OF Cons.prems(1) [OF list.set_intros(2)]]
  let ?keys = "if a = Act_Erase \<and> sle_type s = LtRippleState then ak ` set (erased_owners s) else {}"
  have keys: "erased_owner_keys ak (e # its) = ?keys \<union> erased_owner_keys ak its"
    using e by (auto simp: erased_owner_keys_def)
  show ?case
  proof (cases "a = Act_Erase")
    case True
    obtain threads1 where "collect_owner_threads ak R t to s threads = Inr threads1"
      "threads_ok t (vmap to) (ks \<union> ?keys) threads1"
      using thread_owners_abs [of to d t "erased_owners s" ak ks threads] assms(1,2) acct Cons.prems(2) True
      by (cases "sle_type s = LtRippleState") (auto simp: collect_owner_threads_def)
    then show ?thesis
      using IH [of "ks \<union> ?keys" threads1 "ops @ [(Batch_Delete, s)]"] True keys
      by (simp add: e thread_op_def Un_assoc)
  next
    case False
    have "a = Act_Modify \<Longrightarrow> \<exists>x. vmap to k = Some x" using apply_item(2) [OF assms(2) item(1)] by auto
    moreover have "r_read R to \<lparr>k_key = k, k_type = sle_type s\<rparr> = Inr (vmap to k)"
      using read_abs [OF assms(1) item(3)] by simp
    ultimately have "thread_items ak th R t to (e # its) ops threads
        = thread_items ak th R t to its (ops @ thread_op th (vmap to) e) threads"
      using item(2) False by (cases a) (auto simp: e thread_op_def)
    then show ?thesis
      using IH [OF _ Cons.prems(2), of "ops @ thread_op th (vmap to) e"] False by (simp add: keys)
  qed
qed (simp add: erased_owner_keys_def)

end

lemma map_batch_append:
  "map_batch M (xs @ ys) = (case map_batch M xs of None \<Rightarrow> None | Some M' \<Rightarrow> map_batch M' ys)"
  by (induction M xs rule: map_batch.induct) (simp_all del: fun_upd_apply)

lemma map_batch_thread:
  assumes "entries_ok its"
    and "\<And>k a s. map_of its k = Some (a, s) \<Longrightarrow>
      action_ok a s (M k) \<and> M k = N k \<and> (\<exists>s'. th s = Some s' \<and> sle_key s' = k \<and> sle_ok s')"
  shows "map_batch M (concat (map (thread_op th N) its)) =
    Some (\<lambda>k. case map_of its k of None \<Rightarrow> M k | Some (a, s) \<Rightarrow> committed_entry th a s (N k))"
  using assms
proof (induction its arbitrary: M)
  case (Cons e its)
  obtain k a s where e: "e = (k, a, s)" using prod_cases3 by blast
  note s = entries_ok_Cons [OF Cons.prems(1) [unfolded e]]
  let ?M = "M(k := committed_entry th a s (N k))"
  have a: "action_ok a s (M k)" "M k = N k" "\<exists>s'. th s = Some s' \<and> sle_key s' = k \<and> sle_ok s'"
    using Cons.prems(2) [of k a s] e by auto
  have "action_ok b r (?M j) \<and> ?M j = N j \<and> (\<exists>s'. th r = Some s' \<and> sle_key s' = j \<and> sle_ok s')"
    if "map_of its j = Some (b, r)" for j b r
    using Cons.prems(2) [of j b r] that s(4) e by (cases "j = k") auto
  from Cons.IH [OF s(3) this]
  have IH: "map_batch ?M (concat (map (thread_op th N) its)) =
    Some (\<lambda>j. case map_of its j of None \<Rightarrow> ?M j | Some (a, s) \<Rightarrow> committed_entry th a s (N j))" .
  have step: "map_batch M (thread_op th N e) = Some ?M"
    using a s(1,2) e by (cases a) (auto simp: thread_op_def action_ok_def fun_upd_idem)
  have "(\<lambda>j. case map_of its j of None \<Rightarrow> ?M j | Some (a, s) \<Rightarrow> committed_entry th a s (N j))
    = (\<lambda>j. case map_of (e # its) j of None \<Rightarrow> M j | Some (a, s) \<Rightarrow> committed_entry th a s (N j))"
    using s(4) e by (auto simp: fun_eq_iff split: option.split)
  then show ?case using IH step by (simp add: map_batch_append)
qed simp

lemma map_batch_owners:
  assumes "btree_wf threads"
    and "\<And>k s. map_of threads k = Some s \<Longrightarrow> M k \<noteq> None \<and> (\<exists>s'. th s = Some s' \<and> sle_key s' = k \<and> sle_ok s')"
  shows "\<exists>ops. thread_all th (map snd threads) = Some ops \<and>
    map_batch M ops = Some (\<lambda>k. case map_of threads k of None \<Rightarrow> M k | Some s \<Rightarrow> th s)"
  using assms
proof (induction threads arbitrary: M)
  case (Cons e threads)
  obtain k s where e: "e = (k, s)" by fastforce
  obtain s' where s': "th s = Some s'" "sle_key s' = k" "sle_ok s'" "M k \<noteq> None"
    using Cons.prems(2) [of k s] e by auto
  have wf: "btree_wf threads" and new: "map_of threads k = None"
    using Cons.prems(1) e by (auto simp: btree_wf_def map_of_eq_None_iff)
  let ?M = "M(k \<mapsto> s')"
  have "?M j \<noteq> None \<and> (\<exists>s'. th r = Some s' \<and> sle_key s' = j \<and> sle_ok s')" if "map_of threads j = Some r" for j r
    using Cons.prems(2) [of j r] that new e by (cases "j = k") simp_all
  from Cons.IH [OF wf this] obtain ops where ops: "thread_all th (map snd threads) = Some ops"
    "map_batch ?M ops = Some (\<lambda>k. case map_of threads k of None \<Rightarrow> ?M k | Some s \<Rightarrow> th s)" by blast
  have "(\<lambda>j. case map_of threads j of None \<Rightarrow> ?M j | Some s \<Rightarrow> th s)
    = (\<lambda>j. case map_of (e # threads) j of None \<Rightarrow> M j | Some s \<Rightarrow> th s)"
    using new s'(1) e by (auto simp: fun_eq_iff split: option.split)
  then show ?case using ops s' e by simp
qed simp

context read_raw_view
begin

lemma tx_thread_abs:
  fixes ak tx seq amended
  defines "th \<equiv> thread_sle tx seq amended"
  assumes "vok to" "apply_ok (vmap to) d t" "d \<le> vdrops to"
    and acct: "\<And>owner. fits \<lparr>k_key = ak owner, k_type = LtAccountRoot\<rparr> (vmap to)"
    and typed: "\<And>k a s. map_of (at_items t) k = Some (a, s) \<Longrightarrow> fits \<lparr>k_key = k, k_type = sle_type s\<rparr> (vmap to)"
    and fresh: "\<And>k a s. map_of (at_items t) k = Some (a, s) \<or> vmap to k = Some s \<Longrightarrow> th s \<noteq> None"
    and "key_ok tx" "seq < 2 ^ 32"
  shows "becomes vok vmap vdrops (apply_with_tx_thread ak R W t to tx seq amended) (committed ak th t (vmap to)) (vdrops to - at_drops t)"
proof -
  let ?M = "vmap to" and ?its = "at_items t"
  let ?E = "erased_owner_keys ak ?its"
  let ?M1 = "\<lambda>k. case map_of ?its k of None \<Rightarrow> ?M k | Some (a, s) \<Rightarrow> committed_entry th a s (?M k)"
  have ok: "entries_ok ?its" "state_ok ?M" using assms(3) abs_ok [OF assms(2)] by (simp_all add: apply_ok_def)
  have th: "\<exists>s'. th s = Some s' \<and> sle_key s' = k \<and> sle_ok s'"
    if "map_of ?its k = Some (a, s) \<or> ?M k = Some s" for k a s
  proof -
    have "sle_key s = k \<and> sle_ok s" using ok that by (auto simp: entries_ok_def state_ok_def)
    then show ?thesis
      using fresh [OF that] thread_sle_ok [of tx seq amended s] thread_sle_key [of tx seq amended s] assms(8,9)
      by (auto simp: th_def)
  qed
  have mem: "map_of ?its k = Some (a, s)" if "(k, a, s) \<in> set ?its" for k a s
    using ok(1) that btree_wf_distinct [of ?its] by (simp add: entries_ok_def)
  obtain threads where items: "thread_items ak th R t to ?its [] [] = Inr (concat (map (thread_op th ?M) ?its), threads)"
    and threads: "threads_ok t ?M ?E threads"
    using thread_items_abs [of to d t ak ?its th "{}" "[]" "[]"] assms(2,3) acct typed [OF mem] fresh [OF disjI1 [OF mem]] mem
    by (auto simp: threads_ok_def)
  have "map_batch ?M (concat (map (thread_op th ?M) ?its)) = Some ?M1"
    by (rule map_batch_thread [OF ok(1)]) (use assms(3) th in \<open>auto simp: apply_ok_def\<close>)
  then obtain v1 where v1: "w_batch W to (concat (map (thread_op th ?M) ?its)) = Inr v1" "vok v1" "vmap v1 = ?M1"
    "vdrops v1 = vdrops to"
    using batch_abs [OF assms(2)] by (auto simp: becomes_def)
  have owner: "?M1 k \<noteq> None \<and> (\<exists>s'. th s = Some s' \<and> sle_key s' = k \<and> sle_ok s')" if "map_of threads k = Some s" for k s
  proof -
    have e: "owner_entry (map_of ?its k) (?M k) = Some s"
      using threads that by (auto simp: threads_ok_def split: if_splits)
    show ?thesis
    proof (cases "map_of ?its k")
      case None
      then show ?thesis using e th [of k] by simp
    next
      case (Some x)
      then obtain a r where x: "map_of ?its k = Some (a, r)" by (cases x) auto
      then have "a = Act_Cache \<or> a = Act_Modify \<and> sle_eq r (the (?M k))" "r = s"
        using e by (cases a; auto split: if_splits)+
      moreover have "?M k \<noteq> None" using calculation(1) apply_item(2) [OF assms(3) x] by auto
      ultimately show ?thesis using x th [of k a s] by auto
    qed
  qed
  obtain ops where ops: "thread_all th (map snd threads) = Some ops"
    "map_batch ?M1 ops = Some (\<lambda>k. case map_of threads k of None \<Rightarrow> ?M1 k | Some s \<Rightarrow> th s)"
    using map_batch_owners [of threads ?M1 th] threads owner by (auto simp: threads_ok_def)
  have "(\<lambda>k. case map_of threads k of None \<Rightarrow> ?M1 k | Some s \<Rightarrow> th s) = committed ak th t ?M"
    using threads by (simp add: committed_def threads_ok_def fun_eq_iff)
  then obtain v2 where "w_batch W v1 ops = Inr v2" "vok v2" "vmap v2 = committed ak th t ?M" "vdrops v2 = vdrops to"
    using batch_abs [OF v1(2), of ops] ops(2) v1(3,4) by (auto simp: becomes_def)
  then show ?thesis
    using items v1(1) ops(1) destroy_abs [of v2 "at_drops t"] assms(3,4)
    by (simp add: apply_with_tx_thread_def th_def apply_ok_def)
qed

end

end
