(* ===== verification/View_Sample.thy ===== *)
theory View_Sample
  imports Directory_Delete Apply_Thread
begin

text \<open>
  Sample data for the views: a binary format that keeps the contract of a codec, ledgers with given
  entries, and a directory with one page.
\<close>

section \<open>A codec\<close>

fun type_code :: "ledger_entry_type \<Rightarrow> nat" where
  "type_code LtAny = 0"
| "type_code LtNFTokenOffer = 0x37"
| "type_code LtCheck = 0x43"
| "type_code LtDID = 0x49"
| "type_code LtNegativeUnl = 0x4E"
| "type_code LtNFTokenPage = 0x50"
| "type_code LtSignerList = 0x53"
| "type_code LtTicket = 0x54"
| "type_code LtAccountRoot = 0x61"
| "type_code LtContract = 0x63"
| "type_code LtDirectoryNode = 0x64"
| "type_code LtAmendments = 0x66"
| "type_code LtGeneratorMap = 0x67"
| "type_code LtLedgerHashes = 0x68"
| "type_code LtBridge = 0x69"
| "type_code LtNickname = 0x6E"
| "type_code LtOffer = 0x6F"
| "type_code LtDepositPreauth = 0x70"
| "type_code LtXChainOwnedClaimId = 0x71"
| "type_code LtRippleState = 0x72"
| "type_code LtFeeSettings = 0x73"
| "type_code LtXChainOwnedCreateAccountClaimId = 0x74"
| "type_code LtEscrow = 0x75"
| "type_code LtPayChannel = 0x78"
| "type_code LtAMM = 0x79"
| "type_code LtMPTokenIssuance = 0x7E"
| "type_code LtMPToken = 0x7F"
| "type_code LtOracle = 0x80"
| "type_code LtCredential = 0x81"
| "type_code LtPermissionedDomain = 0x82"
| "type_code LtDelegate = 0x83"
| "type_code LtVault = 0x84"
| "type_code LtLoanBroker = 0x88"
| "type_code LtLoan = 0x89"
| "type_code LtSponsorship = 0x90"
| "type_code LtChild = 0x1CD2"

definition all_types :: "ledger_entry_type list" where
  "all_types = [LtAny, LtNFTokenOffer, LtCheck, LtDID, LtNegativeUnl, LtNFTokenPage, LtSignerList, LtTicket,
     LtAccountRoot, LtContract, LtDirectoryNode, LtAmendments, LtGeneratorMap, LtLedgerHashes, LtBridge,
     LtNickname, LtOffer, LtDepositPreauth, LtXChainOwnedClaimId, LtRippleState, LtFeeSettings,
     LtXChainOwnedCreateAccountClaimId, LtEscrow, LtPayChannel, LtAMM, LtMPTokenIssuance, LtMPToken, LtOracle,
     LtCredential, LtPermissionedDomain, LtDelegate, LtVault, LtLoanBroker, LtLoan, LtSponsorship, LtChild]"

definition type_of_code :: "nat \<Rightarrow> ledger_entry_type option" where
  "type_of_code n = find (\<lambda>t. type_code t = n) all_types"

lemma type_of_code: "type_of_code (type_code t) = Some t"
  by (cases t) (simp_all add: type_of_code_def all_types_def)

fun put_value :: "st_value \<Rightarrow> nat list" where
  "put_value (St_u32 n) = [0, n]"
| "put_value (St_u64 n) = [1, n]"
| "put_value (St_h256 n) = [2, n]"
| "put_value (St_amount a) = [3, am_value a, am_issuer a]"
| "put_value (St_account n) = [4, n]"
| "put_value (St_v256 ks) = 5 # length ks # ks"
| "put_value (St_other t n) = [6, t, n]"

fun get_value :: "nat list \<Rightarrow> (st_value \<times> nat list) option" where
  "get_value (tag # n # xs) =
     (if tag = 0 then Some (St_u32 n, xs)
      else if tag = 1 then Some (St_u64 n, xs)
      else if tag = 2 then Some (St_h256 n, xs)
      else if tag = 4 then Some (St_account n, xs)
      else if tag = 5 then Some (St_v256 (take n xs), drop n xs)
      else case xs of
        m # ys \<Rightarrow>
          if tag = 3 then Some (St_amount \<lparr>am_value = n, am_issuer = m\<rparr>, ys) else Some (St_other n m, ys)
      | [] \<Rightarrow> None)"
| "get_value xs = None"

fun put_fields :: "(nat \<times> st_value) list \<Rightarrow> nat list" where
  "put_fields [] = []"
| "put_fields ((f, v) # fs) = f # put_value v @ put_fields fs"

fun get_fields :: "nat \<Rightarrow> nat list \<Rightarrow> (nat \<times> st_value) list option" where
  "get_fields n [] = Some []"
| "get_fields 0 (f # xs) = None"
| "get_fields (Suc n) (f # xs) =
     (case get_value xs of
        None \<Rightarrow> None
      | Some (v, ys) \<Rightarrow> map_option (Cons (f, v)) (get_fields n ys))"

definition sample_codec :: sle_codec where
  "sample_codec =
     \<lparr>sle_enc = (\<lambda>s. type_code (sle_type s) # put_fields (sle_fields s)),
      sle_dec = (\<lambda>xs key. case xs of
         [] \<Rightarrow> None
       | c # ys \<Rightarrow>
           (case (type_of_code c, get_fields (length ys) ys) of
              (Some t, Some fs) \<Rightarrow> Some \<lparr>sle_type = t, sle_key = key, sle_fields = fs\<rparr>
            | _ \<Rightarrow> None))\<rparr>"

lemma get_put_value: "get_value (put_value v @ xs) = Some (v, xs)"
  by (cases v) (simp_all add: amount.equality)

lemma get_put_fields: "length fs \<le> n \<Longrightarrow> get_fields n (put_fields fs) = Some fs"
proof (induction fs arbitrary: n)
  case (Cons e fs)
  then obtain m where "n = Suc m" by (cases n) auto
  then show ?case using Cons by (cases e) (simp add: get_put_value)
qed simp

lemma length_put_fields: "length fs \<le> length (put_fields fs)"
  by (induction fs rule: put_fields.induct) simp_all

lemma sample_codec_ok: "codec_ok sample_codec"
  by (simp add: codec_ok_def sample_codec_def type_of_code get_put_fields [OF length_put_fields])

section \<open>Ledgers\<close>

definition sample_header :: header where
  "sample_header = \<lparr>h_seq = 7, h_drops = 1000, h_hash = 1, h_parent_hash = 2, h_tx_hash = 0, h_account_hash = 0,
     h_parent_close_time = 10, h_close_time = 20, h_validated = True, h_accepted = True, h_close_time_resolution = 10,
     h_close_flags = 0\<rparr>"

definition empty_ledger :: ledger where
  "empty_ledger = \<lparr>l_header = sample_header, l_state = new_inner\<rparr>"

lemma empty_ledger_ok:
  "ledger_ok sample_codec empty_ledger" "ledger_map sample_codec empty_ledger = Map.empty" "ledger_drops empty_ledger = 1000"
  using new_inner_root [of AccountState] sample_codec_ok
  by (simp_all add: ledger_ok_def ledger_map_def ledger_drops_def empty_ledger_def sample_header_def new_inner_contents fun_eq_iff)

text \<open>A ledger with the entries that a batch of insertions puts into an empty one.\<close>

lemma sample_ledger:
  assumes "map_batch Map.empty ops = Some M"
  obtains l where "ledger_ok sample_codec l" "ledger_map sample_codec l = M" "ledger_drops l = 1000"
  using led_raw.batch_abs [OF empty_ledger_ok(1), of ops M] assms empty_ledger_ok(2,3) by (auto simp: becomes_def)

section \<open>Entries\<close>

definition sample_account :: "nat \<Rightarrow> sle" where
  "sample_account key = \<lparr>sle_type = LtAccountRoot, sle_key = key, sle_fields = [(sfOwnerCount, St_u32 1)]\<rparr>"

definition sample_line :: sle where
  "sample_line = \<lparr>sle_type = LtRippleState, sle_key = 50,
     sle_fields = [(sfLowLimit, St_amount \<lparr>am_value = 0, am_issuer = 1\<rparr>), (sfHighLimit, St_amount \<lparr>am_value = 0, am_issuer = 2\<rparr>)]\<rparr>"

definition sample_page :: "(nat \<times> st_value) list \<Rightarrow> sle" where
  "sample_page links = \<lparr>sle_type = LtDirectoryNode, sle_key = 1000,
     sle_fields = (sfFlags, St_u32 0) # links @ [(sfRootIndex, St_h256 1000), (sfIndexes, St_v256 [5, 6])]\<rparr>"

lemma sample_entries_ok:
  "key_ok key \<Longrightarrow> key \<noteq> 0 \<Longrightarrow> sle_ok (sample_account key)" "sle_ok sample_line"
  "sle_ok (sample_page [])" "sle_ok (sample_page [(sfIndexNext, St_u64 0)])"
  by (simp_all add: sle_ok_def sample_account_def sample_line_def sample_page_def has_format_def btree_wf_def sf_defs key_ok_def)

definition sample_hash :: "nat \<Rightarrow> nat \<Rightarrow> nat" where
  "sample_hash dir page = dir + page"

lemma sample_pages_ok: "pages_ok sample_hash (\<lambda>k. LtDirectoryNode) 1000"
proof -
  have "page_key sample_hash 1000 p = 1000 + p" for p by (simp add: page_key_def sample_hash_def)
  then show ?thesis by (simp add: pages_ok_def inj_on_def key_ok_def)
qed

end
