(* ===== verification/View_Properties.thy ===== *)
theory View_Properties
  imports View_Sample
begin

text \<open>
  The promises of the views: reading through a stack of views, committing one view to the next, the
  all-or-nothing commit of a child view, and the threading of a transaction's entries.
\<close>

section \<open>Reading and committing\<close>

text \<open>
  C36. Listing the entries of an open view over a ledger ends and returns each entry of its state,
  those of the ledger under the changes of the view, exactly once and in the order of the keys.
\<close>

theorem open_view_lists_state:
  assumes "open_ok (ledger_ok C) (ledger_map C) ledger_drops v"
  shows "sles (open_reads (ledger_reads C)) v =
    Some (Inr (map (\<lambda>k. the (open_map (ledger_map C) v k)) (sorted_list_of_set (dom (open_map (ledger_map C) v)))))"
  by (rule ov.sles_abs [OF assms])

text \<open>A view over a ledger with three entries: one erased, one inserted.\<close>

definition sample_open :: "ledger \<Rightarrow> ledger open_view" where
  "sample_open l = (new_open (ledger_reads sample_codec) l)
     \<lparr>ov_items := \<lparr>rt_items = [(50, Raw_Erase, sample_line), (104, Raw_Insert, sample_account 104)], rt_drops = 10\<rparr>\<rparr>"

definition sample_state :: state where
  "sample_state = [50 \<mapsto> sample_line, 103 \<mapsto> sample_account 103, 105 \<mapsto> sample_account 105]"

lemma sample_state_ledger:
  obtains l where "ledger_ok sample_codec l" "ledger_map sample_codec l = sample_state" "ledger_drops l = 1000"
proof (rule sample_ledger [of "[(Batch_Insert, sample_line), (Batch_Insert, sample_account 103), (Batch_Insert, sample_account 105)]"])
  show "map_batch Map.empty [(Batch_Insert, sample_line), (Batch_Insert, sample_account 103), (Batch_Insert, sample_account 105)]
      = Some sample_state"
    using sample_entries_ok by (simp add: sample_state_def sample_line_def sample_account_def key_ok_def fun_upd_twist)
qed (rule that)

lemma sample_open_ok:
  assumes "ledger_ok sample_codec l" "ledger_map sample_codec l = sample_state" "ledger_drops l = 1000"
  shows "open_ok (ledger_ok sample_codec) (ledger_map sample_codec) ledger_drops (sample_open l)"
    and "open_map (ledger_map sample_codec) (sample_open l) =
      [103 \<mapsto> sample_account 103, 104 \<mapsto> sample_account 104, 105 \<mapsto> sample_account 105]"
proof -
  have "sle_key sample_line = 50" "sle_key (sample_account 104) = 104" by (simp_all add: sample_line_def sample_account_def)
  then show "open_ok (ledger_ok sample_codec) (ledger_map sample_codec) ledger_drops (sample_open l)"
    using assms sample_entries_ok
    by (auto simp: open_ok_def sample_open_def new_open_def Let_def raw_ok_def entries_ok_def btree_wf_def key_ok_def sample_state_def
        split: if_splits)
  show "open_map (ledger_map sample_codec) (sample_open l) =
      [103 \<mapsto> sample_account 103, 104 \<mapsto> sample_account 104, 105 \<mapsto> sample_account 105]"
    using assms(2) by (auto simp: open_map_def sample_open_def new_open_def Let_def overlay_def sample_state_def fun_eq_iff)
qed

theorem open_view_lists_state_witness:
  "\<exists>l. ledger_map sample_codec l = sample_state
    \<and> sles (open_reads (ledger_reads sample_codec)) (sample_open l)
      = Some (Inr [sample_account 103, sample_account 104, sample_account 105])"
proof -
  obtain l where l: "ledger_ok sample_codec l" "ledger_map sample_codec l = sample_state" "ledger_drops l = 1000"
    by (rule sample_state_ledger)
  have "sorted_list_of_set {103, 104, 105 :: nat} = [103, 104, 105]" by simp
  then show ?thesis
    using open_view_lists_state [OF sample_open_ok(1) [OF l]] l(2) sample_open_ok(2) [OF l] by (auto simp: insert_commute)
qed

text \<open>
  C13. Committing an open view to the ledger it is based on succeeds and leaves a well-formed ledger
  whose state is the one that was read through the view: reading a keylet there gives what the
  view gave, and the fees are gone from the ledger's drops.
\<close>

theorem open_view_commit:
  assumes "open_ok (ledger_ok C) (ledger_map C) ledger_drops v"
  shows "\<exists>l. apply_state_only (ledger_raw C) v (ov_base v) = Inr l \<and> ledger_ok C l
    \<and> ledger_map C l = open_map (ledger_map C) v \<and> ledger_drops l = open_drops ledger_drops v
    \<and> (\<forall>k. fits k (ledger_map C l) \<longrightarrow> ledger_read C l k = raw_read (ledger_reads C) (ov_base v) (ov_items v) k)"
proof -
  have ok: "ledger_ok C (ov_base v)" "raw_ok (ledger_map C (ov_base v)) (ledger_drops (ov_base v)) (ov_items v)"
    using assms by (simp_all add: open_ok_def)
  obtain l where l: "apply_state_only (ledger_raw C) v (ov_base v) = Inr l" "ledger_ok C l"
    "ledger_map C l = open_map (ledger_map C) v" "ledger_drops l = open_drops ledger_drops v"
    using led_raw.raw_apply_abs [OF ok order_refl]
    by (auto simp: becomes_def apply_state_only_def open_map_def open_drops_def)
  have "ledger_read C l k = raw_read (ledger_reads C) (ov_base v) (ov_items v) k" if "fits k (ledger_map C l)" for k
    using ledger_read_abs [OF l(2) that] led.raw_read_abs [OF ok, of k] that l(3) by (simp add: open_map_def)
  then show ?thesis using l by blast
qed

theorem open_view_commit_witness:
  "\<exists>l l'. ledger_map sample_codec l = sample_state \<and> ledger_drops l = 1000
    \<and> apply_state_only (ledger_raw sample_codec) (sample_open l) l = Inr l' \<and> ledger_map sample_codec l' 50 = None
    \<and> ledger_map sample_codec l' 104 = Some (sample_account 104) \<and> ledger_drops l' = 990"
proof -
  obtain l where l: "ledger_ok sample_codec l" "ledger_map sample_codec l = sample_state" "ledger_drops l = 1000"
    by (rule sample_state_ledger)
  have base: "ov_base (sample_open l) = l" "rt_drops (ov_items (sample_open l)) = 10"
    by (simp_all add: sample_open_def new_open_def Let_def)
  then show ?thesis
    using open_view_commit [OF sample_open_ok(1) [OF l]] l sample_open_ok(2) [OF l] by (auto simp: open_drops_def)
qed

text \<open>
  C19. Committing a sandbox over an open view, a transaction's view over the ledger under
  construction, to that view succeeds and gives the open view the state of the sandbox.
\<close>

theorem sandbox_commit:
  assumes "sandbox_ok ty (open_ok (ledger_ok C) (ledger_map C) ledger_drops) (open_map (ledger_map C)) (open_drops ledger_drops) v"
  shows "\<exists>w. sandbox_apply open_raw v (sb_base v) = Inr w \<and> open_ok (ledger_ok C) (ledger_map C) ledger_drops w
    \<and> open_map (ledger_map C) w = sandbox_map (open_map (ledger_map C)) v
    \<and> open_drops ledger_drops w = sandbox_drops (open_drops ledger_drops) v"
proof -
  have ok: "open_ok (ledger_ok C) (ledger_map C) ledger_drops (sb_base v)"
    "apply_ok (open_map (ledger_map C) (sb_base v)) (open_drops ledger_drops (sb_base v)) (sb_table v)"
    using assms by (simp_all add: sandbox_ok_def)
  then show ?thesis
    using ov_raw.apply_apply_abs [OF ok order_refl]
    by (auto simp: becomes_def sandbox_apply_def sandbox_map_def sandbox_drops_def)
qed

definition sample_table :: apply_table where
  "sample_table = \<lparr>at_items = [(103, Act_Erase, sample_account 103), (104, Act_Modify, sample_account 104),
     (105, Act_Cache, sample_account 105), (106, Act_Insert, sample_account 106)], at_drops = 5\<rparr>"

theorem sandbox_commit_witness:
  "\<exists>l w. ledger_map sample_codec l = sample_state
    \<and> sandbox_apply open_raw \<lparr>sb_base = sample_open l, sb_table = sample_table\<rparr> (sample_open l) = Inr w
    \<and> open_map (ledger_map sample_codec) w = [104 \<mapsto> sample_account 104, 105 \<mapsto> sample_account 105, 106 \<mapsto> sample_account 106]
    \<and> open_drops ledger_drops w = 985"
proof -
  obtain l where l: "ledger_ok sample_codec l" "ledger_map sample_codec l = sample_state" "ledger_drops l = 1000"
    by (rule sample_state_ledger)
  let ?v = "\<lparr>sb_base = sample_open l, sb_table = sample_table\<rparr>"
  have drops: "open_drops ledger_drops (sample_open l) = 990"
    using l(3) by (simp add: open_drops_def sample_open_def new_open_def Let_def)
  have key: "sle_key (sample_account k) = k" "sle_type (sample_account k) = LtAccountRoot" for k by (simp_all add: sample_account_def)
  have map: "sandbox_map (open_map (ledger_map sample_codec)) ?v =
      [104 \<mapsto> sample_account 104, 105 \<mapsto> sample_account 105, 106 \<mapsto> sample_account 106]"
    using sample_open_ok(2) [OF l] by (auto simp: sandbox_map_def overlay_def sample_table_def fun_eq_iff)
  have "apply_ok (open_map (ledger_map sample_codec) (sample_open l)) 990 sample_table"
    unfolding sample_open_ok(2) [OF l] using sample_entries_ok key
    by (auto simp: apply_ok_def sample_table_def entries_ok_def btree_wf_def key_ok_def action_ok_def split: if_splits)
  then have "sandbox_ok (\<lambda>k. LtAccountRoot) (open_ok (ledger_ok sample_codec) (ledger_map sample_codec) ledger_drops)
      (open_map (ledger_map sample_codec)) (open_drops ledger_drops) ?v"
    using sample_open_ok(1) [OF l] map drops key by (auto simp: sandbox_ok_def typed_def split: if_splits)
  from sandbox_commit [OF this] show ?thesis
    using l(2) map drops by (auto simp: sandbox_drops_def sample_table_def)
qed

section \<open>Transactions\<close>

text \<open>
  C18. Committing a transaction's table to a closed ledger succeeds, given that none of the entries
  was threaded by this transaction in another ledger. Then the inserted entries and those that were
  changed carry the transaction; entries that were written without a change are as before; the owners
  of erased trust lines, unless inserted, changed or erased themselves, are threaded as well; every
  other entry of the ledger is untouched and the fees are taken from its drops.
\<close>

theorem tx_commit_threads:
  assumes "ledger_ok C l" "apply_ok (ledger_map C l) (ledger_drops l) t" "typed ty (ledger_map C l)"
    and "\<forall>owner. ty (ak owner) = LtAccountRoot"
    and "\<forall>k a s. map_of (at_items t) k = Some (a, s) \<longrightarrow> sle_type s = ty k"
    and "\<forall>k a s. map_of (at_items t) k = Some (a, s) \<or> ledger_map C l k = Some s \<longrightarrow> thread_sle tx seq amended s \<noteq> None"
    and "key_ok tx" "seq < 2 ^ 32"
  shows "\<exists>l'. apply_with_tx_thread ak (ledger_reads C) (ledger_raw C) t l tx seq amended = Inr l' \<and> ledger_ok C l'
    \<and> ledger_map C l' = committed ak (thread_sle tx seq amended) t (ledger_map C l)
    \<and> ledger_drops l' = ledger_drops l - at_drops t"
proof -
  note fits = typed_fits [OF assms(3) ledger_state_ok [OF assms(1)]]
  have "becomes (ledger_ok C) (ledger_map C) ledger_drops (apply_with_tx_thread ak (ledger_reads C) (ledger_raw C) t l tx seq amended)
      (committed ak (thread_sle tx seq amended) t (ledger_map C l)) (ledger_drops l - at_drops t)"
  proof (rule ledrw.tx_thread_abs [OF assms(1,2) order_refl _ _ _ assms(7,8)])
    show "fits \<lparr>k_key = ak owner, k_type = LtAccountRoot\<rparr> (ledger_map C l)" for owner
      using fits [of "ak owner"] assms(4) by simp
    show "fits \<lparr>k_key = k, k_type = sle_type s\<rparr> (ledger_map C l)" if "map_of (at_items t) k = Some (a, s)" for k a s
      using fits [of k] assms(5) that by simp
    show "thread_sle tx seq amended s \<noteq> None" if "map_of (at_items t) k = Some (a, s) \<or> ledger_map C l k = Some s" for k a s
      using assms(6) that by blast
  qed
  then show ?thesis by (auto simp: becomes_def)
qed

definition sample_erase :: apply_table where
  "sample_erase = \<lparr>at_items = [(50, Act_Erase, sample_line), (107, Act_Insert, sample_account 107)], at_drops = 12\<rparr>"

theorem tx_commit_threads_witness:
  "\<exists>l l'. ledger_map sample_codec l = sample_state
    \<and> apply_with_tx_thread (\<lambda>owner. 2 * owner + 101) (ledger_reads sample_codec) (ledger_raw sample_codec) sample_erase l 77 8 True = Inr l'
    \<and> ledger_map sample_codec l' 50 = None
    \<and> ledger_map sample_codec l' 103 = thread_sle 77 8 True (sample_account 103)
    \<and> ledger_map sample_codec l' 107 = thread_sle 77 8 True (sample_account 107) \<and> ledger_drops l' = 988"
proof -
  obtain l where l: "ledger_ok sample_codec l" "ledger_map sample_codec l = sample_state" "ledger_drops l = 1000"
    by (rule sample_state_ledger)
  let ?ty = "\<lambda>k. if k = 50 then LtRippleState else LtAccountRoot"
  have key: "sle_key (sample_account k) = k" "sle_type (sample_account k) = LtAccountRoot"
    "sle_key sample_line = 50" "sle_type sample_line = LtRippleState" for k by (simp_all add: sample_account_def sample_line_def)
  have owners: "erased_owner_keys (\<lambda>owner. 2 * owner + 101) (at_items sample_erase) = {103, 105}"
    by (auto simp: erased_owner_keys_def sample_erase_def erased_owners_def sample_line_def get_field_issuer_def field_of_def sf_defs)
  have fresh: "thread_sle 77 8 True sample_line \<noteq> None" "thread_sle 77 8 True (sample_account k) \<noteq> None" for k
    by (auto simp: thread_sle_def thread_def sample_line_def sample_account_def get_field_h256_def field_of_def set_field_def
        template_has_def sf_defs has_format_def is_field_present_def Let_def)
  have ok: "apply_ok sample_state 1000 sample_erase"
    using sample_entries_ok key
    by (auto simp: apply_ok_def sample_erase_def entries_ok_def btree_wf_def key_ok_def action_ok_def sample_state_def split: if_splits)
  have "2 * owner + 101 \<noteq> (50 :: nat)" for owner by presburger
  then have "\<exists>l'. apply_with_tx_thread (\<lambda>owner. 2 * owner + 101) (ledger_reads sample_codec) (ledger_raw sample_codec) sample_erase l 77 8 True = Inr l'
    \<and> ledger_ok sample_codec l'
    \<and> ledger_map sample_codec l' = committed (\<lambda>owner. 2 * owner + 101) (thread_sle 77 8 True) sample_erase (ledger_map sample_codec l)
    \<and> ledger_drops l' = ledger_drops l - at_drops sample_erase"
    using l ok key fresh
    by (intro tx_commit_threads [where ty = ?ty]) (auto simp: typed_def sample_state_def sample_erase_def key_ok_def split: if_splits)
  then show ?thesis
    using l owners by (auto simp: committed_def sample_erase_def sample_state_def)
qed

section \<open>Child views\<close>

text \<open>A child of a sandbox over a ledger.\<close>

abbreviation parent_ok :: "sle_codec \<Rightarrow> (nat \<Rightarrow> ledger_entry_type) \<Rightarrow> ledger sandbox \<Rightarrow> bool" where
  "parent_ok C ty \<equiv> sandbox_ok ty (ledger_ok C) (ledger_map C) ledger_drops"

abbreviation parent_map :: "sle_codec \<Rightarrow> ledger sandbox \<Rightarrow> state" where
  "parent_map C \<equiv> sandbox_map (ledger_map C)"

abbreviation parent_drops :: "ledger sandbox \<Rightarrow> int" where
  "parent_drops \<equiv> sandbox_drops ledger_drops"

abbreviation child_ok :: "sle_codec \<Rightarrow> (nat \<Rightarrow> ledger_entry_type) \<Rightarrow> ledger sandbox flow \<Rightarrow> bool" where
  "child_ok C ty \<equiv> flow_ok ty (parent_ok C ty) (parent_map C) parent_drops"

abbreviation child_map :: "sle_codec \<Rightarrow> ledger sandbox flow \<Rightarrow> state" where
  "child_map C \<equiv> flow_map (parent_map C)"

abbreviation child_ops :: "sle_codec \<Rightarrow> ledger sandbox flow apply_ops" where
  "child_ops C \<equiv> flow_ops (sandbox_apply_ops (ledger_reads C))"

text \<open>
  C11. Committing a child view to its parent is all or nothing, whatever happened to the parent in
  the meantime: when every captured write agrees with the parent (an insertion of a missing entry, a
  change or an erasure of one that is there) the parent takes them all and the fees, except
  in a dry run; otherwise an error is reported and the state of the parent is what it was.
\<close>

theorem flow_apply_atomic:
  assumes "parent_ok C ty (fl_parent f)" "captured ty (fl_items f)"
    and "0 \<le> fl_drops f" "fl_drops f \<le> parent_drops (fl_parent f)"
  shows "\<exists>e p. flow_apply (sandbox_reads (ledger_reads C)) (sandbox_apply_ops (ledger_reads C)) f = (e, p) \<and> parent_ok C ty p
    \<and> (e = None \<longleftrightarrow> agrees (parent_map C (fl_parent f)) (fl_items f))
    \<and> parent_map C p = (if e = None then child_map C f else parent_map C (fl_parent f))
    \<and> parent_drops p = parent_drops (fl_parent f) - (if e = None \<and> \<not> fl_dry_run f then fl_drops f else 0)"
  using sb.flow_apply_abs [OF assms]
  by (cases "agrees (parent_map C (fl_parent f)) (fl_items f)") (auto simp: flow_left_def)

lemma sample_parent:
  assumes "ledger_ok sample_codec l" "ledger_map sample_codec l = sample_state" "ledger_drops l = 1000"
  shows "parent_ok sample_codec (\<lambda>k. if k = 50 then LtRippleState else LtAccountRoot) (sandbox_new l)"
    and "parent_map sample_codec (sandbox_new l) = sample_state" "parent_drops (sandbox_new l) = 1000"
proof -
  have key: "sle_type (sample_account k) = LtAccountRoot" "sle_type sample_line = LtRippleState" for k
    by (simp_all add: sample_account_def sample_line_def)
  show map: "parent_map sample_codec (sandbox_new l) = sample_state" "parent_drops (sandbox_new l) = 1000"
    using assms apply_new_ok(2) by (simp_all add: sandbox_map_def sandbox_new_def sandbox_drops_def apply_new_def)
  then show "parent_ok sample_codec (\<lambda>k. if k = 50 then LtRippleState else LtAccountRoot) (sandbox_new l)"
    using assms apply_new_ok(1) key by (auto simp: sandbox_ok_def sandbox_new_def typed_def sample_state_def split: if_splits)
qed

theorem flow_apply_atomic_witness:
  "\<exists>l e p. ledger_map sample_codec l = sample_state
    \<and> flow_apply (sandbox_reads (ledger_reads sample_codec)) (sandbox_apply_ops (ledger_reads sample_codec))
        \<lparr>fl_parent = sandbox_new l,
         fl_items = [(102, Flow_Insert, sample_account 102), (104, Flow_Modify, sample_account 104)],
         fl_drops = 10, fl_dry_run = False\<rparr> = (Some e, p)
    \<and> parent_map sample_codec p = sample_state \<and> parent_drops p = 1000"
proof -
  obtain l where l: "ledger_ok sample_codec l" "ledger_map sample_codec l = sample_state" "ledger_drops l = 1000"
    by (rule sample_state_ledger)
  let ?ty = "\<lambda>k. if k = 50 then LtRippleState else LtAccountRoot"
  let ?f = "\<lparr>fl_parent = sandbox_new l,
    fl_items = [(102, Flow_Insert, sample_account 102), (104, Flow_Modify, sample_account 104)],
    fl_drops = 10, fl_dry_run = False\<rparr>"
  have key: "sle_key (sample_account k) = k" "sle_type (sample_account k) = LtAccountRoot" for k
    by (simp_all add: sample_account_def)
  note map = sample_parent(2,3) [OF l]
  have "parent_ok sample_codec ?ty (fl_parent ?f)" using sample_parent(1) [OF l] by simp
  moreover have "captured ?ty (fl_items ?f)"
    using sample_entries_ok(1) key by (simp add: captured_def btree_wf_def entry_ok_def key_ok_def)
  moreover have "\<not> agrees (parent_map sample_codec (fl_parent ?f)) (fl_items ?f)"
    using map by (simp add: agrees_def sample_state_def)
  ultimately show ?thesis
    using flow_apply_atomic [where C = sample_codec and ty = ?ty and f = ?f] map l(2) by auto
qed



text \<open>
  C38. What a sandbox reads for a keylet depends on earlier checkouts: a ledger entry that a keylet
  of another type does not find is found with that keylet once the entry was checked out.
\<close>

theorem sandbox_read_ignores_type:
  assumes "ledger_ok C l" "ledger_map C l k = Some s" "t \<notin> {sle_type s, LtAny, LtChild}"
  shows "r_read (sandbox_reads (ledger_reads C)) (sandbox_new l) \<lparr>k_key = k, k_type = t\<rparr> = Inr None
    \<and> (\<exists>v. sandbox_peek (ledger_reads C) (sandbox_new l) \<lparr>k_key = k, k_type = sle_type s\<rparr> = Inr (Some s, v)
        \<and> r_read (sandbox_reads (ledger_reads C)) v \<lparr>k_key = k, k_type = t\<rparr> = Inr (Some s))"
proof -
  have s: "sle_key s = k" "sle_ok s" using ledger_map_Some [OF assms(1,2)] by simp_all
  have k: "k \<noteq> 0" using s by (auto simp: sle_ok_def)
  have dec: "sle_dec C (sle_enc C s) k = Some s" using assms(1) s by (auto simp: ledger_ok_def codec_ok_def)
  have peek: "peek_item k (l_state l) = Some (Some (ledger_item C k s))"
    using peek_item_contents [OF ledger_root [OF assms(1)]] ledger_contents [OF assms(1)] assms(2) by simp
  have "\<not> check_ledger_entry \<lparr>k_key = k, k_type = t\<rparr> (sle_type s) (sle_key s)"
    using assms(3) by (subst check_exact) auto
  then have none: "ledger_read C l \<lparr>k_key = k, k_type = t\<rparr> = Inr None"
    using k peek dec by (simp add: ledger_read_def parse_state_sle_def ledger_item_def)
  have "sle_type s \<noteq> LtAny" "sle_type s \<noteq> LtChild" using s(2) by (auto simp: sle_ok_def has_format_def)
  then have "check_ledger_entry \<lparr>k_key = k, k_type = sle_type s\<rparr> (sle_type s) (sle_key s)" using s(1) by (simp add: check_exact)
  then have some: "ledger_read C l \<lparr>k_key = k, k_type = sle_type s\<rparr> = Inr (Some s)"
    using k peek dec by (simp add: ledger_read_def parse_state_sle_def ledger_item_def)
  show ?thesis
    using none some
    by (simp add: sandbox_reads_def apply_read_def sandbox_new_def apply_new_def ledger_reads_def sandbox_peek_def apply_peek_def
        apply_put_def)
qed

theorem sandbox_read_ignores_type_witness:
  "\<exists>l v. r_read (sandbox_reads (ledger_reads sample_codec)) (sandbox_new l) \<lparr>k_key = 50, k_type = LtOffer\<rparr> = Inr None
    \<and> sandbox_peek (ledger_reads sample_codec) (sandbox_new l) \<lparr>k_key = 50, k_type = LtRippleState\<rparr> = Inr (Some sample_line, v)
    \<and> r_read (sandbox_reads (ledger_reads sample_codec)) v \<lparr>k_key = 50, k_type = LtOffer\<rparr> = Inr (Some sample_line)"
proof -
  obtain l where l: "ledger_ok sample_codec l" "ledger_map sample_codec l = sample_state" "ledger_drops l = 1000"
    by (rule sample_state_ledger)
  have "ledger_map sample_codec l 50 = Some sample_line" using l(2) by (simp add: sample_state_def)
  moreover have "LtOffer \<notin> {sle_type sample_line, LtAny, LtChild}" "sle_type sample_line = LtRippleState"
    by (simp_all add: sample_line_def)
  ultimately show ?thesis using sandbox_read_ignores_type [OF l(1), of 50 sample_line LtOffer] by auto
qed

end
