(* ===== verification/Directory_Properties.thy ===== *)
theory Directory_Properties
  imports View_Properties
begin

text \<open>
  The promises of the directories, on a child view over a sandbox over a ledger: the view that a
  transaction writes its directories through.
\<close>

section \<open>The keys of a directory\<close>

definition dir_contents :: "dir_pages \<Rightarrow> nat multiset" where
  "dir_contents D = (\<Sum>p \<in> dom D. mset (the (D p)))"

lemma dir_contents_empty [simp]: "dir_contents Map.empty = {#}"
  by (simp add: dir_contents_def)

lemma dir_contents_upd:
  assumes "finite (dom D)"
  shows "dir_contents (D(p \<mapsto> ks)) = mset ks + dir_contents (D(p := None))"
    and "D p = Some qs \<Longrightarrow> dir_contents D = mset qs + dir_contents (D(p := None))"
proof -
  have "dir_contents (D(p \<mapsto> ks)) = mset ks + dir_contents (D(p := None))" if "finite (dom D)" for D and ks
  proof -
    have "(\<Sum>q \<in> dom D - {p}. mset (the ((D(p \<mapsto> ks)) q))) = (\<Sum>q \<in> dom D - {p}. mset (the ((D(p := None)) q)))"
      by (rule sum.cong) simp_all
    then show ?thesis using that by (simp add: dir_contents_def sum.insert_remove)
  qed
  note * = this
  show "dir_contents (D(p \<mapsto> ks)) = mset ks + dir_contents (D(p := None))" by (rule * [OF assms])
  show "dir_contents D = mset qs + dir_contents (D(p := None))" if "D p = Some qs"
    using * [OF assms, of qs] that by (simp add: fun_upd_idem)
qed

lemma mset_put_key: "mset (put_key order ks key) = add_mset key (mset ks)"
  by (simp add: put_key_def)

lemma add_spec_contents:
  assumes "finite (dom D)" "add_spec fix_limit order key D = Some (page, D')"
  shows "dir_contents D' = (if page = None then dir_contents D else add_mset key (dir_contents D))"
proof (cases "D = Map.empty")
  case True
  then show ?thesis using assms(2) by (auto simp: add_spec_def dir_contents_def)
next
  case False
  let ?m = "Max (dom D)"
  have "?m \<in> dom D" using Max_in [OF assms(1)] False by (simp add: dom_eq_empty_conv)
  then obtain ks where ks: "D ?m = Some ks" by blast
  have "Suc ?m \<notin> dom D" using Max_ge [OF assms(1), of "Suc ?m"] by auto
  then have new: "D(Suc ?m := None) = D" by (auto simp: fun_eq_iff domIff)
  have spec: "add_spec fix_limit order key D =
     (if length ks < dir_node_max_entries then
        if key \<in> set ks then None else Some (Some ?m, D(?m \<mapsto> put_key order ks key))
      else if Suc ?m = 2 ^ 64 \<or> directory_page_limit_exceeded (Suc ?m) fix_limit then Some (None, D)
      else Some (Some (Suc ?m), D(Suc ?m \<mapsto> [key])))"
    using False ks by (simp add: add_spec_def Let_def)
  have "dir_contents (D(?m \<mapsto> put_key order ks key)) = add_mset key (dir_contents D)"
    unfolding dir_contents_upd(1) [OF assms(1)] mset_put_key dir_contents_upd(2) [OF assms(1) ks] by simp
  moreover have "dir_contents (D(Suc ?m \<mapsto> [key])) = add_mset key (dir_contents D)"
    unfolding dir_contents_upd(1) [OF assms(1)] new by simp
  ultimately show ?thesis
    using assms(2) unfolding spec by (auto split: if_splits simp del: fun_upd_apply)
qed

lemma remove_spec_contents:
  assumes "finite (dom D)" "remove_spec keep p key D = (removed, D')"
  shows "dir_contents D = (if removed then add_mset key (dir_contents D') else dir_contents D')"
proof (cases "D p")
  case (Some ks)
  show ?thesis
  proof (cases "key \<in> set ks")
    case True
    let ?D1 = "if remove1 key ks \<noteq> [] \<or> p = 0 then D(p \<mapsto> remove1 key ks) else D(p := None)"
    have D1: "dir_contents ?D1 = mset (remove1 key ks) + dir_contents (D(p := None))"
      using dir_contents_upd(1) [OF assms(1), of p "remove1 key ks"]
      by (cases "remove1 key ks = []"; cases "p = 0") (simp_all del: fun_upd_apply mset_remove1)
    have "mset ks = add_mset key (mset (remove1 key ks))" using True by simp
    then have "dir_contents D = add_mset key (dir_contents ?D1)"
      unfolding dir_contents_upd(2) [OF assms(1) Some] D1 by (simp only: union_mset_add_mset_left)
    moreover have "dir_contents [0 \<mapsto> []] = {#}" by (simp add: dir_contents_def)
    moreover have "removed" "D' = (if \<not> keep \<and> ?D1 = [0 \<mapsto> []] then Map.empty else ?D1)"
      using assms(2) Some True by (auto simp: remove_spec_def Let_def)
    ultimately show ?thesis by (cases "\<not> keep \<and> ?D1 = [0 \<mapsto> []]") (simp_all del: fun_upd_apply)
  next
    case False
    then show ?thesis using assms(2) Some by (auto simp: remove_spec_def)
  qed
qed (use assms(2) in \<open>auto simp: remove_spec_def\<close>)

lemma child_knows:
  "child_ok C ty v \<Longrightarrow>
     holds (child_ok C ty) (child_map C) (flow_left parent_drops) (\<lambda>f. UNIV) v (child_map C v) (flow_left parent_drops v) {}"
  by (simp add: holds_def)

lemma child_goes:
  "dir_goes (child_ok C ty) (child_map C) (flow_left parent_drops) (\<lambda>f. UNIV) h dir M d r x D \<longleftrightarrow>
     (\<exists>v. r = Inr (x, v) \<and> child_ok C ty v \<and> dir_rep h dir D (child_map C v) \<and> flow_left parent_drops v = d
        \<and> frame h dir M (child_map C v))"
  by (auto simp: dir_goes_def holds_def)

section \<open>Adding and removing\<close>

text \<open>
  C17. Adding a key to a directory puts it on the last page, in order or at the end as asked, or on a
  new page linked into the ring when the last page has 32 keys; it returns that page. The key is
  refused when the last page has it, and no page is returned, and nothing changes, when the number
  of pages is exhausted. Otherwise the directory has the key once more and all other keys as before,
  its pages form a well-formed ring again, and no entry outside the directory changes.
\<close>

theorem dir_add_refines:
  assumes "child_ok C ty v" "pages_ok h ty dir" "dir_rep h dir D (child_map C v)" "describe_ok describe" "key_ok key"
  shows "case add_spec fix_limit order key D of
      None \<Rightarrow> dir_add (child_ops C) h fix_limit order dir key describe v = Inl (Conversion ''dirInsert: double insertion'')
    | Some (page, D') \<Rightarrow> \<exists>v'. dir_add (child_ops C) h fix_limit order dir key describe v = Inr (page, v') \<and> child_ok C ty v'
        \<and> dir_rep h dir D' (child_map C v') \<and> flow_left parent_drops v' = flow_left parent_drops v
        \<and> frame h dir (child_map C v) (child_map C v')
        \<and> dir_contents D' = (if page = None then dir_contents D else add_mset key (dir_contents D))"
  using fs.dir_add_abs [OF child_knows [OF assms(1)] assms(2-5), of fix_limit order]
    add_spec_contents [OF finite_pages [OF assms(3)], of fix_limit order key]
  by (auto simp: child_goes split: option.splits prod.splits)

text \<open>The sample child view: a directory with one page over a ledger.\<close>

definition sample_child :: "(nat \<times> st_value) list \<Rightarrow> ledger sandbox flow" where
  "sample_child links = \<lparr>fl_parent = sandbox_new empty_ledger,
     fl_items = [(1000, Flow_Insert, sample_page links)], fl_drops = 0, fl_dry_run = False\<rparr>"

lemma sample_child_ok:
  assumes "links \<in> {[], [(sfIndexNext, St_u64 0)]}"
  shows "child_ok sample_codec (\<lambda>k. LtDirectoryNode) (sample_child links)"
    and "child_map sample_codec (sample_child links) = [1000 \<mapsto> sample_page links]"
    and "dir_rep sample_hash 1000 [0 \<mapsto> [5, 6]] (child_map sample_codec (sample_child links))"
proof -
  have page: "sle_ok (sample_page links)" "sle_key (sample_page links) = 1000" "sle_type (sample_page links) = LtDirectoryNode"
    using assms sample_entries_ok(3,4) by (auto simp: sample_page_def)
  have base: "parent_map sample_codec (sandbox_new empty_ledger) = Map.empty" "parent_drops (sandbox_new empty_ledger) = 1000"
    using empty_ledger_ok by (simp_all add: sandbox_map_def sandbox_new_def sandbox_drops_def apply_new_def)
  have "parent_ok sample_codec (\<lambda>k. LtDirectoryNode) (sandbox_new empty_ledger)"
    using empty_ledger_ok base(1) apply_new_ok(1) by (simp add: sandbox_ok_def sandbox_new_def typed_def)
  then show "child_ok sample_codec (\<lambda>k. LtDirectoryNode) (sample_child links)"
    using base page by (simp add: flow_ok_def sample_child_def captured_def agrees_def btree_wf_def entry_ok_def)
  show map: "child_map sample_codec (sample_child links) = [1000 \<mapsto> sample_page links]"
    using base(1) by (auto simp: flow_map_def sample_child_def overlay_def fun_eq_iff)
  have pk: "page_key sample_hash 1000 p = 1000 + p" for p by (simp add: page_key_def sample_hash_def)
  have "page_shape sample_hash 1000 {0} 0 [5, 6] (sample_page links)"
    using assms page linked_single [of "{0}"]
    by (auto simp: page_shape_def pk sample_page_def get_field_h256_def get_field_v256_def get_field_u64_def field_of_def sf_defs)
  then show "dir_rep sample_hash 1000 [0 \<mapsto> [5, 6]] (child_map sample_codec (sample_child links))"
    unfolding map by (auto simp: dir_rep_def pk dir_node_max_entries_def split: if_splits)
qed

lemmas plain_child = sample_child_ok(1,3) [of "[]", simplified]
lemmas closed_child = sample_child_ok(1,3) [of "[(sfIndexNext, St_u64 0)]", simplified]

theorem dir_add_refines_witness:
  "\<exists>v. dir_add (child_ops sample_codec) sample_hash True False 1000 3 (describe_owner_dir 9) (sample_child []) = Inr (Some 0, v)
    \<and> dir_rep sample_hash 1000 [0 \<mapsto> [3, 5, 6]] (child_map sample_codec v)"
proof -
  have key: "key_ok 3" by (simp add: key_ok_def)
  have "add_spec True False 3 [0 \<mapsto> [5, 6]] = Some (Some 0, [0 \<mapsto> [3, 5, 6]])"
    by (simp add: add_spec_def put_key_def dir_node_max_entries_def)
  then show ?thesis
    using dir_add_refines [OF plain_child(1) sample_pages_ok plain_child(2) describe_owner_dir_ok [of 9] key, of True False]
    by auto
qed

text \<open>
  C12. Removing a key from a page answers whether it was there; if so the directory has it once less
  and all other keys as before. A page other than the root that becomes empty leaves the ring, and
  with the last key the root goes too, unless it is to be kept. The pages form a well-formed ring
  again and no entry outside the directory changes.
\<close>

theorem dir_remove_refines:
  assumes "child_ok C ty v" "pages_ok h ty dir" "dir_rep h dir D (child_map C v)" "page < 2 ^ 64"
  shows "case remove_spec keep_root page key D of
      (removed, D') \<Rightarrow> \<exists>v'. dir_remove (child_ops C) h dir page key keep_root v = Inr (removed, v') \<and> child_ok C ty v'
        \<and> dir_rep h dir D' (child_map C v') \<and> flow_left parent_drops v' = flow_left parent_drops v
        \<and> frame h dir (child_map C v) (child_map C v')
        \<and> dir_contents D = (if removed then add_mset key (dir_contents D') else dir_contents D')"
proof -
  obtain removed D' where spec: "remove_spec keep_root page key D = (removed, D')" by fastforce
  show ?thesis
    using fs.dir_remove_abs [OF child_knows [OF assms(1)] assms(2-4), of key keep_root]
      remove_spec_contents [OF finite_pages [OF assms(3)] spec]
    by (simp add: spec child_goes)
qed

theorem dir_remove_refines_witness:
  "\<exists>v w. dir_remove (child_ops sample_codec) sample_hash 1000 0 5 False (sample_child []) = Inr (True, v)
    \<and> dir_remove (child_ops sample_codec) sample_hash 1000 0 6 False v = Inr (True, w)
    \<and> dir_rep sample_hash 1000 Map.empty (child_map sample_codec w)"
proof -
  have 1: "remove_spec False 0 5 [0 \<mapsto> [5, 6]] = (True, [0 \<mapsto> [6]])" "remove_spec False 0 6 [0 \<mapsto> [6]] = (True, Map.empty)"
    by (simp_all add: remove_spec_def fun_eq_iff)
  obtain v where v: "dir_remove (child_ops sample_codec) sample_hash 1000 0 5 False (sample_child []) = Inr (True, v)"
    "child_ok sample_codec (\<lambda>k. LtDirectoryNode) v" "dir_rep sample_hash 1000 [0 \<mapsto> [6]] (child_map sample_codec v)"
    using dir_remove_refines [OF plain_child(1) sample_pages_ok plain_child(2), where page = 0 and keep_root = False and key = 5] 1(1) by auto
  then show ?thesis
    using dir_remove_refines [OF v(2) sample_pages_ok v(3), where page = 0 and keep_root = False and key = 6] 1(2) by auto
qed

section \<open>Deleting\<close>



end
