(* ===== verification/Spec2Isabelle.thy ===== *)
theory Spec2Isabelle
  imports Consensus_Properties SHAMap_Properties Validations_Properties Directory_Properties
begin

text \<open>
  A verification library of the consensus core and the ledger views of an XRP Ledger server (a Rust workspace). Paths
  below are relative to \<^verbatim>\<open>src/\<close>.

  \<^bold>\<open>The program.\<close> Servers agree in rounds on the set of transactions that makes the next ledger. The
  generic round (\<^verbatim>\<open>xrpld/consensus/src/algorithm/consensus.rs\<close>) is a state machine driven by a timer
  and by messages of peers; it calls an adaptor for everything outside of it. The application's
  adaptor (\<^verbatim>\<open>xrpld/app/src/consensus/rcl_consensus.rs\<close>) takes the transactions of the open ledger and
  answers from the node's other services. The transaction sets (\<^verbatim>\<open>xrpld/consensus/src/rcl.rs\<close>) are
  SHAMaps (\<^verbatim>\<open>xrpl/shamap\<close>), 16-way hash trees whose root hash names the set.
  The state of a ledger is such a tree too, of serialized entries. Transactions work on it through
  stacked views (\<^verbatim>\<open>xrpld/ledger/src/views\<close>): an open view buffers raw changes over a ledger, a sandbox the
  changes of one transaction over an open view, a flow sandbox a part of them over a sandbox, and each
  is committed to the view below. Owner and offer directories are rings of pages stored as entries.

  \<^bold>\<open>Theories and the code they model.\<close>
  \<^item> \<open>Prelude\<close>: durations, casts, the containers \<^verbatim>\<open>BTreeMap\<close> and \<^verbatim>\<open>HashMap\<close> and the locale
    \<open>finite_map\<close> of their common laws, interpreted on both.
  \<^item> \<open>Ledger_Timing\<close>: \<^verbatim>\<open>algorithm/timing.rs\<close> and the arithmetic of \<^verbatim>\<open>basics/src/time/chrono.rs\<close>;
    rounding and effectiveness of close times, the next close-time resolution.
  \<^item> \<open>Consensus_Params\<close>: \<^verbatim>\<open>algorithm/params.rs\<close>, \<^verbatim>\<open>functions.rs\<close>, \<^verbatim>\<open>types.rs\<close>; when to close, when
    there is agreement, avalanche thresholds.
  \<^item> \<open>Proposal\<close>, \<open>Disputed_Tx\<close>: \<^verbatim>\<open>model/proposal.rs\<close>, \<^verbatim>\<open>model/disputed_tx.rs\<close>. \<open>Float32\<close>: the
    single-precision arithmetic of \<^verbatim>\<open>should_pause\<close>.
  \<^item> \<open>Consensus_Round\<close>: \<^verbatim>\<open>algorithm/consensus.rs\<close>, one definition per method; the state is a record
    with the fields of \<^verbatim>\<open>Consensus\<close>, the traits of the adaptor are records of functions and the
    calls it only receives are recorded in order as effects.
  \<^item> \<open>Consensus_Invariant\<close>, \<open>Consensus_Safety\<close>, \<open>Consensus_Rounds\<close>, \<open>Consensus_Observer\<close>: the
    invariant of the round, its preservation by every method and by runs, and the frame of
    announcements. The locales \<open>tx_set\<close>, \<open>consensus_env\<close> and \<open>settled_env\<close> are what the round relies
    on.
  \<^item> \<open>SHAMap\<close>, \<open>SHAMap_Map\<close>, \<open>SHAMap_Hash\<close>, \<open>SHAMap_Compare\<close>, \<open>SHAMap_Properties\<close>: nodes, search,
    mutation, hashing and comparison of SHAMaps, and their contract as maps. \<open>SHAMap_Iterate\<close>: the
    ordered walks of \<^verbatim>\<open>traverse/iteration.rs\<close>. \<open>SHAMap_Ops\<close>: sequences of operations.
  \<^item> \<open>Rcl_Tx_Set\<close>: the transaction sets; \<open>tx_pool\<close> is proved to give \<open>tx_set\<close>. \<open>Rcl_Consensus\<close>: the
    adaptor; \<open>app_services\<close> is proved to give \<open>consensus_env\<close>. \<open>Rcl_Sample\<close>: a concrete network that
    satisfies the contracts.
  \<^item> \<open>Ledger_Trie\<close>: \<^verbatim>\<open>model/ledger_trie.rs\<close>, the compressed trie of ledger histories, an arena of nodes
    with indices. \<open>Ledger_Trie_Inv\<close> has the contract \<open>ledger_history\<close> of the ledgers in it and the
    invariant; \<open>Ledger_Trie_Insert\<close>, \<open>Ledger_Trie_Remove\<close> and \<open>Ledger_Trie_Preferred\<close> prove the
    operations and queries; \<open>Rcl_Validated_Ledger\<close> models the ledgers of the server
    (\<^verbatim>\<open>app/src/consensus/rcl_validation.rs\<close>) and interprets the contract on them;
    \<open>Ledger_Trie_Properties\<close> has the properties.
  \<^item> \<open>Validations\<close>: \<^verbatim>\<open>rcl_support/validations.rs\<close>, the tracker of validations; the record \<open>inner\<close> is the
    state behind its lock and each public operation a function on it. \<open>Validations_Inv\<close> has its
    invariant; \<open>Validations_Run\<close> sequences of calls and the locale \<open>enforced_run\<close> of increasing
    sequence numbers; \<open>Validations_Properties\<close> the properties.
  \<^item> \<open>Ledger_Entry\<close>: entries, keylets and fields (\<^verbatim>\<open>xrpl/protocol/src\<close>), threading of transactions.
    \<open>Ledger_View\<close>: the traits \<^verbatim>\<open>ReadView\<close> and \<^verbatim>\<open>RawView\<close> as records of functions with the locales
    \<open>read_view\<close> and \<open>raw_view\<close> of what a view promises about the partial map it stands for, and the
    ledger (\<^verbatim>\<open>xrpld/ledger/src/lib.rs\<close>, \<^verbatim>\<open>read_view.rs\<close>, \<^verbatim>\<open>raw_view.rs\<close>), which interprets both.
  \<^item> \<open>Raw_State_Table\<close>: \<^verbatim>\<open>raw_state_table.rs\<close>, \<^verbatim>\<open>open_view.rs\<close>; a view over a view is one again.
    \<open>Apply_State_Table\<close>: \<^verbatim>\<open>apply_state_table.rs\<close>, \<^verbatim>\<open>sandbox.rs\<close> and the locale \<open>apply_view\<close> of views with
    entries that are checked out. \<open>Apply_Thread\<close>: the commit that threads the transaction.
    \<open>Flow_Sandbox\<close>: \<^verbatim>\<open>flow_sandbox.rs\<close> over any such view.
  \<^item> \<open>Ledger_Directory\<close>: \<^verbatim>\<open>directory.rs\<close>. \<open>Directory_Ring\<close> relates the pages to a map from page numbers
    to keys; \<open>Directory_Add\<close>, \<open>Directory_Remove\<close> and \<open>Directory_Delete\<close> prove the operations inside
    \<open>apply_view\<close>. \<open>View_Sample\<close> has a concrete codec and ledger; \<open>View_Properties\<close> and
    \<open>Directory_Properties\<close> have the properties.
  \<^item> \<open>Consensus_Properties\<close>: the properties of runs of the round over the adaptor and the SHAMap sets.

  \<^bold>\<open>What is shown.\<close> Runs of the round never panic and return; disputes and votes always mirror the
  acquired sets; a round is accepted only on a verdict, which needs a supermajority, stalled disputes
  or expiry; observers stay silent; close times, resolutions, thresholds and counters are what the
  code promises. SHAMaps refine partial maps, are canonical, their root hash identifies the contents
  up to collisions, and comparison finds exactly the differences. The ancestry trie refines a multiset
  of supported ledgers, and the preferred ledger is characterised on that multiset; it never conflicts
  with a majority. The tracker of validations feeds it one vote per node, each backed by an accepted
  validation, whose sequence numbers increase for every node and for the server itself.
  Every view stands for a partial map from keys to entries and the XRP in existence: reading, the
  successor and the listing of a view are those of the map, the commit of a view makes the view below
  stand for the map of the view above, the commit of a flow sandbox is atomic, and the commit of a
  transaction threads it through what it changed. Directory operations refine operations on a map from
  page numbers to keys and leave the rest of the state alone. Three findings are theorems: the sandbox
  ignores the type of a keylet for entries in its table, it refuses to erase entries it has not checked
  out, and \<^verbatim>\<open>dir_delete\<close> reports a cycle on a directory that has shrunk.

  \<^bold>\<open>Bounds and fuel.\<close> The timer and the start of a round call each other when the preferred ledger
  changes; \<open>timer_entry\<close> carries fuel, and two units are enough when the advice on the preferred
  ledger is settled, which is proved. The walks along
  parents, the compression and the search for the preferred ledger of the ancestry trie carry as fuel
  the number of nodes, which is proved to be enough. The search of an overlay for the next key that is
  not erased carries the number of its entries and one, which is proved to be enough; listing a view
  and deleting a directory are partial functions, proved to return. All other loops are structural or have a
  termination proof. Sequence numbers and support counters of the trie are natural numbers: the code's
  32-bit counters hold as long as there are fewer than \<open>2 ^ 32\<close> validators and ledgers.

  \<^bold>\<open>Assumptions.\<close> The hash function is a parameter; where it matters the preimages in play are assumed
  not to collide, or the collision is exhibited in the conclusion. The serialization of entries is a
  parameter with the law that decoding inverts encoding; the hash that gives a page of a directory its
  key is a parameter, injective on the pages in use. The trees of ledgers are loaded. Services outside the modelled
  files are parameters under the locales named above.

  \<^bold>\<open>Not modelled.\<close> Networking, storage, job scheduling, RPC, transaction processing and start-up, which
  are input/output, threads or further components; node fetching, copy-on-write bookkeeping and memory
  layout of SHAMaps; the accept pipeline that applies an agreed set to a ledger. Of the ledger crate: the
  construction of ledgers, fees and rules, the transaction map, the metadata of transactions, the
  payment sandbox with its deferred credits, the cached view and the helpers of transactors.
\<close>

end
